(* ===== verification/Go_Prelude.thy ===== *)
theory Go_Prelude
  imports Main "HOL-Library.AList" "HOL-Library.Multiset"
begin

text \<open>
  What the components share: the outcomes of a piece of Go code that can stop
  (\<open>go_stop\<close>), checked indexing and slicing of Go slices, Go maps behind an interface
  (locale \<open>go_map\<close>, interpreted on association lists), majorities of a peer group
  (locale \<open>quorum_system\<close>, interpreted on the \<open>> len(peers)/2\<close> test of the code), and the
  generic lemmas on lists that the component proofs use.
\<close>

named_theorems go_simps \<open>unfolding of the checked Go operations\<close>
named_theorems go_dest \<open>what a completed Go operation implies\<close>

section \<open>Outcomes of Go code\<close>

text \<open>
  Go code stops instead of returning when it panics (an index or a slice bound out of
  range, a nil pointer, a division by zero), when it calls \<open>log.Fatalf\<close> or, in a test,
  \<open>t.Fatalf\<close>, and when it waits for a mutex that nobody will release. Integers
  are Go \<open>int\<close>, 64 bits wide; terms, indices and counters start near zero and grow by one,
  so the models use \<open>int\<close> for them.
\<close>

datatype go_stop =
    IndexOutOfRange int
  | SliceOutOfRange int
  | NilDereference
  | DivideByZero
  | LogFatal string
  | TestFatal string
  | Panic string
  | CloseOfClosedChannel
  | Blocked

type_synonym 'a go = "go_stop + 'a"

definition go_bind :: "'a go \<Rightarrow> ('a \<Rightarrow> 'b go) \<Rightarrow> 'b go" where
  "go_bind m f = (case m of Inl e \<Rightarrow> Inl e | Inr x \<Rightarrow> f x)"

text \<open>\<open>xs[i]\<close>, \<open>xs[i:]\<close>, \<open>xs[:i]\<close>, \<open>xs[i:j]\<close> and \<open>xs[i] = v\<close>. A slice expression \<open>xs[:i]\<close> of Go accepts
  bounds up to the capacity; the model stops already above the length, and the callers are
  shown never to get there.\<close>

definition go_index :: "'a list \<Rightarrow> int \<Rightarrow> 'a go" where
  "go_index xs i =
     (if 0 \<le> i \<and> i < int (length xs) then Inr (xs ! nat i) else Inl (IndexOutOfRange i))"

definition go_slice_from :: "'a list \<Rightarrow> int \<Rightarrow> 'a list go" where
  "go_slice_from xs i =
     (if 0 \<le> i \<and> i \<le> int (length xs) then Inr (drop (nat i) xs) else Inl (SliceOutOfRange i))"

definition go_slice_to :: "'a list \<Rightarrow> int \<Rightarrow> 'a list go" where
  "go_slice_to xs i =
     (if 0 \<le> i \<and> i \<le> int (length xs) then Inr (take (nat i) xs) else Inl (SliceOutOfRange i))"

definition go_slice :: "'a list \<Rightarrow> int \<Rightarrow> int \<Rightarrow> 'a list go" where
  "go_slice xs i j =
     (if 0 \<le> i \<and> i \<le> j \<and> j \<le> int (length xs) then Inr (drop (nat i) (take (nat j) xs))
      else Inl (SliceOutOfRange j))"

definition go_assign :: "'a list \<Rightarrow> int \<Rightarrow> 'a \<Rightarrow> 'a list go" where
  "go_assign xs i v =
     (if 0 \<le> i \<and> i < int (length xs) then Inr (xs[nat i := v]) else Inl (IndexOutOfRange i))"

text \<open>\<open>copy(dst, src)\<close> copies the shorter of the two lengths.\<close>

definition go_copy :: "'a list \<Rightarrow> 'a list \<Rightarrow> 'a list" where
  "go_copy dst src = take (length dst) src @ drop (length src) dst"

lemma go_copy_same_length [simp]: "length dst = length src \<Longrightarrow> go_copy dst src = src"
  by (simp add: go_copy_def)

lemma go_bind_simps [simp]:
  "go_bind (Inl e) f = Inl e"
  "go_bind (Inr x) f = f x"
  by (simp_all add: go_bind_def)

lemma go_bind_Inr_iff: "go_bind m f = Inr y \<longleftrightarrow> (\<exists>x. m = Inr x \<and> f x = Inr y)"
  by (cases m) auto

lemma go_bind_Inr_E [elim!]:
  assumes "go_bind m f = Inr y"
  obtains x where "m = Inr x" and "f x = Inr y"
  using assms by (cases m) auto

lemma go_index_in_range [go_simps]:
  "0 \<le> i \<Longrightarrow> i < int (length xs) \<Longrightarrow> go_index xs i = Inr (xs ! nat i)"
  by (simp add: go_index_def)

lemma go_index_Inr_iff [go_dest]:
  "go_index xs i = Inr x \<longleftrightarrow> 0 \<le> i \<and> i < int (length xs) \<and> x = xs ! nat i"
  by (auto simp: go_index_def)

lemma go_slice_from_in_range [go_simps]:
  "0 \<le> i \<Longrightarrow> i \<le> int (length xs) \<Longrightarrow> go_slice_from xs i = Inr (drop (nat i) xs)"
  by (simp add: go_slice_from_def)

lemma go_slice_from_Inr_iff [go_dest]:
  "go_slice_from xs i = Inr ys \<longleftrightarrow> 0 \<le> i \<and> i \<le> int (length xs) \<and> ys = drop (nat i) xs"
  by (auto simp: go_slice_from_def)

lemma go_slice_to_in_range [go_simps]:
  "0 \<le> i \<Longrightarrow> i \<le> int (length xs) \<Longrightarrow> go_slice_to xs i = Inr (take (nat i) xs)"
  by (simp add: go_slice_to_def)

lemma go_slice_to_Inr_iff [go_dest]:
  "go_slice_to xs i = Inr ys \<longleftrightarrow> 0 \<le> i \<and> i \<le> int (length xs) \<and> ys = take (nat i) xs"
  by (auto simp: go_slice_to_def)

lemma go_slice_in_range [go_simps]:
  "0 \<le> i \<Longrightarrow> i \<le> j \<Longrightarrow> j \<le> int (length xs) \<Longrightarrow> go_slice xs i j = Inr (drop (nat i) (take (nat j) xs))"
  by (simp add: go_slice_def)

lemma go_slice_Inr_iff [go_dest]:
  "go_slice xs i j = Inr ys \<longleftrightarrow>
     0 \<le> i \<and> i \<le> j \<and> j \<le> int (length xs) \<and> ys = drop (nat i) (take (nat j) xs)"
  by (auto simp: go_slice_def)

lemma go_assign_in_range [go_simps]:
  "0 \<le> i \<Longrightarrow> i < int (length xs) \<Longrightarrow> go_assign xs i v = Inr (xs[nat i := v])"
  by (simp add: go_assign_def)

lemma go_assign_Inr_iff [go_dest]:
  "go_assign xs i v = Inr ys \<longleftrightarrow> 0 \<le> i \<and> i < int (length xs) \<and> ys = xs[nat i := v]"
  by (auto simp: go_assign_def)

text \<open>\<open>for _, j := range js\<close> with a body that changes the state.\<close>

fun go_for :: "('j \<Rightarrow> 's \<Rightarrow> 's go) \<Rightarrow> 'j list \<Rightarrow> 's \<Rightarrow> 's go" where
  "go_for body [] s = Inr s"
| "go_for body (j # js) s = go_bind (body j s) (go_for body js)"

lemma go_for_append: "go_for body (js @ ks) s = go_bind (go_for body js s) (go_for body ks)"
  by (induction js arbitrary: s) (simp_all add: go_bind_def split: sum.split)

lemma go_for_total:
  assumes "P s" and "\<And>j s. j \<in> set js \<Longrightarrow> P s \<Longrightarrow> body j s = Inr (f j s) \<and> P (f j s)"
  shows "go_for body js s = Inr (fold f js s)"
  using assms by (induction js arbitrary: s) auto

lemma go_for_keeps:
  assumes "go_for body js s = Inr s'" and "P s"
    and "\<And>j s s'. j \<in> set js \<Longrightarrow> body j s = Inr s' \<Longrightarrow> P s \<Longrightarrow> P s'"
  shows "P s'"
  using assms by (induction js arbitrary: s) auto

text \<open>A loop that appends one element per round.\<close>

lemma go_for_collect:
  assumes "\<And>j acc. j \<in> set js \<Longrightarrow> body j acc = Inr (acc @ [g j])"
  shows "go_for body js acc = Inr (acc @ map g js)"
  using assms by (induction js arbitrary: acc) simp_all

text \<open>The numbers of \<open>n\<close> servers, as \<open>for i := 0; i < n; i++\<close> visits them.\<close>

lemma upto_map_int: "[0..int n - 1] = map int [0..<n]"
  by (rule nth_equalityI) (simp_all add: nth_upto)

section \<open>Go maps\<close>

text \<open>
  The interface of a Go \<open>map[K]V\<close>: \<open>v, ok := m[k]\<close>, \<open>m[k] = v\<close>, \<open>delete(m, k)\<close> and
  \<open>len(m)\<close>. \<open>len\<close> is the number of keys.
\<close>

locale go_map =
  fixes lookup :: "'m \<Rightarrow> 'k \<Rightarrow> 'v option"
    and update :: "'k \<Rightarrow> 'v \<Rightarrow> 'm \<Rightarrow> 'm"
    and delete :: "'k \<Rightarrow> 'm \<Rightarrow> 'm"
    and len :: "'m \<Rightarrow> nat"
    and invar :: "'m \<Rightarrow> bool"
  assumes lookup_update: "invar m \<Longrightarrow> lookup (update k v m) = (lookup m)(k \<mapsto> v)"
    and lookup_delete: "invar m \<Longrightarrow> lookup (delete k m) = (lookup m)(k := None)"
    and invar_update: "invar m \<Longrightarrow> invar (update k v m)"
    and invar_delete: "invar m \<Longrightarrow> invar (delete k m)"
    and finite_dom: "invar m \<Longrightarrow> finite (dom (lookup m))"
    and len_card: "invar m \<Longrightarrow> len m = card (dom (lookup m))"
begin

lemma dom_update: "invar m \<Longrightarrow> dom (lookup (update k v m)) = insert k (dom (lookup m))"
  by (simp add: lookup_update)

lemma dom_delete: "invar m \<Longrightarrow> dom (lookup (delete k m)) = dom (lookup m) - {k}"
  by (simp add: lookup_delete)

lemma len_update_fresh:
  assumes "invar m" and "lookup m k = None"
  shows "len (update k v m) = Suc (len m)"
proof -
  from assms(2) have "k \<notin> dom (lookup m)" by auto
  then show ?thesis
    using assms(1) by (simp add: len_card invar_update dom_update finite_dom)
qed

lemma len_update_present:
  assumes "invar m" and "lookup m k = Some w"
  shows "len (update k v m) = len m"
proof -
  from assms(2) have "k \<in> dom (lookup m)" by auto
  then show ?thesis
    using assms(1) by (simp add: len_card invar_update dom_update insert_absorb)
qed

lemma len_delete_present:
  assumes "invar m" and "lookup m k = Some w"
  shows "Suc (len (delete k m)) = len m"
proof -
  from assms(2) have "k \<in> dom (lookup m)" by auto
  then show ?thesis
    using assms(1) card_Suc_Diff1 [of "dom (lookup m)" k]
    by (simp add: len_card invar_delete dom_delete finite_dom)
qed

end

text \<open>The maps of the model are association lists without repeated keys.\<close>

type_synonym ('k, 'v) gomap = "('k \<times> 'v) list"

definition gm_get :: "('k, 'v) gomap \<Rightarrow> 'k \<Rightarrow> 'v option" where
  "gm_get m k = map_of m k"

definition gm_put :: "'k \<Rightarrow> 'v \<Rightarrow> ('k, 'v) gomap \<Rightarrow> ('k, 'v) gomap" where
  "gm_put k v m = AList.update k v m"

definition gm_delete :: "'k \<Rightarrow> ('k, 'v) gomap \<Rightarrow> ('k, 'v) gomap" where
  "gm_delete k m = AList.delete k m"

definition gm_ok :: "('k, 'v) gomap \<Rightarrow> bool" where
  "gm_ok m \<longleftrightarrow> distinct (map fst m)"

lemma gm_get_Nil [simp]: "gm_get [] = Map.empty"
  by (simp add: gm_get_def fun_eq_iff)

lemma gm_get_put: "gm_get (gm_put k v m) = (gm_get m)(k \<mapsto> v)"
  by (simp add: gm_get_def gm_put_def fun_eq_iff update_conv)

lemma gm_ok_Nil [simp]: "gm_ok []"
  by (simp add: gm_ok_def)

interpretation gm: go_map gm_get gm_put gm_delete length gm_ok
proof (unfold_locales, goal_cases)
  case (1 m k v)
  show ?case by (simp add: gm_get_def gm_put_def fun_eq_iff update_conv)
next
  case (2 m k)
  show ?case by (simp add: gm_get_def gm_delete_def fun_eq_iff delete_conv)
next
  case (3 m k v)
  then show ?case by (simp add: gm_ok_def gm_put_def distinct_update)
next
  case (4 m k)
  then show ?case by (simp add: gm_ok_def gm_delete_def distinct_delete)
next
  case (5 m)
  have "gm_get m = map_of m" by (simp add: gm_get_def fun_eq_iff)
  then show ?case by (simp add: finite_dom_map_of)
next
  case (6 m)
  have "gm_get m = map_of m" by (simp add: gm_get_def fun_eq_iff)
  then have "card (dom (gm_get m)) = card (set (map fst m))"
    by (simp add: dom_map_of_conv_image_fst)
  also have "\<dots> = length m"
    using 6 distinct_card [of "map fst m"] by (simp add: gm_ok_def)
  finally show ?case by simp
qed

section \<open>Majorities\<close>

text \<open>
  A family of vote sets in which any two meet: the argument behind \<open>at most one leader per
  term\<close> uses only this.
\<close>

locale quorum_system =
  fixes quorum :: "'a set \<Rightarrow> bool"
  assumes quorum_meet: "quorum P \<Longrightarrow> quorum Q \<Longrightarrow> P \<inter> Q \<noteq> {}"
begin

lemma unique_winner:
  assumes "quorum P" and "quorum Q"
    and "\<forall>v\<in>P. r v a" and "\<forall>v\<in>Q. r v b"
    and "\<And>v x y. r v x \<Longrightarrow> r v y \<Longrightarrow> x = y"
  shows "a = b"
  using quorum_meet [OF assms(1,2)] assms(3-5) by blast

end

text \<open>More than half of the peers numbered \<open>0\<close> to \<open>n - 1\<close>, as \<open>x > len(rf.peers)/2\<close> tests it.\<close>

definition majority :: "nat \<Rightarrow> nat set \<Rightarrow> bool" where
  "majority n Q \<longleftrightarrow> Q \<subseteq> {..<n} \<and> n div 2 < card Q"

interpretation maj: quorum_system "majority n" for n
proof
  fix P Q assume P: "majority n P" and Q: "majority n Q"
  then have fin: "finite P" "finite Q"
    by (auto simp: majority_def intro: finite_subset)
  show "P \<inter> Q \<noteq> {}"
  proof
    assume "P \<inter> Q = {}"
    then have "card (P \<union> Q) = card P + card Q"
      using fin by (simp add: card_Un_disjoint)
    moreover have "card (P \<union> Q) \<le> card {..<n}"
      using P Q by (intro card_mono) (auto simp: majority_def)
    ultimately show False
      using P Q by (auto simp: majority_def)
  qed
qed

end
