(* ===== verification/Persister_Model.thy ===== *)
theory Persister_Model
  imports Go_Prelude
begin

text \<open>
  \<open>raft/persister.go\<close>: the object that survives a crash of a Raft peer. The two byte
  slices are lists of a type \<open>'b\<close> of stored units; every operation of the source is one
  definition. The methods run under \<open>ps.mu\<close> and release it before they return, so each is
  one atomic step.
\<close>

section \<open>The stored state\<close>

record 'b Persister =
  raftstate :: "'b list"
  snapshot :: "'b list"

definition MakePersister :: "'b Persister" where
  "MakePersister = \<lparr>raftstate = [], snapshot = []\<rparr>"

text \<open>\<open>clone\<close> allocates \<open>make([]byte, len(orig))\<close> and copies the units one by one
  (\<open>copy(x, orig)\<close> copies the shorter length).\<close>

definition clone :: "'b \<Rightarrow> 'b list \<Rightarrow> 'b list" where
  "clone zero orig = (let x = replicate (length orig) zero in go_copy x orig)"

definition Copy :: "'b Persister \<Rightarrow> 'b Persister" where
  "Copy ps = MakePersister\<lparr>raftstate := raftstate ps, snapshot := snapshot ps\<rparr>"

definition SaveRaftState :: "'b \<Rightarrow> 'b list \<Rightarrow> 'b Persister \<Rightarrow> 'b Persister" where
  "SaveRaftState zero state ps = ps\<lparr>raftstate := clone zero state\<rparr>"

definition ReadRaftState :: "'b \<Rightarrow> 'b Persister \<Rightarrow> 'b list" where
  "ReadRaftState zero ps = clone zero (raftstate ps)"

definition RaftStateSize :: "'b Persister \<Rightarrow> nat" where
  "RaftStateSize ps = length (raftstate ps)"

definition SaveStateAndSnapshot :: "'b \<Rightarrow> 'b list \<Rightarrow> 'b list \<Rightarrow> 'b Persister \<Rightarrow> 'b Persister" where
  "SaveStateAndSnapshot zero state snap ps =
     ps\<lparr>raftstate := clone zero state, snapshot := clone zero snap\<rparr>"

definition ReadSnapshot :: "'b \<Rightarrow> 'b Persister \<Rightarrow> 'b list" where
  "ReadSnapshot zero ps = clone zero (snapshot ps)"

definition SnapshotSize :: "'b Persister \<Rightarrow> nat" where
  "SnapshotSize ps = length (snapshot ps)"

section \<open>Laws\<close>

lemma clone_id [simp]: "clone zero xs = xs"
  by (simp add: clone_def Let_def)

lemma Copy_id: "Copy ps = ps"
  by (simp add: Copy_def MakePersister_def)

text \<open>
  What the rest of the program relies on: a store with two slots, the reads give back the
  last write of each slot, and a copy is independent and equal.
\<close>

locale stable_store =
  fixes save :: "'b list \<Rightarrow> 's \<Rightarrow> 's"
    and save_both :: "'b list \<Rightarrow> 'b list \<Rightarrow> 's \<Rightarrow> 's"
    and read_state :: "'s \<Rightarrow> 'b list"
    and read_snap :: "'s \<Rightarrow> 'b list"
    and dup :: "'s \<Rightarrow> 's"
  assumes read_save: "read_state (save d s) = d"
    and snap_save: "read_snap (save d s) = read_snap s"
    and read_save_both: "read_state (save_both d e s) = d"
    and snap_save_both: "read_snap (save_both d e s) = e"
    and read_dup: "read_state (dup s) = read_state s"
    and snap_dup: "read_snap (dup s) = read_snap s"
begin

text \<open>A restart through a copy, as \<open>config.crash1\<close> and \<open>config.start1\<close> perform it.\<close>

lemma restart_state: "read_state (dup (save_both (read_state (dup s)) (read_snap (dup s)) t)) = read_state s"
  by (simp add: read_dup read_save_both)

lemma restart_snap: "read_snap (dup (save_both (read_state (dup s)) (read_snap (dup s)) t)) = read_snap s"
  by (simp add: snap_dup snap_save_both)

lemma last_save_wins: "read_state (save d (save e s)) = d"
  by (simp add: read_save)

end

interpretation pst: stable_store "SaveRaftState zero" "SaveStateAndSnapshot zero"
    "ReadRaftState zero" "ReadSnapshot zero" Copy
  by unfold_locales
    (simp_all add: SaveRaftState_def SaveStateAndSnapshot_def ReadRaftState_def ReadSnapshot_def
      Copy_def MakePersister_def)

end
