(* ===== verification/Raft_Types.thy ===== *)
theory Raft_Types
  imports Persister_Model
begin

text \<open>
  The data of \<open>raft/raft.go\<close>: log entries, the messages on the apply channel, the
  arguments and replies of the three RPCs, and the state of one peer (\<open>type Raft struct\<close>).
  Field names carry a short prefix where the source uses one name in several structs.
  Commands (\<open>interface{}\<close>) have type \<open>'c\<close>, the nil command of the sentinel entry is
  \<open>None\<close>; snapshot data is a list over \<open>'d\<close>.
\<close>

section \<open>Log entries and apply messages\<close>

record 'c LogEntry =
  le_Term :: int
  le_Cmd :: "'c option"

datatype Status = Follower | Candidate | Leader

text \<open>\<open>type ApplyMsg struct\<close>. The two kinds of message the code builds set disjoint groups of
  fields; the record keeps all of them.\<close>

record ('c, 'd) ApplyMsg =
  CommandValid :: bool
  Command :: "'c option"
  CommandIndex :: int
  SnapshotValid :: bool
  Snapshot_data :: "'d list"
  SnapshotTerm :: int
  SnapshotIndex :: int

section \<open>RPC arguments and replies\<close>

datatype VoteErr = VoteErr_Nil | VoteReqOutofDate | CandidateLogTooOld | VotedThisTerm | RaftKilled

record RequestVoteArgs =
  rv_Term :: int
  rv_Candidate :: int
  rv_LastLogIndex :: int
  rv_LastLogTerm :: int

record RequestVoteReply =
  rvr_Term :: int
  rvr_VoteGranted :: bool
  rvr_VoteErr :: VoteErr

datatype AppendEntriesErr =
    AppendErr_Nil
  | AppendErr_LogsNotMatch
  | AppendErr_ReqOutofDate
  | AppendErr_ReqRepeat
  | AppendErr_Commited
  | AppendErr_RaftKilled

record 'c AppendEntriesArgs =
  ae_Term :: int
  ae_LeaderId :: int
  ae_PrevLogIndex :: int
  ae_PrevLogTerm :: int
  ae_Logs :: "'c LogEntry list option"
  ae_LeaderCommit :: int
  ae_LogIndex :: int

record AppendEntriesReply =
  aer_Term :: int
  aer_Success :: bool
  aer_AppendErr :: AppendEntriesErr
  aer_NotMatchIndex :: int

record 'd InstallSnapshotRequest =
  is_Term :: int
  is_LeaderId :: int
  is_LastIncludeIndex :: int
  is_LastIncludeTerm :: int
  is_Data :: "'d list"

datatype InstallSnapshotErr =
    InstallSnapshotErr_Nil
  | InstallSnapshotErr_ReqOutofDate
  | InstallSnapshotErr_OldIndex

record InstallSnapshotResponse =
  isr_Term :: int
  isr_Err :: InstallSnapshotErr

section \<open>The persisted stream\<close>

text \<open>
  \<open>labgob\<close> wraps \<open>encoding/gob\<close>: an encoder appends one self-delimiting value to a
  stream per \<open>Encode\<close>, a decoder reads the values back in order and reports an error at the
  end of the stream or on a value of another type. The stream is a list of such values. \<open>Encode\<close>
  does not fail on the types encoded here; its error is ignored in \<open>persist\<close> and has no counterpart.
\<close>

datatype 'c gobval = GobInt int | GobLogs "'c LogEntry list" | GobValues "'c option list"

definition gob_encode :: "'c gobval list \<Rightarrow> 'c gobval \<Rightarrow> 'c gobval list" where
  "gob_encode w v = w @ [v]"

fun gob_decode_int :: "'c gobval list \<Rightarrow> (int \<times> 'c gobval list) option" where
  "gob_decode_int (GobInt i # r) = Some (i, r)"
| "gob_decode_int _ = None"

fun gob_decode_logs :: "'c gobval list \<Rightarrow> ('c LogEntry list \<times> 'c gobval list) option" where
  "gob_decode_logs (GobLogs l # r) = Some (l, r)"
| "gob_decode_logs _ = None"

fun gob_decode_values :: "'c gobval list \<Rightarrow> ('c option list \<times> 'c gobval list) option" where
  "gob_decode_values (GobValues l # r) = Some (l, r)"
| "gob_decode_values _ = None"

section \<open>The state of one peer\<close>

text \<open>
  \<open>mu\<close> is whether the mutex is held, \<open>peers\<close> the number of end points, \<open>timer\<close> the period
  in milliseconds of the running ticker (\<open>None\<close> once stopped), \<open>applyChan\<close> the messages sent
  on the apply channel so far, in order.
\<close>

record ('c, 'd) Raft =
  mu :: bool
  peers :: nat
  persister :: "'c gobval Persister"
  me :: int
  dead :: bool
  currentTerm :: int
  voteFor :: int
  logs :: "'c LogEntry list"
  nextIndexs :: "int list"
  matchIndexs :: "int list"
  commitIndex :: int
  lastApplied :: int
  myStatus :: Status
  timer :: "int option"
  voteTimeout :: int
  applyChan :: "('c, 'd) ApplyMsg list"
  lastIncludeIndex :: int
  lastIncludeTerm :: int
  snapshotCmd :: "'d list"

definition HeartBeatTimeout :: int where
  "HeartBeatTimeout = 120"

text \<open>The mutex: \<open>Lock\<close> on a held mutex waits, and here nobody is left to release it.\<close>

definition Lock :: "('c, 'd) Raft \<Rightarrow> ('c, 'd) Raft go" where
  "Lock rf = (if mu rf then Inl Blocked else Inr (rf\<lparr>mu := True\<rparr>))"

definition Unlock :: "('c, 'd) Raft \<Rightarrow> ('c, 'd) Raft" where
  "Unlock rf = rf\<lparr>mu := False\<rparr>"

definition timer_Reset :: "int \<Rightarrow> ('c, 'd) Raft \<Rightarrow> ('c, 'd) Raft" where
  "timer_Reset d rf = rf\<lparr>timer := Some d\<rparr>"

text \<open>The index of the last entry, \<open>len(rf.logs)+rf.lastIncludeIndex\<close> of the source, and the
  term of the last entry, the snapshot's when the log is empty.\<close>

definition lastLogIndex :: "('c, 'd) Raft \<Rightarrow> int" where
  "lastLogIndex rf = int (length (logs rf)) + lastIncludeIndex rf"

definition lastLogTerm :: "('c, 'd) Raft \<Rightarrow> int" where
  "lastLogTerm rf = (if logs rf = [] then lastIncludeTerm rf else le_Term (last (logs rf)))"

lemma Lock_simps [simp]:
  "mu rf \<Longrightarrow> Lock rf = Inl Blocked"
  "\<not> mu rf \<Longrightarrow> Lock rf = Inr (rf\<lparr>mu := True\<rparr>)"
  by (simp_all add: Lock_def)

lemma Lock_Inr_iff [go_dest]: "Lock rf = Inr rf' \<longleftrightarrow> \<not> mu rf \<and> rf' = rf\<lparr>mu := True\<rparr>"
  by (auto simp: Lock_def)

end
