(* ===== verification/Raft_Peer.thy ===== *)
theory Raft_Peer
  imports Raft_Types
begin

text \<open>
  The operations of one Raft peer, \<open>raft/raft.go\<close>, in the order of the source. Every
  operation that takes \<open>rf.mu\<close> runs from its \<open>Lock\<close> to its \<open>Unlock\<close> as one step; the
  one that takes the mutex twice (\<open>sendRequestVote\<close>) is given by its two critical sections.
  Sends on \<open>applyChan\<close> append to the list of messages sent.
\<close>

section \<open>State access and persistence\<close>

definition GetState :: "('c, 'd) Raft \<Rightarrow> (('c, 'd) Raft \<times> int \<times> bool) go" where
  "GetState rf =
     go_bind (Lock rf) (\<lambda>rf. Inr (Unlock rf, currentTerm rf, myStatus rf = Leader))"

definition persist :: "('c, 'd) Raft \<Rightarrow> ('c, 'd) Raft" where
  "persist rf =
     (let w = [];
          w = gob_encode w (GobInt (currentTerm rf));
          w = gob_encode w (GobInt (voteFor rf));
          w = gob_encode w (GobLogs (logs rf));
          data = w
      in rf\<lparr>persister := SaveRaftState (GobInt 0) data (persister rf)\<rparr>)"

definition readPersist :: "'c gobval list \<Rightarrow> ('c, 'd) Raft \<Rightarrow> ('c, 'd) Raft" where
  "readPersist data rf =
     (if length data < 1 then rf
      else (case gob_decode_int data of
              None \<Rightarrow> rf
            | Some (tmpTerm, d) \<Rightarrow>
                (case gob_decode_int d of
                   None \<Rightarrow> rf
                 | Some (tmpVoteFor, d) \<Rightarrow>
                     (case gob_decode_logs d of
                        None \<Rightarrow> rf
                      | Some (tmplogs, d) \<Rightarrow>
                          rf\<lparr>currentTerm := tmpTerm, voteFor := tmpVoteFor, logs := tmplogs\<rparr>))))"

definition killed :: "('c, 'd) Raft \<Rightarrow> bool" where
  "killed rf = dead rf"

section \<open>Snapshots taken by the service\<close>

text \<open>\<open>CondInstallSnapshot\<close>: the early \<open>return false\<close> of the source leaves \<open>rf.mu\<close> locked.\<close>

definition CondInstallSnapshot ::
    "int \<Rightarrow> int \<Rightarrow> 'd list \<Rightarrow> ('c, 'd) Raft \<Rightarrow> (('c, 'd) Raft \<times> bool) go" where
  "CondInstallSnapshot lastIncludedTerm lastIncludedIndex snap rf =
     go_bind (Lock rf) (\<lambda>rf.
       if int (length (logs rf)) + lastIncludeIndex rf > lastIncludedIndex then Inr (rf, False)
       else
         let rf = rf\<lparr>snapshotCmd := snap, logs := [],
                     lastIncludeTerm := lastIncludedTerm,
                     lastIncludeIndex := lastIncludedIndex\<rparr>;
             rf = rf\<lparr>commitIndex := lastIncludeIndex rf\<rparr>;
             rf = rf\<lparr>lastApplied := commitIndex rf\<rparr>
         in Inr (Unlock rf, True))"

text \<open>\<open>Snapshot\<close> runs without the mutex, so in the code it may overlap with a handler of the same peer. The model
  has it as one step before or after a handler; that race is not covered.\<close>

definition Snapshot :: "int \<Rightarrow> 'd list \<Rightarrow> ('c, 'd) Raft \<Rightarrow> ('c, 'd) Raft go" where
  "Snapshot index snap rf =
     (if killed rf then Inr rf
      else
        let pos = index - lastIncludeIndex rf - 1;
            rf = rf\<lparr>lastIncludeIndex := index\<rparr>
        in go_bind (go_index (logs rf) pos) (\<lambda>e.
             let rf = rf\<lparr>lastIncludeTerm := le_Term e\<rparr>
             in go_bind (go_slice_from (logs rf) (pos + 1)) (\<lambda>l.
                  Inr (rf\<lparr>logs := l, snapshotCmd := snap\<rparr>))))"

section \<open>RequestVote\<close>

definition candidateLogTermTooOld :: "('c, 'd) Raft \<Rightarrow> RequestVoteArgs \<Rightarrow> bool" where
  "candidateLogTermTooOld rf args \<longleftrightarrow>
     rv_LastLogTerm args < lastIncludeTerm rf \<or>
     (length (logs rf) > 0 \<and> rv_LastLogTerm args < le_Term (last (logs rf)))"

definition candidateLogIndexTooOld :: "('c, 'd) Raft \<Rightarrow> RequestVoteArgs \<Rightarrow> bool" where
  "candidateLogIndexTooOld rf args \<longleftrightarrow>
     rv_LastLogIndex args < lastIncludeIndex rf \<or>
     (length (logs rf) > 0 \<and> rv_LastLogTerm args = le_Term (last (logs rf)) \<and>
      rv_LastLogIndex args < int (length (logs rf)) + lastIncludeIndex rf)"

definition RequestVote ::
    "RequestVoteArgs \<Rightarrow> ('c, 'd) Raft \<Rightarrow> (('c, 'd) Raft \<times> RequestVoteReply) go" where
  "RequestVote args rf =
     (if killed rf then
        Inr (rf, \<lparr>rvr_Term = -1, rvr_VoteGranted = False, rvr_VoteErr = RaftKilled\<rparr>)
      else go_bind (Lock rf) (\<lambda>rf.
        if rv_Term args < currentTerm rf then
          Inr (Unlock rf, \<lparr>rvr_Term = currentTerm rf, rvr_VoteGranted = False,
                           rvr_VoteErr = VoteReqOutofDate\<rparr>)
        else
          let rf = (if rv_Term args > currentTerm rf
                    then rf\<lparr>myStatus := Follower, currentTerm := rv_Term args, voteFor := -1\<rparr>
                    else rf)
          in if candidateLogIndexTooOld rf args \<or> candidateLogTermTooOld rf args then
               let rf = rf\<lparr>currentTerm := rv_Term args\<rparr>
               in Inr (Unlock (persist rf),
                       \<lparr>rvr_Term = rv_Term args, rvr_VoteGranted = False,
                        rvr_VoteErr = CandidateLogTooOld\<rparr>)
             else if rv_Term args = currentTerm rf \<and> voteFor rf = rv_Candidate args then
               let rf = rf\<lparr>myStatus := Follower\<rparr>;
                   rf = timer_Reset (voteTimeout rf) rf
               in Inr (Unlock rf,
                       \<lparr>rvr_Term = rv_Term args, rvr_VoteGranted = True,
                        rvr_VoteErr = VotedThisTerm\<rparr>)
             else if rv_Term args = currentTerm rf \<and> voteFor rf \<noteq> -1 then
               Inr (Unlock rf,
                    \<lparr>rvr_Term = rv_Term args, rvr_VoteGranted = False,
                     rvr_VoteErr = VotedThisTerm\<rparr>)
             else
               let rf = rf\<lparr>currentTerm := rv_Term args, voteFor := rv_Candidate args,
                           myStatus := Follower\<rparr>;
                   rf = timer_Reset (voteTimeout rf) rf
               in Inr (Unlock (persist rf),
                       \<lparr>rvr_Term = currentTerm rf, rvr_VoteGranted = True,
                        rvr_VoteErr = VoteErr_Nil\<rparr>)))"

section \<open>Applying committed entries\<close>

definition commandMsg :: "'c option \<Rightarrow> int \<Rightarrow> ('c, 'd) ApplyMsg" where
  "commandMsg cmd index =
     \<lparr>CommandValid = True, Command = cmd, CommandIndex = index,
      SnapshotValid = False, Snapshot_data = [], SnapshotTerm = 0, SnapshotIndex = 0\<rparr>"

definition snapshotMsg :: "'d list \<Rightarrow> int \<Rightarrow> int \<Rightarrow> ('c, 'd) ApplyMsg" where
  "snapshotMsg snap term index =
     \<lparr>CommandValid = False, Command = None, CommandIndex = 0,
      SnapshotValid = True, Snapshot_data = snap, SnapshotTerm = term, SnapshotIndex = index\<rparr>"

text \<open>The loop \<open>for rf.lastApplied < target\<close> of \<open>AppendEntries\<close> (target \<open>args.LeaderCommit\<close>)
  and of \<open>sendAppendEntries\<close> (target \<open>args.LogIndex\<close>). The send on the unbuffered channel
  \<open>rf.applyChan\<close>, here and in \<open>InstallSnapshot\<close>, is modelled for a reader that takes the message: \<open>applyChan\<close> is the list
  of messages taken so far. A reader that does not take them keeps the handler waiting with the mutex
  held; \<open>AppendEntries_with\<close> in \<open>Raft_Props\<close> is the handler with such a reader.\<close>

function apply_loop :: "int \<Rightarrow> ('c, 'd) Raft \<Rightarrow> ('c, 'd) Raft go" where
  "apply_loop target rf =
     (if lastApplied rf < target then
        let rf = rf\<lparr>lastApplied := lastApplied rf + 1\<rparr>
        in go_bind (go_index (logs rf) (lastApplied rf - lastIncludeIndex rf - 1)) (\<lambda>e.
             let rf = rf\<lparr>applyChan := applyChan rf @ [commandMsg (le_Cmd e) (lastApplied rf)]\<rparr>;
                 rf = rf\<lparr>commitIndex := lastApplied rf\<rparr>
             in apply_loop target rf)
      else Inr rf)"
  by pat_completeness auto
termination
  by (relation "measure (\<lambda>(target, rf). nat (target - lastApplied rf))") auto

declare apply_loop.simps [simp del]

section \<open>AppendEntries\<close>

text \<open>Every handler is one step from \<open>Lock\<close> to \<open>Unlock\<close>: the group of peers has no crash between the first
  message a handler delivers and its call of \<open>persist\<close>.\<close>

text \<open>What \<open>AppendEntries\<close> and \<open>InstallSnapshot\<close> do once they accept the sender as leader.\<close>

definition acceptLeader :: "int \<Rightarrow> int \<Rightarrow> ('c, 'd) Raft \<Rightarrow> ('c, 'd) Raft" where
  "acceptLeader term leader rf =
     (let rf = rf\<lparr>currentTerm := term, voteFor := leader, myStatus := Follower\<rparr>
      in timer_Reset (voteTimeout rf) rf)"

definition logsNotMatch :: "'c AppendEntriesArgs \<Rightarrow> ('c, 'd) Raft \<Rightarrow> bool go" where
  "logsNotMatch args rf =
     (if ae_PrevLogIndex args \<noteq> lastIncludeIndex rf then
        (if ae_PrevLogIndex args \<ge> int (length (logs rf)) + lastIncludeIndex rf + 1 then Inr True
         else go_bind (go_index (logs rf) (ae_PrevLogIndex args - lastIncludeIndex rf - 1)) (\<lambda>e.
                Inr (ae_PrevLogTerm args \<noteq> le_Term e)))
      else Inr (ae_PrevLogTerm args \<noteq> lastIncludeTerm rf))"

text \<open>\<open>if args.Logs != nil\<close>: cut the log after \<open>PrevLogIndex\<close> and append the entries sent.\<close>

definition takeEntries :: "'c AppendEntriesArgs \<Rightarrow> ('c, 'd) Raft \<Rightarrow> ('c, 'd) Raft go" where
  "takeEntries args rf =
     (case ae_Logs args of
        None \<Rightarrow> Inr rf
      | Some es \<Rightarrow>
          go_bind (go_slice_to (logs rf) (ae_PrevLogIndex args - lastIncludeIndex rf)) (\<lambda>l.
            Inr (rf\<lparr>logs := l @ es\<rparr>)))"

definition AppendEntries ::
    "'c AppendEntriesArgs \<Rightarrow> ('c, 'd) Raft \<Rightarrow> (('c, 'd) Raft \<times> AppendEntriesReply) go" where
  "AppendEntries args rf =
     (if killed rf then
        Inr (rf, \<lparr>aer_Term = -1, aer_Success = False, aer_AppendErr = AppendErr_RaftKilled,
                  aer_NotMatchIndex = 0\<rparr>)
      else go_bind (Lock rf) (\<lambda>rf.
        if ae_Term args < currentTerm rf \<or> ae_PrevLogIndex args < lastIncludeIndex rf then
          Inr (Unlock rf,
               \<lparr>aer_Term = currentTerm rf, aer_Success = False,
                aer_AppendErr = AppendErr_ReqOutofDate, aer_NotMatchIndex = -1\<rparr>)
        else
          let rf = acceptLeader (ae_Term args) (ae_LeaderId args) rf
          in go_bind (logsNotMatch args rf) (\<lambda>nomatch.
               if nomatch then
                 Inr (Unlock (persist rf),
                      \<lparr>aer_Term = currentTerm rf, aer_Success = False,
                       aer_AppendErr = AppendErr_LogsNotMatch,
                       aer_NotMatchIndex = lastApplied rf + 1\<rparr>)
               else if lastApplied rf > ae_PrevLogIndex args then
                 Inr (Unlock (persist rf),
                      \<lparr>aer_Term = currentTerm rf, aer_Success = False,
                       aer_AppendErr = AppendErr_Commited,
                       aer_NotMatchIndex = lastApplied rf + 1\<rparr>)
               else
                 go_bind (takeEntries args rf) (\<lambda>rf.
                 go_bind (apply_loop (ae_LeaderCommit args) rf) (\<lambda>rf.
                   Inr (Unlock (persist rf),
                        \<lparr>aer_Term = currentTerm rf, aer_Success = True,
                         aer_AppendErr = AppendErr_Nil, aer_NotMatchIndex = -1\<rparr>))))))"

section \<open>InstallSnapshot\<close>

text \<open>As in \<open>apply_loop\<close>, the reader takes the message that is sent with the mutex held.\<close>

definition InstallSnapshot ::
    "'d InstallSnapshotRequest \<Rightarrow> ('c, 'd) Raft \<Rightarrow> (('c, 'd) Raft \<times> InstallSnapshotResponse) go" where
  "InstallSnapshot args rf =
     (if killed rf then
        Inr (rf, \<lparr>isr_Term = is_Term args, isr_Err = InstallSnapshotErr_Nil\<rparr>)
      else go_bind (Lock rf) (\<lambda>rf.
        if is_Term args < currentTerm rf then
          Inr (Unlock rf, \<lparr>isr_Term = currentTerm rf, isr_Err = InstallSnapshotErr_ReqOutofDate\<rparr>)
        else if is_LastIncludeIndex args \<le> lastIncludeIndex rf then
          Inr (Unlock (timer_Reset (voteTimeout rf) rf),
               \<lparr>isr_Term = currentTerm rf, isr_Err = InstallSnapshotErr_OldIndex\<rparr>)
        else
          let rf = acceptLeader (is_Term args) (is_LeaderId args) rf
          in go_bind (if int (length (logs rf)) + lastIncludeIndex rf \<le> is_LastIncludeIndex args
                      then Inr (rf\<lparr>logs := []\<rparr>)
                      else go_bind (go_slice_from (logs rf)
                                      (is_LastIncludeIndex args - lastIncludeIndex rf)) (\<lambda>l.
                             Inr (rf\<lparr>logs := l\<rparr>))) (\<lambda>rf.
               let rf = rf\<lparr>lastIncludeIndex := is_LastIncludeIndex args,
                           lastIncludeTerm := is_LastIncludeTerm args\<rparr>;
                   rf = rf\<lparr>applyChan := applyChan rf @
                             [snapshotMsg (is_Data args) (is_LastIncludeTerm args)
                                (is_LastIncludeIndex args)]\<rparr>;
                   rf = rf\<lparr>lastApplied := is_LastIncludeIndex args\<rparr>;
                   rf = rf\<lparr>commitIndex := lastApplied rf\<rparr>
               in Inr (Unlock rf,
                       \<lparr>isr_Term = currentTerm rf, isr_Err = InstallSnapshotErr_Nil\<rparr>))))"

section \<open>The sending side\<close>

text \<open>
  The three \<open>send\<close> functions repeat \<open>Call\<close> until it reports success and give up when the
  peer has been killed. An attempt is the value of \<open>killed()\<close> read before the call and the
  reply of the call, \<open>None\<close> when \<open>Call\<close> returned false.
\<close>

datatype 'r call_result = CallKilled | CallReply 'r | CallPending

fun rpc_retry :: "(bool \<times> 'r option) list \<Rightarrow> 'r call_result" where
  "rpc_retry [] = CallPending"
| "rpc_retry ((k, res) # attempts) =
     (if k then CallKilled
      else (case res of Some r \<Rightarrow> CallReply r | None \<Rightarrow> rpc_retry attempts))"

text \<open>First critical section of \<open>sendRequestVote\<close>: is the answered request still current?\<close>

definition sendRequestVote_check ::
    "RequestVoteArgs \<Rightarrow> ('c, 'd) Raft \<Rightarrow> (('c, 'd) Raft \<times> bool) go" where
  "sendRequestVote_check args rf =
     (if killed rf then Inr (rf, False)
      else go_bind (Lock rf) (\<lambda>rf.
        if rv_Term args < currentTerm rf then Inr (Unlock rf, False)
        else Inr (Unlock rf, True)))"

text \<open>The branch shared by \<open>VoteReqOutofDate\<close> and \<open>CandidateLogTooOld\<close>.\<close>

definition voteRejected :: "RequestVoteReply \<Rightarrow> ('c, 'd) Raft \<Rightarrow> ('c, 'd) Raft" where
  "voteRejected reply rf =
     (let rf = rf\<lparr>myStatus := Follower\<rparr>;
          rf = timer_Reset (voteTimeout rf) rf
      in if rvr_Term reply > currentTerm rf
         then persist (rf\<lparr>currentTerm := rvr_Term reply, voteFor := -1\<rparr>)
         else rf)"

text \<open>Second critical section: \<open>voteNum\<close> is the counter shared by the goroutines of one
  election; the result is the peer, the counter and the return value (\<open>ok\<close> is the outer
  variable of the source, which the retry loop never sets).\<close>

definition sendRequestVote_switch ::
    "RequestVoteReply \<Rightarrow> int \<Rightarrow> bool \<Rightarrow> ('c, 'd) Raft \<Rightarrow> (('c, 'd) Raft \<times> int \<times> bool) go" where
  "sendRequestVote_switch reply voteNum ok rf =
     (case rvr_VoteErr reply of
        VoteReqOutofDate \<Rightarrow>
          go_bind (Lock rf) (\<lambda>rf. Inr (Unlock (voteRejected reply rf), voteNum, ok))
      | CandidateLogTooOld \<Rightarrow>
          go_bind (Lock rf) (\<lambda>rf. Inr (Unlock (voteRejected reply rf), voteNum, ok))
      | RaftKilled \<Rightarrow> Inr (rf, voteNum, False)
      | _ \<Rightarrow>
          go_bind (Lock rf) (\<lambda>rf.
            let voteNum = (if rvr_VoteGranted reply \<and> rvr_Term reply = currentTerm rf \<and>
                              voteNum \<le> int (peers rf) div 2
                           then voteNum + 1 else voteNum)
            in if voteNum > int (peers rf) div 2 then
                 (if myStatus rf = Leader then Inr (Unlock rf, 0, ok)
                  else
                    let rf = rf\<lparr>myStatus := Leader,
                                nextIndexs := replicate (peers rf)
                                  (int (length (logs rf)) + lastIncludeIndex rf + 1)\<rparr>;
                        rf = timer_Reset HeartBeatTimeout rf
                    in Inr (Unlock rf, 0, ok))
               else Inr (Unlock rf, voteNum, ok)))"

text \<open>Stepping down to a newer term, the block that several replies share.\<close>

definition newerTerm :: "int \<Rightarrow> ('c, 'd) Raft \<Rightarrow> ('c, 'd) Raft" where
  "newerTerm t rf =
     (if t > currentTerm rf
      then let rf = rf\<lparr>myStatus := Follower, currentTerm := t, voteFor := -1\<rparr>
           in persist (timer_Reset (voteTimeout rf) rf)
      else rf)"

text \<open>\<open>args.LogIndex\<close> is an entry (or the snapshot) of another term: the leader may not commit it.\<close>

definition notCurrentTermEntry :: "'c AppendEntriesArgs \<Rightarrow> ('c, 'd) Raft \<Rightarrow> bool go" where
  "notCurrentTermEntry args rf =
     (if ae_LogIndex args > lastIncludeIndex rf then
        go_bind (go_index (logs rf) (ae_LogIndex args - lastIncludeIndex rf - 1)) (\<lambda>e.
          Inr (le_Term e \<noteq> currentTerm rf))
      else Inr (ae_LogIndex args = lastIncludeIndex rf \<and> lastIncludeTerm rf \<noteq> currentTerm rf))"

definition sendAppendEntries_recv ::
    "int \<Rightarrow> 'c AppendEntriesArgs \<Rightarrow> AppendEntriesReply \<Rightarrow> int \<Rightarrow> bool \<Rightarrow> ('c, 'd) Raft \<Rightarrow>
     (('c, 'd) Raft \<times> int \<times> bool) go" where
  "sendAppendEntries_recv server args reply appendNum ok rf =
     (if killed rf then Inr (rf, appendNum, False)
      else go_bind (Lock rf) (\<lambda>rf.
        if ae_Term args < currentTerm rf then Inr (Unlock rf, appendNum, False)
        else (case aer_AppendErr reply of
          AppendErr_Nil \<Rightarrow>
            let appendNum = (if aer_Success reply \<and> aer_Term reply = currentTerm rf \<and>
                                appendNum \<le> int (peers rf) div 2
                             then appendNum + 1 else appendNum)
            in go_bind (go_index (nextIndexs rf) server) (\<lambda>next.
               if next > ae_LogIndex args + 1 then Inr (Unlock rf, appendNum, ok)
               else
               go_bind (go_assign (nextIndexs rf) server (ae_LogIndex args + 1)) (\<lambda>ni.
                 let rf = rf\<lparr>nextIndexs := ni\<rparr>
                 in if appendNum > int (peers rf) div 2 then
                      go_bind (notCurrentTermEntry args rf) (\<lambda>other.
                        if other then Inr (Unlock rf, 0, False)
                        else go_bind (apply_loop (ae_LogIndex args) rf) (\<lambda>rf.
                               Inr (Unlock rf, 0, ok)))
                    else Inr (Unlock rf, appendNum, ok)))
        | AppendErr_ReqOutofDate \<Rightarrow>
            let rf = rf\<lparr>myStatus := Follower\<rparr>;
                rf = timer_Reset (voteTimeout rf) rf;
                rf = (if aer_Term reply > currentTerm rf
                      then persist (rf\<lparr>currentTerm := aer_Term reply, voteFor := -1\<rparr>) else rf)
            in Inr (Unlock rf, appendNum, ok)
        | AppendErr_LogsNotMatch \<Rightarrow>
            if ae_Term args \<noteq> currentTerm rf then Inr (Unlock rf, appendNum, False)
            else go_bind (go_assign (nextIndexs rf) server (aer_NotMatchIndex reply)) (\<lambda>ni.
                   Inr (Unlock (rf\<lparr>nextIndexs := ni\<rparr>), appendNum, ok))
        | AppendErr_ReqRepeat \<Rightarrow> Inr (Unlock (newerTerm (aer_Term reply) rf), appendNum, ok)
        | AppendErr_Commited \<Rightarrow>
            if ae_Term args \<noteq> currentTerm rf then Inr (Unlock rf, appendNum, False)
            else go_bind (go_assign (nextIndexs rf) server (aer_NotMatchIndex reply)) (\<lambda>ni.
                   Inr (Unlock (rf\<lparr>nextIndexs := ni\<rparr>), appendNum, ok))
        | AppendErr_RaftKilled \<Rightarrow> Inr (Unlock rf, appendNum, False))))"

definition sendInstallSnapshot_recv ::
    "int \<Rightarrow> 'd InstallSnapshotRequest \<Rightarrow> InstallSnapshotResponse \<Rightarrow> ('c, 'd) Raft \<Rightarrow>
     (('c, 'd) Raft \<times> bool) go" where
  "sendInstallSnapshot_recv server args reply rf =
     (if killed rf then Inr (rf, False)
      else go_bind (Lock rf) (\<lambda>rf.
        if isr_Term reply < currentTerm rf then Inr (Unlock rf, False)
        else (case isr_Err reply of
          InstallSnapshotErr_Nil \<Rightarrow>
            let rf = newerTerm (isr_Term reply) rf
            in go_bind (go_assign (nextIndexs rf) server (is_LastIncludeIndex args + 1)) (\<lambda>ni.
                 Inr (Unlock (rf\<lparr>nextIndexs := ni\<rparr>), False))
        | InstallSnapshotErr_OldIndex \<Rightarrow>
            let rf = newerTerm (isr_Term reply) rf
            in go_bind (go_assign (nextIndexs rf) server
                          (int (length (logs rf)) + lastIncludeIndex rf + 1)) (\<lambda>ni.
                 Inr (Unlock (rf\<lparr>nextIndexs := ni\<rparr>), False))
        | InstallSnapshotErr_ReqOutofDate \<Rightarrow> Inr (Unlock rf, False))))"

section \<open>Start and Kill\<close>

definition Start :: "'c \<Rightarrow> ('c, 'd) Raft \<Rightarrow> (('c, 'd) Raft \<times> int \<times> int \<times> bool) go" where
  "Start command rf =
     (if killed rf then Inr (rf, -1, -1, False)
      else go_bind (Lock rf) (\<lambda>rf.
        if myStatus rf \<noteq> Leader then Inr (Unlock rf, -1, -1, False)
        else
          let logEntry = \<lparr>le_Term = currentTerm rf, le_Cmd = Some command\<rparr>;
              rf = rf\<lparr>logs := logs rf @ [logEntry]\<rparr>;
              index = int (length (logs rf)) + lastIncludeIndex rf;
              term = currentTerm rf
          in Inr (Unlock (persist rf), index, term, True)))"

definition Kill :: "('c, 'd) Raft \<Rightarrow> ('c, 'd) Raft go" where
  "Kill rf =
     (let rf = rf\<lparr>dead := True\<rparr>
      in go_bind (Lock rf) (\<lambda>rf. Inr (Unlock (rf\<lparr>timer := None\<rparr>))))"

section \<open>The ticker\<close>

text \<open>The requests a tick hands to new goroutines, with their destination.\<close>

datatype ('c, 'd) outgoing =
    OutRequestVote int RequestVoteArgs
  | OutAppendEntries int "'c AppendEntriesArgs"
  | OutInstallSnapshot int "'d InstallSnapshotRequest"

definition voteArgs :: "('c, 'd) Raft \<Rightarrow> RequestVoteArgs" where
  "voteArgs rf =
     (let a = \<lparr>rv_Term = currentTerm rf, rv_Candidate = me rf,
               rv_LastLogIndex = int (length (logs rf)) + lastIncludeIndex rf,
               rv_LastLogTerm = lastIncludeTerm rf\<rparr>
      in if length (logs rf) > 0 then a\<lparr>rv_LastLogTerm := le_Term (last (logs rf))\<rparr> else a)"

definition otherPeers :: "('c, 'd) Raft \<Rightarrow> int list" where
  "otherPeers rf = filter (\<lambda>i. i \<noteq> me rf) (map int [0..<peers rf])"

text \<open>The loop \<open>for rf.nextIndexs[i] > rf.lastIncludeIndex\<close>: it lowers \<open>nextIndexs[i]\<close> until
  the entry before it exists, and leaves \<open>PrevLogIndex\<close> and \<open>PrevLogTerm\<close>.\<close>

function prev_loop :: "('c, 'd) Raft \<Rightarrow> int \<Rightarrow> int \<Rightarrow> int \<Rightarrow> (int \<times> int \<times> int) go" where
  "prev_loop rf next prevIndex prevTerm =
     (if next > lastIncludeIndex rf then
        let prevIndex = next - 1
        in if prevIndex \<ge> int (length (logs rf)) + lastIncludeIndex rf + 1
           then prev_loop rf (next - 1) prevIndex prevTerm
           else if prevIndex = lastIncludeIndex rf then Inr (next, prevIndex, lastIncludeTerm rf)
           else go_bind (go_index (logs rf) (prevIndex - lastIncludeIndex rf - 1)) (\<lambda>e.
                  Inr (next, prevIndex, le_Term e))
      else Inr (next, prevIndex, prevTerm))"
  by pat_completeness auto
termination
  by (relation "measure (\<lambda>(rf, next, _, _). nat (next - lastIncludeIndex rf))") auto

declare prev_loop.simps [simp del]

text \<open>One iteration of the leader's loop over the peers.\<close>

definition heartbeat_to :: "int \<Rightarrow> ('c, 'd) Raft \<Rightarrow> (('c, 'd) Raft \<times> ('c, 'd) outgoing) go" where
  "heartbeat_to i rf =
     go_bind (go_index (nextIndexs rf) i) (\<lambda>next.
     if next \<le> lastIncludeIndex rf then
       Inr (rf, OutInstallSnapshot i
                  \<lparr>is_Term = currentTerm rf, is_LeaderId = me rf,
                   is_LastIncludeIndex = lastIncludeIndex rf,
                   is_LastIncludeTerm = lastIncludeTerm rf, is_Data = snapshotCmd rf\<rparr>)
     else
       go_bind (prev_loop rf next 0 0) (\<lambda>(next, prevIndex, prevTerm).
       go_bind (go_assign (nextIndexs rf) i next) (\<lambda>ni.
       let rf = rf\<lparr>nextIndexs := ni\<rparr>;
           logIndex = int (length (logs rf)) + lastIncludeIndex rf
       in go_bind (if next < int (length (logs rf)) + lastIncludeIndex rf + 1
                   then go_bind (go_slice (logs rf) (next - lastIncludeIndex rf - 1)
                                   (logIndex - lastIncludeIndex rf)) (\<lambda>es.
                          Inr (Some (go_copy (replicate (nat (logIndex + 1 - next))
                                                \<lparr>le_Term = 0, le_Cmd = None\<rparr>) es)))
                   else Inr None) (\<lambda>es.
            Inr (rf, OutAppendEntries i
                       \<lparr>ae_Term = currentTerm rf, ae_LeaderId = me rf,
                        ae_PrevLogIndex = prevIndex, ae_PrevLogTerm = prevTerm,
                        ae_Logs = es, ae_LeaderCommit = commitIndex rf,
                        ae_LogIndex = logIndex\<rparr>)))))"

fun heartbeat_loop ::
    "int list \<Rightarrow> ('c, 'd) Raft \<Rightarrow> (('c, 'd) Raft \<times> ('c, 'd) outgoing list) go" where
  "heartbeat_loop [] rf = Inr (rf, [])"
| "heartbeat_loop (i # is) rf =
     go_bind (heartbeat_to i rf) (\<lambda>(rf, out).
     go_bind (heartbeat_loop is rf) (\<lambda>(rf, outs). Inr (rf, out # outs)))"

text \<open>The body of the ticker loop for one tick; \<open>r\<close> is the value of \<open>rand.Intn(150)\<close>.\<close>

definition startElection :: "int \<Rightarrow> ('c, 'd) Raft \<Rightarrow> ('c, 'd) Raft \<times> ('c, 'd) outgoing list" where
  "startElection r rf =
     (let rf = rf\<lparr>currentTerm := currentTerm rf + 1, voteFor := me rf,
                  voteTimeout := r + 200\<rparr>;
          rf = persist rf;
          rf = timer_Reset (voteTimeout rf) rf
      in (rf, map (\<lambda>i. OutRequestVote i (voteArgs rf)) (otherPeers rf)))"

definition ticker_tick ::
    "int \<Rightarrow> ('c, 'd) Raft \<Rightarrow> (('c, 'd) Raft \<times> ('c, 'd) outgoing list) go" where
  "ticker_tick r rf =
     (if killed rf then Inr (rf, [])
      else go_bind (Lock rf) (\<lambda>rf.
        case myStatus rf of
          Follower \<Rightarrow>
            (case startElection r (rf\<lparr>myStatus := Candidate\<rparr>) of (rf, out) \<Rightarrow> Inr (Unlock rf, out))
        | Candidate \<Rightarrow> (case startElection r rf of (rf, out) \<Rightarrow> Inr (Unlock rf, out))
        | Leader \<Rightarrow>
            let rf = timer_Reset HeartBeatTimeout rf
            in go_bind (heartbeat_loop (otherPeers rf) rf) (\<lambda>(rf, out). Inr (Unlock rf, out))))"

section \<open>Make\<close>

definition Make :: "nat \<Rightarrow> int \<Rightarrow> 'c gobval Persister \<Rightarrow> int \<Rightarrow> ('c, 'd) Raft" where
  "Make n i ps r =
     readPersist (ReadRaftState (GobInt 0) ps)
       \<lparr>mu = False, peers = n, persister = ps, me = i, dead = False,
        currentTerm = 0, voteFor = -1, logs = [\<lparr>le_Term = 0, le_Cmd = None\<rparr>],
        nextIndexs = [], matchIndexs = [], commitIndex = 0, lastApplied = 0,
        myStatus = Follower, timer = Some (r + 200), voteTimeout = r + 200, applyChan = [],
        lastIncludeIndex = -1, lastIncludeTerm = 0, snapshotCmd = []\<rparr>"

end
