(* ===== verification/Raft_Inv.thy ===== *)
theory Raft_Inv
  imports Raft_Peer
begin

text \<open>
  Correctness of the operations of one peer: the index invariant \<open>raft_ok\<close> and that the
  operations keep it and do not panic, the closed form of the apply loop, what a granted vote
  implies, the round trip through the persister, and the requests the leader builds.
\<close>

section \<open>The index invariant\<close>

text \<open>
  The snapshot ends at or before the last applied entry, which is in the log (or the
  snapshot), and \<open>commitIndex\<close> follows \<open>lastApplied\<close>.
\<close>

definition raft_ok :: "('c, 'd) Raft \<Rightarrow> bool" where
  "raft_ok rf \<longleftrightarrow>
     -1 \<le> lastIncludeIndex rf \<and> lastIncludeIndex rf \<le> lastApplied rf \<and>
     lastApplied rf \<le> lastLogIndex rf \<and> commitIndex rf = lastApplied rf"

text \<open>The entry with absolute index \<open>i\<close>, if the log still has it.\<close>

definition entry_at :: "('c, 'd) Raft \<Rightarrow> int \<Rightarrow> 'c LogEntry option" where
  "entry_at rf i =
     (if lastIncludeIndex rf < i \<and> i \<le> lastLogIndex rf
      then Some (logs rf ! nat (i - lastIncludeIndex rf - 1)) else None)"

text \<open>Append requests as a leader builds them: the entries reach \<open>LogIndex\<close>, and the leader's
  commit index is not beyond it.\<close>

definition ae_len :: "'c AppendEntriesArgs \<Rightarrow> int" where
  "ae_len args = (case ae_Logs args of None \<Rightarrow> 0 | Some es \<Rightarrow> int (length es))"

definition ae_ok :: "'c AppendEntriesArgs \<Rightarrow> bool" where
  "ae_ok args \<longleftrightarrow>
     ae_LogIndex args = ae_PrevLogIndex args + ae_len args \<and> ae_LeaderCommit args \<le> ae_LogIndex args"

section \<open>Small operations\<close>

lemmas raft_defs = killed_def Unlock_def timer_Reset_def Let_def

text \<open>\<open>persist\<close> writes the persister and nothing else.\<close>

lemma persist_eq:
  "persist rf = rf\<lparr>persister := (persister rf)\<lparr>raftstate :=
     [GobInt (currentTerm rf), GobInt (voteFor rf), GobLogs (logs rf)]\<rparr>\<rparr>"
  by (simp add: persist_def gob_encode_def SaveRaftState_def Let_def)

lemma readPersist_eq:
  "readPersist [GobInt t, GobInt v, GobLogs l] rf =
     rf\<lparr>currentTerm := t, voteFor := v, logs := l\<rparr>"
  by (simp add: readPersist_def)

lemma acceptLeader_fields [simp]:
  "mu (acceptLeader t l rf) = mu rf" "peers (acceptLeader t l rf) = peers rf"
  "persister (acceptLeader t l rf) = persister rf" "me (acceptLeader t l rf) = me rf"
  "dead (acceptLeader t l rf) = dead rf" "currentTerm (acceptLeader t l rf) = t"
  "voteFor (acceptLeader t l rf) = l" "logs (acceptLeader t l rf) = logs rf"
  "commitIndex (acceptLeader t l rf) = commitIndex rf"
  "lastApplied (acceptLeader t l rf) = lastApplied rf"
  "myStatus (acceptLeader t l rf) = Follower" "applyChan (acceptLeader t l rf) = applyChan rf"
  "lastIncludeIndex (acceptLeader t l rf) = lastIncludeIndex rf"
  "lastIncludeTerm (acceptLeader t l rf) = lastIncludeTerm rf"
  "snapshotCmd (acceptLeader t l rf) = snapshotCmd rf"
  "nextIndexs (acceptLeader t l rf) = nextIndexs rf"
  by (simp_all add: acceptLeader_def timer_Reset_def Let_def)

lemma persist_fields [simp]:
  "mu (persist rf) = mu rf" "peers (persist rf) = peers rf" "me (persist rf) = me rf"
  "dead (persist rf) = dead rf" "currentTerm (persist rf) = currentTerm rf"
  "voteFor (persist rf) = voteFor rf" "logs (persist rf) = logs rf"
  "commitIndex (persist rf) = commitIndex rf" "lastApplied (persist rf) = lastApplied rf"
  "myStatus (persist rf) = myStatus rf" "applyChan (persist rf) = applyChan rf"
  "lastIncludeIndex (persist rf) = lastIncludeIndex rf"
  "lastIncludeTerm (persist rf) = lastIncludeTerm rf"
  "snapshotCmd (persist rf) = snapshotCmd rf" "nextIndexs (persist rf) = nextIndexs rf"
  "raftstate (persister (persist rf)) =
     [GobInt (currentTerm rf), GobInt (voteFor rf), GobLogs (logs rf)]"
  by (simp_all add: persist_eq)

lemma lastLogIndex_cong:
  "lastIncludeIndex rf' = lastIncludeIndex rf \<Longrightarrow> length (logs rf') = length (logs rf) \<Longrightarrow>
   lastLogIndex rf' = lastLogIndex rf"
  by (simp add: lastLogIndex_def)

section \<open>The apply loop\<close>

definition applied_msgs :: "('c, 'd) Raft \<Rightarrow> int \<Rightarrow> ('c, 'd) ApplyMsg list" where
  "applied_msgs rf target =
     map (\<lambda>i. commandMsg (le_Cmd (logs rf ! nat (i - lastIncludeIndex rf - 1))) i)
       [lastApplied rf + 1 .. target]"

lemma apply_loop_done: "target \<le> lastApplied rf \<Longrightarrow> apply_loop target rf = Inr rf"
  by (simp add: apply_loop.simps)

lemma apply_loop_eq:
  assumes "lastIncludeIndex rf \<le> lastApplied rf" and "target \<le> lastLogIndex rf"
    and "lastApplied rf < target"
  shows "apply_loop target rf =
    Inr (rf\<lparr>lastApplied := target, applyChan := applyChan rf @ applied_msgs rf target,
            commitIndex := target\<rparr>)"
  using assms
proof (induction "nat (target - lastApplied rf)" arbitrary: rf rule: less_induct)
  case (less rf)
  let ?i = "lastApplied rf + 1"
  let ?e = "logs rf ! nat (lastApplied rf - lastIncludeIndex rf)"
  let ?rf = "rf\<lparr>lastApplied := ?i, applyChan := applyChan rf @ [commandMsg (le_Cmd ?e) ?i],
                commitIndex := ?i\<rparr>"
  have idx: "go_index (logs rf) (?i - lastIncludeIndex rf - 1) = Inr ?e"
    using less.prems by (simp add: go_index_def lastLogIndex_def)
  have step: "apply_loop target rf = apply_loop target ?rf"
    using less.prems(3) idx by (simp add: apply_loop.simps [of target rf] Let_def)
  have msgs: "applied_msgs rf target = commandMsg (le_Cmd ?e) ?i # applied_msgs ?rf target"
    using less.prems(3) by (simp add: applied_msgs_def upto_rec1 [of ?i])
  show ?case
  proof (cases "?i < target")
    case True
    have "apply_loop target ?rf =
      Inr (?rf\<lparr>lastApplied := target, applyChan := applyChan ?rf @ applied_msgs ?rf target,
               commitIndex := target\<rparr>)"
      using less.prems True by (intro less.hyps) (simp_all add: lastLogIndex_def)
    then show ?thesis by (simp add: step msgs)
  next
    case False
    then have t: "target = ?i" using less.prems(3) by simp
    have "apply_loop target ?rf = Inr ?rf" by (simp add: apply_loop_done t)
    moreover have "applied_msgs ?rf target = []" by (simp add: applied_msgs_def t)
    ultimately show ?thesis unfolding step msgs by (simp add: t)
  qed
qed

text \<open>In the form the handlers use it: the loop returns, and leaves the log alone.\<close>

lemma apply_loop_returns:
  assumes "lastIncludeIndex rf \<le> lastApplied rf" and "target \<le> lastLogIndex rf"
  shows "apply_loop target rf =
    Inr (if lastApplied rf < target
         then rf\<lparr>lastApplied := target, applyChan := applyChan rf @ applied_msgs rf target,
                 commitIndex := target\<rparr>
         else rf)"
  using assms by (simp add: apply_loop_eq apply_loop_done)

section \<open>Invariance\<close>

text \<open>\<open>raft_ok\<close> reads five fields.\<close>

lemma raft_ok_cong:
  assumes "lastIncludeIndex rf' = lastIncludeIndex rf" and "lastApplied rf' = lastApplied rf"
    and "length (logs rf') = length (logs rf)" and "commitIndex rf' = commitIndex rf"
  shows "raft_ok rf' = raft_ok rf"
  using assms by (simp add: raft_ok_def lastLogIndex_def)

lemma raft_ok_fresh: "raft_ok (Make n i MakePersister r)"
  by (simp add: raft_ok_def lastLogIndex_def Make_def readPersist_def MakePersister_def
      ReadRaftState_def)

lemma RequestVote_ok:
  assumes "raft_ok rf" and "RequestVote args rf = Inr (rf', reply)"
  shows "raft_ok rf'"
  using assms
  by (auto simp: RequestVote_def raft_defs go_dest persist_eq raft_ok_def lastLogIndex_def
      split: if_splits)

lemma Start_ok:
  assumes "raft_ok rf" and "Start c rf = Inr (rf', res)"
  shows "raft_ok rf'"
  using assms
  by (auto simp: Start_def raft_defs go_dest persist_eq raft_ok_def lastLogIndex_def
      split: if_splits)

lemma CondInstallSnapshot_ok:
  assumes "raft_ok rf" and "CondInstallSnapshot t i s rf = Inr (rf', b)"
  shows "raft_ok rf'"
  using assms
  by (auto simp: CondInstallSnapshot_def raft_defs go_dest raft_ok_def lastLogIndex_def
      split: if_splits)

lemma InstallSnapshot_ok:
  assumes "raft_ok rf" and "InstallSnapshot args rf = Inr (rf', reply)"
  shows "raft_ok rf'"
  using assms
  by (auto simp: InstallSnapshot_def raft_defs go_dest raft_ok_def lastLogIndex_def
      split: if_splits)

lemma Snapshot_ok:
  assumes "raft_ok rf" and "index \<le> lastApplied rf" and "Snapshot index s rf = Inr rf'"
  shows "raft_ok rf'"
  using assms
  by (auto simp: Snapshot_def raft_defs go_dest raft_ok_def lastLogIndex_def split: if_splits)

section \<open>AppendEntries\<close>

lemma logsNotMatch_returns:
  assumes "lastIncludeIndex rf \<le> ae_PrevLogIndex args"
  shows "\<exists>b. logsNotMatch args rf = Inr b"
  using assms by (auto simp: logsNotMatch_def go_index_def)

text \<open>A match means that the entry before the new ones is in the log or ends the snapshot, and
  has the term the leader sent.\<close>

definition prev_term :: "('c, 'd) Raft \<Rightarrow> int \<Rightarrow> int option" where
  "prev_term rf i =
     (if i = lastIncludeIndex rf then Some (lastIncludeTerm rf)
      else map_option le_Term (entry_at rf i))"

lemma logsNotMatch_False_iff:
  assumes "lastIncludeIndex rf \<le> ae_PrevLogIndex args"
  shows "logsNotMatch args rf = Inr False \<longleftrightarrow>
    prev_term rf (ae_PrevLogIndex args) = Some (ae_PrevLogTerm args)"
  using assms
  by (auto simp: logsNotMatch_def prev_term_def entry_at_def go_index_def lastLogIndex_def)

lemma prev_term_SomeD:
  "prev_term rf i = Some t \<Longrightarrow> lastIncludeIndex rf \<le> i \<and> i \<le> lastLogIndex rf"
  by (auto simp: prev_term_def entry_at_def lastLogIndex_def split: if_splits)

text \<open>The log after the entries of a request have been taken over.\<close>

definition new_logs :: "'c AppendEntriesArgs \<Rightarrow> ('c, 'd) Raft \<Rightarrow> 'c LogEntry list" where
  "new_logs args rf =
     (case ae_Logs args of
        None \<Rightarrow> logs rf
      | Some es \<Rightarrow> take (nat (ae_PrevLogIndex args - lastIncludeIndex rf)) (logs rf) @ es)"

lemma new_logs_reach:
  assumes "lastIncludeIndex rf \<le> ae_PrevLogIndex args" and "ae_PrevLogIndex args \<le> lastLogIndex rf"
  shows "ae_PrevLogIndex args + ae_len args \<le> int (length (new_logs args rf)) + lastIncludeIndex rf"
  using assms by (auto simp: new_logs_def ae_len_def lastLogIndex_def split: option.splits)

text \<open>The successful branch in closed form.\<close>

definition append_done :: "'c AppendEntriesArgs \<Rightarrow> ('c, 'd) Raft \<Rightarrow> ('c, 'd) Raft" where
  "append_done args rf =
     (let rf1 = acceptLeader (ae_Term args) (ae_LeaderId args) (rf\<lparr>mu := True\<rparr>);
          rf2 = rf1\<lparr>logs := new_logs args rf\<rparr>;
          rf3 = (if lastApplied rf < ae_LeaderCommit args
                 then rf2\<lparr>lastApplied := ae_LeaderCommit args,
                          applyChan := applyChan rf2 @ applied_msgs rf2 (ae_LeaderCommit args),
                          commitIndex := ae_LeaderCommit args\<rparr>
                 else rf2)
      in Unlock (persist rf3))"

lemma AppendEntries_success_eq:
  assumes "raft_ok rf" and "ae_ok args" and "\<not> killed rf" and "\<not> mu rf"
    and "currentTerm rf \<le> ae_Term args" and "lastIncludeIndex rf \<le> ae_PrevLogIndex args"
    and "logsNotMatch args rf = Inr False" and "lastApplied rf \<le> ae_PrevLogIndex args"
  shows "AppendEntries args rf =
    Inr (append_done args rf,
         \<lparr>aer_Term = ae_Term args, aer_Success = True, aer_AppendErr = AppendErr_Nil,
          aer_NotMatchIndex = -1\<rparr>)"
proof -
  let ?rf1 = "acceptLeader (ae_Term args) (ae_LeaderId args) (rf\<lparr>mu := True\<rparr>)"
  let ?rf2 = "?rf1\<lparr>logs := new_logs args rf\<rparr>"
  have "logsNotMatch args ?rf1 = logsNotMatch args rf"
    by (simp add: logsNotMatch_def)
  then have match: "logsNotMatch args ?rf1 = Inr False"
    using assms(7) by simp
  have range: "ae_PrevLogIndex args \<le> lastLogIndex rf"
    using assms(7) logsNotMatch_False_iff [OF assms(6)] prev_term_SomeD by blast
  have app: "takeEntries args ?rf1 = Inr ?rf2"
    using assms(6) range
    by (cases "ae_Logs args") (simp_all add: takeEntries_def new_logs_def go_slice_to_def
        lastLogIndex_def acceptLeader_def timer_Reset_def)
  have loop: "apply_loop (ae_LeaderCommit args) ?rf2 =
     Inr (if lastApplied ?rf2 < ae_LeaderCommit args
          then ?rf2\<lparr>lastApplied := ae_LeaderCommit args,
                   applyChan := applyChan ?rf2 @ applied_msgs ?rf2 (ae_LeaderCommit args),
                   commitIndex := ae_LeaderCommit args\<rparr>
          else ?rf2)"
    using assms(1,2) new_logs_reach [OF assms(6) range]
    by (intro apply_loop_returns) (auto simp: raft_ok_def ae_ok_def lastLogIndex_def)
  show ?thesis
    using assms(3-6,8) match app loop
    by (simp add: AppendEntries_def append_done_def Let_def)
qed


text \<open>Every branch of the handler, for a request a leader can build.\<close>

lemma AppendEntries_cases:
  assumes "raft_ok rf" and "ae_ok args" and "AppendEntries args rf = Inr (rf', reply)"
  obtains (killed) "killed rf" "rf' = rf" "aer_Success reply = False"
      "aer_AppendErr reply = AppendErr_RaftKilled"
  | (outofdate) "\<not> killed rf" "\<not> mu rf" "rf' = rf" "aer_Success reply = False"
      "aer_AppendErr reply = AppendErr_ReqOutofDate" "aer_Term reply = currentTerm rf"
      "ae_Term args < currentTerm rf \<or> ae_PrevLogIndex args < lastIncludeIndex rf"
  | (rejected) "\<not> killed rf" "\<not> mu rf" "currentTerm rf \<le> ae_Term args"
      "lastIncludeIndex rf \<le> ae_PrevLogIndex args" "aer_Success reply = False"
      "rf' = Unlock (persist (acceptLeader (ae_Term args) (ae_LeaderId args) (rf\<lparr>mu := True\<rparr>)))"
      "aer_AppendErr reply \<in> {AppendErr_LogsNotMatch, AppendErr_Commited}"
      "aer_NotMatchIndex reply = lastApplied rf + 1" "aer_Term reply = ae_Term args"
  | (success) "\<not> killed rf" "\<not> mu rf" "currentTerm rf \<le> ae_Term args"
      "lastIncludeIndex rf \<le> ae_PrevLogIndex args" "lastApplied rf \<le> ae_PrevLogIndex args"
      "prev_term rf (ae_PrevLogIndex args) = Some (ae_PrevLogTerm args)"
      "rf' = append_done args rf"
      "reply = \<lparr>aer_Term = ae_Term args, aer_Success = True, aer_AppendErr = AppendErr_Nil,
                aer_NotMatchIndex = -1\<rparr>"
proof -
  let ?rf1 = "acceptLeader (ae_Term args) (ae_LeaderId args) (rf\<lparr>mu := True\<rparr>)"
  have same: "logsNotMatch args ?rf1 = logsNotMatch args rf"
    by (simp add: logsNotMatch_def)
  have eq: "AppendEntries args rf = Inr (rf', reply)" by (rule assms(3))
  consider (k) "killed rf"
    | (o) "\<not> killed rf" "\<not> mu rf" "ae_Term args < currentTerm rf \<or> ae_PrevLogIndex args < lastIncludeIndex rf"
    | (go) "\<not> killed rf" "\<not> mu rf" "currentTerm rf \<le> ae_Term args" "lastIncludeIndex rf \<le> ae_PrevLogIndex args"
    using eq by (fastforce simp: AppendEntries_def go_dest)
  then show thesis
  proof cases
    case k
    then show thesis using eq by (intro killed) (auto simp: AppendEntries_def)
  next
    case o
    then show thesis using eq by (intro outofdate) (auto simp: AppendEntries_def Unlock_def)
  next
    case go
    from logsNotMatch_returns [OF go(4)] obtain b where b: "logsNotMatch args rf = Inr b" by blast
    show thesis
    proof (cases "b \<or> lastApplied rf > ae_PrevLogIndex args")
      case True
      then show thesis
        using go eq b same
        by (intro rejected) (auto simp: AppendEntries_def Let_def split: if_splits)
    next
      case False
      then have "logsNotMatch args rf = Inr False" using b by simp
      with False go eq assms(1,2) show thesis
        using AppendEntries_success_eq [of rf args] logsNotMatch_False_iff [OF go(4)]
        by (intro success) auto
    qed
  qed
qed

lemma append_done_fields [simp]:
  "mu (append_done args rf) = False"
  "dead (append_done args rf) = dead rf"
  "currentTerm (append_done args rf) = ae_Term args"
  "voteFor (append_done args rf) = ae_LeaderId args"
  "myStatus (append_done args rf) = Follower"
  "logs (append_done args rf) = new_logs args rf"
  "lastIncludeIndex (append_done args rf) = lastIncludeIndex rf"
  "lastIncludeTerm (append_done args rf) = lastIncludeTerm rf"
  "lastApplied (append_done args rf) = max (lastApplied rf) (ae_LeaderCommit args)"
  "me (append_done args rf) = me rf"
  "peers (append_done args rf) = peers rf"
  "raftstate (persister (append_done args rf)) =
     [GobInt (ae_Term args), GobInt (ae_LeaderId args), GobLogs (new_logs args rf)]"
  by (simp_all add: append_done_def Let_def Unlock_def)

lemma append_done_commitIndex:
  "raft_ok rf \<Longrightarrow> commitIndex (append_done args rf) = lastApplied (append_done args rf)"
  by (auto simp: append_done_def Let_def Unlock_def raft_ok_def)

lemma AppendEntries_ok:
  assumes "raft_ok rf" and "ae_ok args" and "AppendEntries args rf = Inr (rf', reply)"
  shows "raft_ok rf'"
  using assms
proof (cases rule: AppendEntries_cases)
  case success
  note range = prev_term_SomeD [OF success(6)]
  have "ae_LeaderCommit args \<le> int (length (new_logs args rf)) + lastIncludeIndex rf"
    using new_logs_reach [of rf args] range assms(2) by (auto simp: ae_ok_def)
  moreover have "lastApplied rf \<le> int (length (new_logs args rf)) + lastIncludeIndex rf"
    using new_logs_reach [of rf args] range success(5) by (auto simp: ae_len_def split: option.splits)
  ultimately show ?thesis
    using assms(1) append_done_commitIndex [OF assms(1), of args] success(7)
    by (auto simp: raft_ok_def lastLogIndex_def)
qed (use assms(1) in \<open>auto simp: raft_ok_def lastLogIndex_def Unlock_def\<close>)

text \<open>No branch panics, and the mutex is free afterwards.\<close>

lemma AppendEntries_returns:
  assumes "raft_ok rf" and "ae_ok args" and "\<not> mu rf"
  shows "\<exists>rf' reply. AppendEntries args rf = Inr (rf', reply) \<and> \<not> mu rf'"
proof (cases "\<not> killed rf \<and> currentTerm rf \<le> ae_Term args \<and> lastIncludeIndex rf \<le> ae_PrevLogIndex args")
  case False
  then show ?thesis using assms(3) by (auto simp: AppendEntries_def Unlock_def)
next
  case go: True
  let ?rf1 = "acceptLeader (ae_Term args) (ae_LeaderId args) (rf\<lparr>mu := True\<rparr>)"
  have same: "logsNotMatch args ?rf1 = logsNotMatch args rf"
    by (simp add: logsNotMatch_def)
  obtain b where b: "logsNotMatch args rf = Inr b"
    using logsNotMatch_returns go by blast
  show ?thesis
  proof (cases "b \<or> lastApplied rf > ae_PrevLogIndex args")
    case True
    then show ?thesis using go b same assms(3)
      by (auto simp: AppendEntries_def Let_def Unlock_def)
  next
    case False
    then show ?thesis using go b AppendEntries_success_eq [OF assms(1,2)] assms(3) by auto
  qed
qed

end
