(* ===== verification/Raft_View.thy ===== *)
theory Raft_View
  imports Raft_Inv
begin

text \<open>
  What an election depends on: of every peer its term, its vote, whether it is leader, and the
  term and vote a restart would read back. Each operation of \<open>raft/raft.go\<close> is classified by
  the way it moves this view; the invariant of the election proof is then kept by nine kinds of
  moves instead of by every branch of every handler.
\<close>

section \<open>The view of a peer\<close>

record vstate =
  vt :: int
  vv :: int
  vl :: bool
  st :: int
  sv :: int
  vme :: int
  vn :: nat

text \<open>What a restart of the peer would restore from its persister.\<close>

definition savedTerm :: "('c, 'd) Raft \<Rightarrow> int" where
  "savedTerm rf = currentTerm (Make (peers rf) (me rf) (persister rf) 0 :: ('c, 'd) Raft)"

definition savedVote :: "('c, 'd) Raft \<Rightarrow> int" where
  "savedVote rf = voteFor (Make (peers rf) (me rf) (persister rf) 0 :: ('c, 'd) Raft)"

definition view :: "('c, 'd) Raft \<Rightarrow> vstate" where
  "view rf = \<lparr>vt = currentTerm rf, vv = voteFor rf, vl = (myStatus rf = Leader),
              st = savedTerm rf, sv = savedVote rf, vme = me rf, vn = peers rf\<rparr>"

datatype move =
    Keep
  | Demote
  | Resave
  | NewTerm int
  | Adopt int int
  | AdoptUnsaved int int
  | Grant int int
  | Campaign
  | Win

fun vapply :: "move \<Rightarrow> vstate \<Rightarrow> vstate" where
  "vapply Keep v = v"
| "vapply Demote v = v\<lparr>vl := False\<rparr>"
| "vapply Resave v = v\<lparr>st := vt v, sv := vv v\<rparr>"
| "vapply (NewTerm t) v = v\<lparr>vt := t, vv := -1, vl := False, st := t, sv := -1\<rparr>"
| "vapply (Adopt t l) v = v\<lparr>vt := t, vv := l, vl := False, st := t, sv := l\<rparr>"
| "vapply (AdoptUnsaved t l) v = v\<lparr>vt := t, vv := l, vl := False\<rparr>"
| "vapply (Grant t c) v = v\<lparr>vt := t, vv := c, vl := False, st := t, sv := c\<rparr>"
| "vapply Campaign v =
     v\<lparr>vt := vt v + 1, vv := vme v, vl := False, st := vt v + 1, sv := vme v\<rparr>"
| "vapply Win v = v\<lparr>vl := True\<rparr>"

text \<open>The condition under which the code makes the move.\<close>

fun vguard :: "move \<Rightarrow> vstate \<Rightarrow> bool" where
  "vguard (NewTerm t) v = (vt v < t)"
| "vguard (Adopt t l) v = (vt v \<le> t)"
| "vguard (AdoptUnsaved t l) v = (vt v \<le> t)"
| "vguard (Grant t c) v = (vt v < t \<or> vt v = t \<and> vv v = -1)"
| "vguard _ v = True"

definition moved :: "move set \<Rightarrow> ('c, 'd) Raft \<Rightarrow> ('c, 'd) Raft \<Rightarrow> bool" where
  "moved ms rf rf' \<longleftrightarrow> (\<exists>m\<in>ms. vguard m (view rf) \<and> view rf' = vapply m (view rf))"

lemma movedI: "m \<in> ms \<Longrightarrow> vguard m (view rf) \<Longrightarrow> view rf' = vapply m (view rf) \<Longrightarrow> moved ms rf rf'"
  by (auto simp: moved_def)

lemma moved_mono: "moved ms rf rf' \<Longrightarrow> ms \<subseteq> ms' \<Longrightarrow> moved ms' rf rf'"
  by (auto simp: moved_def)

section \<open>Restarts\<close>

lemma saved_persist [simp]:
  "savedTerm (persist rf) = currentTerm rf"
  "savedVote (persist rf) = voteFor rf"
  by (simp_all add: savedTerm_def savedVote_def Make_def ReadRaftState_def readPersist_def)

lemma readPersist_fields:
  "me (readPersist d rf) = me rf" "peers (readPersist d rf) = peers rf"
  "persister (readPersist d rf) = persister rf" "myStatus (readPersist d rf) = myStatus rf"
  "mu (readPersist d rf) = mu rf" "dead (readPersist d rf) = dead rf"
  "lastIncludeIndex (readPersist d rf) = lastIncludeIndex rf"
  "lastIncludeTerm (readPersist d rf) = lastIncludeTerm rf"
  by (auto simp: readPersist_def split: option.splits prod.splits)

text \<open>The restored term and vote do not depend on the other fields of the new object.\<close>

lemma readPersist_indep:
  assumes "currentTerm rf = currentTerm rf'" and "voteFor rf = voteFor rf'" and "logs rf = logs rf'"
  shows "currentTerm (readPersist d rf) = currentTerm (readPersist d rf')"
    and "voteFor (readPersist d rf) = voteFor (readPersist d rf')"
    and "logs (readPersist d rf) = logs (readPersist d rf')"
  using assms by (auto simp: readPersist_def split: option.splits prod.splits)

lemma saved_cong:
  assumes "persister rf' = persister rf"
  shows "savedTerm rf' = savedTerm rf" and "savedVote rf' = savedVote rf"
  using assms
  by (simp_all add: savedTerm_def savedVote_def Make_def) (rule readPersist_indep; simp)+

lemma view_cong:
  assumes "currentTerm rf' = currentTerm rf" and "voteFor rf' = voteFor rf"
    and "myStatus rf' = myStatus rf" and "persister rf' = persister rf"
    and "me rf' = me rf" and "peers rf' = peers rf"
  shows "view rf' = view rf"
  using assms saved_cong [OF assms(4)] by (simp add: view_def)

section \<open>How updates show in the view\<close>

lemma view_frame [simp]:
  "view (rf\<lparr>mu := b\<rparr>) = view rf"
  "view (rf\<lparr>dead := b\<rparr>) = view rf"
  "view (rf\<lparr>logs := l\<rparr>) = view rf"
  "view (rf\<lparr>nextIndexs := ni\<rparr>) = view rf"
  "view (rf\<lparr>commitIndex := i\<rparr>) = view rf"
  "view (rf\<lparr>lastApplied := i\<rparr>) = view rf"
  "view (rf\<lparr>timer := tm\<rparr>) = view rf"
  "view (rf\<lparr>voteTimeout := d\<rparr>) = view rf"
  "view (rf\<lparr>applyChan := ch\<rparr>) = view rf"
  "view (rf\<lparr>lastIncludeIndex := i\<rparr>) = view rf"
  "view (rf\<lparr>lastIncludeTerm := i\<rparr>) = view rf"
  "view (rf\<lparr>snapshotCmd := sn\<rparr>) = view rf"
  "view (Unlock rf) = view rf"
  "view (timer_Reset d rf) = view rf"
  by (rule view_cong; simp add: Unlock_def timer_Reset_def)+

lemma saved_frame:
  "savedTerm (rf\<lparr>currentTerm := t\<rparr>) = savedTerm rf" "savedVote (rf\<lparr>currentTerm := t\<rparr>) = savedVote rf"
  "savedTerm (rf\<lparr>voteFor := t\<rparr>) = savedTerm rf" "savedVote (rf\<lparr>voteFor := t\<rparr>) = savedVote rf"
  "savedTerm (rf\<lparr>myStatus := x\<rparr>) = savedTerm rf" "savedVote (rf\<lparr>myStatus := x\<rparr>) = savedVote rf"
  by (rule saved_cong; simp)+

lemma view_updates [simp]:
  "view (rf\<lparr>currentTerm := t\<rparr>) = (view rf)\<lparr>vt := t\<rparr>"
  "view (rf\<lparr>voteFor := c\<rparr>) = (view rf)\<lparr>vv := c\<rparr>"
  "view (rf\<lparr>myStatus := x\<rparr>) = (view rf)\<lparr>vl := (x = Leader)\<rparr>"
  by (simp_all add: view_def saved_frame)

lemma view_persist [simp]: "view (persist rf) = vapply Resave (view rf)"
  by (simp add: view_def)

lemma view_acceptLeader [simp]:
  "view (acceptLeader t l rf) = vapply (AdoptUnsaved t l) (view rf)"
  by (simp add: acceptLeader_def Let_def)

lemma view_sel [simp]:
  "vt (view rf) = currentTerm rf" "vv (view rf) = voteFor rf" "vl (view rf) = (myStatus rf = Leader)"
  "st (view rf) = savedTerm rf" "sv (view rf) = savedVote rf" "vme (view rf) = me rf"
  "vn (view rf) = peers rf"
  by (simp_all add: view_def)

lemma view_eq_vapply_Resave:
  "view rf\<lparr>st := currentTerm rf, sv := voteFor rf\<rparr> = vapply Resave (view rf)"
  by simp

section \<open>The operations as moves\<close>

lemma GetState_moved: "GetState rf = Inr (rf', x) \<Longrightarrow> moved {Keep} rf rf'"
  by (auto simp: GetState_def go_dest moved_def)

lemma CondInstallSnapshot_moved:
  "CondInstallSnapshot t i d rf = Inr (rf', b) \<Longrightarrow> moved {Keep} rf rf'"
  by (auto simp: CondInstallSnapshot_def go_dest moved_def Let_def split: if_splits)

lemma Snapshot_moved: "Snapshot i d rf = Inr rf' \<Longrightarrow> moved {Keep} rf rf'"
  by (auto simp: Snapshot_def go_dest moved_def Let_def split: if_splits)

lemma Kill_moved: "Kill rf = Inr rf' \<Longrightarrow> moved {Keep} rf rf'"
  by (auto simp: Kill_def go_dest moved_def Let_def)

lemma Start_moved: "Start c rf = Inr (rf', x) \<Longrightarrow> moved {Keep, Resave} rf rf'"
  by (auto simp: Start_def go_dest moved_def Let_def split: if_splits)

lemma apply_loop_view:
  fixes rf :: "('c, 'd) Raft"
  shows "apply_loop target rf = Inr rf' \<Longrightarrow> view rf' = view rf"
proof (induction "nat (target - lastApplied rf)" arbitrary: rf rule: less_induct)
  case (less rf)
  show ?case
  proof (cases "lastApplied rf < target")
    case False
    with less.prems show ?thesis by (simp add: apply_loop.simps)
  next
    case True
    from less.prems True obtain e :: "'c LogEntry" where
      "apply_loop target (rf\<lparr>lastApplied := lastApplied rf + 1,
         applyChan := applyChan rf @ [commandMsg (le_Cmd e) (lastApplied rf + 1)],
         commitIndex := lastApplied rf + 1\<rparr>) = Inr rf'"
      using apply_loop.simps [of target rf] by (auto simp: Let_def)
    from less.hyps [OF _ this] True show ?thesis by simp
  qed
qed

lemma takeEntries_view: "takeEntries args rf = Inr rf' \<Longrightarrow> view rf' = view rf"
  by (auto simp: takeEntries_def split: option.splits)

lemma AppendEntries_moved:
  assumes "AppendEntries args rf = Inr (rf', reply)"
  shows "moved {Keep, Adopt (ae_Term args) (ae_LeaderId args)} rf rf'"
proof (cases "killed rf \<or> ae_Term args < currentTerm rf \<or> ae_PrevLogIndex args < lastIncludeIndex rf")
  case True
  with assms show ?thesis
    by (auto simp: AppendEntries_def go_dest moved_def split: if_splits)
next
  case False
  let ?rf1 = "acceptLeader (ae_Term args) (ae_LeaderId args) (rf\<lparr>mu := True\<rparr>)"
  have "view rf' = vapply Resave (view ?rf1)"
    using assms False
    by (auto simp: AppendEntries_def go_dest Let_def simp del: view_acceptLeader
        split: if_splits dest!: apply_loop_view takeEntries_view)
  with False show ?thesis
    by (intro movedI [where m = "Adopt (ae_Term args) (ae_LeaderId args)"]) auto
qed

lemma InstallSnapshot_moved:
  assumes "InstallSnapshot args rf = Inr (rf', reply)"
  shows "moved {Keep, AdoptUnsaved (is_Term args) (is_LeaderId args)} rf rf'"
  using assms
  by (auto simp: InstallSnapshot_def go_dest Let_def moved_def split: if_splits)

text \<open>The vote handler: a fresh vote is a \<open>Grant\<close>, an answer to a repeated request keeps term and
  vote.\<close>

lemma RequestVote_fresh:
  assumes "RequestVote args rf = Inr (rf', reply)" and "rvr_VoteErr reply = VoteErr_Nil"
  shows "moved {Grant (rv_Term args) (rv_Candidate args)} rf rf'"
    and "rvr_VoteGranted reply" and "rvr_Term reply = rv_Term args"
  using assms
  by (auto simp: RequestVote_def go_dest moved_def Let_def timer_Reset_def split: if_splits)

lemma RequestVote_other:
  assumes "RequestVote args rf = Inr (rf', reply)" and "rvr_VoteErr reply \<noteq> VoteErr_Nil"
    and "rv_Candidate args \<noteq> -1"
  shows "moved {Keep, Demote, Resave, NewTerm (rv_Term args)} rf rf'"
  using assms
  by (auto simp: RequestVote_def go_dest moved_def Let_def split: if_splits)

lemma RequestVote_again:
  assumes "RequestVote args rf = Inr (rf', reply)" and "rvr_VoteErr reply \<noteq> VoteErr_Nil"
    and "rvr_VoteGranted reply" and "rv_Candidate args \<noteq> -1"
  shows "rvr_Term reply = rv_Term args"
    and "currentTerm rf = rv_Term args" and "voteFor rf = rv_Candidate args"
  using assms
  by (auto simp: RequestVote_def go_dest Let_def split: if_splits)

lemma sendRequestVote_check_moved:
  "sendRequestVote_check args rf = Inr (rf', b) \<Longrightarrow> moved {Keep} rf rf'"
  by (auto simp: sendRequestVote_check_def go_dest moved_def split: if_splits)

lemma voteRejected_moved: "moved {Demote, NewTerm (rvr_Term reply)} rf (voteRejected reply rf)"
  by (auto simp: voteRejected_def moved_def Let_def timer_Reset_def)

lemma newerTerm_moved: "moved {Keep, NewTerm t} rf (newerTerm t rf)"
  by (auto simp: newerTerm_def moved_def Let_def timer_Reset_def)

text \<open>Counting a vote: either the counter stays at most half of the peers, or it has just been
  raised above it by a vote of the current term and the peer is leader now.\<close>

definition counts :: "RequestVoteReply \<Rightarrow> int \<Rightarrow> ('c, 'd) Raft \<Rightarrow> bool" where
  "counts reply voteNum rf \<longleftrightarrow>
     rvr_VoteErr reply \<in> {VoteErr_Nil, VotedThisTerm} \<and>
     rvr_VoteGranted reply \<and> rvr_Term reply = currentTerm rf \<and> voteNum \<le> int (peers rf) div 2"

lemma sendRequestVote_switch_cases:
  assumes "sendRequestVote_switch reply voteNum ok rf = Inr (rf', num, ret)"
    and "voteNum \<le> int (peers rf) div 2"
  obtains (lost) "moved {Keep, Demote, NewTerm (rvr_Term reply)} rf rf'" "num = voteNum"
      "\<not> counts reply voteNum rf" "myStatus rf' = Leader \<longrightarrow> myStatus rf = Leader"
  | (counted) "view rf' = view rf" "counts reply voteNum rf" "num = voteNum + 1"
      "num \<le> int (peers rf) div 2"
  | (again) "view rf' = view rf" "counts reply voteNum rf" "num = 0" "myStatus rf = Leader"
  | (won) "view rf' = vapply Win (view rf)" "counts reply voteNum rf" "num = 0"
      "myStatus rf \<noteq> Leader" "voteNum + 1 > int (peers rf) div 2"
proof -
  show thesis
  proof (cases "rvr_VoteErr reply = VoteReqOutofDate \<or> rvr_VoteErr reply = CandidateLogTooOld
      \<or> rvr_VoteErr reply = RaftKilled")
    case True
    then show thesis
      using assms(1) voteRejected_moved [of reply "rf\<lparr>mu := True\<rparr>"]
      by (intro lost)
        (auto simp: sendRequestVote_switch_def go_dest moved_def counts_def voteRejected_def
          Let_def Unlock_def timer_Reset_def split: if_splits)
  next
    case False
    then have err: "rvr_VoteErr reply \<in> {VoteErr_Nil, VotedThisTerm}"
      by (cases "rvr_VoteErr reply") auto
    then have eq: "sendRequestVote_switch reply voteNum ok rf =
      sendRequestVote_switch (reply\<lparr>rvr_VoteErr := VoteErr_Nil\<rparr>) voteNum ok rf"
      by (auto simp: sendRequestVote_switch_def)
    show thesis
    proof (cases "counts reply voteNum rf")
      case False
      then show thesis
        using assms err unfolding eq
        by (intro lost) (auto simp: sendRequestVote_switch_def go_dest moved_def counts_def
            Let_def Unlock_def split: if_splits)
    next
      case c: True
      consider "voteNum + 1 \<le> int (peers rf) div 2"
        | "voteNum + 1 > int (peers rf) div 2" "myStatus rf = Leader"
        | "voteNum + 1 > int (peers rf) div 2" "myStatus rf \<noteq> Leader"
        by linarith
      then show thesis
      proof cases
        case 1
        then show thesis using assms(1) c unfolding eq
          by (intro counted)
            (auto simp: sendRequestVote_switch_def go_dest counts_def Let_def split: if_splits)
      next
        case 2
        then show thesis using assms(1) c unfolding eq
          by (intro again)
            (auto simp: sendRequestVote_switch_def go_dest counts_def Let_def split: if_splits)
      next
        case 3
        then show thesis using assms(1) c unfolding eq
          by (intro won)
            (auto simp: sendRequestVote_switch_def go_dest counts_def Let_def split: if_splits)
      qed
    qed
  qed
qed

lemma sendRequestVote_switch_moved:
  assumes "sendRequestVote_switch reply num ok rf = Inr (rf', num', ret)"
  shows "moved {Keep, Demote, NewTerm (rvr_Term reply), Win} rf rf'"
  using assms voteRejected_moved [of reply "rf\<lparr>mu := True\<rparr>"]
  by (cases "rvr_VoteErr reply")
    (auto simp: sendRequestVote_switch_def go_dest moved_def Let_def split: if_splits)

lemma sendAppendEntries_recv_moved:
  assumes "sendAppendEntries_recv server args reply num ok rf = Inr (rf', num', ret)"
  shows "moved {Keep, Demote, NewTerm (aer_Term reply)} rf rf'"
  using assms newerTerm_moved [of "aer_Term reply" "rf\<lparr>mu := True\<rparr>"]
  by (cases "aer_AppendErr reply")
    (auto simp: sendAppendEntries_recv_def go_dest moved_def Let_def timer_Reset_def
      split: if_splits dest!: apply_loop_view)

lemma sendInstallSnapshot_recv_moved:
  assumes "sendInstallSnapshot_recv server args reply rf = Inr (rf', ret)"
  shows "moved {Keep, NewTerm (isr_Term reply)} rf rf'"
  using assms newerTerm_moved [of "isr_Term reply" "rf\<lparr>mu := True\<rparr>"]
  by (cases "isr_Err reply")
    (auto simp: sendInstallSnapshot_recv_def go_dest moved_def Let_def split: if_splits)

section \<open>Ticks\<close>

lemma heartbeat_to_cases:
  assumes "heartbeat_to i rf = Inr (rf', out)"
  obtains (append) a ni where "out = OutAppendEntries i a" "ae_Term a = currentTerm rf"
      "ae_LeaderId a = me rf" "rf' = rf\<lparr>nextIndexs := ni\<rparr>"
  | (snap) a where "out = OutInstallSnapshot i a" "is_Term a = currentTerm rf"
      "is_LeaderId a = me rf" "rf' = rf"
proof -
  from assms obtain nxt where n: "go_index (nextIndexs rf) i = Inr nxt"
    unfolding heartbeat_to_def by (rule go_bind_Inr_E)
  show thesis
  proof (cases "nxt \<le> lastIncludeIndex rf")
    case True
    with assms n show thesis unfolding heartbeat_to_def by (intro snap) auto
  next
    case False
    with assms n obtain n' p t ni es where
      "rf' = rf\<lparr>nextIndexs := ni\<rparr>"
      "out = OutAppendEntries i
         \<lparr>ae_Term = currentTerm rf, ae_LeaderId = me rf, ae_PrevLogIndex = p, ae_PrevLogTerm = t,
          ae_Logs = es, ae_LeaderCommit = commitIndex rf,
          ae_LogIndex = int (length (logs rf)) + lastIncludeIndex rf\<rparr>"
      unfolding heartbeat_to_def Let_def by (auto split: prod.splits simp del: go_bind_def)
    then show thesis by (intro append) auto
  qed
qed

text \<open>Every request of a heartbeat carries the term and the identity of the sender.\<close>

fun leader_req :: "int \<Rightarrow> int \<Rightarrow> ('c, 'd) outgoing \<Rightarrow> bool" where
  "leader_req t l (OutRequestVote j a) = False"
| "leader_req t l (OutAppendEntries j a) = (ae_Term a = t \<and> ae_LeaderId a = l)"
| "leader_req t l (OutInstallSnapshot j a) = (is_Term a = t \<and> is_LeaderId a = l)"

lemma heartbeat_loop_view:
  assumes "heartbeat_loop is rf = Inr (rf', outs)"
  shows "view rf' = view rf" and "\<forall>out\<in>set outs. leader_req (currentTerm rf) (me rf) out"
proof -
  have "view rf' = view rf \<and> (\<forall>out\<in>set outs. leader_req (currentTerm rf) (me rf) out)"
    using assms
  proof (induction "is" arbitrary: rf outs)
    case Nil
    then show ?case by simp
  next
    case (Cons i "is")
    from Cons.prems obtain rf1 out outs1 where
      1: "heartbeat_to i rf = Inr (rf1, out)" and 2: "heartbeat_loop is rf1 = Inr (rf', outs1)"
      and outs: "outs = out # outs1" by auto
    from 1 have v: "view rf1 = view rf" by (cases rule: heartbeat_to_cases) simp_all
    then have "currentTerm rf1 = currentTerm rf" "me rf1 = me rf"
      by (metis view_sel(1)) (metis v view_sel(6))
    moreover from 1 have "leader_req (currentTerm rf) (me rf) out"
      by (cases rule: heartbeat_to_cases) auto
    ultimately show ?case using Cons.IH [OF 2] v outs by auto
  qed
  then show "view rf' = view rf" and "\<forall>out\<in>set outs. leader_req (currentTerm rf) (me rf) out"
    by auto
qed

lemma view_startElection:
  assumes "startElection r rf = (rf', outs)" and "myStatus rf = Candidate"
  shows "view rf' = vapply Campaign (view rf)"
    and "outs = map (\<lambda>i. OutRequestVote i (voteArgs rf')) (otherPeers rf)"
    and "rv_Term (voteArgs rf') = currentTerm rf + 1" and "rv_Candidate (voteArgs rf') = me rf"
  using assms
  by (auto simp: startElection_def Let_def view_def otherPeers_def voteArgs_def persist_eq
      timer_Reset_def savedTerm_def savedVote_def Make_def ReadRaftState_def readPersist_def)

lemma ticker_tick_cases:
  assumes "ticker_tick r rf = Inr (rf', outs)"
  obtains (idle) "rf' = rf" "outs = []"
  | (campaign) a where "view rf' = vapply Campaign (view rf)"
      "outs = map (\<lambda>i. OutRequestVote i a) (otherPeers rf)"
      "rv_Term a = currentTerm rf + 1" "rv_Candidate a = me rf"
  | (heartbeat) "view rf' = view rf" "myStatus rf = Leader"
      "\<forall>out\<in>set outs. leader_req (currentTerm rf) (me rf) out"
proof (cases "killed rf")
  case True
  with assms show thesis by (intro idle) (auto simp: ticker_tick_def)
next
  case False
  show thesis
  proof (cases "myStatus rf = Leader")
    case True
    with assms False obtain rf1 where
      1: "heartbeat_loop (otherPeers (timer_Reset HeartBeatTimeout (rf\<lparr>mu := True\<rparr>)))
           (timer_Reset HeartBeatTimeout (rf\<lparr>mu := True\<rparr>)) = Inr (rf1, outs)"
      and "rf' = Unlock rf1"
      by (auto simp: ticker_tick_def go_dest Let_def)
    with heartbeat_loop_view [OF 1] True show thesis
      by (intro heartbeat) (auto simp: timer_Reset_def)
  next
    case nl: False
    let ?rf = "rf\<lparr>mu := True, myStatus := Candidate\<rparr>"
    obtain rf1 outs1 where 1: "startElection r ?rf = (rf1, outs1)" by fastforce
    have "rf\<lparr>mu := True\<rparr> = ?rf" if "myStatus rf = Candidate" using that by simp
    with assms False nl 1 have "rf' = Unlock rf1" "outs = outs1"
      by (cases "myStatus rf"; auto simp: ticker_tick_def go_dest)+
    with view_startElection [OF 1] nl show thesis
      by (intro campaign) (auto simp: otherPeers_def)
  qed
qed

end
