(* ===== verification/Raft_Election.thy ===== *)
theory Raft_Election
  imports Raft_View
begin

text \<open>
  The whole Raft group: \<open>n\<close> peers, the requests and replies under way, and the goroutines
  that wait for replies. One rule of \<open>cstep\<close> per operation of \<open>raft/raft.go\<close>; requests may be
  delivered late, several times or never, replies may be lost, and peers may crash and restart
  from their persister at any time. The theorem is election safety: two leaders of the same term
  are the same peer.
\<close>

section \<open>The group\<close>

datatype reply =
    RepVote RequestVoteReply
  | RepAppend AppendEntriesReply
  | RepSnap InstallSnapshotResponse

text \<open>
  A tick of a peer creates the goroutines of one election or one heartbeat; they share a counter
  (\<open>voteNum\<close> or \<open>appendNum\<close>, initially 1). Ticks are numbered: \<open>owner k\<close> is the peer of tick
  \<open>k\<close>, \<open>counter k\<close> its shared counter; a goroutine is a pair of a tick and a request.
  \<open>waiting\<close> holds the goroutines in \<open>Call\<close>, \<open>checked\<close> those of \<open>sendRequestVote\<close> between their
  two critical sections. \<open>votes\<close>, \<open>elected\<close> and \<open>counted\<close> are history variables that no rule
  reads: the votes given for the first time (term, voter, candidate), the leaders made, and the
  voters counted for a tick.
\<close>

record ('c, 'd) cluster =
  srv :: "nat \<Rightarrow> ('c, 'd) Raft"
  reqs :: "(nat \<times> ('c, 'd) outgoing) set"
  reps :: "(nat \<times> ('c, 'd) outgoing \<times> reply) set"
  waiting :: "(nat \<times> ('c, 'd) outgoing) set"
  checked :: "(nat \<times> ('c, 'd) outgoing \<times> RequestVoteReply) set"
  counter :: "nat \<Rightarrow> int"
  owner :: "nat \<Rightarrow> nat"
  ticks :: nat
  votes :: "(int \<times> nat \<times> nat) set"
  elected :: "(int \<times> nat) set"
  counted :: "nat \<Rightarrow> nat set"

definition init_cluster :: "nat \<Rightarrow> (nat \<Rightarrow> int) \<Rightarrow> ('c, 'd) cluster" where
  "init_cluster n r =
     \<lparr>srv = (\<lambda>i. Make n (int i) MakePersister (r i)), reqs = {}, reps = {}, waiting = {},
      checked = {}, counter = (\<lambda>_. 0), owner = (\<lambda>_. 0), ticks = 0,
      votes = {}, elected = {}, counted = (\<lambda>_. {})\<rparr>"

text \<open>A crash and restart as the tester performs it: the persister is copied, read, written into
  a fresh one and copied again.\<close>

definition restart_persister :: "'c gobval Persister \<Rightarrow> 'c gobval Persister" where
  "restart_persister ps =
     Copy (SaveStateAndSnapshot (GobInt 0) (ReadRaftState (GobInt 0) (Copy ps))
             (ReadSnapshot (GobInt 0) (Copy ps)) MakePersister)"

definition set_srv :: "nat \<Rightarrow> ('c, 'd) Raft \<Rightarrow> ('c, 'd) cluster \<Rightarrow> ('c, 'd) cluster" where
  "set_srv i rf s = s\<lparr>srv := (srv s)(i := rf)\<rparr>"

inductive cstep :: "nat \<Rightarrow> ('c, 'd) cluster \<Rightarrow> ('c, 'd) cluster \<Rightarrow> bool" for n :: nat where
  tick: "i < n \<Longrightarrow> 0 \<le> r \<Longrightarrow> r < 150 \<Longrightarrow> ticker_tick r (srv s i) = Inr (rf', outs) \<Longrightarrow>
    cstep n s ((set_srv i rf' s)
      \<lparr>reqs := reqs s \<union> {ticks s} \<times> set outs, waiting := waiting s \<union> {ticks s} \<times> set outs,
       counter := (counter s)(ticks s := 1), owner := (owner s)(ticks s := i),
       ticks := Suc (ticks s),
       votes := votes s \<union> (if currentTerm rf' \<noteq> currentTerm (srv s i)
                           then {(currentTerm rf', i, i)} else {}),
       counted := (counted s)(ticks s := {i})\<rparr>)"
| recv_vote: "(k, OutRequestVote (int j) args) \<in> reqs s \<Longrightarrow> j < n \<Longrightarrow>
    RequestVote args (srv s j) = Inr (rf', reply) \<Longrightarrow>
    cstep n s ((set_srv j rf' s)
      \<lparr>reps := insert (k, OutRequestVote (int j) args, RepVote reply) (reps s),
       votes := votes s \<union> (if rvr_VoteErr reply = VoteErr_Nil
                           then {(rv_Term args, j, nat (rv_Candidate args))} else {})\<rparr>)"
| vote_check: "(k, OutRequestVote (int j) args) \<in> waiting s \<Longrightarrow>
    (k, OutRequestVote (int j) args, RepVote reply) \<in> reps s \<Longrightarrow>
    sendRequestVote_check args (srv s (owner s k)) = Inr (rf', b) \<Longrightarrow>
    cstep n s ((set_srv (owner s k) rf' s)
      \<lparr>waiting := waiting s - {(k, OutRequestVote (int j) args)},
       checked := checked s \<union> (if b then {(k, OutRequestVote (int j) args, reply)} else {})\<rparr>)"
| vote_switch: "(k, OutRequestVote (int j) args, reply) \<in> checked s \<Longrightarrow>
    sendRequestVote_switch reply (counter s k) ok (srv s (owner s k)) = Inr (rf', num, ret) \<Longrightarrow>
    cstep n s ((set_srv (owner s k) rf' s)
      \<lparr>checked := checked s - {(k, OutRequestVote (int j) args, reply)},
       counter := (counter s)(k := num),
       counted := (if counts reply (counter s k) (srv s (owner s k))
                   then (counted s)(k := insert j (counted s k)) else counted s),
       elected := elected s \<union> (if myStatus (srv s (owner s k)) \<noteq> Leader \<and> myStatus rf' = Leader
                               then {(currentTerm rf', owner s k)} else {})\<rparr>)"
| recv_append: "(k, OutAppendEntries (int j) args) \<in> reqs s \<Longrightarrow> j < n \<Longrightarrow>
    AppendEntries args (srv s j) = Inr (rf', reply) \<Longrightarrow>
    cstep n s ((set_srv j rf' s)
      \<lparr>reps := insert (k, OutAppendEntries (int j) args, RepAppend reply) (reps s)\<rparr>)"
| append_reply: "(k, OutAppendEntries (int j) args) \<in> waiting s \<Longrightarrow>
    (k, OutAppendEntries (int j) args, RepAppend reply) \<in> reps s \<Longrightarrow>
    sendAppendEntries_recv (int j) args reply (counter s k) ok (srv s (owner s k)) =
      Inr (rf', num, ret) \<Longrightarrow>
    cstep n s ((set_srv (owner s k) rf' s)
      \<lparr>waiting := waiting s - {(k, OutAppendEntries (int j) args)},
       counter := (counter s)(k := num)\<rparr>)"
| recv_snap: "(k, OutInstallSnapshot (int j) args) \<in> reqs s \<Longrightarrow> j < n \<Longrightarrow>
    InstallSnapshot args (srv s j) = Inr (rf', reply) \<Longrightarrow>
    cstep n s ((set_srv j rf' s)
      \<lparr>reps := insert (k, OutInstallSnapshot (int j) args, RepSnap reply) (reps s)\<rparr>)"
| snap_reply: "(k, OutInstallSnapshot (int j) args) \<in> waiting s \<Longrightarrow>
    (k, OutInstallSnapshot (int j) args, RepSnap reply) \<in> reps s \<Longrightarrow>
    sendInstallSnapshot_recv (int j) args reply (srv s (owner s k)) = Inr (rf', ret) \<Longrightarrow>
    cstep n s ((set_srv (owner s k) rf' s)
      \<lparr>waiting := waiting s - {(k, OutInstallSnapshot (int j) args)}\<rparr>)"
| start: "i < n \<Longrightarrow> Start c (srv s i) = Inr (rf', res) \<Longrightarrow> cstep n s (set_srv i rf' s)"
| get_state: "i < n \<Longrightarrow> GetState (srv s i) = Inr (rf', res) \<Longrightarrow> cstep n s (set_srv i rf' s)"
| snapshot: "i < n \<Longrightarrow> Snapshot index d (srv s i) = Inr rf' \<Longrightarrow> cstep n s (set_srv i rf' s)"
| cond_install: "i < n \<Longrightarrow> CondInstallSnapshot t index d (srv s i) = Inr (rf', b) \<Longrightarrow>
    cstep n s (set_srv i rf' s)"
| kill: "i < n \<Longrightarrow> Kill (srv s i) = Inr rf' \<Longrightarrow> cstep n s (set_srv i rf' s)"
| restart: "i < n \<Longrightarrow> 0 \<le> r \<Longrightarrow> r < 150 \<Longrightarrow>
    cstep n s ((set_srv i (Make n (int i) (restart_persister (persister (srv s i))) r) s)
      \<lparr>waiting := {(k, out) \<in> waiting s. owner s k \<noteq> i},
       checked := {(k, out, reply) \<in> checked s. owner s k \<noteq> i}\<rparr>)"

inductive creachable :: "nat \<Rightarrow> ('c, 'd) cluster \<Rightarrow> bool" for n :: nat where
  init: "creachable n (init_cluster n r)"
| step: "creachable n s \<Longrightarrow> cstep n s s' \<Longrightarrow> creachable n s'"

section \<open>The invariant\<close>

text \<open>Of one peer: its votes are not newer than what it saved, a vote given in its saved or current
  term is recorded there, and a recorded vote was given or names an elected leader.\<close>

definition srv_inv ::
    "nat \<Rightarrow> (int \<times> nat \<times> nat) set \<Rightarrow> (int \<times> nat) set \<Rightarrow> nat \<Rightarrow> vstate \<Rightarrow> bool" where
  "srv_inv n V E i v \<longleftrightarrow>
     vme v = int i \<and> vn v = n \<and> st v \<le> vt v \<and>
     (\<forall>T c. (T, i, c) \<in> V \<longrightarrow> T \<le> st v) \<and>
     (\<forall>c. (st v, i, c) \<in> V \<longrightarrow> sv v \<noteq> -1) \<and> (\<forall>c. (vt v, i, c) \<in> V \<longrightarrow> vv v \<noteq> -1) \<and>
     (sv v \<noteq> -1 \<longrightarrow> (\<exists>c. sv v = int c \<and> ((st v, i, c) \<in> V \<or> (st v, c) \<in> E))) \<and>
     (vv v \<noteq> -1 \<longrightarrow> (\<exists>c. vv v = int c \<and> ((vt v, i, c) \<in> V \<or> (vt v, c) \<in> E))) \<and>
     (vl v \<longrightarrow> (vt v, i) \<in> E)"

definition srvs_inv :: "nat \<Rightarrow> ('c, 'd) cluster \<Rightarrow> bool" where
  "srvs_inv n s \<longleftrightarrow> (\<forall>i<n. srv_inv n (votes s) (elected s) i (view (srv s i)))"

text \<open>Of the requests: a tick sends either vote requests, all alike, in the name of its owner, or
  requests in the name of an elected leader.\<close>

definition req_inv :: "nat \<Rightarrow> ('c, 'd) cluster \<Rightarrow> bool" where
  "req_inv n s \<longleftrightarrow> waiting s \<subseteq> reqs s \<and>
     (\<forall>k out. (k, out) \<in> reqs s \<longrightarrow> k < ticks s \<and> owner s k < n) \<and>
     (\<forall>k j a. (k, OutRequestVote j a) \<in> reqs s \<longrightarrow>
        0 \<le> j \<and> j < int n \<and> j \<noteq> int (owner s k) \<and> rv_Candidate a = int (owner s k) \<and>
        (\<forall>out. (k, out) \<in> reqs s \<longrightarrow> (\<exists>j'. out = OutRequestVote j' a))) \<and>
     (\<forall>k j a. (k, OutAppendEntries j a) \<in> reqs s \<longrightarrow>
        (\<exists>c. ae_LeaderId a = int c \<and> (ae_Term a, c) \<in> elected s)) \<and>
     (\<forall>k j a. (k, OutInstallSnapshot j a) \<in> reqs s \<longrightarrow>
        (\<exists>c. is_LeaderId a = int c \<and> (is_Term a, c) \<in> elected s))"

text \<open>A granting reply is backed by a vote, unless its receiver is leader already.\<close>

definition backed :: "('c, 'd) cluster \<Rightarrow> nat \<Rightarrow> nat \<Rightarrow> RequestVoteArgs \<Rightarrow> RequestVoteReply \<Rightarrow> bool" where
  "backed s k j a r \<longleftrightarrow>
     (k, OutRequestVote (int j) a) \<in> reqs s \<and>
     (rvr_VoteGranted r \<longrightarrow> rvr_Term r = rv_Term a \<and>
        ((rv_Term a, j, owner s k) \<in> votes s \<or> (rv_Term a, owner s k) \<in> elected s))"

definition rep_inv :: "('c, 'd) cluster \<Rightarrow> bool" where
  "rep_inv s \<longleftrightarrow>
     (\<forall>k j a r. (k, OutRequestVote (int j) a, RepVote r) \<in> reps s \<longrightarrow> backed s k j a r) \<and>
     (\<forall>k j a r. (k, OutRequestVote (int j) a, r) \<in> checked s \<longrightarrow>
        backed s k j a r \<and> (k, OutRequestVote (int j) a) \<notin> waiting s \<and>
        (\<forall>r'. (k, OutRequestVote (int j) a, r') \<in> checked s \<longrightarrow> r' = r))"

text \<open>The counter of an election counts distinct voters until its owner is elected.\<close>

definition pending :: "('c, 'd) cluster \<Rightarrow> nat \<Rightarrow> nat \<Rightarrow> RequestVoteArgs \<Rightarrow> bool" where
  "pending s k j a \<longleftrightarrow>
     (k, OutRequestVote (int j) a) \<in> waiting s \<or> (\<exists>r. (k, OutRequestVote (int j) a, r) \<in> checked s)"

definition cnt_inv :: "nat \<Rightarrow> ('c, 'd) cluster \<Rightarrow> bool" where
  "cnt_inv n s \<longleftrightarrow>
     (\<forall>k j a. (k, OutRequestVote j a) \<in> reqs s \<longrightarrow>
        counter s k \<le> int n div 2 \<and>
        ((rv_Term a, owner s k) \<in> elected s \<or>
         counter s k = int (card (counted s k)) \<and> counted s k \<subseteq> {..<n} \<and>
         (\<forall>v\<in>counted s k. (rv_Term a, v, owner s k) \<in> votes s) \<and>
         (\<forall>j'. pending s k j' a \<longrightarrow> j' \<notin> counted s k)))"

definition vote_inv :: "nat \<Rightarrow> ('c, 'd) cluster \<Rightarrow> bool" where
  "vote_inv n s \<longleftrightarrow>
     (\<forall>T i c c'. (T, i, c) \<in> votes s \<longrightarrow> (T, i, c') \<in> votes s \<longrightarrow> c = c') \<and>
     (\<forall>T c. (T, c) \<in> elected s \<longrightarrow> (\<exists>Q. majority n Q \<and> (\<forall>v\<in>Q. (T, v, c) \<in> votes s)))"

definition cinv :: "nat \<Rightarrow> ('c, 'd) cluster \<Rightarrow> bool" where
  "cinv n s \<longleftrightarrow> srvs_inv n s \<and> req_inv n s \<and> rep_inv s \<and> cnt_inv n s \<and> vote_inv n s"

section \<open>Moves keep the invariant of a peer\<close>

lemma srv_inv_quiet:
  assumes "srv_inv n V E i v" and "m \<in> {Keep, Demote, Resave, NewTerm t}" and "vguard m v"
  shows "srv_inv n V E i (vapply m v)"
  using assms by (cases m) (fastforce simp: srv_inv_def)+

lemma srv_inv_adopt:
  assumes "srv_inv n V E i v" and "m \<in> {Adopt t l, AdoptUnsaved t l}" and "vguard m v"
    and "l = int c" and "(t, c) \<in> E"
  shows "srv_inv n V E i (vapply m v)"
  using assms by (cases m) (fastforce simp: srv_inv_def)+

lemma srv_inv_grant:
  assumes "srv_inv n V E i v" and "vguard (Grant t (int c)) v"
  shows "srv_inv n (insert (t, i, c) V) E i (vapply (Grant t (int c)) v)"
  using assms by (fastforce simp: srv_inv_def)

lemma srv_inv_campaign:
  assumes "srv_inv n V E i v"
  shows "srv_inv n (insert (vt v + 1, i, i) V) E i (vapply Campaign v)"
  using assms by (fastforce simp: srv_inv_def)

lemma srv_inv_win:
  assumes "srv_inv n V E i v"
  shows "srv_inv n V (insert (vt v, i) E) i (vapply Win v)"
  using assms by (fastforce simp: srv_inv_def)

lemma srv_inv_restart:
  assumes "srv_inv n V E i v"
  shows "srv_inv n V E i (v\<lparr>vt := st v, vv := sv v, vl := False\<rparr>)"
  using assms by (fastforce simp: srv_inv_def)

text \<open>The votes of others and more leaders do no harm.\<close>

lemma srv_inv_mono:
  assumes "srv_inv n V E i v" and "V \<subseteq> V'" and "E \<subseteq> E'"
    and "\<And>T c. (T, i, c) \<in> V' \<Longrightarrow> (T, i, c) \<in> V"
  shows "srv_inv n V' E' i v"
  using assms unfolding srv_inv_def by blast

text \<open>A fresh vote is the only one of its voter in its term.\<close>

lemma srv_inv_fresh:
  assumes "srv_inv n V E i v" and "vguard (Grant t c) v"
  shows "(t, i, c') \<notin> V"
  using assms by (fastforce simp: srv_inv_def)

section \<open>Steps keep the invariant\<close>

lemma set_srv_fields [simp]:
  "srv (set_srv i rf s) = (srv s)(i := rf)" "reqs (set_srv i rf s) = reqs s"
  "reps (set_srv i rf s) = reps s" "waiting (set_srv i rf s) = waiting s"
  "checked (set_srv i rf s) = checked s" "counter (set_srv i rf s) = counter s"
  "owner (set_srv i rf s) = owner s" "ticks (set_srv i rf s) = ticks s"
  "votes (set_srv i rf s) = votes s" "elected (set_srv i rf s) = elected s"
  "counted (set_srv i rf s) = counted s"
  by (simp_all add: set_srv_def)

text \<open>One peer changes; new votes, if any, are its own.\<close>

lemma srvs_inv_change:
  assumes "srvs_inv n s" and "srv s' = (srv s)(i := rf')"
    and "votes s \<subseteq> votes s'" and "elected s \<subseteq> elected s'"
    and "\<And>T j c. (T, j, c) \<in> votes s' \<Longrightarrow> j \<noteq> i \<Longrightarrow> (T, j, c) \<in> votes s"
    and "i < n \<Longrightarrow> srv_inv n (votes s') (elected s') i (view rf')"
  shows "srvs_inv n s'"
  unfolding srvs_inv_def
proof (intro allI impI)
  fix j assume j: "j < n"
  show "srv_inv n (votes s') (elected s') j (view (srv s' j))"
  proof (cases "j = i")
    case True
    with assms(2,6) j show ?thesis by simp
  next
    case False
    then show ?thesis
      using assms(1-5) j srv_inv_mono [of n "votes s" "elected s" j "view (srv s j)"]
      by (simp add: srvs_inv_def)
  qed
qed

text \<open>Operations that move a peer quietly (no vote, no leader).\<close>

lemma srvs_inv_quiet:
  assumes "srvs_inv n s" and "moved ms (srv s i) rf'" and "ms \<subseteq> {Keep, Demote, Resave, NewTerm t}"
    and "srv s' = (srv s)(i := rf')" and "votes s' = votes s" and "elected s' = elected s"
  shows "srvs_inv n s'"
proof (rule srvs_inv_change [OF assms(1,4)])
  assume "i < n"
  then have inv: "srv_inv n (votes s) (elected s) i (view (srv s i))"
    using assms(1) by (simp add: srvs_inv_def)
  from assms(2) obtain m where m: "m \<in> ms" "vguard m (view (srv s i))"
      "view rf' = vapply m (view (srv s i))"
    by (auto simp: moved_def)
  with srv_inv_quiet [OF inv, of m t] assms(3,5,6)
  show "srv_inv n (votes s') (elected s') i (view rf')" by auto
qed (use assms(5,6) in auto)

lemma srvs_inv_adopt:
  assumes "srvs_inv n s" and "moved ms (srv s i) rf'"
    and "ms \<subseteq> {Keep, Adopt t (int c), AdoptUnsaved t (int c)}" and "(t, c) \<in> elected s"
    and "srv s' = (srv s)(i := rf')" and "votes s' = votes s" and "elected s' = elected s"
  shows "srvs_inv n s'"
proof (rule srvs_inv_change [OF assms(1,5)])
  assume "i < n"
  then have inv: "srv_inv n (votes s) (elected s) i (view (srv s i))"
    using assms(1) by (simp add: srvs_inv_def)
  from assms(2) obtain m where m: "m \<in> ms" "vguard m (view (srv s i))"
      "view rf' = vapply m (view (srv s i))"
    by (auto simp: moved_def)
  then show "srv_inv n (votes s') (elected s') i (view rf')"
    using srv_inv_adopt [OF inv, of m t "int c" c] srv_inv_quiet [OF inv, of m t] assms(3,4,6,7)
    by auto
qed (use assms(6,7) in auto)

text \<open>Messages: what a step may change without touching an election.\<close>

definition msgs_inv :: "nat \<Rightarrow> ('c, 'd) cluster \<Rightarrow> bool" where
  "msgs_inv n s \<longleftrightarrow> req_inv n s \<and> rep_inv s \<and> cnt_inv n s"

lemma msgs_inv_frame:
  assumes "msgs_inv n s"
    and "reqs s' = reqs s" "owner s' = owner s" "ticks s' = ticks s"
    and "votes s \<subseteq> votes s'" "elected s \<subseteq> elected s'" "counted s' = counted s"
    and "waiting s' \<subseteq> waiting s" "checked s' \<subseteq> checked s"
    and "\<And>k j a r. (k, OutRequestVote j a, RepVote r) \<in> reps s' \<Longrightarrow>
           (k, OutRequestVote j a, RepVote r) \<in> reps s"
    and "\<And>k j a. (k, OutRequestVote j a) \<in> reqs s \<Longrightarrow> counter s' k = counter s k"
  shows "msgs_inv n s'"
proof -
  have "req_inv n s'"
    using assms(1-4,6,8) unfolding msgs_inv_def req_inv_def by (simp add: subset_iff) blast
  moreover have bk: "backed s k j a r \<Longrightarrow> backed s' k j a r" for k j a r
    using assms(2,3,5,6) unfolding backed_def by auto
  have "rep_inv s'"
    using assms(1,8,9,10) bk unfolding msgs_inv_def rep_inv_def by (meson subsetD)
  moreover have pend: "pending s' k j a \<Longrightarrow> pending s k j a" for k j a
    using assms(8,9) unfolding pending_def by auto
  have "cnt_inv n s'"
    using assms(1-3,5-7,11) pend unfolding msgs_inv_def cnt_inv_def by (simp add: subset_iff) metis
  ultimately show ?thesis by (simp add: msgs_inv_def)
qed

lemma cinv_iff: "cinv n s \<longleftrightarrow> srvs_inv n s \<and> msgs_inv n s \<and> vote_inv n s"
  by (auto simp: cinv_def msgs_inv_def)

lemma vote_inv_cong: "votes s' = votes s \<Longrightarrow> elected s' = elected s \<Longrightarrow> vote_inv n s' = vote_inv n s"
  by (simp add: vote_inv_def)

lemma vote_inv_insert:
  assumes "vote_inv n s" and "\<And>c'. (t, j, c') \<notin> votes s"
    and "votes s' = insert (t, j, c) (votes s)" and "elected s' = elected s"
  shows "vote_inv n s'"
  using assms unfolding vote_inv_def by (auto; metis)

text \<open>A step that moves one peer quietly and frames the messages.\<close>

lemma cinv_quiet:
  assumes "cinv n s" and "moved ms (srv s i) rf'" and "ms \<subseteq> {Keep, Demote, Resave, NewTerm t}"
    and "srv s' = (srv s)(i := rf')"
    and "reqs s' = reqs s" "owner s' = owner s" "ticks s' = ticks s"
    and "votes s' = votes s" "elected s' = elected s" "counted s' = counted s"
    and "waiting s' \<subseteq> waiting s" "checked s' \<subseteq> checked s" "reps s' = reps s"
    and "\<And>k j a. (k, OutRequestVote j a) \<in> reqs s \<Longrightarrow> counter s' k = counter s k"
  shows "cinv n s'"
  unfolding cinv_iff
proof (intro conjI)
  show "srvs_inv n s'"
    using assms(1-4,8,9) srvs_inv_quiet unfolding cinv_iff by blast
  show "msgs_inv n s'"
    using assms(1) assms(5-14) unfolding cinv_iff
    by (intro msgs_inv_frame [of n s s']) auto
  show "vote_inv n s'"
    using assms(1,8,9) vote_inv_cong unfolding cinv_iff by blast
qed

lemma req_inv_kind:
  assumes "req_inv n s" and "(k, OutRequestVote j a) \<in> reqs s" and "(k, out) \<in> reqs s"
  shows "\<exists>j'. out = OutRequestVote j' a"
  using assms unfolding req_inv_def by blast

lemma cinv_init: "cinv n (init_cluster n r)"
  by (simp add: cinv_def srvs_inv_def srv_inv_def req_inv_def rep_inv_def cnt_inv_def vote_inv_def
      init_cluster_def view_def savedTerm_def savedVote_def Make_def MakePersister_def
      ReadRaftState_def readPersist_def)

lemma cinv_recv_append:
  assumes "cinv n s" and "(k, OutAppendEntries (int j) args) \<in> reqs s"
    and "AppendEntries args (srv s j) = Inr (rf', reply)"
  shows "cinv n ((set_srv j rf' s)
      \<lparr>reps := insert (k, OutAppendEntries (int j) args, RepAppend reply) (reps s)\<rparr>)"
    (is "cinv n ?s'")
  unfolding cinv_iff
proof (intro conjI)
  from assms(1,2) obtain c where c: "ae_LeaderId args = int c" "(ae_Term args, c) \<in> elected s"
    unfolding cinv_def req_inv_def by blast
  show "srvs_inv n ?s'"
    by (rule srvs_inv_adopt [OF _ AppendEntries_moved [OF assms(3)] _ c(2)])
      (use assms(1) c(1) in \<open>auto simp: cinv_iff\<close>)
  show "msgs_inv n ?s'"
    by (rule msgs_inv_frame [of n s]) (use assms(1) in \<open>auto simp: cinv_iff\<close>)
  show "vote_inv n ?s'"
    using assms(1) by (simp add: cinv_iff vote_inv_def)
qed

lemma cinv_recv_snap:
  assumes "cinv n s" and "(k, OutInstallSnapshot (int j) args) \<in> reqs s"
    and "InstallSnapshot args (srv s j) = Inr (rf', reply)"
  shows "cinv n ((set_srv j rf' s)
      \<lparr>reps := insert (k, OutInstallSnapshot (int j) args, RepSnap reply) (reps s)\<rparr>)"
    (is "cinv n ?s'")
  unfolding cinv_iff
proof (intro conjI)
  from assms(1,2) obtain c where c: "is_LeaderId args = int c" "(is_Term args, c) \<in> elected s"
    unfolding cinv_def req_inv_def by blast
  show "srvs_inv n ?s'"
    by (rule srvs_inv_adopt [OF _ InstallSnapshot_moved [OF assms(3)] _ c(2)])
      (use assms(1) c(1) in \<open>auto simp: cinv_iff\<close>)
  show "msgs_inv n ?s'"
    by (rule msgs_inv_frame [of n s]) (use assms(1) in \<open>auto simp: cinv_iff\<close>)
  show "vote_inv n ?s'"
    using assms(1) by (simp add: cinv_iff vote_inv_def)
qed

text \<open>A vote request reaches a peer.\<close>

lemma cinv_recv_vote:
  assumes inv: "cinv n s" and req: "(k, OutRequestVote (int j) args) \<in> reqs s" and j: "j < n"
    and rv: "RequestVote args (srv s j) = Inr (rf', reply)"
  shows "cinv n ((set_srv j rf' s)
      \<lparr>reps := insert (k, OutRequestVote (int j) args, RepVote reply) (reps s),
       votes := votes s \<union> (if rvr_VoteErr reply = VoteErr_Nil
                           then {(rv_Term args, j, nat (rv_Candidate args))} else {})\<rparr>)"
    (is "cinv n ?s'")
proof -
  let ?c = "owner s k"
  have cand: "rv_Candidate args = int ?c"
    using inv req unfolding cinv_def req_inv_def by blast
  have sj: "srv_inv n (votes s) (elected s) j (view (srv s j))"
    using inv j by (simp add: cinv_def srvs_inv_def)
  let ?s1 = "(set_srv j rf' s)\<lparr>votes := votes ?s'\<rparr>"
  have srvs: "srvs_inv n ?s'" and vinv: "vote_inv n ?s'"
    and bk: "backed ?s' k j args reply"
  proof -
    show "srvs_inv n ?s'"
    proof (cases "rvr_VoteErr reply = VoteErr_Nil")
      case True
      from RequestVote_fresh(1) [OF rv True] have
        g: "vguard (Grant (rv_Term args) (int ?c)) (view (srv s j))"
        and v: "view rf' = vapply (Grant (rv_Term args) (int ?c)) (view (srv s j))"
        by (auto simp: moved_def cand)
      show ?thesis
        by (rule srvs_inv_change [of n s _ j rf'])
          (use inv True srv_inv_grant [OF sj g] v in \<open>auto simp: cinv_def cand\<close>)
    next
      case False
      have mv: "moved {Keep, Demote, Resave, NewTerm (rv_Term args)} (srv s j) rf'"
        by (rule RequestVote_other [OF rv False]) (simp add: cand)
      show ?thesis
        by (rule srvs_inv_quiet [OF _ mv, where t = "rv_Term args"])
          (use inv False in \<open>simp_all add: cinv_def\<close>)
    qed
    show "vote_inv n ?s'"
    proof (cases "rvr_VoteErr reply = VoteErr_Nil")
      case True
      from RequestVote_fresh(1) [OF rv True] have
        "vguard (Grant (rv_Term args) (rv_Candidate args)) (view (srv s j))"
        by (auto simp: moved_def)
      then have "(rv_Term args, j, c') \<notin> votes s" for c'
        by (rule srv_inv_fresh [OF sj])
      then show ?thesis
        by (rule vote_inv_insert [of n s, rotated]) (use inv True in \<open>auto simp: cinv_def\<close>)
    next
      case False
      then show ?thesis using inv by (simp add: cinv_def vote_inv_def)
    qed
    show "backed ?s' k j args reply"
    proof (cases "rvr_VoteErr reply = VoteErr_Nil")
      case True
      then show ?thesis
        using req cand RequestVote_fresh(3) [OF rv True] by (simp add: backed_def)
    next
      case False
      then show ?thesis
        using req cand sj RequestVote_again [OF rv False]
        by (auto simp: backed_def srv_inv_def)
    qed
  qed
  have "msgs_inv n ?s1"
    by (rule msgs_inv_frame [of n s]) (use inv in \<open>auto simp: cinv_iff\<close>)
  then have "req_inv n ?s'" "cnt_inv n ?s'" "rep_inv ?s1"
    by (auto simp: msgs_inv_def req_inv_def cnt_inv_def pending_def)
  moreover from \<open>rep_inv ?s1\<close> bk have "rep_inv ?s'"
    by (auto simp: rep_inv_def backed_def)
  ultimately show ?thesis using srvs vinv by (simp add: cinv_def)
qed

text \<open>A reply passes the first critical section of \<open>sendRequestVote\<close>.\<close>

lemma cinv_vote_check:
  assumes inv: "cinv n s" and w: "(k, OutRequestVote (int j) args) \<in> waiting s"
    and rp: "(k, OutRequestVote (int j) args, RepVote reply) \<in> reps s"
    and ck: "sendRequestVote_check args (srv s (owner s k)) = Inr (rf', b)"
  shows "cinv n ((set_srv (owner s k) rf' s)
      \<lparr>waiting := waiting s - {(k, OutRequestVote (int j) args)},
       checked := checked s \<union> (if b then {(k, OutRequestVote (int j) args, reply)} else {})\<rparr>)"
    (is "cinv n ?s'")
proof -
  have pend: "pending s k' j' a'" if "pending ?s' k' j' a'" for k' j' a'
    using that w by (auto simp: pending_def split: if_splits)
  have "req_inv n ?s'" using inv unfolding cinv_def req_inv_def by auto
  moreover have "rep_inv ?s'"
    using inv w rp unfolding cinv_def rep_inv_def by (auto simp: backed_def split: if_splits)
  moreover have "cnt_inv n ?s'"
    using inv pend unfolding cinv_def cnt_inv_def by fastforce
  moreover have "srvs_inv n ?s'"
    by (rule srvs_inv_quiet [OF _ sendRequestVote_check_moved [OF ck]])
      (use inv in \<open>auto simp: cinv_def\<close>)
  moreover have "vote_inv n ?s'" using inv by (simp add: cinv_def vote_inv_def)
  ultimately show ?thesis by (simp add: cinv_def)
qed

text \<open>The second critical section. First the messages: \<open>c\<close> tells whether the vote was counted.\<close>

lemma msgs_inv_switch:
  assumes inv: "msgs_inv n s" and ch: "(k, OutRequestVote (int j) args, reply) \<in> checked s"
    and "j < n" and num: "num \<le> int n div 2"
    and same: "reqs s' = reqs s" "owner s' = owner s" "ticks s' = ticks s" "votes s' = votes s"
      "waiting s' = waiting s" "reps s' = reps s" "elected s \<subseteq> elected s'"
    and s': "checked s' = checked s - {(k, OutRequestVote (int j) args, reply)}"
      "counter s' = (counter s)(k := num)"
      "counted s' = (if c then (counted s)(k := insert j (counted s k)) else counted s)"
    and count: "(rv_Term args, owner s k) \<in> elected s' \<or>
      (if c then num = counter s k + 1 \<and> (rv_Term args, j, owner s k) \<in> votes s
       else num = counter s k)"
  shows "msgs_inv n s'"
proof -
  have req: "(k, OutRequestVote (int j) args) \<in> reqs s"
    and nw: "(k, OutRequestVote (int j) args) \<notin> waiting s"
    and un: "\<And>r'. (k, OutRequestVote (int j) args, r') \<in> checked s \<Longrightarrow> r' = reply"
    using inv ch unfolding msgs_inv_def rep_inv_def by (auto simp: backed_def)
  have pend: "pending s k' j' a'" if "pending s' k' j' a'" for k' j' a'
    using that same(5) s'(1) by (auto simp: pending_def)
  have gone: "\<not> pending s' k j args"
    using nw un same(5) s'(1) by (auto simp: pending_def)
  have was: "pending s k j args" using ch by (auto simp: pending_def)
  have "req_inv n s'"
    using inv same unfolding msgs_inv_def req_inv_def by (simp add: subset_iff) blast
  moreover have bk: "backed s k j a r \<Longrightarrow> backed s' k j a r" for k j a r
    using same unfolding backed_def by auto
  have "rep_inv s'"
    using inv same(5,6) s'(1) bk unfolding msgs_inv_def rep_inv_def by simp blast
  moreover have "cnt_inv n s'"
    unfolding cnt_inv_def
  proof (intro allI impI)
    fix k' j' a' assume "(k', OutRequestVote j' a') \<in> reqs s'"
    then have r': "(k', OutRequestVote j' a') \<in> reqs s" by (simp add: same)
    show "counter s' k' \<le> int n div 2 \<and>
      ((rv_Term a', owner s' k') \<in> elected s' \<or>
       counter s' k' = int (card (counted s' k')) \<and> counted s' k' \<subseteq> {..<n} \<and>
       (\<forall>v\<in>counted s' k'. (rv_Term a', v, owner s' k') \<in> votes s') \<and>
       (\<forall>j'. pending s' k' j' a' \<longrightarrow> j' \<notin> counted s' k'))"
    proof (cases "k' = k")
      case False
      with inv r' same s' pend show ?thesis
        unfolding msgs_inv_def cnt_inv_def by (simp add: subset_iff) metis
    next
      case True
      then have a': "a' = args"
        using inv r' req req_inv_kind [of n s k' j' a' "OutRequestVote (int j) args"]
        by (auto simp: msgs_inv_def)
      show ?thesis
      proof (cases "(rv_Term args, owner s k) \<in> elected s'")
        case el: True
        with True a' num same s' show ?thesis by simp
      next
        case False
        then have ne: "(rv_Term args, owner s k) \<notin> elected s" using same(7) by blast
        from inv r' ne True a' have old: "counter s k = int (card (counted s k))"
            "counted s k \<subseteq> {..<n}" "\<forall>v\<in>counted s k. (rv_Term args, v, owner s k) \<in> votes s"
            "\<forall>j'. pending s k j' args \<longrightarrow> j' \<notin> counted s k"
          unfolding msgs_inv_def cnt_inv_def by blast+
        then have "j \<notin> counted s k" "finite (counted s k)"
          using was finite_subset [OF old(2)] by auto
        moreover have "j' \<noteq> j" if "pending s' k j' args" for j'
          using that gone by auto
        ultimately show ?thesis
          using True a' num same(2,4) s' old count False pend \<open>j < n\<close> by (cases c) auto
      qed
    qed
  qed
  ultimately show ?thesis by (simp add: msgs_inv_def)
qed

text \<open>Winning: the voters counted are a majority.\<close>

lemma vote_inv_elect:
  assumes "vote_inv n s" and "votes s' = votes s" and "elected s' = insert (T, c) (elected s)"
    and "(T, c) \<notin> elected s \<Longrightarrow> \<exists>Q. majority n Q \<and> (\<forall>v\<in>Q. (T, v, c) \<in> votes s)"
  shows "vote_inv n s'"
  using assms unfolding vote_inv_def by (cases "(T, c) \<in> elected s") auto

lemma win_majority:
  assumes inv: "msgs_inv n s" and ch: "(k, OutRequestVote (int j) args, reply) \<in> checked s"
    and "j < n" and ne: "(rv_Term args, owner s k) \<notin> elected s"
    and gr: "rvr_VoteGranted reply" and gt: "counter s k + 1 > int n div 2"
  shows "\<exists>Q. majority n Q \<and> (\<forall>v\<in>Q. (rv_Term args, v, owner s k) \<in> votes s)"
proof -
  have bk: "backed s k j args reply" and req: "(k, OutRequestVote (int j) args) \<in> reqs s"
    using inv ch unfolding msgs_inv_def rep_inv_def by (auto simp: backed_def)
  have p: "pending s k j args" using ch by (auto simp: pending_def)
  from inv req ne have old: "counter s k = int (card (counted s k))"
      "counted s k \<subseteq> {..<n}" "\<forall>v\<in>counted s k. (rv_Term args, v, owner s k) \<in> votes s"
      "\<forall>j'. pending s k j' args \<longrightarrow> j' \<notin> counted s k"
    unfolding msgs_inv_def cnt_inv_def by blast+
  have "j \<notin> counted s k" using p old(4) by blast
  then have "card (insert j (counted s k)) = Suc (card (counted s k))"
    using finite_subset [OF old(2)] by simp
  then have "majority n (insert j (counted s k))"
    using old(1,2) gt \<open>j < n\<close> by (simp add: majority_def zdiv_int [of n 2, simplified] flip: of_nat_Suc)
  moreover have "\<forall>v\<in>insert j (counted s k). (rv_Term args, v, owner s k) \<in> votes s"
    using old(3) bk gr ne by (auto simp: backed_def)
  ultimately show ?thesis by blast
qed

lemma cinv_vote_switch:
  assumes inv: "cinv n s" and ch: "(k, OutRequestVote (int j) args, reply) \<in> checked s"
    and sw: "sendRequestVote_switch reply (counter s k) ok (srv s (owner s k)) = Inr (rf', num, ret)"
  shows "cinv n ((set_srv (owner s k) rf' s)
      \<lparr>checked := checked s - {(k, OutRequestVote (int j) args, reply)},
       counter := (counter s)(k := num),
       counted := (if counts reply (counter s k) (srv s (owner s k))
                   then (counted s)(k := insert j (counted s k)) else counted s),
       elected := elected s \<union> (if myStatus (srv s (owner s k)) \<noteq> Leader \<and> myStatus rf' = Leader
                               then {(currentTerm rf', owner s k)} else {})\<rparr>)"
    (is "cinv n ?s'")
proof -
  let ?o = "owner s k" and ?rf = "srv s (owner s k)" and ?c = "counts reply (counter s k) (srv s (owner s k))"
  have minv: "msgs_inv n s" and sinv: "srvs_inv n s" and vinv: "vote_inv n s"
    using inv by (simp_all add: cinv_iff)
  have req: "(k, OutRequestVote (int j) args) \<in> reqs s" and bk: "backed s k j args reply"
    using inv ch unfolding cinv_def rep_inv_def by (auto simp: backed_def)
  have o: "?o < n" and jn: "j < n"
    using inv req unfolding cinv_def req_inv_def by fastforce+
  have so: "srv_inv n (votes s) (elected s) ?o (view ?rf)"
    using sinv o by (simp add: srvs_inv_def)
  then have pn: "peers ?rf = n" by (simp add: srv_inv_def)
  have le: "counter s k \<le> int (peers ?rf) div 2"
    using inv req pn unfolding cinv_def cnt_inv_def by fastforce
  have tm: "rv_Term args = currentTerm ?rf" and
    voted: "(rv_Term args, j, ?o) \<in> votes s \<or> (rv_Term args, ?o) \<in> elected s" if ?c
    using that bk by (auto simp: counts_def backed_def)
  from sw le show ?thesis
  proof (cases rule: sendRequestVote_switch_cases)
    case lost
    have m: "msgs_inv n ?s'"
      by (rule msgs_inv_switch [OF minv ch jn, where num = num and c = ?c])
        (use lost le pn in auto)
    have "srvs_inv n ?s'"
      by (rule srvs_inv_quiet [OF sinv lost(1), where t = "rvr_Term reply"]) (use lost in auto)
    moreover have "vote_inv n ?s'" using vinv lost(4) vote_inv_cong [of ?s' s n] by auto
    ultimately show ?thesis using m by (simp add: cinv_iff)
  next
    case counted
    then have st: "myStatus rf' = Leader \<longleftrightarrow> myStatus ?rf = Leader" by (metis view_sel(3))
    have m: "msgs_inv n ?s'"
      by (rule msgs_inv_switch [OF minv ch jn, where num = num and c = ?c])
        (use counted st pn voted in auto)
    have "srvs_inv n ?s'"
      by (rule srvs_inv_change [OF sinv, of _ ?o rf']) (use counted st so in auto)
    moreover have "vote_inv n ?s'" using vinv st vote_inv_cong [of ?s' s n] by auto
    ultimately show ?thesis using m by (simp add: cinv_iff)
  next
    case again
    then have st: "myStatus rf' = Leader" by (metis view_sel(3))
    have el: "(rv_Term args, ?o) \<in> elected s"
      using so again tm by (simp add: srv_inv_def)
    have m: "msgs_inv n ?s'"
      by (rule msgs_inv_switch [OF minv ch jn, where num = num and c = ?c])
        (use again el in auto)
    have "srvs_inv n ?s'"
      by (rule srvs_inv_change [OF sinv, of _ ?o rf']) (use again st so in auto)
    moreover have "vote_inv n ?s'" using vinv again(4) vote_inv_cong [of ?s' s n] by auto
    ultimately show ?thesis using m by (simp add: cinv_iff)
  next
    case won
    have st: "myStatus rf' = Leader" and ct: "currentTerm rf' = currentTerm ?rf"
      using won(1) by (metis vapply.simps(9) view_sel(3) vstate.select_convs(3) vstate.surjective
          vstate.update_convs(3), metis vapply.simps(9) view_sel(1) vstate.select_convs(1)
          vstate.surjective vstate.update_convs(3))
    have E: "elected ?s' = insert (rv_Term args, ?o) (elected s)"
      using won st ct tm by simp
    have m: "msgs_inv n ?s'"
      by (rule msgs_inv_switch [OF minv ch jn, where num = num and c = ?c])
        (use won E in auto)
    have "srvs_inv n ?s'"
      by (rule srvs_inv_change [OF sinv, of _ ?o rf'])
        (use won E tm srv_inv_win [OF so] in auto)
    moreover have "vote_inv n ?s'"
      by (rule vote_inv_elect [OF vinv _ E])
        (use win_majority [OF minv ch jn] won pn in \<open>auto simp: counts_def\<close>)
    ultimately show ?thesis using m by (simp add: cinv_iff)
  qed
qed

text \<open>A tick adds the goroutines of a new election or heartbeat.\<close>

definition new_tick :: "nat \<Rightarrow> ('c, 'd) outgoing list \<Rightarrow> ('c, 'd) cluster \<Rightarrow> ('c, 'd) cluster \<Rightarrow> bool" where
  "new_tick i outs s s' \<longleftrightarrow>
     reqs s' = reqs s \<union> {ticks s} \<times> set outs \<and> waiting s' = waiting s \<union> {ticks s} \<times> set outs \<and>
     counter s' = (counter s)(ticks s := 1) \<and> owner s' = (owner s)(ticks s := i) \<and>
     ticks s' = Suc (ticks s) \<and> counted s' = (counted s)(ticks s := {i}) \<and>
     reps s' = reps s \<and> checked s' = checked s \<and> votes s \<subseteq> votes s' \<and> elected s \<subseteq> elected s'"

text \<open>Nothing refers to a tick that has not happened.\<close>

lemma msgs_inv_old:
  assumes "msgs_inv n s"
  shows "(k, out) \<in> reqs s \<Longrightarrow> k < ticks s" and "(k, out) \<in> waiting s \<Longrightarrow> k < ticks s"
    and "(k, OutRequestVote (int j) a, r) \<in> checked s \<Longrightarrow> k < ticks s"
proof -
  show 1: "(k, out) \<in> reqs s \<Longrightarrow> k < ticks s" for out
    using assms unfolding msgs_inv_def req_inv_def by blast
  show "(k, out) \<in> waiting s \<Longrightarrow> k < ticks s"
    using assms 1 unfolding msgs_inv_def req_inv_def by blast
  show "(k, OutRequestVote (int j) a, r) \<in> checked s \<Longrightarrow> k < ticks s"
    using assms 1 unfolding msgs_inv_def rep_inv_def backed_def by blast
qed

lemma rep_inv_tick:
  assumes "msgs_inv n s" and "new_tick i outs s s'"
  shows "rep_inv s'"
proof -
  note old = msgs_inv_old [OF assms(1)]
  have bk: "backed s' k j a r" if "backed s k j a r" for k j a r
    using that old(1) [of k "OutRequestVote (int j) a"] assms(2)
    unfolding backed_def new_tick_def by auto
  have wt: "(k, out) \<in> waiting s" if "(k, out) \<in> waiting s'" "k < ticks s" for k out
    using that assms(2) unfolding new_tick_def by auto
  have same: "reps s' = reps s" "checked s' = checked s"
    using assms(2) unfolding new_tick_def by simp_all
  show ?thesis
    using assms(1) bk wt old(3) unfolding rep_inv_def same msgs_inv_def by blast
qed

text \<open>The invariants of the old requests carry over; what remains is the new tick.\<close>

lemma req_inv_tick:
  assumes inv: "msgs_inv n s" and t: "new_tick i outs s s'" and i: "i < n"
    and votes: "\<And>j a. OutRequestVote j a \<in> set outs \<Longrightarrow>
        0 \<le> j \<and> j < int n \<and> j \<noteq> int i \<and> rv_Candidate a = int i \<and>
        (\<forall>out\<in>set outs. \<exists>j'. out = OutRequestVote j' a)"
    and apps: "\<And>j a. OutAppendEntries j a \<in> set outs \<Longrightarrow>
        ae_LeaderId a = int i \<and> (ae_Term a, i) \<in> elected s'"
    and snaps: "\<And>j a. OutInstallSnapshot j a \<in> set outs \<Longrightarrow>
        is_LeaderId a = int i \<and> (is_Term a, i) \<in> elected s'"
  shows "req_inv n s'"
proof -
  note old = msgs_inv_old(1) [OF inv]
  have rq: "(k, out) \<in> reqs s' \<longleftrightarrow> (k, out) \<in> reqs s \<or> k = ticks s \<and> out \<in> set outs" for k out
    using t unfolding new_tick_def by auto
  have own: "owner s' k = (if k = ticks s then i else owner s k)" for k
    using t unfolding new_tick_def by simp
  have "waiting s' \<subseteq> reqs s'"
    using inv t unfolding new_tick_def msgs_inv_def req_inv_def by auto
  moreover have "k < ticks s' \<and> owner s' k < n" if "(k, out) \<in> reqs s'" for k out
    using that inv i own [of k] old [of k out] t
    unfolding rq new_tick_def msgs_inv_def req_inv_def by fastforce
  moreover have "0 \<le> j \<and> j < int n \<and> j \<noteq> int (owner s' k) \<and> rv_Candidate a = int (owner s' k) \<and>
        (\<forall>out. (k, out) \<in> reqs s' \<longrightarrow> (\<exists>j'. out = OutRequestVote j' a))"
    if r: "(k, OutRequestVote j a) \<in> reqs s'" for k j a
  proof (cases "k = ticks s")
    case True
    then have "OutRequestVote j a \<in> set outs" using r old rq by blast
    moreover have "out \<in> set outs" if "(k, out) \<in> reqs s'" for out
      using that True old [of k out] rq by blast
    ultimately show ?thesis using votes True own [of k] by auto
  next
    case False
    then have "(k, OutRequestVote j a) \<in> reqs s" using r rq by blast
    with inv False show ?thesis
      unfolding msgs_inv_def req_inv_def rq own by auto
  qed
  moreover have el: "elected s \<subseteq> elected s'" using t unfolding new_tick_def by simp
  moreover have "\<exists>c. ae_LeaderId a = int c \<and> (ae_Term a, c) \<in> elected s'"
    if "(k, OutAppendEntries j a) \<in> reqs s'" for k j a
  proof -
    have "\<exists>c. ae_LeaderId a = int c \<and> (ae_Term a, c) \<in> elected s" if "(k, OutAppendEntries j a) \<in> reqs s"
      using that inv unfolding msgs_inv_def req_inv_def by blast
    then show ?thesis using that rq [of k "OutAppendEntries j a"] apps [of j a] el by blast
  qed
  moreover have "\<exists>c. is_LeaderId a = int c \<and> (is_Term a, c) \<in> elected s'"
    if "(k, OutInstallSnapshot j a) \<in> reqs s'" for k j a
  proof -
    have "\<exists>c. is_LeaderId a = int c \<and> (is_Term a, c) \<in> elected s" if "(k, OutInstallSnapshot j a) \<in> reqs s"
      using that inv unfolding msgs_inv_def req_inv_def by blast
    then show ?thesis using that rq [of k "OutInstallSnapshot j a"] snaps [of j a] el by blast
  qed
  ultimately show ?thesis unfolding req_inv_def by blast
qed

lemma cnt_inv_tick:
  assumes inv: "msgs_inv n s" and t: "new_tick i outs s s'" and i: "i < n"
    and votes: "\<And>j a. OutRequestVote j a \<in> set outs \<Longrightarrow>
        0 \<le> j \<and> j < int n \<and> j \<noteq> int i \<and> (rv_Term a, i, i) \<in> votes s'"
  shows "cnt_inv n s'"
  unfolding cnt_inv_def
proof (intro allI impI)
  note old = msgs_inv_old [OF inv]
  fix k j a assume r: "(k, OutRequestVote j a) \<in> reqs s'"
  have nt: "reqs s' = reqs s \<union> {ticks s} \<times> set outs" "waiting s' = waiting s \<union> {ticks s} \<times> set outs"
    "counter s' = (counter s)(ticks s := 1)" "owner s' = (owner s)(ticks s := i)"
    "counted s' = (counted s)(ticks s := {i})" "checked s' = checked s"
    "votes s \<subseteq> votes s'" "elected s \<subseteq> elected s'"
    using t unfolding new_tick_def by simp_all
  show "counter s' k \<le> int n div 2 \<and>
      ((rv_Term a, owner s' k) \<in> elected s' \<or>
       counter s' k = int (card (counted s' k)) \<and> counted s' k \<subseteq> {..<n} \<and>
       (\<forall>v\<in>counted s' k. (rv_Term a, v, owner s' k) \<in> votes s') \<and>
       (\<forall>j'. pending s' k j' a \<longrightarrow> j' \<notin> counted s' k))"
  proof (cases "k = ticks s")
    case True
    then have out: "OutRequestVote j a \<in> set outs" using r old(1) nt(1) by blast
    have "\<not> pending s' k i a"
      using True old(2,3) votes [of "int i" a] unfolding pending_def nt by blast
    then show ?thesis using True votes [OF out] i by (auto simp: nt)
  next
    case False
    then have "(k, OutRequestVote j a) \<in> reqs s" using r nt(1) by blast
    moreover have "pending s k j' a" if "pending s' k j' a" for j'
      using that False unfolding pending_def nt by auto
    ultimately show ?thesis
      using inv False nt unfolding msgs_inv_def cnt_inv_def by (simp add: subset_iff) metis
  qed
qed

lemma otherPeers_range: "j \<in> set (otherPeers rf) \<Longrightarrow> 0 \<le> j \<and> j < int (peers rf) \<and> j \<noteq> me rf"
  by (auto simp: otherPeers_def)

lemma cinv_tick:
  assumes inv: "cinv n s" and i: "i < n" and tk: "ticker_tick r (srv s i) = Inr (rf', outs)"
  shows "cinv n ((set_srv i rf' s)
      \<lparr>reqs := reqs s \<union> {ticks s} \<times> set outs, waiting := waiting s \<union> {ticks s} \<times> set outs,
       counter := (counter s)(ticks s := 1), owner := (owner s)(ticks s := i),
       ticks := Suc (ticks s),
       votes := votes s \<union> (if currentTerm rf' \<noteq> currentTerm (srv s i)
                           then {(currentTerm rf', i, i)} else {}),
       counted := (counted s)(ticks s := {i})\<rparr>)"
    (is "cinv n ?s'")
proof -
  have minv: "msgs_inv n s" and sinv: "srvs_inv n s" and vinv: "vote_inv n s"
    using inv by (simp_all add: cinv_iff)
  have t: "new_tick i outs s ?s'" by (auto simp: new_tick_def)
  have si: "srv_inv n (votes s) (elected s) i (view (srv s i))"
    using sinv i by (simp add: srvs_inv_def)
  then have me: "me (srv s i) = int i" and pn: "peers (srv s i) = n" by (simp_all add: srv_inv_def)
  from tk show ?thesis
  proof (cases rule: ticker_tick_cases)
    case idle
    have "msgs_inv n ?s'" unfolding msgs_inv_def
      using req_inv_tick [OF minv t i] rep_inv_tick [OF minv t] cnt_inv_tick [OF minv t i] idle
      by simp
    moreover have "srvs_inv n ?s'"
      by (rule srvs_inv_change [OF sinv, of _ i rf']) (use idle si in auto)
    ultimately show ?thesis using vinv idle by (simp add: cinv_iff vote_inv_def)
  next
    case (campaign a)
    let ?T = "currentTerm (srv s i) + 1"
    have ct: "currentTerm rf' = ?T" by (metis campaign(1) vapply.simps(8) view_sel(1)
          vstate.ext_inject vstate.surjective vstate.update_convs(1-5))
    then have V: "votes ?s' = insert (?T, i, i) (votes s)" by simp
    have out: "0 \<le> j \<and> j < int n \<and> j \<noteq> int i \<and> b = a" if "OutRequestVote j b \<in> set outs" for j b
      using that otherPeers_range [of j "srv s i"] me pn by (auto simp: campaign(2))
    have cand: "rv_Candidate a = int i" using campaign(4) me by simp
    have isv: "\<exists>j. x = OutRequestVote j a" if "x \<in> set outs" for x
      using that by (auto simp: campaign(2))
    have "msgs_inv n ?s'" unfolding msgs_inv_def
    proof (intro conjI rep_inv_tick [OF minv t])
      show "req_inv n ?s'"
        by (rule req_inv_tick [OF minv t i]) (use out cand isv in \<open>fastforce+\<close>)
      show "cnt_inv n ?s'"
        by (rule cnt_inv_tick [OF minv t i]) (use out V campaign(3) in \<open>fastforce+\<close>)
    qed
    moreover have "srvs_inv n ?s'"
      by (rule srvs_inv_change [OF sinv, of _ i rf'])
        (use V srv_inv_campaign [OF si] campaign(1) in auto)
    moreover have "vote_inv n ?s'"
      by (rule vote_inv_insert [OF vinv _ V]) (use si in \<open>fastforce simp: srv_inv_def\<close>)+
    ultimately show ?thesis by (simp add: cinv_iff)
  next
    case heartbeat
    have ct: "currentTerm rf' = currentTerm (srv s i)" by (metis heartbeat(1) view_sel(1))
    have el: "(currentTerm (srv s i), i) \<in> elected s" using si heartbeat(2) by (simp add: srv_inv_def)
    have out: "leader_req (currentTerm (srv s i)) (int i) out" if "out \<in> set outs" for out
      using heartbeat(3) that me by auto
    have "msgs_inv n ?s'" unfolding msgs_inv_def
    proof (intro conjI rep_inv_tick [OF minv t])
      show "req_inv n ?s'"
        by (rule req_inv_tick [OF minv t i]) (use out el in \<open>auto dest!: out\<close>)
      show "cnt_inv n ?s'"
        by (rule cnt_inv_tick [OF minv t i]) (use out in \<open>auto dest!: out\<close>)
    qed
    moreover have "srvs_inv n ?s'"
      by (rule srvs_inv_change [OF sinv, of _ i rf']) (use ct si heartbeat(1) in auto)
    ultimately show ?thesis using vinv ct by (simp add: cinv_iff vote_inv_def)
  qed
qed

text \<open>A restart goes back to the saved term and vote; the old goroutines are gone.\<close>

lemma restart_persister_id: "restart_persister ps = ps"
  by (simp add: restart_persister_def Copy_id SaveStateAndSnapshot_def ReadRaftState_def
      ReadSnapshot_def MakePersister_def)

lemma view_restart:
  "view (Make (peers rf) (me rf) (restart_persister (persister rf)) r :: ('c, 'd) Raft) =
     (view (rf :: ('c, 'd) Raft))\<lparr>vt := savedTerm rf, vv := savedVote rf, vl := False\<rparr>"
proof -
  let ?rf = "Make (peers rf) (me rf) (persister rf) r :: ('c, 'd) Raft"
  have p: "persister ?rf = persister rf" "peers ?rf = peers rf" "me ?rf = me rf"
    "myStatus ?rf = Follower"
    by (simp_all add: Make_def readPersist_fields)
  have "currentTerm ?rf = savedTerm rf" "voteFor ?rf = savedVote rf"
    unfolding savedTerm_def savedVote_def Make_def by (rule readPersist_indep; simp)+
  moreover have "savedTerm ?rf = savedTerm rf" "savedVote ?rf = savedVote rf"
    using p saved_cong by blast+
  ultimately show ?thesis
    using p by (simp add: view_def restart_persister_id)
qed

lemma cinv_restart:
  fixes s :: "('c, 'd) cluster"
  assumes inv: "cinv n s" and i: "i < n"
  shows "cinv n ((set_srv i (Make n (int i) (restart_persister (persister (srv s i))) r) s)
      \<lparr>waiting := {(k, out) \<in> waiting s. owner s k \<noteq> i},
       checked := {(k, out, reply) \<in> checked s. owner s k \<noteq> i}\<rparr>)"
    (is "cinv n ?s'")
proof -
  have si: "srv_inv n (votes s) (elected s) i (view (srv s i))"
    using inv i by (simp add: cinv_def srvs_inv_def)
  then have "me (srv s i) = int i" "peers (srv s i) = n" by (simp_all add: srv_inv_def)
  then have v: "view (Make n (int i) (restart_persister (persister (srv s i))) r :: ('c, 'd) Raft) =
      (view (srv s i))\<lparr>vt := st (view (srv s i)), vv := sv (view (srv s i)), vl := False\<rparr>"
    using view_restart [of "srv s i" r] by simp
  have "srvs_inv n ?s'"
    by (rule srvs_inv_change [of n s _ i]) (use inv srv_inv_restart [OF si] v in \<open>auto simp: cinv_def\<close>)
  moreover have "msgs_inv n ?s'"
    by (rule msgs_inv_frame [of n s]) (use inv in \<open>auto simp: cinv_iff\<close>)
  moreover have "vote_inv n ?s'" using inv by (simp add: cinv_def vote_inv_def)
  ultimately show ?thesis by (simp add: cinv_iff)
qed

section \<open>Election safety\<close>

lemma cstep_cinv: "cstep n s s' \<Longrightarrow> cinv n s \<Longrightarrow> cinv n s'"
proof (induction rule: cstep.induct)
  case (append_reply k j args s reply ok rf' num ret)
  have nv: "(k, OutRequestVote j' a) \<notin> reqs s" for j' a
    using append_reply.hyps(1) append_reply.prems req_inv_kind [of n s k j' a]
    unfolding cinv_def req_inv_def by blast
  then show ?case
    by (intro cinv_quiet [OF append_reply.prems
          sendAppendEntries_recv_moved [OF append_reply.hyps(3)], where t = "aer_Term reply"]) auto
next
  case (snap_reply k j args s reply rf' ret)
  then show ?case
    by (intro cinv_quiet [OF snap_reply.prems
          sendInstallSnapshot_recv_moved [OF snap_reply.hyps(3)], where t = "isr_Term reply"]) auto
next
  case (start i c s rf' res)
  show ?case by (rule cinv_quiet [OF start.prems Start_moved [OF start.hyps(2)]]) auto
next
  case (get_state i s rf' res)
  show ?case by (rule cinv_quiet [OF get_state.prems GetState_moved [OF get_state.hyps(2)]]) auto
next
  case (snapshot i index d s rf')
  show ?case by (rule cinv_quiet [OF snapshot.prems Snapshot_moved [OF snapshot.hyps(2)]]) auto
next
  case (cond_install i t index d s rf' b)
  show ?case
    by (rule cinv_quiet [OF cond_install.prems CondInstallSnapshot_moved [OF cond_install.hyps(2)]]) auto
next
  case (kill i s rf')
  show ?case by (rule cinv_quiet [OF kill.prems Kill_moved [OF kill.hyps(2)]]) auto
qed (blast intro: cinv_tick cinv_recv_vote cinv_vote_check cinv_vote_switch cinv_recv_append
    cinv_recv_snap cinv_restart)+

lemma creachable_cinv: "creachable n s \<Longrightarrow> cinv n s"
  by (induction rule: creachable.induct) (auto intro: cinv_init cstep_cinv)

text \<open>
  C1: Election safety. In every state the group can reach, through lost, repeated, delayed and
  reordered messages, crashes and restarts, two peers that are leaders in the same term are the
  same peer.
\<close>

theorem election_safety:
  assumes "creachable n s" and "i < n" and "j < n"
    and "myStatus (srv s i) = Leader" and "myStatus (srv s j) = Leader"
    and "currentTerm (srv s i) = currentTerm (srv s j)"
  shows "i = j"
proof -
  let ?T = "currentTerm (srv s i)"
  have inv: "srvs_inv n s" "vote_inv n s"
    using creachable_cinv [OF assms(1)] by (simp_all add: cinv_def)
  then have "(?T, i) \<in> elected s" "(?T, j) \<in> elected s"
    using assms(2-6) by (auto simp: srvs_inv_def srv_inv_def)
  then obtain P Q where "majority n P" "majority n Q"
      "\<forall>v\<in>P. (?T, v, i) \<in> votes s" "\<forall>v\<in>Q. (?T, v, j) \<in> votes s"
    using inv(2) unfolding vote_inv_def by meson
  moreover have "x = y" if "(?T, v, x) \<in> votes s" "(?T, v, y) \<in> votes s" for v x y
    using that inv(2) unfolding vote_inv_def by blast
  ultimately show ?thesis
    by (rule maj.unique_winner [of n P Q "\<lambda>v c. (?T, v, c) \<in> votes s"])
qed

text \<open>A run in which peer 0 of three is elected in term 1 by the vote of peer 1.\<close>

lemma leader_run: "\<exists>s :: (nat, nat) cluster. creachable 3 s \<and>
  myStatus (srv s 0) = Leader \<and> currentTerm (srv s 0) = 1"
proof -
  let ?s0 = "init_cluster 3 (\<lambda>_. 0) :: (nat, nat) cluster"
  let ?a = "\<lparr>rv_Term = 1, rv_Candidate = 0, rv_LastLogIndex = 0, rv_LastLogTerm = 0\<rparr>"
  let ?out = "OutRequestVote (int 1) ?a :: (nat, nat) outgoing"
  have r0: "creachable 3 ?s0" by (rule creachable.init)
  have "\<exists>rf1 outs. ticker_tick 0 (srv ?s0 0) = Inr (rf1, outs) \<and> ?out \<in> set outs \<and>
     \<not> mu rf1 \<and> \<not> dead rf1 \<and> currentTerm rf1 = 1 \<and> myStatus rf1 = Candidate \<and> peers rf1 = 3"
    by (simp add: init_cluster_def ticker_tick_def killed_def Make_def readPersist_def
        MakePersister_def ReadRaftState_def startElection_def voteArgs_def otherPeers_def persist_eq
        Unlock_def timer_Reset_def upt_conv_Cons)
  then obtain rf1 outs where t: "ticker_tick 0 (srv ?s0 0) = Inr (rf1, outs)" "?out \<in> set outs"
     and rf1: "\<not> mu rf1" "\<not> dead rf1" "currentTerm rf1 = 1" "myStatus rf1 = Candidate" "peers rf1 = 3"
    by blast
  obtain s1 :: "(nat, nat) cluster" where r1: "creachable 3 s1"
    and s1: "srv s1 0 = rf1" "srv s1 1 = srv ?s0 1" "(0, ?out) \<in> reqs s1" "(0, ?out) \<in> waiting s1"
      "owner s1 0 = 0" "counter s1 0 = 1"
    using creachable.step [OF r0 cstep.tick [OF _ _ _ t(1)]] t(2)
    by (force simp: init_cluster_def)
  let ?rep = "\<lparr>rvr_Term = 1, rvr_VoteGranted = True, rvr_VoteErr = VoteErr_Nil\<rparr>"
  have "\<exists>rf2. RequestVote ?a (srv s1 1) = Inr (rf2, ?rep)" unfolding s1(2)
    by (simp add: init_cluster_def RequestVote_def killed_def Make_def readPersist_def
        MakePersister_def ReadRaftState_def candidateLogIndexTooOld_def candidateLogTermTooOld_def
        timer_Reset_def)
  then obtain rf2 where rf2: "RequestVote ?a (srv s1 1) = Inr (rf2, ?rep)" by blast
  obtain s2 :: "(nat, nat) cluster" where r2: "creachable 3 s2"
    and s2: "srv s2 0 = rf1" "(0, ?out) \<in> waiting s2" "(0, ?out, RepVote ?rep) \<in> reps s2"
      "owner s2 0 = 0" "counter s2 0 = 1"
    using creachable.step [OF r1 cstep.recv_vote [OF s1(3) _ rf2]] s1 by force
  have ck: "sendRequestVote_check ?a (srv s2 (owner s2 0)) = Inr (Unlock (rf1\<lparr>mu := True\<rparr>), True)"
    using rf1 s2 by (simp add: sendRequestVote_check_def killed_def)
  obtain s3 :: "(nat, nat) cluster" where r3: "creachable 3 s3"
    and s3: "srv s3 0 = Unlock (rf1\<lparr>mu := True\<rparr>)" "(0, ?out, ?rep) \<in> checked s3"
      "owner s3 0 = 0" "counter s3 0 = 1"
    using creachable.step [OF r2 cstep.vote_check [OF s2(2,3) ck]] s2 by force
  have "\<exists>rf4 num ret. sendRequestVote_switch ?rep (counter s3 0) True (srv s3 (owner s3 0)) =
     Inr (rf4, num, ret) \<and> myStatus rf4 = Leader \<and> currentTerm rf4 = 1"
    using rf1 s3 by (simp add: sendRequestVote_switch_def Unlock_def timer_Reset_def) blast
  then obtain rf4 num ret where
    sw: "sendRequestVote_switch ?rep (counter s3 0) True (srv s3 (owner s3 0)) = Inr (rf4, num, ret)"
    and "myStatus rf4 = Leader" "currentTerm rf4 = 1" by blast
  then show ?thesis
    using creachable.step [OF r3 cstep.vote_switch [OF s3(2) sw]] s3(3) by force
qed

lemma election_safety_witness:
  "\<exists>s :: (nat, nat) cluster. creachable 3 s \<and> myStatus (srv s 0) = Leader \<and>
     {j. j < 3 \<and> myStatus (srv s j) = Leader \<and> currentTerm (srv s j) = currentTerm (srv s 0)} = {0}"
proof -
  obtain s :: "(nat, nat) cluster" where s: "creachable 3 s" "myStatus (srv s 0) = Leader"
    using leader_run by blast
  have "j = 0" if "j < 3" "myStatus (srv s j) = Leader" "currentTerm (srv s j) = currentTerm (srv s 0)" for j
    using election_safety [OF s(1) that(1), of 0] s(2) that by simp
  with s show ?thesis by (intro exI [of _ s]) auto
qed

text \<open>Every move keeps or raises the saved term.\<close>

lemma moved_saved_mono:
  assumes "moved ms rf rf'" and "savedTerm rf \<le> currentTerm rf"
  shows "savedTerm rf \<le> savedTerm rf'"
proof -
  from assms(1) obtain m where g: "vguard m (view rf)" and v: "view rf' = vapply m (view rf)"
    by (auto simp: moved_def)
  have "savedTerm rf' = st (vapply m (view rf))" using v by (metis view_sel(4))
  with g assms(2) show ?thesis by (cases m) auto
qed

lemma cstep_moved:
  assumes "cstep n s s'" and "cinv n s" and "i < n"
  shows "(\<exists>ms. moved ms (srv s i) (srv s' i)) \<or>
    (\<exists>r. srv s' i = Make n (int i) (restart_persister (persister (srv s i))) r)"
proof -
  have keep: "moved {Keep} rf rf" for rf :: "('a, 'b) Raft" by (simp add: moved_def)
  have upd: ?thesis if "moved ms (srv s j) rf'" "srv s' = (srv s)(j := rf')" for ms j rf'
    using that keep by (cases "i = j") auto
  from assms(1) show ?thesis
  proof (cases rule: cstep.cases)
    case (tick j r rf' outs)
    from tick(5) have "moved {Keep, Campaign} (srv s j) rf'"
      by (cases rule: ticker_tick_cases) (auto simp: moved_def)
    then show ?thesis by (rule upd) (simp add: tick)
  next
    case (recv_vote k j args rf' reply)
    then have "rv_Candidate args \<noteq> -1"
      using assms(2) unfolding cinv_def req_inv_def by fastforce
    then obtain ms where "moved ms (srv s j) rf'"
      using RequestVote_fresh(1) RequestVote_other recv_vote(4) by blast
    then show ?thesis by (rule upd) (simp add: recv_vote)
  next
    case (vote_switch k j args reply ok rf' num ret)
    show ?thesis by (rule upd [OF sendRequestVote_switch_moved [OF vote_switch(3)]]) (simp add: vote_switch)
  next
    case (restart j r)
    then show ?thesis using keep by (cases "i = j") auto
  qed ((rule upd, erule sendRequestVote_check_moved AppendEntries_moved
      sendAppendEntries_recv_moved InstallSnapshot_moved sendInstallSnapshot_recv_moved Start_moved
      GetState_moved Snapshot_moved CondInstallSnapshot_moved Kill_moved, simp)+)
qed

text \<open>
  The term a peer would come back with never decreases: whatever happens in the group,
  including restarts, no step lowers the term in any peer's persister.
\<close>

theorem saved_term_monotone:
  assumes "creachable n s" and "cstep n s s'" and "i < n"
  shows "savedTerm (srv s i) \<le> savedTerm (srv s' i)"
proof -
  have inv: "cinv n s" by (rule creachable_cinv [OF assms(1)])
  then have si: "srv_inv n (votes s) (elected s) i (view (srv s i))"
    using assms(3) by (simp add: cinv_def srvs_inv_def)
  then have p: "me (srv s i) = int i" "peers (srv s i) = n" "savedTerm (srv s i) \<le> currentTerm (srv s i)"
    by (simp_all add: srv_inv_def)
  from cstep_moved [OF assms(2) inv assms(3)] show ?thesis
  proof
    assume "\<exists>ms. moved ms (srv s i) (srv s' i)"
    then show ?thesis using moved_saved_mono p(3) by blast
  next
    assume "\<exists>r. srv s' i = Make n (int i) (restart_persister (persister (srv s i))) r"
    then obtain r where "view (srv s' i) = (view (srv s i))
        \<lparr>vt := savedTerm (srv s i), vv := savedVote (srv s i), vl := False\<rparr>"
      using view_restart [of "srv s i"] p by metis
    then have "st (view (srv s' i)) = st (view (srv s i))" by simp
    then show ?thesis by simp
  qed
qed

lemma saved_term_monotone_witness:
  "\<exists>s s' :: (nat, nat) cluster. creachable 3 s \<and> cstep 3 s s' \<and>
     savedTerm (srv s 0) \<le> savedTerm (srv s' 0)"
proof -
  let ?s = "init_cluster 3 (\<lambda>_. 0) :: (nat, nat) cluster"
  have r: "creachable 3 ?s" by (rule creachable.init)
  obtain rf outs where "ticker_tick 0 (srv ?s 0) = Inr (rf, outs)"
    by (simp add: init_cluster_def ticker_tick_def killed_def Make_def readPersist_def
        MakePersister_def ReadRaftState_def startElection_def Let_def)
  from cstep.tick [OF _ _ _ this, of 3] obtain s' where s': "cstep 3 ?s s'"
    by (auto simp: init_cluster_def)
  show ?thesis using r s' saved_term_monotone [OF r s', of 0] by auto
qed

end
