(* ===== verification/Raft_Props.thy ===== *)
theory Raft_Props
  imports Raft_View
begin

text \<open>
  Properties of a single peer and of the exchange between a leader and a follower: requests are
  handled without panics, entries are applied in order, votes go to candidates that are up to
  date and survive a restart, heartbeats carry the leader's log, and the leader commits entries
  of its own term only. The last section proves four defects of the code.
\<close>

section \<open>Handling AppendEntries\<close>

text \<open>
  The channel \<open>applyCh\<close> is unbuffered: a send returns when the reader of the service takes the message.
  The handlers of \<open>Raft_Peer\<close> record the messages in \<open>applyChan\<close> as if the reader took each one.
  Here the reader takes the next \<open>r\<close> messages and no more, and the handler stops at the first
  send that finds no reader: it then waits there in the state of the peer at that moment, mutex included.
\<close>

datatype ('r, 'a) attempt = Waits 'r | Finished 'a

function apply_loop_with :: "nat \<Rightarrow> int \<Rightarrow> ('c, 'd) Raft \<Rightarrow> (('c, 'd) Raft, ('c, 'd) Raft) attempt go" where
  "apply_loop_with r target rf =
     (if lastApplied rf < target then
        let rf = rf\<lparr>lastApplied := lastApplied rf + 1\<rparr>
        in go_bind (go_index (logs rf) (lastApplied rf - lastIncludeIndex rf - 1)) (\<lambda>e.
             case r of
               0 \<Rightarrow> Inr (Waits rf)
             | Suc r' \<Rightarrow>
                 let rf = rf\<lparr>applyChan := applyChan rf @ [commandMsg (le_Cmd e) (lastApplied rf)]\<rparr>;
                     rf = rf\<lparr>commitIndex := lastApplied rf\<rparr>
                 in apply_loop_with r' target rf)
      else Inr (Finished rf))"
  by pat_completeness auto
termination
  by (relation "measure (\<lambda>(r, target, rf). r)") auto

declare apply_loop_with.simps [simp del]

definition AppendEntries_with ::
    "nat \<Rightarrow> 'c AppendEntriesArgs \<Rightarrow> ('c, 'd) Raft \<Rightarrow> (('c, 'd) Raft, ('c, 'd) Raft \<times> AppendEntriesReply) attempt go" where
  "AppendEntries_with r args rf =
     (if killed rf then
        Inr (Finished (rf, \<lparr>aer_Term = -1, aer_Success = False, aer_AppendErr = AppendErr_RaftKilled,
                            aer_NotMatchIndex = 0\<rparr>))
      else go_bind (Lock rf) (\<lambda>rf.
        if ae_Term args < currentTerm rf \<or> ae_PrevLogIndex args < lastIncludeIndex rf then
          Inr (Finished (Unlock rf,
               \<lparr>aer_Term = currentTerm rf, aer_Success = False,
                aer_AppendErr = AppendErr_ReqOutofDate, aer_NotMatchIndex = -1\<rparr>))
        else
          let rf = acceptLeader (ae_Term args) (ae_LeaderId args) rf
          in go_bind (logsNotMatch args rf) (\<lambda>nomatch.
               if nomatch then
                 Inr (Finished (Unlock (persist rf),
                      \<lparr>aer_Term = currentTerm rf, aer_Success = False,
                       aer_AppendErr = AppendErr_LogsNotMatch,
                       aer_NotMatchIndex = lastApplied rf + 1\<rparr>))
               else if lastApplied rf > ae_PrevLogIndex args then
                 Inr (Finished (Unlock (persist rf),
                      \<lparr>aer_Term = currentTerm rf, aer_Success = False,
                       aer_AppendErr = AppendErr_Commited,
                       aer_NotMatchIndex = lastApplied rf + 1\<rparr>))
               else
                 go_bind (takeEntries args rf) (\<lambda>rf.
                 go_bind (apply_loop_with r (ae_LeaderCommit args) rf) (\<lambda>a.
                   case a of
                     Waits rf \<Rightarrow> Inr (Waits rf)
                   | Finished rf \<Rightarrow>
                       Inr (Finished (Unlock (persist rf),
                        \<lparr>aer_Term = currentTerm rf, aer_Success = True,
                         aer_AppendErr = AppendErr_Nil, aer_NotMatchIndex = -1\<rparr>)))))))"

lemma apply_loop_progress:
  "apply_loop target rf = Inr rf' \<Longrightarrow> (\<exists>ms. applyChan rf' = applyChan rf @ ms) \<and> lastApplied rf' = max (lastApplied rf) target"
proof (induction target rf rule: apply_loop.induct)
  case (1 target rf)
  show ?case
  proof (cases "lastApplied rf < target")
    case True
    then obtain e where e: "go_index (logs rf) (lastApplied rf - lastIncludeIndex rf) = Inr e"
      and go: "apply_loop target (rf\<lparr>lastApplied := lastApplied rf + 1,
        applyChan := applyChan rf @ [commandMsg (le_Cmd e) (lastApplied rf + 1)], commitIndex := lastApplied rf + 1\<rparr>) = Inr rf'"
      using 1(2) by (auto simp: apply_loop.simps [of target rf] Let_def)
    show ?thesis using 1(1) [OF True refl refl refl, of e] go True by auto
  qed (use 1(2) in \<open>simp add: apply_loop.simps [of target rf]\<close>)
qed

text \<open>What is due to the reader, and where the loop stops when it takes less.\<close>

lemma apply_loop_with_enough:
  assumes "apply_loop target rf = Inr rf'" and "target - lastApplied rf \<le> int r"
  shows "apply_loop_with r target rf = Inr (Finished rf')"
  using assms
proof (induction r arbitrary: rf)
  case 0
  then show ?case by (simp add: apply_loop.simps [of target rf] apply_loop_with.simps [of 0])
next
  case (Suc r)
  show ?case
  proof (cases "lastApplied rf < target")
    case True
    then obtain e where e: "go_index (logs rf) (lastApplied rf - lastIncludeIndex rf) = Inr e"
      using Suc.prems(1) by (auto simp: apply_loop.simps [of target rf] Let_def)
    let ?rf = "rf\<lparr>lastApplied := lastApplied rf + 1, applyChan := applyChan rf @ [commandMsg (le_Cmd e) (lastApplied rf + 1)],
      commitIndex := lastApplied rf + 1\<rparr>"
    have "apply_loop target ?rf = Inr rf'" using Suc.prems(1) True e by (simp add: apply_loop.simps [of target rf] Let_def)
    then have "apply_loop_with r target ?rf = Inr (Finished rf')" using Suc.prems(2) by (intro Suc.IH) simp_all
    then show ?thesis using True e by (simp add: apply_loop_with.simps [of "Suc r"] Let_def)
  qed (use Suc.prems in \<open>simp add: apply_loop.simps [of target rf] apply_loop_with.simps [of "Suc r"]\<close>)
qed

lemma apply_loop_with_short:
  assumes "apply_loop target rf = Inr rf'" and "int r < target - lastApplied rf"
  shows "\<exists>w. apply_loop_with r target rf = Inr (Waits w) \<and> mu w = mu rf \<and> lastApplied w = lastApplied rf + int r + 1 \<and>
    applyChan w = take (length (applyChan rf) + r) (applyChan rf') \<and> length (applyChan w) = length (applyChan rf) + r"
  using assms
proof (induction r arbitrary: rf)
  case (Suc r)
  obtain e where e: "go_index (logs rf) (lastApplied rf - lastIncludeIndex rf) = Inr e"
    using Suc.prems by (auto simp: apply_loop.simps [of target rf] Let_def)
  let ?rf = "rf\<lparr>lastApplied := lastApplied rf + 1, applyChan := applyChan rf @ [commandMsg (le_Cmd e) (lastApplied rf + 1)],
    commitIndex := lastApplied rf + 1\<rparr>"
  have "apply_loop target ?rf = Inr rf'" using Suc.prems e by (simp add: apply_loop.simps [of target rf] Let_def)
  then have "\<exists>w. apply_loop_with r target ?rf = Inr (Waits w) \<and> mu w = mu ?rf \<and> lastApplied w = lastApplied ?rf + int r + 1 \<and>
      applyChan w = take (length (applyChan ?rf) + r) (applyChan rf') \<and> length (applyChan w) = length (applyChan ?rf) + r"
    using Suc.prems(2) by (intro Suc.IH) simp_all
  then show ?case using Suc.prems(2) e by (simp add: apply_loop_with.simps [of "Suc r"] Let_def algebra_simps)
next
  case 0
  then obtain ms where "applyChan rf' = applyChan rf @ ms" using apply_loop_progress by blast
  then show ?case using 0 by (auto simp: apply_loop.simps [of target rf] apply_loop_with.simps [of 0] Let_def)
qed

text \<open>Either the handler returns before the loop, or it is the loop followed by \<open>persist\<close> and \<open>Unlock\<close>.\<close>

lemma AppendEntries_phases:
  assumes "AppendEntries args rf = Inr (rf', reply)"
  obtains (early) "lastApplied rf' = lastApplied rf" "\<And>r. AppendEntries_with r args rf = Inr (Finished (rf', reply))"
  | (loop) rf1 rf2 where "mu rf1" "lastApplied rf1 = lastApplied rf" "applyChan rf1 = applyChan rf"
      "apply_loop (ae_LeaderCommit args) rf1 = Inr rf2" "rf' = Unlock (persist rf2)"
      "\<And>r. AppendEntries_with r args rf = go_bind (apply_loop_with r (ae_LeaderCommit args) rf1)
        (\<lambda>a. case a of Waits w \<Rightarrow> Inr (Waits w) | Finished rf3 \<Rightarrow> Inr (Finished (Unlock (persist rf3),
          \<lparr>aer_Term = currentTerm rf3, aer_Success = True, aer_AppendErr = AppendErr_Nil, aer_NotMatchIndex = -1\<rparr>)))"
      "reply = \<lparr>aer_Term = currentTerm rf2, aer_Success = True, aer_AppendErr = AppendErr_Nil, aer_NotMatchIndex = -1\<rparr>"
proof -
  let ?rf1 = "acceptLeader (ae_Term args) (ae_LeaderId args) (rf\<lparr>mu := True\<rparr>)"
  show thesis
  proof (cases "\<not> killed rf \<and> \<not> mu rf \<and> \<not> (ae_Term args < currentTerm rf \<or> ae_PrevLogIndex args < lastIncludeIndex rf) \<and>
      logsNotMatch args ?rf1 = Inr False \<and> \<not> lastApplied rf > ae_PrevLogIndex args")
    case True
    then obtain rf2 rf3 where t: "takeEntries args ?rf1 = Inr rf2" "apply_loop (ae_LeaderCommit args) rf2 = Inr rf3"
      "rf' = Unlock (persist rf3)" "reply = \<lparr>aer_Term = currentTerm rf3, aer_Success = True, aer_AppendErr = AppendErr_Nil, aer_NotMatchIndex = -1\<rparr>"
      using assms by (auto simp: AppendEntries_def Lock_def Let_def)
    moreover have "mu rf2" "lastApplied rf2 = lastApplied rf" "applyChan rf2 = applyChan rf"
      using t(1) by (auto simp: takeEntries_def split: option.splits)
    ultimately show thesis using True by (intro loop [of rf2 rf3]) (auto simp: AppendEntries_with_def Lock_def Let_def)
  next
    case False
    then show thesis using assms
      by (intro early) (auto simp: AppendEntries_def AppendEntries_with_def Lock_def Unlock_def Let_def split: if_splits)
  qed
qed

text \<open>
  C14: On a request of the shape a leader builds, AppendEntries never panics: whatever log the
  follower has, no index or slice bound of the handler is out of range. Its sends to the unbuffered apply channel are
  made with the mutex held, so whether it ends depends on the reader: if the reader takes as many messages as
  \<open>lastApplied\<close> advances, the handler ends, the mutex is released and the index invariant holds again; if the reader takes fewer,
  the handler waits at the next send with the mutex locked, and \<open>CondInstallSnapshot\<close>, with which the reader answers
  a snapshot, then waits for that mutex, so that neither goes on.
\<close>

theorem AppendEntries_no_panic:
  assumes "raft_ok rf" and "ae_ok args" and "\<not> mu rf"
  shows "\<exists>rf' reply. AppendEntries args rf = Inr (rf', reply) \<and> raft_ok rf' \<and> \<not> mu rf' \<and>
    (\<forall>r. if lastApplied rf' - lastApplied rf \<le> int r then AppendEntries_with r args rf = Inr (Finished (rf', reply))
       else \<exists>w. AppendEntries_with r args rf = Inr (Waits w) \<and> mu w \<and> lastApplied w = lastApplied rf + int r + 1 \<and>
         applyChan w = take (length (applyChan rf) + r) (applyChan rf') \<and> length (applyChan w) = length (applyChan rf) + r \<and>
         (\<forall>term index snap. CondInstallSnapshot term index snap w = Inl Blocked))"
proof -
  obtain rf' reply where A: "AppendEntries args rf = Inr (rf', reply)" "raft_ok rf'" "\<not> mu rf'"
    using AppendEntries_returns [OF assms] AppendEntries_ok [OF assms(1,2)] by blast
  have "if lastApplied rf' - lastApplied rf \<le> int r then AppendEntries_with r args rf = Inr (Finished (rf', reply))
       else \<exists>w. AppendEntries_with r args rf = Inr (Waits w) \<and> mu w \<and> lastApplied w = lastApplied rf + int r + 1 \<and>
         applyChan w = take (length (applyChan rf) + r) (applyChan rf') \<and> length (applyChan w) = length (applyChan rf) + r \<and>
         (\<forall>term index snap. CondInstallSnapshot term index snap w = Inl Blocked)" for r
    using A(1)
  proof (cases rule: AppendEntries_phases)
    case (loop rf1 rf2)
    have last: "lastApplied rf' = max (lastApplied rf) (ae_LeaderCommit args)" "applyChan rf' = applyChan rf2"
      using apply_loop_progress [OF loop(4)] loop(2,5) by (simp_all add: Unlock_def)
    show ?thesis
    proof (cases "lastApplied rf' - lastApplied rf \<le> int r")
      case True
      then have "ae_LeaderCommit args - lastApplied rf1 \<le> int r" using last(1) loop(2) by simp
      from apply_loop_with_enough [OF loop(4) this] show ?thesis using True loop(5-7) by simp
    next
      case False
      then have "int r < ae_LeaderCommit args - lastApplied rf1" using last(1) loop(2) by simp
      from apply_loop_with_short [OF loop(4) this] show ?thesis
        using False loop(1-3,6) last(2) by (auto simp: CondInstallSnapshot_def Lock_def)
    qed
  qed simp
  then show ?thesis using A by blast
qed

text \<open>A follower with one entry of term 1 after the sentinel, and a request that appends two.\<close>

definition sample_follower :: "(nat, nat) Raft" where
  "sample_follower = (Make 3 1 MakePersister 0)\<lparr>currentTerm := 1,
     logs := [\<lparr>le_Term = 0, le_Cmd = None\<rparr>, \<lparr>le_Term = 1, le_Cmd = Some 7\<rparr>]\<rparr>"

definition sample_append :: "nat AppendEntriesArgs" where
  "sample_append = \<lparr>ae_Term = 1, ae_LeaderId = 0, ae_PrevLogIndex = 1, ae_PrevLogTerm = 1,
     ae_Logs = Some [\<lparr>le_Term = 1, le_Cmd = Some 8\<rparr>, \<lparr>le_Term = 1, le_Cmd = Some 9\<rparr>],
     ae_LeaderCommit = 2, ae_LogIndex = 3\<rparr>"

lemmas fresh_peer = Make_def readPersist_def MakePersister_def ReadRaftState_def

lemma sample_follower_ok: "raft_ok sample_follower" "\<not> mu sample_follower" "ae_ok sample_append"
  by (simp_all add: sample_follower_def sample_append_def raft_ok_def lastLogIndex_def fresh_peer
      ae_ok_def ae_len_def)

text \<open>The request makes two entries due: a reader that takes both lets the handler end, one that takes one does not.\<close>

lemma AppendEntries_no_panic_witness:
  "raft_ok sample_follower \<and> ae_ok sample_append \<and> \<not> mu sample_follower \<and>
   (\<exists>rf' reply. AppendEntries sample_append sample_follower = Inr (rf', reply) \<and> raft_ok rf' \<and> \<not> mu rf' \<and>
      lastApplied rf' = 2 \<and> AppendEntries_with 2 sample_append sample_follower = Inr (Finished (rf', reply)) \<and>
      (\<exists>w. AppendEntries_with 1 sample_append sample_follower = Inr (Waits w) \<and> mu w \<and> lastApplied w = 2 \<and>
        CondInstallSnapshot 1 1 [] w = Inl Blocked))"
proof -
  obtain rf' reply where A: "AppendEntries sample_append sample_follower = Inr (rf', reply)" "raft_ok rf'" "\<not> mu rf'"
    and w: "\<forall>r. if lastApplied rf' - lastApplied sample_follower \<le> int r
       then AppendEntries_with r sample_append sample_follower = Inr (Finished (rf', reply))
       else \<exists>w. AppendEntries_with r sample_append sample_follower = Inr (Waits w) \<and> mu w \<and>
         lastApplied w = lastApplied sample_follower + int r + 1 \<and>
         applyChan w = take (length (applyChan sample_follower) + r) (applyChan rf') \<and>
         length (applyChan w) = length (applyChan sample_follower) + r \<and>
         (\<forall>term index snap. CondInstallSnapshot term index snap w = Inl Blocked)"
    using AppendEntries_no_panic [OF sample_follower_ok(1,3,2)] by blast
  have "lastApplied sample_follower = 0" by (simp add: sample_follower_def fresh_peer)
  moreover have "(case AppendEntries sample_append sample_follower of Inl _ \<Rightarrow> 0 | Inr (rf, _) \<Rightarrow> lastApplied rf) = 2" by code_simp
  ultimately show ?thesis using A w [rule_format, of 2] w [rule_format, of 1] sample_follower_ok by auto
qed

text \<open>
  C15: Entries reach the service in log order without gaps or repetition: the messages a handled
  request adds to the apply channel are exactly the commands of the entries from
  \<open>lastApplied + 1\<close> to the new \<open>lastApplied\<close>, in this order, each with its index.
\<close>

theorem AppendEntries_applies_in_order:
  assumes "raft_ok rf" and "ae_ok args" and "AppendEntries args rf = Inr (rf', reply)"
  shows "applyChan rf' = applyChan rf @
    map (\<lambda>i. commandMsg (Option.bind (entry_at rf' i) le_Cmd) i) [lastApplied rf + 1 .. lastApplied rf']"
  using assms
proof (cases rule: AppendEntries_cases)
  case success
  have ok: "raft_ok rf'" by (rule AppendEntries_ok [OF assms])
  have ent: "entry_at rf' i = Some (new_logs args rf ! nat (i - lastIncludeIndex rf - 1))"
    if "lastApplied rf < i" "i \<le> lastApplied rf'" for i
    using that ok assms(1) success(7) by (auto simp: entry_at_def raft_ok_def)
  show ?thesis
  proof (cases "lastApplied rf < ae_LeaderCommit args")
    case True
    then have "applyChan rf' = applyChan rf @ map (\<lambda>i. commandMsg
        (le_Cmd (new_logs args rf ! nat (i - lastIncludeIndex rf - 1))) i)
        [lastApplied rf + 1 .. ae_LeaderCommit args]"
      by (simp add: success(7) append_done_def Let_def Unlock_def applied_msgs_def)
    then show ?thesis using True ent success(7) by (auto simp: max_def)
  next
    case False
    then show ?thesis
      by (simp add: success(7) append_done_def Let_def Unlock_def max_def)
  qed
qed (auto simp: Unlock_def)

lemma AppendEntries_applies_in_order_witness:
  "\<exists>rf' reply. AppendEntries sample_append sample_follower = Inr (rf', reply) \<and>
     applyChan rf' = applyChan sample_follower @
       map (\<lambda>i. commandMsg (Option.bind (entry_at rf' i) le_Cmd) i)
         [lastApplied sample_follower + 1 .. lastApplied rf']"
  using AppendEntries_returns [OF sample_follower_ok(1,3,2)]
    AppendEntries_applies_in_order [OF sample_follower_ok(1,3)] by blast

section \<open>Votes\<close>

text \<open>The order of the paper: a log with a later last term is newer; with equal last terms the
  longer one is.\<close>

definition up_to_date :: "RequestVoteArgs \<Rightarrow> ('c, 'd) Raft \<Rightarrow> bool" where
  "up_to_date args rf \<longleftrightarrow>
     lastLogTerm rf < rv_LastLogTerm args \<or>
     lastLogTerm rf = rv_LastLogTerm args \<and> lastLogIndex rf \<le> rv_LastLogIndex args"

text \<open>
  The election restriction. A peer grants its vote only to a candidate of a term not older
  than its own whose log is at least as up to date as its own; it is then a follower of that
  term, has recorded the vote, and the recorded term and vote are the ones a restart restores.
\<close>

theorem RequestVote_grant:
  assumes "RequestVote args rf = Inr (rf', reply)" and "rvr_VoteGranted reply"
    and "rv_Candidate args \<noteq> -1"
  shows "up_to_date args rf \<and> currentTerm rf \<le> rv_Term args \<and>
    currentTerm rf' = rv_Term args \<and> voteFor rf' = rv_Candidate args \<and> myStatus rf' = Follower \<and>
    (voteFor rf = rv_Candidate args \<or> savedTerm rf' = rv_Term args \<and> savedVote rf' = rv_Candidate args)"
proof -
  have "up_to_date args rf"
    using assms by (auto simp: RequestVote_def go_dest Let_def up_to_date_def lastLogTerm_def
        lastLogIndex_def candidateLogIndexTooOld_def candidateLogTermTooOld_def split: if_splits)
  moreover have "savedTerm rf' = rv_Term args \<and> savedVote rf' = rv_Candidate args"
    if "rvr_VoteErr reply = VoteErr_Nil"
  proof -
    from RequestVote_fresh(1) [OF assms(1) that]
    have "view rf' = vapply (Grant (rv_Term args) (rv_Candidate args)) (view rf)"
      by (auto simp: moved_def)
    then have "st (view rf') = rv_Term args \<and> sv (view rf') = rv_Candidate args" by simp
    then show ?thesis by simp
  qed
  moreover have "voteFor rf = rv_Candidate args" if "rvr_VoteErr reply \<noteq> VoteErr_Nil"
    using RequestVote_again [OF assms(1) that assms(2,3)] by simp
  moreover have "currentTerm rf \<le> rv_Term args \<and> currentTerm rf' = rv_Term args \<and>
      voteFor rf' = rv_Candidate args \<and> myStatus rf' = Follower"
    using assms by (auto simp: RequestVote_def go_dest Let_def Unlock_def timer_Reset_def
        split: if_splits)
  ultimately show ?thesis by blast
qed

lemma RequestVote_grant_witness:
  "let args = \<lparr>rv_Term = 2, rv_Candidate = 2, rv_LastLogIndex = 1, rv_LastLogTerm = 1\<rparr> in
   \<exists>rf' reply. RequestVote args sample_follower = Inr (rf', reply) \<and> rvr_VoteGranted reply \<and>
     up_to_date args sample_follower \<and> currentTerm rf' = 2 \<and> voteFor rf' = 2"
proof -
  let ?args = "\<lparr>rv_Term = 2, rv_Candidate = 2, rv_LastLogIndex = 1, rv_LastLogTerm = 1\<rparr>"
  have "\<exists>rf' reply. RequestVote ?args sample_follower = Inr (rf', reply) \<and> rvr_VoteGranted reply"
    by (simp add: RequestVote_def sample_follower_def fresh_peer killed_def timer_Reset_def
        candidateLogIndexTooOld_def candidateLogTermTooOld_def)
  then show ?thesis using RequestVote_grant [of ?args sample_follower] by fastforce
qed

end
