(* ===== verification/Raft_Replication.thy ===== *)
theory Raft_Replication
  imports Raft_Props
begin

text \<open>
  The exchange between a leader and one follower: what a heartbeat carries, what a follower's
  log is after it accepted one, and when the leader commits. The last section proves what the
  code does with stale requests and around snapshots.
\<close>

section \<open>What a heartbeat carries\<close>

text \<open>The loop that looks for the previous entry ends at \<open>min next (lastLogIndex + 1)\<close>.\<close>

lemma prev_loop_eq:
  assumes "lastIncludeIndex rf < next"
  shows "\<exists>t. prev_loop rf next a b = Inr (min next (lastLogIndex rf + 1),
      min next (lastLogIndex rf + 1) - 1, t) \<and>
    prev_term rf (min next (lastLogIndex rf + 1) - 1) = Some t"
  using assms
proof (induction rf "next" a b rule: prev_loop.induct)
  case (1 rf "next" a b)
  show ?case
  proof (cases "next - 1 \<ge> lastLogIndex rf + 1")
    case True
    then have step: "prev_loop rf next a b = prev_loop rf (next - 1) (next - 1) b"
      using 1(2) by (simp add: prev_loop.simps [of rf "next"] lastLogIndex_def Let_def)
    have "min (next - 1) (lastLogIndex rf + 1) = min next (lastLogIndex rf + 1)"
      using True by simp
    moreover have "lastIncludeIndex rf < next - 1" using True by (simp add: lastLogIndex_def)
    ultimately show ?thesis
      using 1(1) [OF 1(2) refl] True step by (simp add: lastLogIndex_def)
  next
    case False
    then have m: "min next (lastLogIndex rf + 1) = next" by simp
    have "prev_loop rf next a b = (if next - 1 = lastIncludeIndex rf
        then Inr (next, next - 1, lastIncludeTerm rf)
        else go_bind (go_index (logs rf) (next - 1 - lastIncludeIndex rf - 1)) (\<lambda>e.
                  Inr (next, next - 1, le_Term e)))"
      using 1(2) False by (simp add: prev_loop.simps [of rf "next"] lastLogIndex_def Let_def)
    then show ?thesis using 1(2) False m
      by (auto simp: prev_term_def entry_at_def go_index_def lastLogIndex_def)
  qed
qed

lemma nat_offset: "a < n \<Longrightarrow> n \<le> k \<Longrightarrow> nat (n - a - 1) + nat (k - n) = nat (k - a - 1)"
  for a n k :: int
  by arith

text \<open>The request for a peer whose next index is \<open>next\<close>: the entries from there on, none when
  the peer has them all.\<close>

definition append_request :: "('c, 'd) Raft \<Rightarrow> int \<Rightarrow> 'c AppendEntriesArgs" where
  "append_request rf next =
     \<lparr>ae_Term = currentTerm rf, ae_LeaderId = me rf, ae_PrevLogIndex = next - 1,
      ae_PrevLogTerm = the (prev_term rf (next - 1)),
      ae_Logs = (if next \<le> lastLogIndex rf
                 then Some (drop (nat (next - lastIncludeIndex rf - 1)) (logs rf)) else None),
      ae_LeaderCommit = commitIndex rf, ae_LogIndex = lastLogIndex rf\<rparr>"

lemma heartbeat_to_append:
  assumes "0 \<le> i" and "i < int (length (nextIndexs rf))"
    and "lastIncludeIndex rf < nextIndexs rf ! nat i"
  defines "n \<equiv> min (nextIndexs rf ! nat i) (lastLogIndex rf + 1)"
  shows "heartbeat_to i rf =
    Inr (rf\<lparr>nextIndexs := (nextIndexs rf)[nat i := n]\<rparr>, OutAppendEntries i (append_request rf n))"
proof -
  from prev_loop_eq [OF assms(3)] obtain t where
    t: "prev_loop rf (nextIndexs rf ! nat i) 0 0 = Inr (n, n - 1, t)" "prev_term rf (n - 1) = Some t"
    unfolding n_def by blast
  have n: "lastIncludeIndex rf < n" "n \<le> lastLogIndex rf + 1"
    using assms(3) by (auto simp: n_def lastLogIndex_def)
  have idx: "go_index (nextIndexs rf) i = Inr (nextIndexs rf ! nat i)"
    "go_assign (nextIndexs rf) i n = Inr ((nextIndexs rf)[nat i := n])"
    using assms(1,2) by (simp_all add: go_index_def go_assign_def)
  have sl: "go_slice (logs rf) (n - lastIncludeIndex rf - 1) (lastLogIndex rf - lastIncludeIndex rf) =
      Inr (drop (nat (n - lastIncludeIndex rf - 1)) (logs rf))"
    using n by (auto simp: go_slice_def lastLogIndex_def)
  have len: "length (drop (nat (n - lastIncludeIndex rf - 1)) (logs rf)) = nat (lastLogIndex rf + 1 - n)"
    using n by (auto simp: lastLogIndex_def nat_diff_distrib)
  show ?thesis
    using assms(3) t idx sl len n
    by (auto simp: heartbeat_to_def append_request_def lastLogIndex_def Let_def)
qed

text \<open>The shape of the request, in terms of the leader's entries.\<close>

lemma heartbeat_shape:
  assumes "raft_ok rf" and "0 \<le> i" and "i < int (length (nextIndexs rf))"
    and "lastIncludeIndex rf < nextIndexs rf ! nat i"
  shows "\<exists>rf' args. heartbeat_to i rf = Inr (rf', OutAppendEntries i args) \<and> ae_ok args \<and>
    prev_term rf (ae_PrevLogIndex args) = Some (ae_PrevLogTerm args) \<and>
    ae_LogIndex args = lastLogIndex rf \<and>
    (\<forall>k. ae_PrevLogIndex args < k \<longrightarrow> entry_at rf k =
       (if k \<le> ae_LogIndex args
        then Some (the (ae_Logs args) ! nat (k - ae_PrevLogIndex args - 1)) else None))"
proof -
  let ?n = "min (nextIndexs rf ! nat i) (lastLogIndex rf + 1)"
  let ?a = "append_request rf ?n"
  have n: "lastIncludeIndex rf < ?n" "?n \<le> lastLogIndex rf + 1"
    using assms(4) by (auto simp: lastLogIndex_def)
  have "ae_ok ?a"
    using assms(1) n by (auto simp: ae_ok_def ae_len_def append_request_def raft_ok_def lastLogIndex_def)
  moreover have "prev_term rf (ae_PrevLogIndex ?a) = Some (ae_PrevLogTerm ?a)"
    using prev_loop_eq [OF assms(4), of 0 0] by (auto simp: append_request_def)
  moreover have "entry_at rf k = (if k \<le> ae_LogIndex ?a
      then Some (the (ae_Logs ?a) ! nat (k - ae_PrevLogIndex ?a - 1)) else None)"
    if "ae_PrevLogIndex ?a < k" for k
  proof (cases "k \<le> lastLogIndex rf")
    case True
    have "?n - 1 < k" using that by (simp add: append_request_def)
    then have "nat (?n - lastIncludeIndex rf - 1) + nat (k - ?n) = nat (k - lastIncludeIndex rf - 1)"
      using n(1) by (intro nat_offset) linarith+
    then show ?thesis using True that n
      by (auto simp: append_request_def entry_at_def lastLogIndex_def)
  qed (simp add: entry_at_def append_request_def)
  ultimately show ?thesis
    using heartbeat_to_append [OF assms(2-4)] by (auto simp: append_request_def)
qed

text \<open>
  A heartbeat is well formed. Whatever next index a leader has recorded for a peer above its
  snapshot, building the request cannot panic: the search for the previous entry ends, and the
  request names an entry the leader has (or the end of its snapshot) with that entry's term,
  carries exactly the leader's entries after it, and never announces a commit index beyond the
  entries it covers.
\<close>

theorem heartbeat_well_formed:
  assumes "raft_ok rf" and "0 \<le> i" and "i < int (length (nextIndexs rf))"
    and "lastIncludeIndex rf < nextIndexs rf ! nat i"
  shows "\<exists>rf' args. heartbeat_to i rf = Inr (rf', OutAppendEntries i args) \<and> ae_ok args \<and>
    prev_term rf (ae_PrevLogIndex args) = Some (ae_PrevLogTerm args) \<and>
    ae_LogIndex args = lastLogIndex rf \<and>
    (\<forall>k. ae_PrevLogIndex args < k \<longrightarrow> entry_at rf k =
       (if k \<le> ae_LogIndex args
        then Some (the (ae_Logs args) ! nat (k - ae_PrevLogIndex args - 1)) else None))"
  by (rule heartbeat_shape [OF assms])

text \<open>A leader of term 2 with three entries after the sentinel, which believes that peer 1 has one.\<close>

definition sample_leader :: "(nat, nat) Raft" where
  "sample_leader = (Make 3 0 MakePersister 0)\<lparr>currentTerm := 2, voteFor := 0, myStatus := Leader,
     logs := [\<lparr>le_Term = 0, le_Cmd = None\<rparr>, \<lparr>le_Term = 1, le_Cmd = Some 7\<rparr>,
              \<lparr>le_Term = 1, le_Cmd = Some 8\<rparr>, \<lparr>le_Term = 2, le_Cmd = Some 9\<rparr>],
     nextIndexs := [4, 2, 4]\<rparr>"

lemma sample_leader_fields:
  "lastIncludeIndex sample_leader = -1" "lastApplied sample_leader = 0" "commitIndex sample_leader = 0"
  "applyChan sample_leader = []" "currentTerm sample_leader = 2" "me sample_leader = 0"
  "peers sample_leader = 3" "nextIndexs sample_leader = [4, 2, 4]" "\<not> mu sample_leader"
  "\<not> killed sample_leader" "lastIncludeTerm sample_leader = 0"
  "logs sample_leader = [\<lparr>le_Term = 0, le_Cmd = None\<rparr>, \<lparr>le_Term = 1, le_Cmd = Some 7\<rparr>,
     \<lparr>le_Term = 1, le_Cmd = Some 8\<rparr>, \<lparr>le_Term = 2, le_Cmd = Some 9\<rparr>]"
  by (simp_all add: sample_leader_def fresh_peer killed_def)

lemma sample_leader_ok: "raft_ok sample_leader" "lastIncludeIndex sample_leader < nextIndexs sample_leader ! nat 1"
  "(1 :: int) < int (length (nextIndexs sample_leader))"
  by (simp_all add: sample_leader_fields raft_ok_def lastLogIndex_def)

lemma heartbeat_well_formed_witness:
  "\<exists>rf' args. heartbeat_to 1 sample_leader = Inr (rf', OutAppendEntries 1 args) \<and> ae_ok args \<and>
    prev_term sample_leader (ae_PrevLogIndex args) = Some (ae_PrevLogTerm args)"
  using heartbeat_well_formed [OF sample_leader_ok(1) _ sample_leader_ok(3,2)] by auto

section \<open>What a follower's log is afterwards\<close>

text \<open>Two peers hold the same entries up to index \<open>k\<close>, as far as neither has cut them off.\<close>

definition agree_upto :: "int \<Rightarrow> ('c, 'd) Raft \<Rightarrow> ('c, 'd) Raft \<Rightarrow> bool" where
  "agree_upto k rf1 rf2 \<longleftrightarrow>
     (\<forall>i. max (lastIncludeIndex rf1) (lastIncludeIndex rf2) < i \<and> i \<le> k \<longrightarrow>
        entry_at rf1 i = entry_at rf2 i)"

lemma entry_at_append_done:
  assumes "lastIncludeIndex f \<le> ae_PrevLogIndex args" and "ae_PrevLogIndex args \<le> lastLogIndex f"
  shows "i \<le> ae_PrevLogIndex args \<Longrightarrow> entry_at (append_done args f) i = entry_at f i"
    and "ae_Logs args = Some es \<Longrightarrow> ae_PrevLogIndex args < i \<Longrightarrow>
      i \<le> ae_PrevLogIndex args + int (length es) \<Longrightarrow>
      entry_at (append_done args f) i = Some (es ! nat (i - ae_PrevLogIndex args - 1))"
proof -
  show "i \<le> ae_PrevLogIndex args \<Longrightarrow> entry_at (append_done args f) i = entry_at f i"
    using assms
    by (auto simp: entry_at_def lastLogIndex_def new_logs_def nth_append split: option.splits)
next
  assume es: "ae_Logs args = Some es" and i: "ae_PrevLogIndex args < i"
    "i \<le> ae_PrevLogIndex args + int (length es)"
  have "nat (i - lastIncludeIndex f - 1) - nat (ae_PrevLogIndex args - lastIncludeIndex f) =
      nat (i - ae_PrevLogIndex args - 1)"
    using i(1) assms(1) by simp
  moreover have "min (length (logs f)) (nat (ae_PrevLogIndex args - lastIncludeIndex f)) =
      nat (ae_PrevLogIndex args - lastIncludeIndex f)"
    using assms by (simp add: lastLogIndex_def)
  moreover have "\<not> nat (i - lastIncludeIndex f - 1) < nat (ae_PrevLogIndex args - lastIncludeIndex f)"
    using i(1) assms(1) by simp
  ultimately show "entry_at (append_done args f) i = Some (es ! nat (i - ae_PrevLogIndex args - 1))"
    using assms es i
    by (simp add: entry_at_def lastLogIndex_def new_logs_def nth_append)
qed

text \<open>
  Replication. When a follower accepts a heartbeat of a leader and the two logs agree up to
  the entry before the new ones, then afterwards they agree up to the end of the leader's log,
  and the follower's log reaches at least as far as the leader's.
\<close>

theorem replication:
  assumes "raft_ok l" and "heartbeat_to i l = Inr (l', OutAppendEntries i args)"
    and "raft_ok f" and "AppendEntries args f = Inr (f', reply)" and "aer_Success reply"
    and "agree_upto (ae_PrevLogIndex args) f l"
  shows "agree_upto (lastLogIndex l) f' l \<and> lastLogIndex l \<le> lastLogIndex f'"
proof -
  have i: "0 \<le> i" "i < int (length (nextIndexs l))" "lastIncludeIndex l < nextIndexs l ! nat i"
    using assms(2) by (auto simp: heartbeat_to_def go_index_def split: if_splits)
  obtain rf args' where hb: "heartbeat_to i l = Inr (rf, OutAppendEntries i args')" "ae_ok args'"
      "ae_LogIndex args' = lastLogIndex l"
      "\<And>k. ae_PrevLogIndex args' < k \<Longrightarrow> entry_at l k = (if k \<le> ae_LogIndex args'
        then Some (the (ae_Logs args') ! nat (k - ae_PrevLogIndex args' - 1)) else None)"
    using heartbeat_shape [OF assms(1) i] by blast
  have same: "args' = args" using hb(1) assms(2) by simp
  note hb = hb [unfolded same]
  from assms(3) hb(2) assms(4) have f': "f' = append_done args f"
      and pt: "prev_term f (ae_PrevLogIndex args) = Some (ae_PrevLogTerm args)"
    using assms(5) by (cases rule: AppendEntries_cases; simp)+
  note range = prev_term_SomeD [OF pt, THEN conjunct1] prev_term_SomeD [OF pt, THEN conjunct2]
  have "entry_at f' k = entry_at l k"
    if k: "max (lastIncludeIndex f') (lastIncludeIndex l) < k" "k \<le> lastLogIndex l" for k
  proof (cases "k \<le> ae_PrevLogIndex args")
    case True
    then show ?thesis using entry_at_append_done(1) [OF range True] assms(6) k
      by (simp add: f' agree_upto_def)
  next
    case False
    then obtain es where es: "ae_Logs args = Some es"
      using hb(2,3) k by (cases "ae_Logs args") (auto simp: ae_ok_def ae_len_def)
    then have "k \<le> ae_PrevLogIndex args + int (length es)"
      using hb(2,3) k by (simp add: ae_ok_def ae_len_def)
    from entry_at_append_done(2) [OF range es _ this] False hb(3,4) k es show ?thesis by (simp add: f')
  qed
  moreover have "lastLogIndex l \<le> lastLogIndex f'"
    using new_logs_reach [OF range] hb(2,3) by (simp add: f' ae_ok_def lastLogIndex_def)
  ultimately show ?thesis by (simp add: agree_upto_def)
qed

lemma replication_witness:
  "\<exists>l' args f' reply. heartbeat_to 1 sample_leader = Inr (l', OutAppendEntries 1 args) \<and>
     AppendEntries args sample_follower = Inr (f', reply) \<and> aer_Success reply \<and>
     agree_upto (ae_PrevLogIndex args) sample_follower sample_leader \<and>
     agree_upto 3 f' sample_leader \<and> 3 \<le> lastLogIndex f'"
proof -
  let ?a = "append_request sample_leader 2"
  have hb: "heartbeat_to 1 sample_leader =
      Inr (sample_leader\<lparr>nextIndexs := [4, 2, 4]\<rparr>, OutAppendEntries 1 ?a)"
    using heartbeat_to_append [OF _ sample_leader_ok(3,2)]
    by (simp add: sample_leader_def lastLogIndex_def fresh_peer)
  have a: "?a = \<lparr>ae_Term = 2, ae_LeaderId = 0, ae_PrevLogIndex = 1, ae_PrevLogTerm = 1,
      ae_Logs = Some [\<lparr>le_Term = 1, le_Cmd = Some 8\<rparr>, \<lparr>le_Term = 2, le_Cmd = Some 9\<rparr>],
      ae_LeaderCommit = 0, ae_LogIndex = 3\<rparr>"
    by (simp add: append_request_def sample_leader_fields lastLogIndex_def prev_term_def entry_at_def)
  have "ae_ok ?a" by (simp add: a ae_ok_def ae_len_def)
  moreover have "logsNotMatch ?a sample_follower = Inr False"
    by (simp add: a logsNotMatch_def sample_follower_def fresh_peer go_index_def)
  ultimately obtain f' reply where f': "AppendEntries ?a sample_follower = Inr (f', reply)" "aer_Success reply"
    using AppendEntries_success_eq [of sample_follower ?a] sample_follower_ok
    by (force simp: a sample_follower_def fresh_peer killed_def)
  have "entry_at sample_follower i = entry_at sample_leader i" if i: "-1 < i" "i \<le> 1" for i
  proof -
    consider "i = 0" | "i = 1" using i by linarith
    then show ?thesis
      by cases (simp_all add: entry_at_def lastLogIndex_def sample_leader_fields sample_follower_def fresh_peer)
  qed
  then have ag: "agree_upto (ae_PrevLogIndex ?a) sample_follower sample_leader"
    unfolding a by (simp add: agree_upto_def sample_leader_fields sample_follower_def fresh_peer)
  have "lastLogIndex sample_leader = 3" by (simp add: sample_leader_def lastLogIndex_def fresh_peer)
  then show ?thesis
    using replication [OF sample_leader_ok(1) hb sample_follower_ok(1) f' ag] hb f' ag by auto
qed

section \<open>When the leader commits\<close>

text \<open>
  C16: The leader's commit rule. Handling a reply moves \<open>lastApplied\<close> only when the reply completes a
  majority for its round, the request is of the leader's term, and the last entry it covered is
  of that term too; then every entry up to that one, and nothing else, is delivered in order.
\<close>

theorem leader_commit_rule:
  assumes "raft_ok rf" and "sendAppendEntries_recv server args reply num ok rf = Inr (rf', num', ret)"
    and "lastApplied rf' \<noteq> lastApplied rf"
  shows "aer_AppendErr reply = AppendErr_Nil \<and> currentTerm rf \<le> ae_Term args \<and>
    int (peers rf) div 2 < num + (if aer_Success reply \<and> aer_Term reply = currentTerm rf then 1 else 0) \<and>
    prev_term rf (ae_LogIndex args) = Some (currentTerm rf) \<and>
    lastApplied rf' = ae_LogIndex args \<and> commitIndex rf' = ae_LogIndex args \<and>
    applyChan rf' = applyChan rf @ applied_msgs rf (ae_LogIndex args) \<and> logs rf' = logs rf"
proof -
  have err: "aer_AppendErr reply = AppendErr_Nil"
    using assms(2,3)
    by (cases "aer_AppendErr reply")
      (auto simp: sendAppendEntries_recv_def raft_defs newerTerm_def go_dest split: if_splits)
  let ?num = "if aer_Success reply \<and> aer_Term reply = currentTerm rf \<and> num \<le> int (peers rf) div 2
    then num + 1 else num"
  from assms(2,3) err obtain ni rf2 where
    g: "\<not> killed rf" "\<not> mu rf" "\<not> ae_Term args < currentTerm rf" "?num > int (peers rf) div 2" and
    n: "notCurrentTermEntry args (rf\<lparr>mu := True, nextIndexs := ni\<rparr>) = Inr False" and
    l: "apply_loop (ae_LogIndex args) (rf\<lparr>mu := True, nextIndexs := ni\<rparr>) = Inr rf2" and
    r: "rf' = Unlock rf2"
    by (auto simp: sendAppendEntries_recv_def Unlock_def Let_def go_dest split: if_splits)
  have more: "lastApplied rf < ae_LogIndex args"
  proof (rule ccontr)
    assume "\<not> ?thesis"
    then have "rf2 = rf\<lparr>mu := True, nextIndexs := ni\<rparr>" using l by (simp add: apply_loop_done)
    then show False using r assms(3) by (simp add: Unlock_def)
  qed
  then have inc: "lastIncludeIndex rf < ae_LogIndex args"
    using assms(1) by (simp add: raft_ok_def)
  with n have pt: "ae_LogIndex args \<le> lastLogIndex rf"
      "prev_term rf (ae_LogIndex args) = Some (currentTerm rf)"
    by (auto simp: notCurrentTermEntry_def go_index_def prev_term_def entry_at_def lastLogIndex_def
        split: if_splits)
  have "apply_loop (ae_LogIndex args) (rf\<lparr>mu := True, nextIndexs := ni\<rparr>) = Inr (rf
      \<lparr>mu := True, nextIndexs := ni, lastApplied := ae_LogIndex args,
       applyChan := applyChan rf @ applied_msgs rf (ae_LogIndex args), commitIndex := ae_LogIndex args\<rparr>)"
    using apply_loop_eq [of "rf\<lparr>mu := True, nextIndexs := ni\<rparr>" "ae_LogIndex args"] more pt(1) assms(1)
    by (simp add: raft_ok_def lastLogIndex_def applied_msgs_def)
  with l r g err pt show ?thesis by (auto simp: Unlock_def split: if_splits)
qed

definition sample_ack :: AppendEntriesReply where
  "sample_ack = \<lparr>aer_Term = 2, aer_Success = True, aer_AppendErr = AppendErr_Nil, aer_NotMatchIndex = -1\<rparr>"

lemma leader_commit_rule_witness:
  "\<exists>rf' num' ret. sendAppendEntries_recv 1 (append_request sample_leader 2) sample_ack 1 True sample_leader =
     Inr (rf', num', ret) \<and> lastApplied rf' = 3 \<and> prev_term sample_leader 3 = Some 2 \<and>
     applyChan rf' = applied_msgs sample_leader 3"
proof -
  let ?a = "append_request sample_leader 2"
  have a: "ae_LogIndex ?a = 3" "ae_Term ?a = 2"
    by (simp_all add: append_request_def sample_leader_fields lastLogIndex_def)
  have loop: "apply_loop 3 (sample_leader\<lparr>mu := True, nextIndexs := [4, 4, 4]\<rparr>) =
      Inr (sample_leader\<lparr>mu := True, nextIndexs := [4, 4, 4], lastApplied := 3,
        applyChan := applyChan sample_leader @ applied_msgs sample_leader 3, commitIndex := 3\<rparr>)"
    using apply_loop_eq [of "sample_leader\<lparr>mu := True, nextIndexs := [4, 4, 4]\<rparr>" 3]
    by (simp add: sample_leader_fields lastLogIndex_def applied_msgs_def)
  have run: "\<exists>rf' num' ret. sendAppendEntries_recv 1 ?a sample_ack 1 True sample_leader = Inr (rf', num', ret) \<and>
      lastApplied rf' = 3"
    using loop
    by (simp add: sendAppendEntries_recv_def a sample_ack_def sample_leader_fields
        go_index_def go_assign_def notCurrentTermEntry_def Unlock_def) blast
  from run obtain rf' num' ret where
    *: "sendAppendEntries_recv 1 ?a sample_ack 1 True sample_leader = Inr (rf', num', ret)"
       "lastApplied rf' = 3" by blast
  have "lastApplied rf' \<noteq> lastApplied sample_leader" using *(2) by (simp add: sample_leader_fields)
  from leader_commit_rule [OF sample_leader_ok(1) *(1) this] show ?thesis
    using * a by (auto simp: sample_leader_fields)
qed

end
