(* ===== verification/Raft_Recovery.thy ===== *)
theory Raft_Recovery
  imports Raft_Election Raft_Replication
begin

text \<open>
  What a crash keeps, and four places where the code falls short: a mutex that is never
  released, log entries that a delayed request removes, and two ways in which snapshots and the
  indices of the log get out of step.
\<close>

section \<open>Crash and restart\<close>

lemma restart_persister_eq: "restart_persister ps = ps"
  by (simp add: restart_persister_def Copy_id SaveStateAndSnapshot_def ReadRaftState_def
      ReadSnapshot_def MakePersister_def)

text \<open>
  C17: What \<open>persist\<close> writes is what a restart reads back: term, vote and log of the peer come
  back unchanged through the encoder, the persister, the tester's copies and the decoder.
\<close>

theorem persist_restart:
  "let rf' = Make n i (restart_persister (persister (persist rf))) r in
   currentTerm rf' = currentTerm rf \<and> voteFor rf' = voteFor rf \<and> logs rf' = logs rf \<and>
   myStatus rf' = Follower \<and> persister rf' = persister (persist rf)"
  by (simp add: Let_def restart_persister_eq Make_def ReadRaftState_def persist_eq readPersist_eq)

text \<open>The three durable fields are saved; an operation either saves them or does not touch them.\<close>

definition saved :: "('c, 'd) Raft \<Rightarrow> bool" where
  "saved rf \<longleftrightarrow> raftstate (persister rf) =
     [GobInt (currentTerm rf), GobInt (voteFor rf), GobLogs (logs rf)]"

definition durable :: "('c, 'd) Raft \<Rightarrow> ('c, 'd) Raft \<Rightarrow> bool" where
  "durable rf rf' \<longleftrightarrow> saved rf' \<or>
     currentTerm rf' = currentTerm rf \<and> voteFor rf' = voteFor rf \<and> logs rf' = logs rf \<and>
     persister rf' = persister rf"

lemma saved_simps [simp]:
  "saved (persist rf)" "saved (Unlock rf) = saved rf" "saved (rf\<lparr>mu := b\<rparr>) = saved rf"
  by (simp_all add: saved_def Unlock_def)

text \<open>
  A vote or an acknowledgement is durable before it is sent: when \<open>RequestVote\<close>,
  \<open>AppendEntries\<close> or \<open>Start\<close> returns, term, vote and log are saved, or the operation changed
  none of them since the state before it.
\<close>

theorem durable_before_reply:
  assumes "raft_ok rf" and "rv_Candidate va \<noteq> -1" and "ae_ok aa"
  shows "(RequestVote va rf = Inr (rf', vr) \<longrightarrow> durable rf rf') \<and>
    (AppendEntries aa rf = Inr (rf', ar) \<longrightarrow> durable rf rf') \<and>
    (Start c rf = Inr (rf', sr) \<longrightarrow> durable rf rf')"
proof (intro conjI impI)
  assume "RequestVote va rf = Inr (rf', vr)"
  then show "durable rf rf'" using assms(2) unfolding durable_def
    by (auto simp: RequestVote_def Let_def go_dest Unlock_def timer_Reset_def split: if_splits)
next
  assume "AppendEntries aa rf = Inr (rf', ar)"
  from assms(1,3) this show "durable rf rf'"
    by (cases rule: AppendEntries_cases) (simp_all add: append_done_def Let_def durable_def)
next
  assume "Start c rf = Inr (rf', sr)"
  then show "durable rf rf'"
    by (auto simp: Start_def Let_def go_dest durable_def Unlock_def split: if_splits)
qed

lemma durable_before_reply_witness:
  "\<exists>rf' vr. RequestVote \<lparr>rv_Term = 3, rv_Candidate = 2, rv_LastLogIndex = 3, rv_LastLogTerm = 2\<rparr>
     sample_leader = Inr (rf', vr) \<and> rvr_VoteGranted vr \<and> durable sample_leader rf'"
proof -
  let ?va = "\<lparr>rv_Term = 3, rv_Candidate = 2, rv_LastLogIndex = 3, rv_LastLogTerm = 2\<rparr>"
  have "\<exists>rf' vr. RequestVote ?va sample_leader = Inr (rf', vr) \<and> rvr_VoteGranted vr"
    by (simp add: RequestVote_def sample_leader_fields candidateLogIndexTooOld_def
        candidateLogTermTooOld_def timer_Reset_def)
  then show ?thesis
    using durable_before_reply [OF sample_leader_ok(1), of ?va sample_append] sample_follower_ok(3)
    by fastforce
qed

section \<open>A mutex that is never released\<close>

text \<open>
  C18: \<open>CondInstallSnapshot\<close> returns false with \<open>rf.mu\<close> held whenever the log reaches beyond the
  snapshot; from then on every operation of the peer that takes the mutex waits for ever.
\<close>

theorem CondInstallSnapshot_deadlock:
  assumes "\<not> mu rf" and "\<not> killed rf" and "index < lastLogIndex rf"
  shows "\<exists>rf'. CondInstallSnapshot t index d rf = Inr (rf', False) \<and>
    RequestVote va rf' = Inl Blocked \<and> AppendEntries aa rf' = Inl Blocked \<and>
    InstallSnapshot sa rf' = Inl Blocked \<and> Start c rf' = Inl Blocked \<and>
    GetState rf' = Inl Blocked \<and> ticker_tick r rf' = Inl Blocked \<and> Kill rf' = Inl Blocked"
  using assms
  by (simp add: CondInstallSnapshot_def lastLogIndex_def RequestVote_def AppendEntries_def
      InstallSnapshot_def Start_def GetState_def ticker_tick_def Kill_def killed_def)

lemma CondInstallSnapshot_deadlock_witness:
  "\<exists>rf'. CondInstallSnapshot 1 0 [] sample_leader = Inr (rf', False) \<and> GetState rf' = Inl Blocked"
  using CondInstallSnapshot_deadlock [OF sample_leader_fields(9,10), of 0 1 "[]" undefined sample_append
      undefined 0 0]
  by (auto simp: sample_leader_fields lastLogIndex_def)

section \<open>A delayed request removes acknowledged entries\<close>

text \<open>
  Of two requests of one leader for the same position, the later one with more entries, the
  earlier one may arrive last. The follower then cuts its log back to the earlier request and
  answers with success again, although it has acknowledged the entries it drops.
\<close>

theorem delayed_append_truncates:
  assumes "raft_ok f" and "\<not> killed f" and "ae_ok a1" and "ae_ok a2"
    and "AppendEntries a2 f = Inr (f2, r2)" and "aer_Success r2" and "ae_Logs a2 = Some (es @ e # es')"
    and "a1 = a2\<lparr>ae_Logs := Some es, ae_LogIndex := ae_PrevLogIndex a2 + int (length es)\<rparr>"
    and "lastApplied f2 \<le> ae_PrevLogIndex a2"
  shows "\<exists>f3 r1. AppendEntries a1 f2 = Inr (f3, r1) \<and> aer_Success r1 \<and>
    entry_at f2 (ae_LogIndex a1 + 1) = Some e \<and> entry_at f3 (ae_LogIndex a1 + 1) = None"
proof -
  from assms(1,4,5) have f2: "f2 = append_done a2 f"
      "prev_term f (ae_PrevLogIndex a2) = Some (ae_PrevLogTerm a2)"
      "lastIncludeIndex f \<le> ae_PrevLogIndex a2"
    using assms(6) by (cases rule: AppendEntries_cases; simp)+
  note range = prev_term_SomeD [OF f2(2), THEN conjunct1] prev_term_SomeD [OF f2(2), THEN conjunct2]
  have ok2: "raft_ok f2" by (rule AppendEntries_ok [OF assms(1,4,5)])
  have pt: "prev_term f2 (ae_PrevLogIndex a1) = Some (ae_PrevLogTerm a1)"
    using f2 entry_at_append_done(1) [OF range order_refl]
    by (auto simp: assms(8) prev_term_def split: if_splits)
  then have m: "logsNotMatch a1 f2 = Inr False"
    using logsNotMatch_False_iff [of f2 a1] f2(1,3) by (simp add: assms(8))
  have go: "AppendEntries a1 f2 = Inr (append_done a1 f2, \<lparr>aer_Term = ae_Term a1, aer_Success = True,
      aer_AppendErr = AppendErr_Nil, aer_NotMatchIndex = -1\<rparr>)"
    using f2 assms(2,8,9) by (intro AppendEntries_success_eq [OF ok2 assms(3) _ _ _ _ m])
      (simp_all add: killed_def)
  have "entry_at f2 (ae_LogIndex a1 + 1) = Some e"
    using entry_at_append_done(2) [OF range assms(7), of "ae_LogIndex a1 + 1"]
    by (simp add: f2(1) assms(8) nth_append)
  moreover have "lastLogIndex (append_done a1 f2) = ae_LogIndex a1"
    using range assms(7) by (auto simp: lastLogIndex_def f2(1) assms(8) new_logs_def min_def nat_le_iff)
  ultimately show ?thesis using go by (auto simp: entry_at_def)
qed

definition sample_short :: "nat AppendEntriesArgs" where
  "sample_short = sample_append\<lparr>ae_LeaderCommit := 0,
     ae_Logs := Some [\<lparr>le_Term = 1, le_Cmd = Some 8\<rparr>], ae_LogIndex := 2\<rparr>"

lemma delayed_append_truncates_witness:
  "\<exists>f2 r2 f3 r1. AppendEntries (sample_append\<lparr>ae_LeaderCommit := 0\<rparr>) sample_follower = Inr (f2, r2) \<and>
     aer_Success r2 \<and> AppendEntries sample_short f2 = Inr (f3, r1) \<and> aer_Success r1 \<and>
     entry_at f2 3 = Some \<lparr>le_Term = 1, le_Cmd = Some 9\<rparr> \<and> entry_at f3 3 = None"
proof -
  let ?a = "sample_append\<lparr>ae_LeaderCommit := 0\<rparr>"
  have ok: "ae_ok ?a" "ae_ok sample_short"
    by (simp_all add: ae_ok_def ae_len_def sample_short_def sample_append_def)
  have live: "\<not> killed sample_follower" by (simp add: sample_follower_def fresh_peer killed_def)
  have m: "logsNotMatch ?a sample_follower = Inr False"
    by (simp add: sample_append_def logsNotMatch_def sample_follower_def fresh_peer go_index_def)
  have run: "AppendEntries ?a sample_follower = Inr (append_done ?a sample_follower,
      \<lparr>aer_Term = 1, aer_Success = True, aer_AppendErr = AppendErr_Nil, aer_NotMatchIndex = -1\<rparr>)"
    using AppendEntries_success_eq [OF sample_follower_ok(1) ok(1) live _ _ _ m]
    by (simp add: sample_append_def sample_follower_def fresh_peer)
  show ?thesis
    using delayed_append_truncates [OF sample_follower_ok(1) live ok(2,1) run, of
        "[\<lparr>le_Term = 1, le_Cmd = Some 8\<rparr>]" "\<lparr>le_Term = 1, le_Cmd = Some 9\<rparr>" "[]"] run
    by (auto simp: sample_append_def sample_short_def sample_follower_def fresh_peer)
qed

section \<open>Snapshots and indices\<close>

text \<open>
  C19: A snapshot that arrives late moves a follower backwards: one that ends before the last
  applied entry is accepted, handed to the service, and \<open>lastApplied\<close> and \<open>commitIndex\<close> are set
  back to its index, so entries the service has already seen will be delivered again.
\<close>

theorem InstallSnapshot_rewinds:
  assumes "raft_ok rf" and "\<not> mu rf" and "\<not> killed rf" and "currentTerm rf \<le> is_Term args"
    and "lastIncludeIndex rf < is_LastIncludeIndex args"
    and "is_LastIncludeIndex args < lastApplied rf"
  shows "\<exists>rf' reply. InstallSnapshot args rf = Inr (rf', reply) \<and>
    lastApplied rf' = is_LastIncludeIndex args \<and> commitIndex rf' = is_LastIncludeIndex args \<and>
    applyChan rf' = applyChan rf @
      [snapshotMsg (is_Data args) (is_LastIncludeTerm args) (is_LastIncludeIndex args)] \<and>
    (\<forall>i. is_LastIncludeIndex args < i \<longrightarrow> entry_at rf' i = entry_at rf i)"
proof -
  let ?k = "is_LastIncludeIndex args - lastIncludeIndex rf"
  have sl: "go_slice_from (logs rf) ?k = Inr (drop (nat ?k) (logs rf))"
    using assms(1,5,6) by (simp add: go_slice_from_def raft_ok_def lastLogIndex_def)
  then obtain rf' reply where rf': "InstallSnapshot args rf = Inr (rf', reply)"
      "logs rf' = drop (nat ?k) (logs rf)" "lastIncludeIndex rf' = is_LastIncludeIndex args"
      "lastApplied rf' = is_LastIncludeIndex args" "commitIndex rf' = is_LastIncludeIndex args"
      "applyChan rf' = applyChan rf @
        [snapshotMsg (is_Data args) (is_LastIncludeTerm args) (is_LastIncludeIndex args)]"
    using assms by (auto simp: InstallSnapshot_def Let_def raft_ok_def lastLogIndex_def Unlock_def)
  have "entry_at rf' i = entry_at rf i" if "is_LastIncludeIndex args < i" for i
  proof -
    have "nat ?k + nat (i - is_LastIncludeIndex args - 1) = nat (i - lastIncludeIndex rf - 1)"
      using assms(5) that by arith
    then show ?thesis using assms(1,5,6) that
      by (auto simp: entry_at_def lastLogIndex_def raft_ok_def rf'(2,3))
  qed
  then show ?thesis using rf' by blast
qed

text \<open>A peer that has applied its three entries.\<close>

definition sample_applied :: "(nat, nat) Raft" where
  "sample_applied = sample_leader\<lparr>myStatus := Follower, lastApplied := 3, commitIndex := 3\<rparr>"

lemma sample_applied_ok:
  "raft_ok sample_applied" "\<not> mu sample_applied" "\<not> killed sample_applied"
  using sample_leader_fields by (simp_all add: sample_applied_def raft_ok_def lastLogIndex_def killed_def)

lemma InstallSnapshot_rewinds_witness:
  "\<exists>rf' reply. InstallSnapshot \<lparr>is_Term = 2, is_LeaderId = 1, is_LastIncludeIndex = 1,
       is_LastIncludeTerm = 1, is_Data = []\<rparr> sample_applied = Inr (rf', reply) \<and>
     lastApplied sample_applied = 3 \<and> lastApplied rf' = 1"
  using InstallSnapshot_rewinds [OF sample_applied_ok, of
      "\<lparr>is_Term = 2, is_LeaderId = 1, is_LastIncludeIndex = 1, is_LastIncludeTerm = 1, is_Data = []\<rparr>"]
  by (auto simp: sample_applied_def sample_leader_fields)

text \<open>
  C20: The index of the snapshot is not saved. After a snapshot at \<open>index\<close> and any later
  \<open>persist\<close>, a restart reads the shortened log back as if it started at index 0: every entry
  is found \<open>index + 1\<close> places before its own index.
\<close>

theorem restart_shifts_indices:
  fixes rf :: "('c, 'd) Raft"
  assumes "raft_ok rf" and "\<not> killed rf" and "lastIncludeIndex rf < index" and "index \<le> lastApplied rf"
  shows "\<exists>rf1. Snapshot index d rf = Inr rf1 \<and>
    (let rf2 = Make n i (restart_persister (persister (persist rf1))) r :: ('c, 'd) Raft in
     lastLogIndex rf1 = lastLogIndex rf \<and> lastLogIndex rf2 = lastLogIndex rf - index - 1 \<and>
     (\<forall>k. index < k \<longrightarrow> entry_at rf1 k = entry_at rf k \<and> entry_at rf2 (k - index - 1) = entry_at rf k))"
proof -
  let ?p = "index - lastIncludeIndex rf"
  have r: "0 \<le> ?p - 1" "?p \<le> int (length (logs rf))" "-1 \<le> lastIncludeIndex rf"
    using assms(1,3,4) by (auto simp: raft_ok_def lastLogIndex_def)
  then have "go_index (logs rf) (?p - 1) = Inr (logs rf ! nat (?p - 1))"
      "go_slice_from (logs rf) ?p = Inr (drop (nat ?p) (logs rf))"
    by (simp_all add: go_index_def go_slice_from_def)
  then obtain rf1 where rf1: "Snapshot index d rf = Inr rf1" "logs rf1 = drop (nat ?p) (logs rf)"
      "lastIncludeIndex rf1 = index"
    using assms(2) by (simp add: Snapshot_def Let_def)
  define rf2 where "rf2 = (Make n i (restart_persister (persister (persist rf1))) r :: ('c, 'd) Raft)"
  have rf2: "logs rf2 = logs rf1" "lastIncludeIndex rf2 = -1"
    by (simp_all add: rf2_def restart_persister_eq Make_def ReadRaftState_def persist_eq readPersist_eq)
  have off: "nat ?p + nat (k - index - 1) = nat (k - lastIncludeIndex rf - 1)" if "index < k" for k
    using assms(3) that by arith
  have l: "lastLogIndex rf1 = lastLogIndex rf" "lastLogIndex rf2 = lastLogIndex rf - index - 1"
    using r by (auto simp: lastLogIndex_def rf1 rf2)
  then have "\<forall>k. index < k \<longrightarrow> entry_at rf1 k = entry_at rf k \<and> entry_at rf2 (k - index - 1) = entry_at rf k"
    using r rf1 rf2 off by (auto simp: entry_at_def)
  with l rf1(1) show ?thesis unfolding rf2_def by (auto simp: Let_def)
qed

lemma restart_shifts_indices_witness:
  "\<exists>rf1. Snapshot 1 [] sample_applied = Inr rf1 \<and>
     entry_at (Make 3 0 (restart_persister (persister (persist rf1))) 0 :: (nat, nat) Raft) 1 =
       entry_at sample_applied 3"
  using restart_shifts_indices [OF sample_applied_ok(1,3), of 1 "[]" 3 0 0]
  by (auto simp: sample_applied_def sample_leader_fields Let_def dest!: spec [of _ 3])

end
