(* ===== verification/Raft_Log.thy ===== *)
theory Raft_Log
  imports Raft_Recovery "HOL-Library.Sublist"
begin

text \<open>
  Agreement of the logs of a Raft group as long as no snapshot is taken: the operations are
  classified by what they do to the log of a peer, the canonical log of every term is tracked along a
  run, and log matching follows: two logs with the same term at an index are equal up to it.
\<close>

section \<open>What the operations do to a log\<close>

text \<open>The term does not fall, and a vote is forgotten only for a newer term.\<close>

definition vkeep :: "('c, 'd) Raft \<Rightarrow> ('c, 'd) Raft \<Rightarrow> bool" where
  "vkeep rf rf' \<longleftrightarrow> currentTerm rf < currentTerm rf' \<or>
     currentTerm rf' = currentTerm rf \<and> (voteFor rf \<noteq> -1 \<longrightarrow> voteFor rf' \<noteq> -1)"

text \<open>Log and applied entries stay as they are, what is durable is saved.\<close>

definition lkeep :: "('c, 'd) Raft \<Rightarrow> ('c, 'd) Raft \<Rightarrow> bool" where
  "lkeep rf rf' \<longleftrightarrow> logs rf' = logs rf \<and> lastApplied rf' = lastApplied rf \<and>
     commitIndex rf' = commitIndex rf \<and> applyChan rf' = applyChan rf \<and>
     lastIncludeIndex rf' = lastIncludeIndex rf \<and> lastIncludeTerm rf' = lastIncludeTerm rf \<and>
     durable rf rf' \<and> vkeep rf rf'"

lemmas lkeep_defs = lkeep_def durable_def saved_def vkeep_def Unlock_def timer_Reset_def Let_def

lemma lkeep_refl [simp]: "lkeep rf rf"
  by (simp add: lkeep_defs)

lemma GetState_lkeep: "GetState rf = Inr (rf', x) \<Longrightarrow> lkeep rf rf'"
  by (auto simp: GetState_def go_dest lkeep_defs)

lemma Kill_lkeep: "Kill rf = Inr rf' \<Longrightarrow> lkeep rf rf'"
  by (auto simp: Kill_def go_dest lkeep_defs)

lemma RequestVote_lkeep:
  "RequestVote args rf = Inr (rf', reply) \<Longrightarrow> rv_Candidate args \<noteq> -1 \<Longrightarrow> lkeep rf rf'"
  by (auto simp: RequestVote_def go_dest lkeep_defs split: if_splits)

lemma sendRequestVote_check_lkeep: "sendRequestVote_check args rf = Inr (rf', b) \<Longrightarrow> lkeep rf rf'"
  by (auto simp: sendRequestVote_check_def go_dest lkeep_defs split: if_splits)

lemma sendRequestVote_switch_lkeep:
  "sendRequestVote_switch reply num ok rf = Inr (rf', num', ret) \<Longrightarrow> lkeep rf rf'"
  by (cases "rvr_VoteErr reply")
    (auto simp: sendRequestVote_switch_def voteRejected_def go_dest lkeep_defs split: if_splits)

lemma newerTerm_lkeep: "lkeep rf (newerTerm t rf)"
  by (auto simp: newerTerm_def lkeep_defs)

text \<open>Without a snapshot, the two calls of the service either fail or make one.\<close>

lemma Snapshot_lkeep:
  assumes "Snapshot index d rf = Inr rf'" and "lastIncludeIndex rf = -1" and "lastIncludeIndex rf' = -1"
  shows "lkeep rf rf'"
  using assms by (auto simp: Snapshot_def go_dest lkeep_defs go_index_def split: if_splits)

lemma CondInstallSnapshot_lkeep:
  assumes "CondInstallSnapshot t index d rf = Inr (rf', b)" and "lastIncludeIndex rf = -1"
    and "lastIncludeIndex rf' = -1" and "logs rf \<noteq> []"
  shows "lkeep rf rf'"
  using assms by (auto simp: CondInstallSnapshot_def go_dest lkeep_defs split: if_splits)

lemma Start_log:
  assumes "Start c rf = Inr (rf', x)"
  shows "lkeep rf rf' \<or> myStatus rf = Leader \<and> rf' = Unlock (persist (rf\<lparr>mu := True, logs := logs rf @
       [\<lparr>le_Term = currentTerm rf, le_Cmd = Some c\<rparr>]\<rparr>))"
proof (cases "killed rf \<or> myStatus rf \<noteq> Leader")
  case True
  with assms have "lkeep rf rf'"
    by (auto simp: Start_def go_dest lkeep_defs split: if_splits)
  then show ?thesis ..
next
  case False
  with assms show ?thesis by (auto simp: Start_def go_dest Let_def)
qed

text \<open>Replies to append requests: the leader may commit, and then applies entries. The counter
  grows by successful replies only.\<close>

definition commits :: "'c AppendEntriesArgs \<Rightarrow> AppendEntriesReply \<Rightarrow> int \<Rightarrow> ('c, 'd) Raft \<Rightarrow> ('c, 'd) Raft \<Rightarrow> bool" where
  "commits args reply num rf rf' \<longleftrightarrow>
     (num > int (peers rf) div 2 \<or> aer_Success reply \<and> num + 1 > int (peers rf) div 2) \<and>
     currentTerm rf \<le> ae_Term args \<and> notCurrentTermEntry args rf = Inr False \<and>
     (\<exists>ni rf2. apply_loop (ae_LogIndex args) (rf\<lparr>mu := True, nextIndexs := ni\<rparr>) = Inr rf2 \<and> rf' = Unlock rf2)"

lemma notCurrentTermEntry_frame [simp]:
  "notCurrentTermEntry args (rf\<lparr>mu := b, nextIndexs := ni\<rparr>) = notCurrentTermEntry args rf"
  by (simp add: notCurrentTermEntry_def)

lemma lkeep_frame [simp]:
  "lkeep rf (Unlock (rf\<lparr>mu := b\<rparr>))" "lkeep rf (Unlock (rf\<lparr>mu := b, nextIndexs := ni\<rparr>))"
  by (simp_all add: lkeep_defs)

lemma sendAppendEntries_recv_nil:
  assumes "sendAppendEntries_recv server args reply num ok rf = Inr (rf', num', ret)"
    and "\<not> killed rf" "\<not> ae_Term args < currentTerm rf" "aer_AppendErr reply = AppendErr_Nil"
  shows "(lkeep rf rf' \<or> commits args reply num rf rf') \<and> (num' = num \<or> num' = 0 \<or> num' = num + 1 \<and> aer_Success reply)"
proof -
  let ?inc = "aer_Success reply \<and> aer_Term reply = currentTerm rf \<and> num \<le> int (peers rf) div 2"
  let ?num = "if ?inc then num + 1 else num"
  let ?rf = "\<lambda>ni. rf\<lparr>mu := True, nextIndexs := ni\<rparr>"
  from assms obtain nxt where nxt: "go_index (nextIndexs rf) server = Inr nxt" and mu: "\<not> mu rf"
    by (auto simp: sendAppendEntries_recv_def go_dest Let_def)
  show ?thesis
  proof (cases "nxt > ae_LogIndex args + 1")
    case True
    with assms nxt mu show ?thesis by (auto simp: sendAppendEntries_recv_def Let_def split: if_splits)
  next
    case False
    with assms nxt mu obtain ni where ni: "go_assign (nextIndexs rf) server (ae_LogIndex args + 1) = Inr ni"
      by (auto simp: sendAppendEntries_recv_def go_dest Let_def)
    show ?thesis
    proof (cases "?num > int (peers rf) div 2")
      case num: False
      with assms nxt mu ni \<open>\<not> nxt > _\<close> show ?thesis
        by (auto simp: sendAppendEntries_recv_def Let_def split: if_splits)
    next
      case num: True
      with assms nxt mu ni \<open>\<not> nxt > _\<close> have
        go: "go_bind (notCurrentTermEntry args rf) (\<lambda>other.
           if other then Inr (Unlock (?rf ni), 0, False)
           else go_bind (apply_loop (ae_LogIndex args) (?rf ni)) (\<lambda>rf. Inr (Unlock rf, 0, ok))) = Inr (rf', num', ret)"
        by (simp add: sendAppendEntries_recv_def Let_def)
      then obtain other where o: "notCurrentTermEntry args rf = Inr other" by (auto simp: go_dest)
      show ?thesis
      proof (cases other)
        case True
        with go o show ?thesis by auto
      next
        case False
        with go o obtain rf2 where "apply_loop (ae_LogIndex args) (?rf ni) = Inr rf2" "rf' = Unlock rf2" "num' = 0"
          by auto
        moreover have "num > int (peers rf) div 2 \<or> aer_Success reply \<and> num + 1 > int (peers rf) div 2"
          using num by (auto split: if_splits)
        ultimately show ?thesis using o False assms(3) unfolding commits_def by auto
      qed
    qed
  qed
qed

lemma sendAppendEntries_recv_log:
  assumes "sendAppendEntries_recv server args reply num ok rf = Inr (rf', num', ret)"
  shows "(lkeep rf rf' \<or> commits args reply num rf rf') \<and> (num' = num \<or> num' = 0 \<or> num' = num + 1 \<and> aer_Success reply)"
proof (cases "killed rf \<or> ae_Term args < currentTerm rf \<or> aer_AppendErr reply \<noteq> AppendErr_Nil")
  case True
  then have "lkeep rf rf' \<and> num' = num" using assms
    by (cases "aer_AppendErr reply")
      (auto simp: sendAppendEntries_recv_def newerTerm_def go_dest lkeep_defs split: if_splits)
  then show ?thesis by blast
next
  case False
  with sendAppendEntries_recv_nil [OF assms] show ?thesis by blast
qed

section \<open>Ticks\<close>

lemma heartbeat_to_request:
  assumes "heartbeat_to i rf = Inr (rf', out)"
  shows "\<exists>ni. rf' = rf\<lparr>nextIndexs := ni\<rparr>"
    and "(\<exists>a. out = OutInstallSnapshot i a) \<or>
      (\<exists>nx. lastIncludeIndex rf < nx \<and> nx \<le> lastLogIndex rf + 1 \<and> out = OutAppendEntries i (append_request rf nx))"
proof -
  from assms obtain nxt where n: "go_index (nextIndexs rf) i = Inr nxt"
    by (auto simp: heartbeat_to_def go_dest)
  then have i: "0 \<le> i" "i < int (length (nextIndexs rf))" "nxt = nextIndexs rf ! nat i"
    by (auto simp: go_index_def split: if_splits)
  have "(\<exists>ni. rf' = rf\<lparr>nextIndexs := ni\<rparr>) \<and> ((\<exists>a. out = OutInstallSnapshot i a) \<or>
      (\<exists>nx. lastIncludeIndex rf < nx \<and> nx \<le> lastLogIndex rf + 1 \<and> out = OutAppendEntries i (append_request rf nx)))"
  proof (cases "nxt \<le> lastIncludeIndex rf")
    case True
    with assms n have "rf' = rf \<and> (\<exists>a. out = OutInstallSnapshot i a)" by (auto simp: heartbeat_to_def)
    moreover have "rf = rf\<lparr>nextIndexs := nextIndexs rf\<rparr>" by simp
    ultimately show ?thesis by metis
  next
    case False
    then have "lastIncludeIndex rf < nextIndexs rf ! nat i" using i by simp
    moreover have "lastIncludeIndex rf \<le> lastLogIndex rf" by (simp add: lastLogIndex_def)
    ultimately show ?thesis using heartbeat_to_append [OF i(1,2)] assms
      by (auto intro!: exI [of _ "min (nextIndexs rf ! nat i) (lastLogIndex rf + 1)"])
  qed
  then show "\<exists>ni. rf' = rf\<lparr>nextIndexs := ni\<rparr>"
    and "(\<exists>a. out = OutInstallSnapshot i a) \<or>
      (\<exists>nx. lastIncludeIndex rf < nx \<and> nx \<le> lastLogIndex rf + 1 \<and> out = OutAppendEntries i (append_request rf nx))"
    by blast+
qed

fun dest :: "('c, 'd) outgoing \<Rightarrow> int" where
  "dest (OutRequestVote i a) = i"
| "dest (OutAppendEntries i a) = i"
| "dest (OutInstallSnapshot i a) = i"

lemma append_request_frame [simp]:
  "append_request (rf\<lparr>nextIndexs := ni\<rparr>) = append_request rf"
  "append_request (rf\<lparr>mu := b\<rparr>) = append_request rf"
  "append_request (timer_Reset d rf) = append_request rf"
  "append_request (Unlock rf) = append_request rf"
  by (rule ext; simp add: append_request_def prev_term_def entry_at_def lastLogIndex_def
      timer_Reset_def Unlock_def)+

text \<open>A heartbeat is one append request per other peer, unless it is a snapshot.\<close>

definition heartbeat_out :: "('c, 'd) Raft \<Rightarrow> ('c, 'd) outgoing \<Rightarrow> bool" where
  "heartbeat_out rf out \<longleftrightarrow> (\<exists>i a. out = OutInstallSnapshot i a) \<or>
     (\<exists>i nx. lastIncludeIndex rf < nx \<and> nx \<le> lastLogIndex rf + 1 \<and> out = OutAppendEntries i (append_request rf nx))"

lemma heartbeat_out_frame [simp]:
  "heartbeat_out (rf\<lparr>nextIndexs := ni\<rparr>) = heartbeat_out rf"
  "heartbeat_out (rf\<lparr>mu := b\<rparr>) = heartbeat_out rf"
  "heartbeat_out (timer_Reset d rf) = heartbeat_out rf"
  by (rule ext; simp add: heartbeat_out_def lastLogIndex_def; simp add: timer_Reset_def)+

lemma heartbeat_loop_out:
  "heartbeat_loop is rf = Inr (rf', outs) \<Longrightarrow>
     (\<exists>ni. rf' = rf\<lparr>nextIndexs := ni\<rparr>) \<and> map dest outs = is \<and> (\<forall>out\<in>set outs. heartbeat_out rf out)"
proof (induction "is" arbitrary: rf outs)
  case Nil
  then show ?case by (auto intro: exI [of _ "nextIndexs rf"])
next
  case (Cons i "is")
  from Cons.prems obtain rf1 out outs1 where
    1: "heartbeat_to i rf = Inr (rf1, out)" and 2: "heartbeat_loop is rf1 = Inr (rf', outs1)"
    and outs: "outs = out # outs1" by auto
  from heartbeat_to_request(1) [OF 1] obtain ni where ni: "rf1 = rf\<lparr>nextIndexs := ni\<rparr>" by blast
  have "heartbeat_out rf out \<and> dest out = i"
    using heartbeat_to_request(2) [OF 1] unfolding heartbeat_out_def by fastforce
  then show ?case using Cons.IH [OF 2] outs ni by auto
qed

lemma otherPeers_distinct: "distinct (otherPeers rf)"
  by (simp add: otherPeers_def distinct_map inj_on_def)

lemma ticker_tick_log:
  assumes "ticker_tick r rf = Inr (rf', outs)"
  shows "lkeep rf rf'"
    and "outs = [] \<and> rf' = rf \<or>
      currentTerm rf' = currentTerm rf + 1 \<and> outs = map (\<lambda>i. OutRequestVote i (voteArgs rf')) (otherPeers rf) \<or>
      currentTerm rf' = currentTerm rf \<and> myStatus rf = Leader \<and>
        map dest outs = otherPeers rf \<and> (\<forall>out\<in>set outs. heartbeat_out rf out)"
proof -
  have "lkeep rf rf' \<and> (outs = [] \<and> rf' = rf \<or>
      currentTerm rf' = currentTerm rf + 1 \<and> outs = map (\<lambda>i. OutRequestVote i (voteArgs rf')) (otherPeers rf) \<or>
      currentTerm rf' = currentTerm rf \<and> myStatus rf = Leader \<and>
        map dest outs = otherPeers rf \<and> (\<forall>out\<in>set outs. heartbeat_out rf out))"
  proof (cases "killed rf")
    case True
    with assms show ?thesis by (auto simp: ticker_tick_def)
  next
    case False
    with assms have mu: "\<not> mu rf" by (auto simp: ticker_tick_def go_dest)
    show ?thesis
    proof (cases "myStatus rf = Leader")
      case True
      let ?rf = "timer_Reset HeartBeatTimeout (rf\<lparr>mu := True\<rparr>)"
      from True assms False mu obtain rf1 where
        1: "heartbeat_loop (otherPeers ?rf) ?rf = Inr (rf1, outs)" and "rf' = Unlock rf1"
        by (auto simp: ticker_tick_def Let_def go_dest)
      moreover have "otherPeers ?rf = otherPeers rf" by (simp add: otherPeers_def timer_Reset_def)
      moreover have "heartbeat_out ?rf = heartbeat_out rf" by simp
      ultimately obtain ni where "map dest outs = otherPeers rf" "\<forall>out\<in>set outs. heartbeat_out rf out"
        "rf' = Unlock (?rf\<lparr>nextIndexs := ni\<rparr>)"
        using heartbeat_loop_out [OF 1] by auto
      moreover from this have "lkeep rf rf' \<and> currentTerm rf' = currentTerm rf" by (simp add: lkeep_defs)
      ultimately show ?thesis using True by blast
    next
      case nl: False
      let ?rf = "rf\<lparr>mu := True, myStatus := Candidate\<rparr>"
      obtain rf1 outs1 where 1: "startElection r ?rf = (rf1, outs1)" by fastforce
      have "rf\<lparr>mu := True\<rparr> = ?rf" if "myStatus rf = Candidate" using that by simp
      with assms False nl 1 have eq: "rf' = Unlock rf1" "outs = outs1"
        by (cases "myStatus rf"; auto simp: ticker_tick_def go_dest)+
      have "voteArgs (Unlock rf1) = voteArgs rf1" by (simp add: voteArgs_def Unlock_def Let_def)
      with 1 eq show ?thesis
        by (auto simp: startElection_def lkeep_defs otherPeers_def)
    qed
  qed
  then show "lkeep rf rf'" and "outs = [] \<and> rf' = rf \<or>
      currentTerm rf' = currentTerm rf + 1 \<and> outs = map (\<lambda>i. OutRequestVote i (voteArgs rf')) (otherPeers rf) \<or>
      currentTerm rf' = currentTerm rf \<and> myStatus rf = Leader \<and>
        map dest outs = otherPeers rf \<and> (\<forall>out\<in>set outs. heartbeat_out rf out)"
    by blast+
qed

section \<open>A step of the group, seen from one peer\<close>

text \<open>No peer has a snapshot, none was sent.\<close>

definition snapless :: "nat \<Rightarrow> ('c, 'd) cluster \<Rightarrow> bool" where
  "snapless n s \<longleftrightarrow> (\<forall>i<n. lastIncludeIndex (srv s i) = -1) \<and> (\<forall>k j a. (k, OutInstallSnapshot j a) \<notin> reqs s)"

text \<open>A restart brings back term, vote and log.\<close>

definition synced :: "('c, 'd) Raft \<Rightarrow> bool" where
  "synced rf \<longleftrightarrow> (let rf' = Make (peers rf) (me rf) (persister rf) 0 :: ('c, 'd) Raft in
     currentTerm rf' = currentTerm rf \<and> voteFor rf' = voteFor rf \<and> logs rf' = logs rf)"

definition peer_ok :: "('c, 'd) Raft \<Rightarrow> bool" where
  "peer_ok rf \<longleftrightarrow> raft_ok rf \<and> synced rf \<and> lastIncludeIndex rf = -1 \<and> lastIncludeTerm rf = 0 \<and> logs rf \<noteq> []"

inductive peffect :: "nat \<Rightarrow> ('c, 'd) cluster \<Rightarrow> nat \<Rightarrow> ('c, 'd) Raft \<Rightarrow> bool" for n s i where
  keep: "lkeep (srv s i) rf' \<Longrightarrow> peffect n s i rf'"
| start: "myStatus (srv s i) = Leader \<Longrightarrow> peffect n s i (Unlock (persist ((srv s i)\<lparr>mu := True,
     logs := logs (srv s i) @ [\<lparr>le_Term = currentTerm (srv s i), le_Cmd = Some c\<rparr>]\<rparr>)))"
| append: "(k, OutAppendEntries (int i) a) \<in> reqs s \<Longrightarrow> currentTerm (srv s i) \<le> ae_Term a \<Longrightarrow>
     lastApplied (srv s i) \<le> ae_PrevLogIndex a \<Longrightarrow> -1 \<le> ae_PrevLogIndex a \<Longrightarrow>
     prev_term (srv s i) (ae_PrevLogIndex a) = Some (ae_PrevLogTerm a) \<Longrightarrow>
     peffect n s i (append_done a (srv s i))"
| commit: "i = owner s k \<Longrightarrow> (k, OutAppendEntries (int j) a) \<in> waiting s \<Longrightarrow>
     (k, OutAppendEntries (int j) a, RepAppend reply) \<in> reps s \<Longrightarrow>
     commits a reply (counter s k) (srv s i) rf' \<Longrightarrow> peffect n s i rf'"
| restart: "peffect n s i (Make n (int i) (persister (srv s i)) r)"

lemma AppendEntries_peffect:
  assumes "peer_ok (srv s i)" and "ae_ok a" and "ae_LeaderId a \<noteq> -1"
    and "(k, OutAppendEntries (int i) a) \<in> reqs s" and "AppendEntries a (srv s i) = Inr (rf', reply)"
  shows "peffect n s i rf'"
proof -
  have "raft_ok (srv s i)" "lastIncludeIndex (srv s i) = -1" using assms(1) by (simp_all add: peer_ok_def)
  from this(1) assms(2,5) show ?thesis
  proof (cases rule: AppendEntries_cases)
    case success
    with assms(4) show ?thesis using \<open>lastIncludeIndex (srv s i) = -1\<close> by (auto intro: peffect.append)
  next
    case rejected
    then have "lkeep (srv s i) rf'" using assms(3) by (auto simp: lkeep_defs)
    then show ?thesis by (rule peffect.keep)
  qed (simp_all add: peffect.keep)
qed

lemma cstep_peffect:
  assumes "cstep n s s'" and "cinv n s" and "snapless n s" and "snapless n s'" and "i < n"
    and "peer_ok (srv s i)" and "\<And>k j a. (k, OutAppendEntries j a) \<in> reqs s \<Longrightarrow> ae_ok a"
  shows "peffect n s i (srv s' i)"
proof -
  have keep: "peffect n s i (srv s i)" by (simp add: peffect.keep)
  have lid: "ae_LeaderId a \<noteq> -1" if "(k, OutAppendEntries j a) \<in> reqs s" for k j a
    using assms(2) that unfolding cinv_def req_inv_def by fastforce
  have cand: "rv_Candidate a \<noteq> -1" if "(k, OutRequestVote j a) \<in> reqs s" for k j a
    using assms(2) that unfolding cinv_def req_inv_def by fastforce
  have nosnap: "(k, OutInstallSnapshot j a) \<notin> reqs s" "(k, OutInstallSnapshot j a) \<notin> waiting s" for k j a
    using assms(2,3) unfolding snapless_def cinv_def req_inv_def by auto
  have li: "lastIncludeIndex (srv s i) = -1" "lastIncludeIndex (srv s' i) = -1" "logs (srv s i) \<noteq> []"
    using assms(3-6) by (simp_all add: snapless_def peer_ok_def)
  have upd: "peffect n s i (srv s' i)" if "lkeep (srv s j) rf'" "srv s' = (srv s)(j := rf')" for j rf'
    using that keep by (auto intro: peffect.keep)
  from assms(1) show ?thesis
  proof cases
    case (tick j r rf' outs)
    show ?thesis by (rule upd [OF ticker_tick_log(1) [OF tick(5)]]) (simp add: tick(1))
  next
    case (recv_vote k j args rf' reply)
    show ?thesis by (rule upd [OF RequestVote_lkeep [OF recv_vote(4) cand [OF recv_vote(2)]]]) (simp add: recv_vote(1))
  next
    case (vote_check k j args reply rf' b)
    show ?thesis by (rule upd [OF sendRequestVote_check_lkeep [OF vote_check(4)]]) (simp add: vote_check(1))
  next
    case (vote_switch k j args reply ok rf' num ret)
    show ?thesis by (rule upd [OF sendRequestVote_switch_lkeep [OF vote_switch(3)]]) (simp add: vote_switch(1))
  next
    case (recv_append k j args rf' reply)
    note req = recv_append(2)
    show ?thesis
    proof (cases "i = j")
      case True
      then have "peffect n s i rf'"
        using AppendEntries_peffect [OF assms(6) assms(7) [OF req] lid [OF req]] req recv_append(4) by simp
      then show ?thesis using True by (simp add: recv_append(1))
    qed (use keep in \<open>simp add: recv_append(1)\<close>)
  next
    case (append_reply k j args reply ok rf' num ret)
    show ?thesis
    proof (cases "i = owner s k")
      case True
      have "srv s' i = rf'" using True by (simp add: append_reply(1))
      moreover have "lkeep (srv s i) rf' \<or> commits args reply (counter s k) (srv s i) rf'"
        using sendAppendEntries_recv_log [OF append_reply(4)] True by blast
      ultimately show ?thesis
        using peffect.commit [OF True append_reply(2,3)] peffect.keep by blast
    qed (use keep in \<open>simp add: append_reply(1)\<close>)
  next
    case (recv_snap k j args rf' reply)
    then show ?thesis using nosnap by blast
  next
    case (snap_reply k j args reply rf' ret)
    then show ?thesis using nosnap by blast
  next
    case (start j c rf' res)
    show ?thesis
    proof (cases "i = j")
      case True
      then show ?thesis using Start_log [OF start(3)] start(1) by (auto intro: peffect.keep peffect.start)
    qed (use keep in \<open>simp add: start(1)\<close>)
  next
    case (get_state j rf' res)
    show ?thesis by (rule upd [OF GetState_lkeep [OF get_state(3)]]) (simp add: get_state(1))
  next
    case (snapshot j index d rf')
    then show ?thesis using Snapshot_lkeep [of index d "srv s i" rf'] li keep by (cases "i = j") (auto intro: peffect.keep)
  next
    case (cond_install j t index d rf' b)
    then show ?thesis using CondInstallSnapshot_lkeep [of t index d "srv s i" rf' b] li keep
      by (cases "i = j") (auto intro: peffect.keep)
  next
    case (kill j rf')
    show ?thesis by (rule upd [OF Kill_lkeep [OF kill(3)]]) (simp add: kill(1))
  next
    case (restart j r)
    then show ?thesis using keep by (cases "i = j") (auto simp: restart_persister_id intro: peffect.restart)
  qed
qed

end
