(* ===== verification/Raft_Matching.thy ===== *)
theory Raft_Matching
  imports Raft_Log
begin

text \<open>
  Log matching. Along a run without snapshots two histories are kept: the log of the leader of each
  term as far as it got, and the log with which each candidate started its election. Every log of
  a peer is made of prefixes of leaders' logs, and so is what append requests carry.
\<close>

section \<open>The peers stay well formed\<close>

lemma synced_saved: "saved rf \<Longrightarrow> synced rf"
  by (simp add: synced_def saved_def Make_def ReadRaftState_def readPersist_eq)

lemma synced_cong:
  fixes rf rf' :: "('c, 'd) Raft"
  assumes "persister rf' = persister rf" and "currentTerm rf' = currentTerm rf"
    and "voteFor rf' = voteFor rf" and "logs rf' = logs rf"
  shows "synced rf' = synced rf"
proof -
  let ?m = "Make (peers rf) (me rf) (persister rf) 0 :: ('c, 'd) Raft"
  let ?m' = "Make (peers rf') (me rf') (persister rf) 0 :: ('c, 'd) Raft"
  have "currentTerm ?m' = currentTerm ?m" "voteFor ?m' = voteFor ?m" "logs ?m' = logs ?m"
    unfolding Make_def by (rule readPersist_indep; simp)+
  then show ?thesis using assms by (simp add: synced_def Let_def)
qed

lemma synced_durable: "synced rf \<Longrightarrow> durable rf rf' \<Longrightarrow> synced rf'"
  using synced_saved synced_cong unfolding durable_def by blast

lemma peer_ok_lkeep: "peer_ok rf \<Longrightarrow> lkeep rf rf' \<Longrightarrow> peer_ok rf'"
  using synced_durable [of rf rf'] raft_ok_cong [of rf' rf] unfolding peer_ok_def lkeep_def by auto

lemma peer_ok_start:
  assumes "peer_ok rf"
  shows "peer_ok (Unlock (persist (rf\<lparr>mu := True, logs := logs rf @ [e]\<rparr>)))"
proof -
  have "synced (Unlock (persist (rf\<lparr>mu := True, logs := logs rf @ [e]\<rparr>)))"
    by (rule synced_saved) simp
  with assms show ?thesis by (auto simp: peer_ok_def raft_ok_def lastLogIndex_def Unlock_def)
qed

lemma peer_ok_append:
  assumes "peer_ok rf" and "ae_ok a" and "lastApplied rf \<le> ae_PrevLogIndex a" and "-1 \<le> ae_PrevLogIndex a"
    and "prev_term rf (ae_PrevLogIndex a) = Some (ae_PrevLogTerm a)" and "new_logs a rf \<noteq> []"
  shows "peer_ok (append_done a rf)"
proof -
  have ok: "raft_ok rf" "lastIncludeIndex rf = -1" using assms(1) by (simp_all add: peer_ok_def)
  note range = prev_term_SomeD [OF assms(5)]
  have reach: "ae_PrevLogIndex a + ae_len a \<le> int (length (new_logs a rf)) + lastIncludeIndex rf"
    using new_logs_reach range by blast
  have "0 \<le> ae_len a" by (simp add: ae_len_def split: option.splits)
  then have "raft_ok (append_done a rf)"
    using ok(1) append_done_commitIndex [OF ok(1), of a] reach assms(2,3)
    by (auto simp: raft_ok_def lastLogIndex_def ae_ok_def)
  moreover have "synced (append_done a rf)" by (rule synced_saved) (simp add: saved_def)
  ultimately show ?thesis using assms(1,6) by (simp add: peer_ok_def)
qed

text \<open>The effect of a commit.\<close>

lemma commits_eq:
  assumes "peer_ok rf" and "commits a reply num rf rf'"
  shows "\<exists>ni. rf' = (if lastApplied rf < ae_LogIndex a
      then rf\<lparr>mu := False, nextIndexs := ni, lastApplied := ae_LogIndex a,
             applyChan := applyChan rf @ applied_msgs rf (ae_LogIndex a), commitIndex := ae_LogIndex a\<rparr>
      else rf\<lparr>mu := False, nextIndexs := ni\<rparr>)"
    and "0 \<le> ae_LogIndex a \<Longrightarrow> nat (ae_LogIndex a) < length (logs rf) \<and>
      le_Term (logs rf ! nat (ae_LogIndex a)) = currentTerm rf"
proof -
  have ok: "raft_ok rf" "lastIncludeIndex rf = -1" using assms(1) by (simp_all add: peer_ok_def)
  from assms(2) obtain ni rf2 where c: "notCurrentTermEntry a rf = Inr False"
    "apply_loop (ae_LogIndex a) (rf\<lparr>mu := True, nextIndexs := ni\<rparr>) = Inr rf2" "rf' = Unlock rf2"
    unfolding commits_def by blast
  show pos: "0 \<le> ae_LogIndex a \<Longrightarrow> nat (ae_LogIndex a) < length (logs rf) \<and>
      le_Term (logs rf ! nat (ae_LogIndex a)) = currentTerm rf"
    using c(1) ok(2) by (auto simp: notCurrentTermEntry_def go_dest go_index_def split: if_splits)
  let ?rf = "rf\<lparr>mu := True, nextIndexs := ni\<rparr>"
  have "ae_LogIndex a \<le> lastLogIndex rf"
  proof (cases "0 \<le> ae_LogIndex a")
    case True
    then show ?thesis using pos ok(2) by (auto simp: lastLogIndex_def)
  next
    case False
    then show ?thesis using ok(2) by (simp add: lastLogIndex_def)
  qed
  then have "lastIncludeIndex ?rf \<le> lastApplied ?rf" "ae_LogIndex a \<le> lastLogIndex ?rf"
    using ok by (auto simp: raft_ok_def lastLogIndex_def)
  from apply_loop_returns [OF this] c(2)
  have "rf2 = (if lastApplied ?rf < ae_LogIndex a
         then ?rf\<lparr>lastApplied := ae_LogIndex a, applyChan := applyChan ?rf @ applied_msgs ?rf (ae_LogIndex a),
                 commitIndex := ae_LogIndex a\<rparr>
         else ?rf)" by simp
  moreover have "applied_msgs ?rf = applied_msgs rf" by (rule ext) (simp add: applied_msgs_def)
  ultimately show "\<exists>ni. rf' = (if lastApplied rf < ae_LogIndex a
      then rf\<lparr>mu := False, nextIndexs := ni, lastApplied := ae_LogIndex a,
             applyChan := applyChan rf @ applied_msgs rf (ae_LogIndex a), commitIndex := ae_LogIndex a\<rparr>
      else rf\<lparr>mu := False, nextIndexs := ni\<rparr>)"
    using c(3) by (intro exI [of _ ni]) (simp add: Unlock_def)
qed

lemma commits_fields:
  assumes "peer_ok rf" and "commits a reply num rf rf'"
  shows "logs rf' = logs rf" "currentTerm rf' = currentTerm rf" "voteFor rf' = voteFor rf"
    "persister rf' = persister rf" "lastIncludeIndex rf' = -1" "lastIncludeTerm rf' = 0"
    "lastApplied rf' = max (lastApplied rf) (ae_LogIndex a)" "commitIndex rf' = lastApplied rf'"
    "lastApplied rf \<le> ae_LogIndex a \<Longrightarrow> applyChan rf' = applyChan rf @ applied_msgs rf (ae_LogIndex a)"
    "ae_LogIndex a \<le> lastApplied rf \<Longrightarrow> applyChan rf' = applyChan rf"
proof -
  have ok: "lastIncludeIndex rf = -1" "lastIncludeTerm rf = 0" "commitIndex rf = lastApplied rf"
    using assms(1) by (simp_all add: peer_ok_def raft_ok_def)
  have nil: "applied_msgs rf (ae_LogIndex a) = []" if "ae_LogIndex a \<le> lastApplied rf"
    using that by (simp add: applied_msgs_def)
  from commits_eq(1) [OF assms] obtain ni where "rf' = (if lastApplied rf < ae_LogIndex a
      then rf\<lparr>mu := False, nextIndexs := ni, lastApplied := ae_LogIndex a,
             applyChan := applyChan rf @ applied_msgs rf (ae_LogIndex a), commitIndex := ae_LogIndex a\<rparr>
      else rf\<lparr>mu := False, nextIndexs := ni\<rparr>)" by blast
  then show "logs rf' = logs rf" "currentTerm rf' = currentTerm rf" "voteFor rf' = voteFor rf"
    "persister rf' = persister rf" "lastIncludeIndex rf' = -1" "lastIncludeTerm rf' = 0"
    "lastApplied rf' = max (lastApplied rf) (ae_LogIndex a)" "commitIndex rf' = lastApplied rf'"
    "lastApplied rf \<le> ae_LogIndex a \<Longrightarrow> applyChan rf' = applyChan rf @ applied_msgs rf (ae_LogIndex a)"
    "ae_LogIndex a \<le> lastApplied rf \<Longrightarrow> applyChan rf' = applyChan rf"
    using ok nil by (simp_all, auto)
qed

lemma peer_ok_commit:
  assumes "peer_ok rf" and "commits a reply num rf rf'"
  shows "peer_ok rf'"
proof -
  note f = commits_fields [OF assms]
  have "ae_LogIndex a \<le> lastLogIndex rf"
    using commits_eq(2) [OF assms] assms(1) by (cases "0 \<le> ae_LogIndex a") (auto simp: lastLogIndex_def peer_ok_def)
  then have "raft_ok rf'" using assms(1) f by (auto simp: peer_ok_def raft_ok_def lastLogIndex_def)
  moreover have "synced rf'" using assms(1) synced_cong [of rf' rf] f by (simp add: peer_ok_def)
  ultimately show ?thesis using assms(1) f by (simp add: peer_ok_def)
qed

text \<open>A restart.\<close>

lemma restart_fields:
  fixes rf :: "('c, 'd) Raft"
  assumes "peer_ok rf" and "rf' = (Make n i (persister rf) r :: ('c, 'd) Raft)"
  shows "logs rf' = logs rf" "currentTerm rf' = currentTerm rf" "voteFor rf' = voteFor rf"
    "lastApplied rf' = 0" "applyChan rf' = []" "lastIncludeIndex rf' = -1" "lastIncludeTerm rf' = 0"
    "commitIndex rf' = 0" "persister rf' = persister rf"
proof -
  let ?m = "Make (peers rf) (me rf) (persister rf) 0 :: ('c, 'd) Raft"
  have "currentTerm rf' = currentTerm ?m" "voteFor rf' = voteFor ?m" "logs rf' = logs ?m"
    unfolding assms(2) Make_def by (rule readPersist_indep; simp)+
  moreover have "synced rf" using assms(1) by (simp add: peer_ok_def)
  ultimately show "logs rf' = logs rf" "currentTerm rf' = currentTerm rf" "voteFor rf' = voteFor rf"
    by (simp_all add: synced_def Let_def)
  show "lastApplied rf' = 0" "applyChan rf' = []" "lastIncludeIndex rf' = -1" "lastIncludeTerm rf' = 0"
    "commitIndex rf' = 0" "persister rf' = persister rf"
    by (auto simp: assms(2) Make_def readPersist_def split: option.splits prod.splits)
qed

lemma peer_ok_restart:
  fixes rf :: "('c, 'd) Raft"
  assumes "peer_ok rf"
  shows "peer_ok (Make n i (persister rf) r :: ('c, 'd) Raft)" (is "peer_ok ?rf'")
proof -
  note f = restart_fields [OF assms refl, of n i r]
  have "synced ?rf'" using assms synced_cong [of ?rf' rf] f by (simp add: peer_ok_def)
  moreover have "logs rf \<noteq> []" using assms by (simp add: peer_ok_def)
  ultimately show ?thesis using f by (cases "logs rf") (simp_all add: peer_ok_def raft_ok_def lastLogIndex_def)
qed

lemma peer_ok_init: "peer_ok (srv (init_cluster n r) i)"
  by (simp add: init_cluster_def peer_ok_def raft_ok_def lastLogIndex_def synced_def Make_def
      ReadRaftState_def MakePersister_def readPersist_def)

section \<open>Logs made of leaders' logs\<close>

definition sentinel :: "'c LogEntry" where
  "sentinel = \<lparr>le_Term = 0, le_Cmd = None\<rparr>"

text \<open>\<open>C T\<close> is the log of the leader of term \<open>T\<close>, \<open>E\<close> the leaders elected so far.\<close>

definition wf_log :: "(int \<times> nat) set \<Rightarrow> (int \<Rightarrow> 'c LogEntry list) \<Rightarrow> 'c LogEntry list \<Rightarrow> bool" where
  "wf_log E C l \<longleftrightarrow> l \<noteq> [] \<and> l ! 0 = sentinel \<and> sorted (map le_Term l) \<and>
     (\<forall>m. 0 < m \<longrightarrow> m < length l \<longrightarrow>
        le_Term (l ! m) \<in> fst ` E \<and> prefix (take (Suc m) l) (C (le_Term (l ! m))))"

lemma wf_log_take: "wf_log E C l \<Longrightarrow> 0 < k \<Longrightarrow> wf_log E C (take k l)"
  by (cases "k \<le> length l") (auto simp: wf_log_def sorted_wrt_take take_map [symmetric] min_absorb2)

lemma wf_log_mono:
  assumes "wf_log E C l" and "E \<subseteq> E'" and "\<And>T. T \<in> fst ` E \<Longrightarrow> prefix (C T) (C' T)"
  shows "wf_log E' C' l"
  using assms unfolding wf_log_def by (meson image_mono prefix_order.trans subsetD)

lemma wf_log_snoc:
  assumes "wf_log E C l" and "T \<in> fst ` E" and "prefix (l @ [e]) (C T)" and "le_Term e = T"
    and "\<forall>x\<in>set l. le_Term x \<le> T"
  shows "wf_log E C (l @ [e])"
  using assms by (auto simp: wf_log_def nth_append sorted_append not_less_eq less_Suc_eq)

text \<open>Log matching for well-formed logs.\<close>

lemma wf_log_match:
  assumes "wf_log E C l" and "wf_log E C l'" and "m < length l" and "m < length l'"
    and "le_Term (l ! m) = le_Term (l' ! m)"
  shows "take (Suc m) l = take (Suc m) l'"
proof (cases "m = 0")
  case True
  then have "l ! 0 = l' ! 0" using assms by (simp add: wf_log_def)
  then show ?thesis using True assms(3,4) by (simp add: take_Suc_conv_app_nth)
next
  case False
  then have "prefix (take (Suc m) l) (C (le_Term (l ! m)))" "prefix (take (Suc m) l') (C (le_Term (l ! m)))"
    using assms unfolding wf_log_def by (blast, metis neq0_conv)
  then have "take (Suc m) (take (Suc m) l) = take (Suc m) (C (le_Term (l ! m)))"
    "take (Suc m) (take (Suc m) l') = take (Suc m) (C (le_Term (l ! m)))"
    using assms(3,4) by (auto elim!: prefixE)
  then show ?thesis by simp
qed

section \<open>The invariant\<close>

text \<open>The history: the leaders' logs follow the leaders while they are in their term, a
  candidate's log is taken when it gives itself its vote.\<close>

definition leader_of :: "('c, 'd) cluster \<Rightarrow> int \<Rightarrow> nat" where
  "leader_of s T = (SOME c. (T, c) \<in> elected s)"

definition track :: "('c, 'd) cluster \<Rightarrow> (int \<Rightarrow> 'c LogEntry list) \<Rightarrow> int \<Rightarrow> 'c LogEntry list" where
  "track s C T = (if T \<in> fst ` elected s \<and> currentTerm (srv s (leader_of s T)) = T
     then logs (srv s (leader_of s T)) else C T)"

definition base :: "('c, 'd) cluster \<Rightarrow> ('c, 'd) cluster \<Rightarrow> (int \<Rightarrow> nat \<Rightarrow> 'c LogEntry list) \<Rightarrow> int \<Rightarrow> nat \<Rightarrow> 'c LogEntry list" where
  "base s s' D T c = (if (T, c, c) \<in> votes s then D T c else logs (srv s' c))"

definition peers_inv :: "nat \<Rightarrow> (int \<Rightarrow> 'c LogEntry list) \<Rightarrow> ('c, 'd) cluster \<Rightarrow> bool" where
  "peers_inv n C s \<longleftrightarrow> (\<forall>i<n. peer_ok (srv s i) \<and> wf_log (elected s) C (logs (srv s i)) \<and>
     (\<forall>e\<in>set (logs (srv s i)). le_Term e \<le> currentTerm (srv s i)))"

definition lead_inv :: "nat \<Rightarrow> (int \<Rightarrow> 'c LogEntry list) \<Rightarrow> (int \<Rightarrow> nat \<Rightarrow> 'c LogEntry list) \<Rightarrow> ('c, 'd) cluster \<Rightarrow> bool" where
  "lead_inv n C D s \<longleftrightarrow> (\<forall>T c. (T, c) \<in> elected s \<longrightarrow> c < n \<and> (T, c, c) \<in> votes s \<and>
     wf_log (elected s) C (C T) \<and> (\<forall>e\<in>set (C T). le_Term e \<le> T) \<and>
     (currentTerm (srv s c) = T \<longrightarrow> logs (srv s c) = C T) \<and>
     (\<exists>xs. C T = D T c @ xs \<and> (\<forall>x\<in>set xs. le_Term x = T)))"

definition cand_inv :: "nat \<Rightarrow> (int \<Rightarrow> 'c LogEntry list) \<Rightarrow> (int \<Rightarrow> nat \<Rightarrow> 'c LogEntry list) \<Rightarrow> ('c, 'd) cluster \<Rightarrow> bool" where
  "cand_inv n C D s \<longleftrightarrow> (\<forall>T c. (T, c, c) \<in> votes s \<longrightarrow> c < n \<and> 1 \<le> T \<and> wf_log (elected s) C (D T c) \<and>
     (\<forall>e\<in>set (D T c). le_Term e < T) \<and>
     (T \<notin> fst ` elected s \<longrightarrow> currentTerm (srv s c) = T \<longrightarrow> logs (srv s c) = D T c))"

definition vreq_inv :: "(int \<Rightarrow> nat \<Rightarrow> 'c LogEntry list) \<Rightarrow> ('c, 'd) cluster \<Rightarrow> bool" where
  "vreq_inv D s \<longleftrightarrow> (\<forall>k j a. (k, OutRequestVote j a) \<in> reqs s \<longrightarrow>
     (rv_Term a, owner s k, owner s k) \<in> votes s \<and>
     rv_LastLogIndex a = int (length (D (rv_Term a) (owner s k))) - 1 \<and>
     rv_LastLogTerm a = le_Term (last (D (rv_Term a) (owner s k))))"

text \<open>An append request carries a piece of the log of its leader.\<close>

definition app_ok :: "(int \<Rightarrow> 'c LogEntry list) \<Rightarrow> int \<Rightarrow> 'c AppendEntriesArgs \<Rightarrow> bool" where
  "app_ok C j a \<longleftrightarrow> j \<noteq> ae_LeaderId a \<and> ae_ok a \<and> -1 \<le> ae_PrevLogIndex a \<and> 0 \<le> ae_LogIndex a \<and>
     ae_LogIndex a < int (length (C (ae_Term a))) \<and>
     (0 \<le> ae_PrevLogIndex a \<longrightarrow> ae_PrevLogTerm a = le_Term (C (ae_Term a) ! nat (ae_PrevLogIndex a))) \<and>
     take (nat (ae_LogIndex a + 1)) (C (ae_Term a)) =
       take (nat (ae_PrevLogIndex a + 1)) (C (ae_Term a)) @ (case ae_Logs a of None \<Rightarrow> [] | Some es \<Rightarrow> es)"

definition areq_inv :: "(int \<Rightarrow> 'c LogEntry list) \<Rightarrow> ('c, 'd) cluster \<Rightarrow> bool" where
  "areq_inv C s \<longleftrightarrow> (\<forall>k j a. (k, OutAppendEntries j a) \<in> reqs s \<longrightarrow> app_ok C j a)"

definition log_inv :: "nat \<Rightarrow> (int \<Rightarrow> 'c LogEntry list) \<Rightarrow> (int \<Rightarrow> nat \<Rightarrow> 'c LogEntry list) \<Rightarrow> ('c, 'd) cluster \<Rightarrow> bool" where
  "log_inv n C D s \<longleftrightarrow> peers_inv n C s \<and> lead_inv n C D s \<and> cand_inv n C D s \<and> vreq_inv D s \<and> areq_inv C s"

section \<open>What a step adds\<close>

lemma unique_leader:
  assumes "cinv n s" and "(T, c) \<in> elected s" and "(T, c') \<in> elected s"
  shows "c = c'"
proof -
  have inv: "vote_inv n s" using assms(1) by (simp add: cinv_def)
  then obtain P Q where "majority n P" "majority n Q"
      "\<forall>v\<in>P. (T, v, c) \<in> votes s" "\<forall>v\<in>Q. (T, v, c') \<in> votes s"
    using assms(2,3) unfolding vote_inv_def by meson
  moreover have "x = y" if "(T, v, x) \<in> votes s" "(T, v, y) \<in> votes s" for v x y
    using that inv unfolding vote_inv_def by blast
  ultimately show ?thesis by (rule maj.unique_winner [of n P Q "\<lambda>v c. (T, v, c) \<in> votes s"])
qed

lemma leader_of_eq: "cinv n s \<Longrightarrow> (T, c) \<in> elected s \<Longrightarrow> leader_of s T = c"
  unfolding leader_of_def by (metis someI unique_leader)

lemma track_leader: "cinv n s \<Longrightarrow> (T, c) \<in> elected s \<Longrightarrow>
  track s C T = (if currentTerm (srv s c) = T then logs (srv s c) else C T)"
  by (force simp: track_def leader_of_eq)

lemma vote_term:
  assumes "cinv n s" and "(T, i, c) \<in> votes s" and "i < n"
  shows "T \<le> currentTerm (srv s i)"
  using assms unfolding cinv_def srvs_inv_def srv_inv_def view_sel by force

lemma leader_elected: "cinv n s \<Longrightarrow> i < n \<Longrightarrow> myStatus (srv s i) = Leader \<Longrightarrow> (currentTerm (srv s i), i) \<in> elected s"
  by (simp add: cinv_def srvs_inv_def srv_inv_def)

lemma append_elected:
  assumes "cinv n s" and "(k, OutAppendEntries j a) \<in> reqs s"
  shows "\<exists>c. ae_LeaderId a = int c \<and> (ae_Term a, c) \<in> elected s"
  using assms unfolding cinv_def req_inv_def by blast

lemma cstep_mono: "cstep n s s' \<Longrightarrow> votes s \<subseteq> votes s' \<and> elected s \<subseteq> elected s' \<and> reps s \<subseteq> reps s' \<and> reqs s \<subseteq> reqs s'"
  by (induction rule: cstep.induct) auto

lemma cstep_owner: "cstep n s s' \<Longrightarrow> k < ticks s \<Longrightarrow> owner s' k = owner s k"
  by (induction rule: cstep.induct) auto

lemma req_tick: "cinv n s \<Longrightarrow> (k, out) \<in> reqs s \<Longrightarrow> k < ticks s \<and> owner s k < n"
  unfolding cinv_def req_inv_def by blast

text \<open>Only a tick sends requests.\<close>

lemma cstep_reqs:
  assumes "cstep n s s'" and "(k, out) \<in> reqs s'" and "(k, out) \<notin> reqs s"
  shows "\<exists>i r outs. i < n \<and> ticker_tick r (srv s i) = Inr (srv s' i, outs) \<and> out \<in> set outs \<and>
    k = ticks s \<and> owner s' k = i \<and>
    (currentTerm (srv s' i) \<noteq> currentTerm (srv s i) \<longrightarrow> (currentTerm (srv s' i), i, i) \<in> votes s')"
  using assms by cases auto

lemma cstep_elected:
  assumes "cstep n s s'" and "cinv n s" and "(T, c) \<in> elected s'" and "(T, c) \<notin> elected s"
  shows "c < n \<and> T = currentTerm (srv s c) \<and> currentTerm (srv s' c) = T \<and> lkeep (srv s c) (srv s' c) \<and>
    (\<exists>k j a. (k, OutRequestVote j a) \<in> reqs s \<and> owner s k = c \<and> rv_Term a = T)"
  using assms(1)
proof cases
  case (vote_switch k j args reply ok rf' num ret)
  let ?rf = "srv s (owner s k)"
  have new: "c = owner s k" "T = currentTerm rf'" "myStatus ?rf \<noteq> Leader" "myStatus rf' = Leader"
    using assms(3,4) by (auto simp: vote_switch(1) split: if_splits)
  have req: "(k, OutRequestVote (int j) args) \<in> reqs s" and bk: "backed s k j args reply"
    using assms(2) vote_switch(2) unfolding cinv_def rep_inv_def by (auto simp: backed_def)
  have o: "owner s k < n" using req_tick [OF assms(2) req] by simp
  have pn: "peers ?rf = n" using assms(2) o by (simp add: cinv_def srvs_inv_def srv_inv_def)
  have le: "counter s k \<le> int (peers ?rf) div 2"
    using assms(2) req pn unfolding cinv_def cnt_inv_def by fastforce
  from vote_switch(3) le have cnt: "view rf' = vapply Win (view ?rf) \<and> counts reply (counter s k) ?rf"
    by (cases rule: sendRequestVote_switch_cases) (use new in \<open>auto simp: view_def\<close>)
  then have "vt (view rf') = vt (view ?rf)" by simp
  then have ct: "currentTerm rf' = currentTerm ?rf" by simp
  have "rv_Term args = T" using cnt bk ct new(2) by (auto simp: counts_def backed_def)
  moreover have "srv s' c = rf'" using new(1) by (simp add: vote_switch(1))
  ultimately show ?thesis
    using o new ct req sendRequestVote_switch_lkeep [OF vote_switch(3)] by auto
qed (use assms(3,4) in auto)

lemma cstep_votes:
  assumes "cstep n s s'" and "cinv n s" and "(T, v, c) \<in> votes s'" and "(T, v, c) \<notin> votes s"
  shows "v < n \<and> lkeep (srv s v) (srv s' v) \<and> currentTerm (srv s' v) = T \<and>
    (c = v \<and> T = currentTerm (srv s v) + 1 \<or>
     c \<noteq> v \<and> (currentTerm (srv s v) < T \<or> currentTerm (srv s v) = T \<and> voteFor (srv s v) = -1) \<and>
     (\<exists>k a reply. (k, OutRequestVote (int v) a) \<in> reqs s \<and> owner s k = c \<and> rv_Term a = T \<and>
       RequestVote a (srv s v) = Inr (srv s' v, reply) \<and> rvr_VoteErr reply = VoteErr_Nil))"
  using assms(1)
proof cases
  case (tick i r rf' outs)
  have "v = i" "c = i" "T = currentTerm rf'" "currentTerm rf' \<noteq> currentTerm (srv s i)"
    using assms(3,4) by (auto simp: tick(1) split: if_splits)
  then show ?thesis using ticker_tick_log [OF tick(5)] tick(2) by (auto simp: tick(1))
next
  case (recv_vote k j args rf' reply)
  have new: "v = j" "c = nat (rv_Candidate args)" "T = rv_Term args" "rvr_VoteErr reply = VoteErr_Nil"
    using assms(3,4) by (auto simp: recv_vote(1) split: if_splits)
  have own: "rv_Candidate args = int (owner s k)" "int j \<noteq> int (owner s k)"
    using assms(2) recv_vote(2) unfolding cinv_def req_inv_def by fastforce+
  have m: "vguard (Grant T (rv_Candidate args)) (view (srv s j))"
    "view rf' = vapply (Grant T (rv_Candidate args)) (view (srv s j))"
    using RequestVote_fresh(1) [OF recv_vote(4) new(4)] new(3) by (auto simp: moved_def)
  have "vt (view rf') = T" using m(2) by simp
  then have "currentTerm rf' = T" by simp
  moreover have "srv s' j = rf'" by (simp add: recv_vote(1))
  moreover have "lkeep (srv s j) rf'" using RequestVote_lkeep [OF recv_vote(4)] own(1) by simp
  ultimately show ?thesis using new own m(1) recv_vote(2-4) by auto
qed (use assms(3,4) in auto)

section \<open>Steps keep the invariant\<close>

text \<open>What one step does to the log of a peer.\<close>

lemma peffect_log:
  assumes "peffect n s i rf'" and "peer_ok (srv s i)"
  shows "currentTerm (srv s i) \<le> currentTerm rf'"
    and "logs rf' = logs (srv s i) \<or>
      myStatus (srv s i) = Leader \<and> currentTerm rf' = currentTerm (srv s i) \<and>
        (\<exists>e. le_Term e = currentTerm (srv s i) \<and> logs rf' = logs (srv s i) @ [e]) \<or>
      (\<exists>k a. (k, OutAppendEntries (int i) a) \<in> reqs s \<and> currentTerm rf' = ae_Term a \<and> voteFor rf' = ae_LeaderId a \<and>
         prev_term (srv s i) (ae_PrevLogIndex a) = Some (ae_PrevLogTerm a) \<and> logs rf' = new_logs a (srv s i))"
proof -
  have "currentTerm (srv s i) \<le> currentTerm rf' \<and> (logs rf' = logs (srv s i) \<or>
      myStatus (srv s i) = Leader \<and> currentTerm rf' = currentTerm (srv s i) \<and>
        (\<exists>e. le_Term e = currentTerm (srv s i) \<and> logs rf' = logs (srv s i) @ [e]) \<or>
      (\<exists>k a. (k, OutAppendEntries (int i) a) \<in> reqs s \<and> currentTerm rf' = ae_Term a \<and> voteFor rf' = ae_LeaderId a \<and>
         prev_term (srv s i) (ae_PrevLogIndex a) = Some (ae_PrevLogTerm a) \<and> logs rf' = new_logs a (srv s i)))"
    using assms(1)
  proof cases
    case keep
    then show ?thesis by (auto simp: lkeep_def vkeep_def)
  next
    case (append k a)
    then show ?thesis by auto
  next
    case (commit k j a reply)
    then show ?thesis using commits_fields [OF assms(2) commit(4)] by simp
  next
    case (restart r)
    then show ?thesis using restart_fields [OF assms(2) restart] by simp
  qed (simp add: Unlock_def)
  then show "currentTerm (srv s i) \<le> currentTerm rf'" and "logs rf' = logs (srv s i) \<or>
      myStatus (srv s i) = Leader \<and> currentTerm rf' = currentTerm (srv s i) \<and>
        (\<exists>e. le_Term e = currentTerm (srv s i) \<and> logs rf' = logs (srv s i) @ [e]) \<or>
      (\<exists>k a. (k, OutAppendEntries (int i) a) \<in> reqs s \<and> currentTerm rf' = ae_Term a \<and> voteFor rf' = ae_LeaderId a \<and>
         prev_term (srv s i) (ae_PrevLogIndex a) = Some (ae_PrevLogTerm a) \<and> logs rf' = new_logs a (srv s i))"
    by blast+
qed

text \<open>A request that matches makes the log a piece of the leader's log.\<close>

lemma append_match:
  assumes "peer_ok rf" and "wf_log E C (logs rf)" and "wf_log E C (C (ae_Term a))" and "app_ok C j a"
    and "prev_term rf (ae_PrevLogIndex a) = Some (ae_PrevLogTerm a)"
  shows "nat (ae_PrevLogIndex a + 1) \<le> length (logs rf)"
    and "take (nat (ae_PrevLogIndex a + 1)) (logs rf) = take (nat (ae_PrevLogIndex a + 1)) (C (ae_Term a))"
    and "new_logs a rf = (if ae_Logs a = None then logs rf else take (nat (ae_LogIndex a + 1)) (C (ae_Term a)))"
    and "ae_Logs a = None \<Longrightarrow> ae_LogIndex a = ae_PrevLogIndex a"
proof -
  let ?p = "nat (ae_PrevLogIndex a + 1)" and ?T = "ae_Term a"
  have li: "lastIncludeIndex rf = -1" using assms(1) by (simp add: peer_ok_def)
  have a: "-1 \<le> ae_PrevLogIndex a" "0 \<le> ae_LogIndex a" "ae_ok a" "ae_LogIndex a < int (length (C ?T))"
    using assms(4) by (simp_all add: app_ok_def)
  show p: "?p \<le> length (logs rf)"
    using prev_term_SomeD [OF assms(5)] li by (simp add: lastLogIndex_def nat_le_iff)
  have pl: "ae_PrevLogIndex a \<le> ae_LogIndex a" using a(3) by (auto simp: ae_ok_def ae_len_def split: option.splits)
  show tk: "take ?p (logs rf) = take ?p (C ?T)"
  proof (cases "0 \<le> ae_PrevLogIndex a")
    case False
    with a(1) show ?thesis by simp
  next
    case True
    let ?m = "nat (ae_PrevLogIndex a)"
    have m: "?p = Suc ?m" "?m < length (logs rf)" "?m < length (C ?T)" using True p pl a(4) by simp_all
    have "le_Term (logs rf ! ?m) = ae_PrevLogTerm a"
      using assms(5) True li by (auto simp: prev_term_def entry_at_def split: if_splits)
    then have "le_Term (logs rf ! ?m) = le_Term (C ?T ! ?m)" using assms(4) True by (simp add: app_ok_def)
    then show ?thesis using wf_log_match [OF assms(2,3) m(2,3)] m(1) by simp
  qed
  show "new_logs a rf = (if ae_Logs a = None then logs rf else take (nat (ae_LogIndex a + 1)) (C (ae_Term a)))"
    using assms(4) tk li by (auto simp: new_logs_def app_ok_def add.commute split: option.splits)
  show "ae_Logs a = None \<Longrightarrow> ae_LogIndex a = ae_PrevLogIndex a"
    using a(3) by (simp add: ae_ok_def ae_len_def)
qed

text \<open>A step from a state with the invariant.\<close>

definition good_step :: "nat \<Rightarrow> (int \<Rightarrow> 'c LogEntry list) \<Rightarrow> (int \<Rightarrow> nat \<Rightarrow> 'c LogEntry list) \<Rightarrow>
    ('c, 'd) cluster \<Rightarrow> ('c, 'd) cluster \<Rightarrow> bool" where
  "good_step n C D s s' \<longleftrightarrow> cstep n s s' \<and> cinv n s \<and> cinv n s' \<and> snapless n s \<and> snapless n s' \<and> log_inv n C D s"

lemma good_stepD:
  assumes "good_step n C D s s'"
  shows "cstep n s s'" "cinv n s" "cinv n s'" "peers_inv n C s" "lead_inv n C D s" "cand_inv n C D s"
    "vreq_inv D s" "areq_inv C s" "votes s \<subseteq> votes s'" "elected s \<subseteq> elected s'" "reps s \<subseteq> reps s'" "reqs s \<subseteq> reqs s'"
  using assms cstep_mono unfolding good_step_def log_inv_def by blast+

lemma good_step_peffect:
  assumes "good_step n C D s s'" and "i < n"
  shows "peffect n s i (srv s' i)"
  using assms by (intro cstep_peffect) (auto simp: good_step_def log_inv_def peers_inv_def areq_inv_def app_ok_def)

lemma good_step_log:
  assumes "good_step n C D s s'" and "i < n"
  shows "peer_ok (srv s i)" "currentTerm (srv s i) \<le> currentTerm (srv s' i)"
    and "logs (srv s' i) = logs (srv s i) \<or>
      (currentTerm (srv s i), i) \<in> elected s \<and> currentTerm (srv s' i) = currentTerm (srv s i) \<and>
        (\<exists>e. le_Term e = currentTerm (srv s i) \<and> logs (srv s' i) = logs (srv s i) @ [e]) \<or>
      (\<exists>k a c. (k, OutAppendEntries (int i) a) \<in> reqs s \<and> currentTerm (srv s' i) = ae_Term a \<and>
         (ae_Term a, c) \<in> elected s \<and> c \<noteq> i \<and> voteFor (srv s' i) \<noteq> -1 \<and>
         logs (srv s' i) = take (nat (ae_LogIndex a + 1)) (C (ae_Term a)))"
proof -
  note g = good_stepD [OF assms(1)]
  show ok: "peer_ok (srv s i)" using g(4) assms(2) by (simp add: peers_inv_def)
  note eff = peffect_log [OF good_step_peffect [OF assms] ok]
  show "currentTerm (srv s i) \<le> currentTerm (srv s' i)" by (rule eff(1))
  from eff(2) show "logs (srv s' i) = logs (srv s i) \<or>
      (currentTerm (srv s i), i) \<in> elected s \<and> currentTerm (srv s' i) = currentTerm (srv s i) \<and>
        (\<exists>e. le_Term e = currentTerm (srv s i) \<and> logs (srv s' i) = logs (srv s i) @ [e]) \<or>
      (\<exists>k a c. (k, OutAppendEntries (int i) a) \<in> reqs s \<and> currentTerm (srv s' i) = ae_Term a \<and>
         (ae_Term a, c) \<in> elected s \<and> c \<noteq> i \<and> voteFor (srv s' i) \<noteq> -1 \<and>
         logs (srv s' i) = take (nat (ae_LogIndex a + 1)) (C (ae_Term a)))"
  proof (elim disjE exE conjE)
    fix k a
    assume a: "(k, OutAppendEntries (int i) a) \<in> reqs s" "currentTerm (srv s' i) = ae_Term a" "voteFor (srv s' i) = ae_LeaderId a"
      "prev_term (srv s i) (ae_PrevLogIndex a) = Some (ae_PrevLogTerm a)" "logs (srv s' i) = new_logs a (srv s i)"
    obtain c where c: "ae_LeaderId a = int c" "(ae_Term a, c) \<in> elected s"
      using append_elected [OF g(2) a(1)] by blast
    have ao: "app_ok C (int i) a" using g(8) a(1) by (simp add: areq_inv_def)
    have "wf_log (elected s) C (logs (srv s i))" "wf_log (elected s) C (C (ae_Term a))"
      using g(4,5) assms(2) c(2) by (auto simp: peers_inv_def lead_inv_def)
    from append_match(3) [OF ok this ao a(4)] a(5)
    have "logs (srv s' i) = logs (srv s i) \<or> logs (srv s' i) = take (nat (ae_LogIndex a + 1)) (C (ae_Term a))"
      by (auto split: if_splits)
    moreover have "c \<noteq> i" using ao c(1) by (auto simp: app_ok_def)
    moreover have "voteFor (srv s' i) \<noteq> -1" using a(3) c(1) by simp
    ultimately show ?thesis using a(1,2) c(2) by blast
  qed (use leader_elected [OF g(2) assms(2)] in blast)+
qed

text \<open>A leader's log only grows, by entries of its term, and only while it is in that term.\<close>

lemma canon_grows:
  assumes "good_step n C D s s'" and "(T, c) \<in> elected s"
  shows "\<exists>xs. track s' C T = C T @ xs \<and> (\<forall>x\<in>set xs. le_Term x = T)"
    and "track s' C T \<noteq> C T \<Longrightarrow> currentTerm (srv s c) = T"
proof -
  note g = good_stepD [OF assms(1)]
  have c: "c < n" "(T, c, c) \<in> votes s" and lg: "currentTerm (srv s c) = T \<Longrightarrow> logs (srv s c) = C T"
    using g(5) assms(2) by (simp_all add: lead_inv_def)
  have ge: "T \<le> currentTerm (srv s c)" by (rule vote_term [OF g(2) c(2,1)])
  note lo = good_step_log [OF assms(1) c(1)]
  have tr: "track s' C T = (if currentTerm (srv s' c) = T then logs (srv s' c) else C T)"
    by (rule track_leader [OF g(3)]) (use assms(2) g(10) in blast)
  have "(\<exists>xs. track s' C T = C T @ xs \<and> (\<forall>x\<in>set xs. le_Term x = T)) \<and>
    (track s' C T \<noteq> C T \<longrightarrow> currentTerm (srv s c) = T)"
  proof (cases "currentTerm (srv s' c) = T")
    case False
    then show ?thesis using tr by auto
  next
    case True
    then have ct: "currentTerm (srv s c) = T" using ge lo(2) by simp
    from lo(3) show ?thesis
    proof (elim disjE exE conjE)
      fix k a c'
      assume "(ae_Term a, c') \<in> elected s" "c' \<noteq> c" "currentTerm (srv s' c) = ae_Term a"
      then show ?thesis using unique_leader [OF g(2) assms(2), of c'] True by simp
    qed (use tr True ct lg in auto)
  qed
  then show "\<exists>xs. track s' C T = C T @ xs \<and> (\<forall>x\<in>set xs. le_Term x = T)"
    and "track s' C T \<noteq> C T \<Longrightarrow> currentTerm (srv s c) = T" by blast+
qed

lemma canon_prefix: "good_step n C D s s' \<Longrightarrow> T \<in> fst ` elected s \<Longrightarrow> prefix (C T) (track s' C T)"
  using canon_grows(1) by fastforce

lemma wf_log_step: "good_step n C D s s' \<Longrightarrow> wf_log (elected s) C l \<Longrightarrow> wf_log (elected s') (track s' C) l"
  by (rule wf_log_mono) (blast dest: good_stepD(10) canon_prefix)+

lemma good_step_peer_ok:
  assumes "good_step n C D s s'" and "i < n"
  shows "peer_ok (srv s' i)"
proof -
  note g = good_stepD [OF assms(1)]
  have ok: "peer_ok (srv s i)" by (rule good_step_log(1) [OF assms])
  from good_step_peffect [OF assms] show ?thesis
  proof cases
    case (append k a)
    have ao: "app_ok C (int i) a" using g(8) append(2) by (simp add: areq_inv_def)
    obtain c where "(ae_Term a, c) \<in> elected s" using append_elected [OF g(2) append(2)] by blast
    then have "wf_log (elected s) C (logs (srv s i))" "wf_log (elected s) C (C (ae_Term a))"
      using g(4,5) assms(2) by (auto simp: peers_inv_def lead_inv_def)
    from append_match(3) [OF ok this ao append(6)] have "new_logs a (srv s i) \<noteq> []"
      using ok ao by (auto simp: peer_ok_def app_ok_def split: if_splits)
    with append ao show ?thesis by (auto intro!: peer_ok_append [OF ok] simp: app_ok_def)
  qed (use ok in \<open>auto intro: peer_ok_lkeep peer_ok_start peer_ok_commit peer_ok_restart\<close>)
qed

lemma peers_inv_step:
  assumes "good_step n C D s s'"
  shows "peers_inv n (track s' C) s'"
  unfolding peers_inv_def
proof (intro allI impI)
  fix i assume i: "i < n"
  note g = good_stepD [OF assms] and lo = good_step_log [OF assms i]
  have old: "wf_log (elected s) C (logs (srv s i))" "\<forall>e\<in>set (logs (srv s i)). le_Term e \<le> currentTerm (srv s i)"
    using g(4) i by (simp_all add: peers_inv_def)
  from lo(3) have "wf_log (elected s') (track s' C) (logs (srv s' i)) \<and>
      (\<forall>e\<in>set (logs (srv s' i)). le_Term e \<le> currentTerm (srv s' i))"
  proof (elim disjE exE conjE)
    assume "logs (srv s' i) = logs (srv s i)"
    then show ?thesis using wf_log_step [OF assms old(1)] old(2) lo(2) by fastforce
  next
    fix e
    assume e: "(currentTerm (srv s i), i) \<in> elected s" "currentTerm (srv s' i) = currentTerm (srv s i)"
      "le_Term e = currentTerm (srv s i)" "logs (srv s' i) = logs (srv s i) @ [e]"
    have E: "(currentTerm (srv s i), i) \<in> elected s'" using e(1) g(10) by blast
    have "track s' C (currentTerm (srv s i)) = logs (srv s i) @ [e]"
      using track_leader [OF g(3) E] e(2,4) by simp
    then have "wf_log (elected s') (track s' C) (logs (srv s i) @ [e])"
      using E old(2) e(3) by (intro wf_log_snoc [OF wf_log_step [OF assms old(1)], of "currentTerm (srv s i)"]) force+
    then show ?thesis using e old(2) by auto
  next
    fix k a c
    assume a: "(k, OutAppendEntries (int i) a) \<in> reqs s" "currentTerm (srv s' i) = ae_Term a"
      "(ae_Term a, c) \<in> elected s" "logs (srv s' i) = take (nat (ae_LogIndex a + 1)) (C (ae_Term a))"
    have "0 \<le> ae_LogIndex a" using g(8) a(1) by (auto simp: areq_inv_def app_ok_def)
    moreover have C: "wf_log (elected s) C (C (ae_Term a))" "\<forall>e\<in>set (C (ae_Term a)). le_Term e \<le> ae_Term a"
      using g(5) a(3) by (auto simp: lead_inv_def)
    ultimately have "wf_log (elected s') (track s' C) (logs (srv s' i))"
      unfolding a(4) by (intro wf_log_step [OF assms] wf_log_take) simp_all
    then show ?thesis using C(2) a(2,4) by (auto dest: in_set_takeD)
  qed
  then show "peer_ok (srv s' i) \<and> wf_log (elected s') (track s' C) (logs (srv s' i)) \<and>
      (\<forall>e\<in>set (logs (srv s' i)). le_Term e \<le> currentTerm (srv s' i))"
    using good_step_peer_ok [OF assms i] by blast
qed

text \<open>A new leader starts with the log of its candidacy.\<close>

lemma new_leader:
  assumes "good_step n C D s s'" and "(T, c) \<in> elected s'" and "(T, c) \<notin> elected s"
  shows "c < n" "T \<notin> fst ` elected s" "(T, c, c) \<in> votes s" "track s' C T = D T c" "currentTerm (srv s' c) = T"
proof -
  note g = good_stepD [OF assms(1)]
  from cstep_elected [OF g(1,2) assms(2,3)] obtain k j a where
    e: "c < n" "T = currentTerm (srv s c)" "currentTerm (srv s' c) = T" "lkeep (srv s c) (srv s' c)"
    "(k, OutRequestVote j a) \<in> reqs s" "owner s k = c" "rv_Term a = T" by blast
  show "c < n" "currentTerm (srv s' c) = T" by (fact e)+
  show v: "(T, c, c) \<in> votes s" using g(7) e(5-7) unfolding vreq_inv_def by blast
  show nT: "T \<notin> fst ` elected s"
  proof
    assume "T \<in> fst ` elected s"
    then obtain c' where "(T, c') \<in> elected s" by force
    then show False using unique_leader [OF g(3) assms(2), of c'] g(10) assms(3) by blast
  qed
  have "logs (srv s c) = D T c" using g(6) v nT e(2) by (auto simp: cand_inv_def)
  then show "track s' C T = D T c" using track_leader [OF g(3) assms(2)] e(3,4) by (simp add: lkeep_def)
qed

lemma base_old: "(T, c, c) \<in> votes s \<Longrightarrow> base s s' D T c = D T c"
  by (simp add: base_def)

lemma lead_inv_cases:
  assumes "good_step n C D s s'" and "(T, c) \<in> elected s'"
  shows "c < n \<and> (T, c, c) \<in> votes s \<and> ((T, c) \<in> elected s \<or> currentTerm (srv s' c) = T) \<and>
    (\<exists>xs. track s' C T = D T c @ xs \<and> (\<forall>x\<in>set xs. le_Term x = T))"
proof (cases "(T, c) \<in> elected s")
  case True
  then obtain xs where "c < n" "(T, c, c) \<in> votes s" "C T = D T c @ xs" "\<forall>x\<in>set xs. le_Term x = T"
    using good_stepD(5) [OF assms(1)] unfolding lead_inv_def by blast
  moreover from canon_grows(1) [OF assms(1) True] obtain ys where
    "track s' C T = C T @ ys" "\<forall>x\<in>set ys. le_Term x = T" by blast
  ultimately show ?thesis using True by (auto intro!: exI [of _ "xs @ ys"])
next
  case False
  show ?thesis using new_leader [OF assms False] by simp
qed

lemma lead_inv_step:
  assumes "good_step n C D s s'"
  shows "lead_inv n (track s' C) (base s s' D) s'"
  unfolding lead_inv_def
proof (intro allI impI)
  fix T c assume E: "(T, c) \<in> elected s'"
  note g = good_stepD [OF assms]
  note tr = track_leader [OF g(3) E, of C]
  have v: "c < n" "(T, c, c) \<in> votes s"
    and ext: "\<exists>xs. track s' C T = D T c @ xs \<and> (\<forall>x\<in>set xs. le_Term x = T)"
    and now: "(T, c) \<in> elected s \<or> currentTerm (srv s' c) = T"
    using lead_inv_cases [OF assms E] by blast+
  have wf: "wf_log (elected s') (track s' C) (track s' C T) \<and> (\<forall>e\<in>set (track s' C T). le_Term e \<le> T)"
  proof (cases "currentTerm (srv s' c) = T")
    case True
    then show ?thesis using peers_inv_step [OF assms] tr v(1) unfolding peers_inv_def by auto
  next
    case False
    then have "(T, c) \<in> elected s" "track s' C T = C T" using now tr by simp_all
    then show ?thesis using g(5) wf_log_step [OF assms] unfolding lead_inv_def by auto
  qed
  moreover have "currentTerm (srv s' c) = T \<longrightarrow> logs (srv s' c) = track s' C T" using tr by simp
  moreover have "base s s' D T c = D T c" "(T, c, c) \<in> votes s'" using v(2) g(9) by (auto simp: base_old)
  ultimately show "c < n \<and> (T, c, c) \<in> votes s' \<and> wf_log (elected s') (track s' C) (track s' C T) \<and>
      (\<forall>e\<in>set (track s' C T). le_Term e \<le> T) \<and>
      (currentTerm (srv s' c) = T \<longrightarrow> logs (srv s' c) = track s' C T) \<and>
      (\<exists>xs. track s' C T = base s s' D T c @ xs \<and> (\<forall>x\<in>set xs. le_Term x = T))"
    using v(1) ext by simp
qed

lemma cand_inv_step:
  assumes "good_step n C D s s'"
  shows "cand_inv n (track s' C) (base s s' D) s'"
  unfolding cand_inv_def
proof (intro allI impI)
  fix T c assume V: "(T, c, c) \<in> votes s'"
  note g = good_stepD [OF assms]
  show "c < n \<and> 1 \<le> T \<and> wf_log (elected s') (track s' C) (base s s' D T c) \<and>
     (\<forall>e\<in>set (base s s' D T c). le_Term e < T) \<and>
     (T \<notin> fst ` elected s' \<longrightarrow> currentTerm (srv s' c) = T \<longrightarrow> logs (srv s' c) = base s s' D T c)"
  proof (cases "(T, c, c) \<in> votes s")
    case True
    have old: "c < n" "1 \<le> T" "wf_log (elected s) C (D T c)" "\<forall>e\<in>set (D T c). le_Term e < T"
      "T \<notin> fst ` elected s \<Longrightarrow> currentTerm (srv s c) = T \<Longrightarrow> logs (srv s c) = D T c"
      using g(6) True by (auto simp: cand_inv_def)
    have "logs (srv s' c) = D T c" if "T \<notin> fst ` elected s'" "currentTerm (srv s' c) = T"
    proof -
      have nT: "T \<notin> fst ` elected s" using that(1) g(10) by blast
      have "currentTerm (srv s c) = T"
        using vote_term [OF g(2) True old(1)] good_step_log(2) [OF assms old(1)] that(2) by simp
      then show ?thesis using good_step_log(3) [OF assms old(1)] old(5) nT that(2) by force
    qed
    then show ?thesis using old(1-4) True wf_log_step [OF assms old(3)] by (simp add: base_old)
  next
    case False
    from cstep_votes [OF g(1,2) V False] have new: "c < n" "logs (srv s' c) = logs (srv s c)"
      "T = currentTerm (srv s c) + 1" by (auto simp: lkeep_def)
    have old: "wf_log (elected s) C (logs (srv s c))" "\<forall>e\<in>set (logs (srv s c)). le_Term e \<le> currentTerm (srv s c)"
      using g(4) new(1) by (simp_all add: peers_inv_def)
    have "sentinel \<in> set (logs (srv s c))" using old(1) by (metis length_greater_0_conv nth_mem wf_log_def)
    with old(2) have "0 \<le> currentTerm (srv s c)" by (force simp: sentinel_def)
    then show ?thesis using new old wf_log_step [OF assms old(1)] False by (auto simp: base_def)
  qed
qed

lemma vreq_inv_step:
  assumes "good_step n C D s s'"
  shows "vreq_inv (base s s' D) s'"
  unfolding vreq_inv_def
proof (intro allI impI)
  fix k j a assume R: "(k, OutRequestVote j a) \<in> reqs s'"
  note g = good_stepD [OF assms]
  show "(rv_Term a, owner s' k, owner s' k) \<in> votes s' \<and>
     rv_LastLogIndex a = int (length (base s s' D (rv_Term a) (owner s' k))) - 1 \<and>
     rv_LastLogTerm a = le_Term (last (base s s' D (rv_Term a) (owner s' k)))"
  proof (cases "(k, OutRequestVote j a) \<in> reqs s")
    case True
    then have "owner s' k = owner s k" using cstep_owner [OF g(1)] req_tick [OF g(2)] by blast
    moreover have "(rv_Term a, owner s k, owner s k) \<in> votes s" using g(7) True by (auto simp: vreq_inv_def)
    ultimately show ?thesis using g(7,9) True by (auto simp: vreq_inv_def base_old)
  next
    case False
    from cstep_reqs [OF g(1) R False] obtain i r outs where
      t: "i < n" "ticker_tick r (srv s i) = Inr (srv s' i, outs)" "OutRequestVote j a \<in> set outs" "owner s' k = i"
      and v: "currentTerm (srv s' i) \<noteq> currentTerm (srv s i) \<Longrightarrow> (currentTerm (srv s' i), i, i) \<in> votes s'"
      by blast
    from ticker_tick_log(2) [OF t(2)] t(3) have
      c: "currentTerm (srv s' i) = currentTerm (srv s i) + 1" "a = voteArgs (srv s' i)"
      by (auto simp: heartbeat_out_def)
    have "(currentTerm (srv s' i), i, i) \<notin> votes s" using vote_term [OF g(2) _ t(1)] c(1) by force
    then have b: "base s s' D (currentTerm (srv s' i)) i = logs (srv s' i)" by (simp add: base_def)
    have "logs (srv s' i) \<noteq> []" "lastIncludeIndex (srv s' i) = -1"
      using good_step_peer_ok [OF assms t(1)] by (simp_all add: peer_ok_def)
    then show ?thesis using c v t(4) b by (simp add: voteArgs_def)
  qed
qed

lemma app_ok_mono:
  assumes "app_ok C j a" and "prefix (C (ae_Term a)) (C' (ae_Term a))"
  shows "app_ok C' j a"
proof -
  from assms(2) obtain zs where "C' (ae_Term a) = C (ae_Term a) @ zs" by (auto elim: prefixE)
  moreover have "ae_PrevLogIndex a \<le> ae_LogIndex a"
    using assms(1) by (auto simp: app_ok_def ae_ok_def ae_len_def split: option.splits)
  ultimately show ?thesis using assms(1) by (auto simp: app_ok_def nth_append)
qed

lemma app_ok_request:
  assumes "peer_ok rf" and "0 \<le> nx" and "nx \<le> lastLogIndex rf + 1" and "j \<noteq> me rf"
    and "C (currentTerm rf) = logs rf"
  shows "app_ok C j (append_request rf nx)"
proof -
  have rf: "lastIncludeIndex rf = -1" "logs rf \<noteq> []" "commitIndex rf \<le> lastLogIndex rf"
    using assms(1) by (simp_all add: peer_ok_def raft_ok_def)
  then have "0 < length (logs rf)" by simp
  moreover have "ae_ok (append_request rf nx)"
    using assms(2,3) rf by (auto simp: ae_ok_def ae_len_def append_request_def lastLogIndex_def)
  moreover have "prev_term rf (nx - 1) = Some (le_Term (logs rf ! nat (nx - 1)))" if "1 \<le> nx"
    using that assms(3) rf by (auto simp: prev_term_def entry_at_def lastLogIndex_def)
  ultimately show ?thesis
    using assms(2-5) rf by (auto simp: app_ok_def append_request_def lastLogIndex_def)
qed

lemma areq_inv_step:
  assumes "good_step n C D s s'"
  shows "areq_inv (track s' C) s'"
  unfolding areq_inv_def
proof (intro allI impI)
  fix k j a assume R: "(k, OutAppendEntries j a) \<in> reqs s'"
  note g = good_stepD [OF assms]
  show "app_ok (track s' C) j a"
  proof (cases "(k, OutAppendEntries j a) \<in> reqs s")
    case True
    then obtain c where "(ae_Term a, c) \<in> elected s" using append_elected [OF g(2)] by blast
    then have "prefix (C (ae_Term a)) (track s' C (ae_Term a))"
      by (intro canon_prefix [OF assms]) force
    then show ?thesis using g(8) True app_ok_mono [of C j a "track s' C"] by (auto simp: areq_inv_def)
  next
    case False
    from cstep_reqs [OF g(1) R False] obtain i r outs where
      t: "i < n" "ticker_tick r (srv s i) = Inr (srv s' i, outs)" "OutAppendEntries j a \<in> set outs" by blast
    have ok: "peer_ok (srv s i)" by (rule good_step_log(1) [OF assms t(1)])
    from ticker_tick_log(2) [OF t(2)] t(3) have
      h: "currentTerm (srv s' i) = currentTerm (srv s i)" "myStatus (srv s i) = Leader"
      "map dest outs = otherPeers (srv s i)" "heartbeat_out (srv s i) (OutAppendEntries j a)" by auto
    from h(4) obtain nx where "lastIncludeIndex (srv s i) < nx"
      and nx': "nx \<le> lastLogIndex (srv s i) + 1" "a = append_request (srv s i) nx"
      by (auto simp: heartbeat_out_def)
    then have nx: "0 \<le> nx" "nx \<le> lastLogIndex (srv s i) + 1" using ok by (simp_all add: peer_ok_def)
    have "j \<in> set (map dest outs)" using t(3) by force
    then have "j \<noteq> me (srv s i)" using otherPeers_range h(3) by metis
    moreover have "(currentTerm (srv s i), i) \<in> elected s'" using leader_elected [OF g(2) t(1) h(2)] g(10) by blast
    then have "track s' C (currentTerm (srv s i)) = logs (srv s i)"
      using track_leader [OF g(3)] h(1) ticker_tick_log(1) [OF t(2)] by (simp add: lkeep_def)
    ultimately show ?thesis unfolding nx'(2) by (rule app_ok_request [OF ok nx(1,2)])
  qed
qed

lemma log_inv_step: "good_step n C D s s' \<Longrightarrow> log_inv n (track s' C) (base s s' D) s'"
  unfolding log_inv_def
  by (intro conjI peers_inv_step lead_inv_step cand_inv_step vreq_inv_step areq_inv_step)

lemma log_inv_init: "log_inv n C D (init_cluster n r :: ('c, 'd) cluster)"
proof -
  let ?s = "init_cluster n r :: ('c, 'd) cluster"
  have "logs (srv ?s i) = [sentinel]" "currentTerm (srv ?s i) = 0" for i
    by (simp_all add: init_cluster_def Make_def ReadRaftState_def MakePersister_def readPersist_def sentinel_def)
  moreover have "wf_log E C [sentinel]" for E by (simp add: wf_log_def)
  moreover have "elected ?s = {}" "votes ?s = {}" "reqs ?s = {}" by (simp_all add: init_cluster_def)
  moreover have "le_Term (sentinel :: 'c LogEntry) = 0" by (simp add: sentinel_def)
  ultimately show ?thesis
    by (simp add: log_inv_def peers_inv_def lead_inv_def cand_inv_def vreq_inv_def areq_inv_def peer_ok_init)
qed

section \<open>Log matching\<close>

text \<open>Runs in which no snapshot is taken or sent.\<close>

inductive plain_reachable :: "nat \<Rightarrow> ('c, 'd) cluster \<Rightarrow> bool" for n :: nat where
  init: "plain_reachable n (init_cluster n r)"
| step: "plain_reachable n s \<Longrightarrow> cstep n s s' \<Longrightarrow> snapless n s' \<Longrightarrow> plain_reachable n s'"

lemma snapless_init: "snapless n (init_cluster n r)"
  using peer_ok_init [of n r] by (auto simp: snapless_def peer_ok_def) (simp add: init_cluster_def)

lemma plain_inv:
  "plain_reachable n s \<Longrightarrow> cinv n s \<and> snapless n s \<and> (\<exists>C D. log_inv n C D s)"
proof (induction rule: plain_reachable.induct)
  case (init r)
  show ?case using cinv_init snapless_init log_inv_init by blast
next
  case (step s s')
  then obtain C D where "good_step n C D s s'" using cstep_cinv unfolding good_step_def by blast
  then show ?case using log_inv_step step cstep_cinv by blast
qed

text \<open>
  C3: Log matching. As long as no snapshot is taken, in every reachable state, through lost,
  repeated, delayed and reordered messages, crashes and restarts: when the logs of two peers have entries of the
  same term at the same index, the logs are equal up to that index.
\<close>

theorem log_matching:
  assumes "plain_reachable n s" and "i < n" and "j < n"
    and "m < length (logs (srv s i))" and "m < length (logs (srv s j))"
    and "le_Term (logs (srv s i) ! m) = le_Term (logs (srv s j) ! m)"
  shows "take (Suc m) (logs (srv s i)) = take (Suc m) (logs (srv s j))"
proof -
  obtain C D where "log_inv n C D s" using plain_inv [OF assms(1)] by blast
  then have "wf_log (elected s) C (logs (srv s i))" "wf_log (elected s) C (logs (srv s j))"
    using assms(2,3) by (simp_all add: log_inv_def peers_inv_def)
  then show ?thesis using assms(4-6) by (rule wf_log_match)
qed

end
