(* ===== verification/Raft_Commit.thy ===== *)
theory Raft_Commit
  imports Raft_Matching
begin

text \<open>
  State machine safety for runs in which no snapshot is taken and no late request cuts a log back to
  a part of itself. An entry is committed when a majority has acknowledged it in the term of its
  leader; every later leader then has it (leader completeness), only committed entries are
  applied, and no two peers apply different commands at the same index.
\<close>

section \<open>Acknowledgements\<close>

text \<open>Peer \<open>v\<close> has the log of the leader of term \<open>T\<close> up to \<open>L\<close>: it is that leader, or said so.\<close>

definition acked :: "(int \<Rightarrow> 'c LogEntry list) \<Rightarrow> ('c, 'd) cluster \<Rightarrow> nat \<Rightarrow> int \<Rightarrow> nat \<Rightarrow> bool" where
  "acked C s v T L \<longleftrightarrow> (T, v) \<in> elected s \<and> L < length (C T) \<or>
     (\<exists>k a r. (k, OutAppendEntries (int v) a, RepAppend r) \<in> reps s \<and> aer_Success r \<and> ae_Term a = T \<and>
        int L \<le> ae_LogIndex a)"

definition committed :: "nat \<Rightarrow> (int \<Rightarrow> 'c LogEntry list) \<Rightarrow> ('c, 'd) cluster \<Rightarrow> int \<Rightarrow> nat \<Rightarrow> bool" where
  "committed n C s T L \<longleftrightarrow> T \<in> fst ` elected s \<and> L < length (C T) \<and> le_Term (C T ! L) = T \<and>
     (\<exists>Q. majority n Q \<and> (\<forall>v\<in>Q. acked C s v T L))"

text \<open>Replies answer requests.\<close>

definition rep_req_inv :: "('c, 'd) cluster \<Rightarrow> bool" where
  "rep_req_inv s \<longleftrightarrow> (\<forall>k j a r. (k, OutAppendEntries j a, RepAppend r) \<in> reps s \<longrightarrow> (k, OutAppendEntries j a) \<in> reqs s)"

text \<open>A peer keeps what it acknowledged, unless a newer leader without it has overwritten it.\<close>

definition lost_to :: "(int \<Rightarrow> 'c LogEntry list) \<Rightarrow> ('c, 'd) cluster \<Rightarrow> int \<Rightarrow> nat \<Rightarrow> int \<Rightarrow> bool" where
  "lost_to C s T L T' \<longleftrightarrow> T' \<in> fst ` elected s \<and> T < T' \<and> \<not> prefix (take (Suc L) (C T)) (C T')"

definition ack_inv :: "nat \<Rightarrow> (int \<Rightarrow> 'c LogEntry list) \<Rightarrow> ('c, 'd) cluster \<Rightarrow> bool" where
  "ack_inv n C s \<longleftrightarrow> (\<forall>v T L. v < n \<longrightarrow> acked C s v T L \<longrightarrow> T \<le> currentTerm (srv s v) \<and>
     (prefix (take (Suc L) (C T)) (logs (srv s v)) \<or>
      (\<exists>T'. lost_to C s T L T' \<and> (T' < currentTerm (srv s v) \<or> T' = currentTerm (srv s v) \<and> voteFor (srv s v) \<noteq> -1))))"

text \<open>A voter that acknowledged an entry votes for candidates that have it, or have seen a newer term.\<close>

definition cast_inv :: "nat \<Rightarrow> (int \<Rightarrow> 'c LogEntry list) \<Rightarrow> (int \<Rightarrow> nat \<Rightarrow> 'c LogEntry list) \<Rightarrow> ('c, 'd) cluster \<Rightarrow> bool" where
  "cast_inv n C D s \<longleftrightarrow> (\<forall>T' v c. (T', v, c) \<in> votes s \<longrightarrow> v < n \<and> (T', c, c) \<in> votes s \<and>
     (\<forall>T L. acked C s v T L \<longrightarrow> T < T' \<longrightarrow> le_Term (C T ! L) = T \<longrightarrow>
        prefix (take (Suc L) (C T)) (D T' c) \<or> T < le_Term (last (D T' c)) \<or>
        (\<exists>T''. lost_to C s T L T'' \<and> T'' < T')))"

lemma acked_elected:
  assumes "acked C s v T L" and "cinv n s" and "areq_inv C s" and "rep_req_inv s"
  shows "T \<in> fst ` elected s" and "L < length (C T)"
proof -
  have "T \<in> fst ` elected s \<and> L < length (C T)"
    using assms(1) unfolding acked_def
  proof (elim disjE exE conjE)
    fix k a r
    assume r: "(k, OutAppendEntries (int v) a, RepAppend r) \<in> reps s" "ae_Term a = T" "int L \<le> ae_LogIndex a"
    then have q: "(k, OutAppendEntries (int v) a) \<in> reqs s" using assms(4) by (auto simp: rep_req_inv_def)
    then have "app_ok C (int v) a" using assms(3) by (auto simp: areq_inv_def)
    then show ?thesis using r append_elected [OF assms(2) q] by (force simp: app_ok_def)
  qed force
  then show "T \<in> fst ` elected s" and "L < length (C T)" by auto
qed

section \<open>Leader completeness\<close>

lemma in_prefix_term:
  assumes "prefix P (C T)" and "\<forall>e\<in>set (C T). le_Term e \<le> T" and "x \<in> set P"
  shows "le_Term x \<le> T"
  using assms by (meson set_mono_prefix subsetD)

text \<open>A log is a prefix of the log of the leader of its last entry.\<close>

lemma wf_log_last:
  assumes "wf_log E C l" and "le_Term (last l) \<noteq> 0"
  shows "le_Term (last l) \<in> fst ` E" and "prefix l (C (le_Term (last l)))"
proof -
  let ?m = "length l - 1"
  have l: "l \<noteq> []" "last l = l ! ?m" "l ! 0 = sentinel" using assms(1) by (auto simp: wf_log_def last_conv_nth)
  then have m: "0 < ?m" using assms(2) by (cases "?m = 0") (auto simp: sentinel_def)
  moreover have "?m < length l" using l(1) by simp
  ultimately have "le_Term (l ! ?m) \<in> fst ` E \<and> prefix (take (Suc ?m) l) (C (le_Term (l ! ?m)))"
    using assms(1) unfolding wf_log_def by blast
  moreover have "take (Suc ?m) l = l" using m by simp
  ultimately show "le_Term (last l) \<in> fst ` E" and "prefix l (C (le_Term (last l)))"
    unfolding l(2) by (simp_all only:)
qed

lemma leader_complete:
  assumes inv: "cinv n s" "log_inv n C D s" "rep_req_inv s" "cast_inv n C D s"
    and com: "committed n C s T L" and E: "(T', c') \<in> elected s" and lt: "T < T'"
  shows "prefix (take (Suc L) (C T)) (C T')"
  using E lt
proof (induction "nat (T' - T)" arbitrary: T' c' rule: less_induct)
  case less
  let ?P = "take (Suc L) (C T)"
  have IH: "prefix ?P (C T'')" if "T'' \<in> fst ` elected s" "T < T''" "T'' < T'" for T''
    using less.hyps [of T''] that less.prems(2) by fastforce
  have lead: "lead_inv n C D s" and cand: "cand_inv n C D s" using inv(2) by (simp_all add: log_inv_def)
  from com obtain Q where Q: "majority n Q" "\<And>v. v \<in> Q \<Longrightarrow> acked C s v T L" "le_Term (C T ! L) = T"
    "T \<in> fst ` elected s" unfolding committed_def by blast
  from inv(1) less.prems(1) obtain Q' where Q': "majority n Q'" "\<And>v. v \<in> Q' \<Longrightarrow> (T', v, c') \<in> votes s"
    unfolding cinv_def vote_inv_def by meson
  from maj.quorum_meet [OF Q(1) Q'(1)] obtain v where v: "v \<in> Q" "v \<in> Q'" by blast
  have vt: "(T', c', c') \<in> votes s" using lead less.prems(1) by (simp add: lead_inv_def)
  have D: "wf_log (elected s) C (D T' c')" "\<forall>e\<in>set (D T' c'). le_Term e < T'"
    using cand vt by (auto simp: cand_inv_def)
  have DC: "prefix (D T' c') (C T')" using lead less.prems(1) by (force simp: lead_inv_def)
  consider "prefix ?P (D T' c')" | "T < le_Term (last (D T' c'))" | T'' where "lost_to C s T L T''" "T'' < T'"
    using inv(4) Q'(2) [OF v(2)] Q(2) [OF v(1)] less.prems(2) Q(3) unfolding cast_inv_def by blast
  then show ?case
  proof cases
    case 1
    then show ?thesis using DC prefix_order.trans by blast
  next
    case 2
    let ?d = "D T' c'"
    have ne: "?d \<noteq> []" using D(1) by (auto simp: wf_log_def)
    obtain c where "(T, c) \<in> elected s" using Q(4) by force
    then have "1 \<le> T" using lead cand unfolding lead_inv_def cand_inv_def by blast
    then have "le_Term (last ?d) \<noteq> 0" using 2 by simp
    from wf_log_last [OF D(1) this] have "le_Term (last ?d) \<in> fst ` elected s"
      and pre: "prefix ?d (C (le_Term (last ?d)))" .
    moreover have "le_Term (last ?d) < T'" using D(2) ne by simp
    ultimately have "prefix ?P (C (le_Term (last ?d)))" using IH 2 by blast
    then consider "prefix ?P ?d" | "prefix ?d ?P" using pre prefix_same_cases by blast
    then show ?thesis
    proof cases
      case 1
      then show ?thesis using DC prefix_order.trans by blast
    next
      case 2
      have "prefix ?P (C T)" by (rule take_is_prefix)
      then have "prefix ?d (C T)" using 2 prefix_order.trans by blast
      moreover have "\<forall>e\<in>set (C T). le_Term e \<le> T" using lead \<open>(T, c) \<in> elected s\<close> by (simp add: lead_inv_def)
      ultimately have "le_Term (last ?d) \<le> T" using in_prefix_term [of ?d C T] ne by auto
      then show ?thesis using \<open>T < le_Term (last ?d)\<close> by simp
    qed
  next
    case 3
    then show ?thesis using IH by (auto simp: lost_to_def)
  qed
qed

section \<open>Steps keep the invariants\<close>

text \<open>A late request must not cut a log back to a proper part of itself.\<close>

definition no_cut :: "nat \<Rightarrow> ('c, 'd) cluster \<Rightarrow> ('c, 'd) cluster \<Rightarrow> bool" where
  "no_cut n s s' \<longleftrightarrow> (\<forall>i<n. \<not> strict_prefix (logs (srv s' i)) (logs (srv s i)))"

lemma peffect_vkeep:
  assumes "peffect n s i rf'" and "peer_ok (srv s i)"
    and "\<And>k a. (k, OutAppendEntries (int i) a) \<in> reqs s \<Longrightarrow> ae_LeaderId a \<noteq> -1"
  shows "vkeep (srv s i) rf'"
  using assms(1)
proof cases
  case keep
  then show ?thesis by (simp add: lkeep_def)
next
  case (append k a)
  then show ?thesis using assms(3) by (auto simp: vkeep_def)
next
  case (commit k j a reply)
  then show ?thesis using commits_fields [OF assms(2) commit(4)] by (simp add: vkeep_def)
next
  case (restart r)
  then show ?thesis using restart_fields [OF assms(2) restart] by (simp add: vkeep_def)
qed (simp add: vkeep_def Unlock_def)

lemma good_step_vkeep:
  assumes "good_step n C D s s'" and "i < n"
  shows "vkeep (srv s i) (srv s' i)"
proof (rule peffect_vkeep [OF good_step_peffect [OF assms] good_step_log(1) [OF assms]])
  show "ae_LeaderId a \<noteq> -1" if "(k, OutAppendEntries (int i) a) \<in> reqs s" for k a
    using append_elected [OF good_stepD(2) [OF assms(1)] that] by auto
qed

text \<open>New replies to append requests: the follower has taken over the entries.\<close>

lemma cstep_reps:
  assumes "good_step n C D s s'" and "(k, OutAppendEntries j a, RepAppend r) \<in> reps s'"
    and "(k, OutAppendEntries j a, RepAppend r) \<notin> reps s"
  shows "(k, OutAppendEntries j a) \<in> reqs s \<and>
    (aer_Success r \<longrightarrow> (\<exists>v<n. j = int v \<and> srv s' v = append_done a (srv s v) \<and>
       prev_term (srv s v) (ae_PrevLogIndex a) = Some (ae_PrevLogTerm a)))"
  using good_stepD(1) [OF assms(1)]
proof cases
  case (recv_append k' j' args rf' reply)
  have eq: "k' = k" "j = int j'" "args = a" "r = reply" using assms(2,3) by (auto simp: recv_append(1))
  have "peer_ok (srv s j')" by (rule good_step_log(1) [OF assms(1) recv_append(3)])
  moreover have "ae_ok a"
    using good_stepD(8) [OF assms(1)] recv_append(2) eq by (auto simp: areq_inv_def app_ok_def)
  ultimately have "raft_ok (srv s j')" "ae_ok args" using eq by (simp_all add: peer_ok_def)
  from this recv_append(4) show ?thesis
    by (cases rule: AppendEntries_cases) (use recv_append eq in auto)
qed (use assms(2,3) in auto)

lemma rep_req_inv_step: "good_step n C D s s' \<Longrightarrow> rep_req_inv s \<Longrightarrow> rep_req_inv s'"
  unfolding rep_req_inv_def using cstep_reps good_stepD(12) by blast

text \<open>An accepted request leaves the leader's log, up to its end, in the log of the follower.\<close>

lemma append_done_prefix:
  assumes "good_step n C D s s'" and "v < n" and "(k, OutAppendEntries (int v) a) \<in> reqs s"
    and "srv s' v = append_done a (srv s v)" and "prev_term (srv s v) (ae_PrevLogIndex a) = Some (ae_PrevLogTerm a)"
  shows "prefix (take (nat (ae_LogIndex a + 1)) (C (ae_Term a))) (logs (srv s' v))"
proof -
  note g = good_stepD [OF assms(1)]
  have ok: "peer_ok (srv s v)" by (rule good_step_log(1) [OF assms(1,2)])
  have ao: "app_ok C (int v) a" using g(8) assms(3) by (simp add: areq_inv_def)
  obtain c where "(ae_Term a, c) \<in> elected s" using append_elected [OF g(2) assms(3)] by blast
  then have "wf_log (elected s) C (logs (srv s v))" "wf_log (elected s) C (C (ae_Term a))"
    using g(4,5) assms(2) by (auto simp: peers_inv_def lead_inv_def)
  note m = append_match [OF ok this ao assms(5)]
  show ?thesis
  proof (cases "ae_Logs a")
    case None
    then have "take (nat (ae_LogIndex a + 1)) (C (ae_Term a)) = take (nat (ae_LogIndex a + 1)) (logs (srv s' v))"
      using m(2-4) assms(4) by simp
    then show ?thesis by (simp add: take_is_prefix)
  next
    case (Some es)
    then show ?thesis using m(3) assms(4) by simp
  qed
qed

text \<open>A new acknowledgement is of the current term, and the entries are there.\<close>

lemma acked_new:
  assumes "good_step n C D s s'" and "rep_req_inv s" and "v < n"
    and "acked (track s' C) s' v T L" and "\<not> acked C s v T L"
  shows "currentTerm (srv s' v) = T" and "prefix (take (Suc L) (track s' C T)) (logs (srv s' v))"
proof -
  note g = good_stepD [OF assms(1)]
  from assms(4) consider (lead) "(T, v) \<in> elected s'" "L < length (track s' C T)"
    | (rep) k a r where "(k, OutAppendEntries (int v) a, RepAppend r) \<in> reps s'" "aer_Success r" "ae_Term a = T"
       "int L \<le> ae_LogIndex a" unfolding acked_def by blast
  then have "currentTerm (srv s' v) = T \<and> prefix (take (Suc L) (track s' C T)) (logs (srv s' v))"
  proof cases
    case lead
    note tr = track_leader [OF g(3) lead(1), of C]
    have "currentTerm (srv s' v) = T"
    proof (rule ccontr)
      assume ne: "currentTerm (srv s' v) \<noteq> T"
      then have "(T, v) \<in> elected s" "track s' C T = C T" using lead_inv_cases [OF assms(1) lead(1)] tr by auto
      then show False using lead(2) assms(5) by (simp add: acked_def)
    qed
    then show ?thesis using tr by (simp add: take_is_prefix)
  next
    case rep
    have "(k, OutAppendEntries (int v) a, RepAppend r) \<notin> reps s"
      using rep assms(5) unfolding acked_def by blast
    from cstep_reps [OF assms(1) rep(1) this] rep(2) have
      new: "(k, OutAppendEntries (int v) a) \<in> reqs s" "srv s' v = append_done a (srv s v)"
        "prev_term (srv s v) (ae_PrevLogIndex a) = Some (ae_PrevLogTerm a)" by auto
    have ao: "app_ok C (int v) a" using g(8) new(1) by (simp add: areq_inv_def)
    have "T \<in> fst ` elected s" using append_elected [OF g(2) new(1)] rep(3) by force
    then obtain zs where "track s' C T = C T @ zs" using canon_prefix [OF assms(1)] by (auto elim: prefixE)
    moreover have "Suc L \<le> nat (ae_LogIndex a + 1)" "L < length (C T)"
      using rep(3,4) ao by (auto simp: app_ok_def)
    ultimately have "take (Suc L) (track s' C T) = take (Suc L) (take (nat (ae_LogIndex a + 1)) (C T))" by simp
    then have "prefix (take (Suc L) (track s' C T)) (take (nat (ae_LogIndex a + 1)) (C T))"
      by (metis take_is_prefix)
    then show ?thesis
      using append_done_prefix [OF assms(1,3) new] new(2) rep(3) prefix_order.trans by force
  qed
  then show "currentTerm (srv s' v) = T" and "prefix (take (Suc L) (track s' C T)) (logs (srv s' v))" by auto
qed

lemma acked_mono:
  assumes "good_step n C D s s'" and "acked C s v T L"
  shows "acked (track s' C) s' v T L"
proof -
  have "length (C T) \<le> length (track s' C T)" if "(T, v) \<in> elected s"
    using canon_prefix [OF assms(1), of T] that by (force dest: prefix_length_le)
  then show ?thesis using assms(2) good_stepD(10,11) [OF assms(1)] unfolding acked_def by fastforce
qed

text \<open>What is known about an entry of a leader's log stays known.\<close>

lemma canon_entry:
  assumes "good_step n C D s s'" and "T \<in> fst ` elected s" and "L < length (C T)"
  shows "take (Suc L) (track s' C T) = take (Suc L) (C T)" "track s' C T ! L = C T ! L" "L < length (track s' C T)"
proof -
  obtain zs where "track s' C T = C T @ zs" using canon_prefix [OF assms(1,2)] by (auto elim: prefixE)
  then show "take (Suc L) (track s' C T) = take (Suc L) (C T)" "track s' C T ! L = C T ! L"
    "L < length (track s' C T)" using assms(3) by (simp_all add: nth_append)
qed

lemma not_prefix_grows:
  assumes "good_step n C D s s'" and "T \<in> fst ` elected s" and "T' \<in> fst ` elected s" and "T < T'"
    and "\<not> prefix (take m (C T)) (C T')"
  shows "\<not> prefix (take m (C T)) (track s' C T')"
proof
  assume pre: "prefix (take m (C T)) (track s' C T')"
  obtain c c' where E: "(T, c) \<in> elected s" "(T', c') \<in> elected s" using assms(2,3) by force
  obtain xs where xs: "track s' C T' = C T' @ xs" "\<forall>x\<in>set xs. le_Term x = T'"
    using canon_grows(1) [OF assms(1) E(2)] by blast
  with pre assms(5) obtain us where us: "take m (C T) = C T' @ us" "prefix us xs" by (auto simp: prefix_append)
  with assms(5) have "us \<noteq> []" by auto
  then have "hd us \<in> set (C T)" "hd us \<in> set xs"
    using us by (metis hd_in_set in_set_takeD in_set_conv_decomp append_Cons append_assoc list.collapse, meson hd_in_set set_mono_prefix subsetD)
  then show False using xs(2) assms(4) E(1) good_stepD(5) [OF assms(1)] by (fastforce simp: lead_inv_def)
qed

lemma lost_to_step:
  assumes "good_step n C D s s'" and "lost_to C s T L T'" and "T \<in> fst ` elected s" and "L < length (C T)"
  shows "lost_to (track s' C) s' T L T'"
proof -
  have "T' \<in> fst ` elected s" "T < T'" "\<not> prefix (take (Suc L) (C T)) (C T')"
    using assms(2) by (simp_all add: lost_to_def)
  moreover from this have "T' \<in> fst ` elected s'" using good_stepD(10) [OF assms(1)] by blast
  ultimately show ?thesis
    using not_prefix_grows [OF assms(1,3), of T' "Suc L"] canon_entry(1) [OF assms(1,3,4)] by (simp add: lost_to_def)
qed

lemma ack_inv_step:
  assumes g: "good_step n C D s s'" and cut: "no_cut n s s'" and rr: "rep_req_inv s" and inv: "ack_inv n C s"
  shows "ack_inv n (track s' C) s'"
  unfolding ack_inv_def
proof (intro allI impI)
  fix v T L
  let ?C = "track s' C" and ?rf = "srv s v" and ?rf' = "srv s' v"
  assume v: "v < n" and ack: "acked ?C s' v T L"
  note gd = good_stepD [OF g]
  show "T \<le> currentTerm ?rf' \<and> (prefix (take (Suc L) (?C T)) (logs ?rf') \<or>
      (\<exists>T'. lost_to ?C s' T L T' \<and> (T' < currentTerm ?rf' \<or> T' = currentTerm ?rf' \<and> voteFor ?rf' \<noteq> -1)))"
  proof (cases "acked C s v T L")
    case False
    then show ?thesis using acked_new [OF g rr v ack] by simp
  next
    case True
    note E = acked_elected [OF True gd(2,8) rr]
    have eq: "take (Suc L) (?C T) = take (Suc L) (C T)" by (rule canon_entry(1) [OF g E])
    have le: "T \<le> currentTerm ?rf" using inv v True by (simp add: ack_inv_def)
    have vk: "vkeep ?rf ?rf'" by (rule good_step_vkeep [OF g v])
    have le': "T \<le> currentTerm ?rf'" using le good_step_log(2) [OF g v] by simp
    consider (has) "prefix (take (Suc L) (C T)) (logs ?rf)"
      | (lost) T' where "lost_to C s T L T'" "T' < currentTerm ?rf \<or> T' = currentTerm ?rf \<and> voteFor ?rf \<noteq> -1"
      using inv v True unfolding ack_inv_def by blast
    then show ?thesis
    proof cases
      case lost
      have "T' < currentTerm ?rf' \<or> T' = currentTerm ?rf' \<and> voteFor ?rf' \<noteq> -1"
        using lost(2) vk by (auto simp: vkeep_def)
      then show ?thesis using lost_to_step [OF g lost(1) E] le' by blast
    next
      case has
      from good_step_log(3) [OF g v] show ?thesis
      proof (elim disjE exE conjE)
        assume "logs ?rf' = logs ?rf"
        then show ?thesis using has eq le' by simp
      next
        fix e assume "logs ?rf' = logs ?rf @ [e]"
        then show ?thesis using has eq le' by (simp add: prefix_append)
      next
        fix k a c
        assume a: "currentTerm ?rf' = ae_Term a" "(ae_Term a, c) \<in> elected s" "voteFor ?rf' \<noteq> -1"
          "logs ?rf' = take (nat (ae_LogIndex a + 1)) (C (ae_Term a))"
        have T': "ae_Term a \<in> fst ` elected s" using a(2) by force
        show ?thesis
        proof (cases "prefix (take (Suc L) (C T)) (C (ae_Term a))")
          case True
          moreover have "prefix (logs ?rf') (C (ae_Term a))" unfolding a(4) by (rule take_is_prefix)
          ultimately have "prefix (take (Suc L) (C T)) (logs ?rf') \<or> prefix (logs ?rf') (take (Suc L) (C T))"
            by (rule prefix_same_cases)
          then show ?thesis
          proof
            assume "prefix (take (Suc L) (C T)) (logs ?rf')"
            then show ?thesis using eq le' by simp
          next
            assume pre: "prefix (logs ?rf') (take (Suc L) (C T))"
            show ?thesis
            proof (cases "logs ?rf' = take (Suc L) (C T)")
              case False
              then have "strict_prefix (logs ?rf') (logs ?rf)"
                using pre has by (meson prefix_order.less_le_trans strict_prefixI)
              then show ?thesis using cut v by (simp add: no_cut_def)
            qed (use eq le' in simp)
          qed
        next
          case False
          have "T \<noteq> ae_Term a"
          proof
            assume "T = ae_Term a"
            then show False using False by (simp add: take_is_prefix)
          qed
          then have "T < ae_Term a" using le' a(1) by simp
          with T' False have "lost_to C s T L (ae_Term a)" by (simp add: lost_to_def)
          from lost_to_step [OF g this E] have "lost_to ?C s' T L (ae_Term a)" .
          then show ?thesis using a(1,3) le' by (intro conjI disjI2 exI [of _ "ae_Term a"]) simp_all
        qed
      qed
    qed
  qed
qed

text \<open>A fresh vote goes to a candidate whose log is at least as up to date.\<close>

lemma RequestVote_uptodate:
  assumes "RequestVote a rf = Inr (rf', reply)" and "rvr_VoteErr reply = VoteErr_Nil" and "logs rf \<noteq> []"
    and "lastIncludeIndex rf = -1"
  shows "le_Term (last (logs rf)) \<le> rv_LastLogTerm a"
    and "rv_LastLogTerm a = le_Term (last (logs rf)) \<Longrightarrow> int (length (logs rf)) \<le> rv_LastLogIndex a + 1"
  using assms
  by (auto simp: RequestVote_def go_dest Let_def candidateLogIndexTooOld_def candidateLogTermTooOld_def split: if_splits)

lemma wf_log_term_last:
  assumes "wf_log E C l" and "prefix P l" and "x \<in> set P"
  shows "le_Term x \<le> le_Term (last l)"
proof -
  obtain m where "m < length l" "x = l ! m"
    using assms(2,3) by (metis in_set_conv_nth set_mono_prefix subsetD)
  moreover have "l \<noteq> []" "sorted (map le_Term l)" using assms(1) by (auto simp: wf_log_def)
  ultimately show ?thesis using sorted_nth_mono [of "map le_Term l" m "length l - 1"] by (simp add: last_conv_nth)
qed

lemma cast_uptodate:
  assumes wl: "wf_log E C l" and wd: "wf_log E C d" and P: "prefix (take (Suc L) (C T)) l"
    and L: "L < length (C T)" "le_Term (C T ! L) = T" "1 \<le> T"
    and up: "le_Term (last l) \<le> le_Term (last d)" "le_Term (last d) = le_Term (last l) \<Longrightarrow> length l \<le> length d"
  shows "prefix (take (Suc L) (C T)) d \<or> T < le_Term (last d)"
proof (cases "le_Term (last d) = T")
  case False
  have "C T ! L \<in> set (take (Suc L) (C T))" using L(1) by (simp add: take_Suc_conv_app_nth)
  from wf_log_term_last [OF wl P this] L(2) up(1) False show ?thesis by simp
next
  case True
  have "C T ! L \<in> set (take (Suc L) (C T))" using L(1) by (simp add: take_Suc_conv_app_nth)
  from wf_log_term_last [OF wl P this] L(2) up(1) True have "le_Term (last d) = le_Term (last l)" by simp
  then have "length l \<le> length d" by (rule up(2))
  moreover have "Suc L \<le> length l" using prefix_length_le [OF P] L(1) by simp
  moreover have pd: "prefix d (C T)" using wf_log_last(2) [OF wd] True L(3) by auto
  ultimately have "length (take (Suc L) (C T)) \<le> length d" using L(1) by simp
  then show ?thesis using pd by (meson prefix_length_prefix take_is_prefix)
qed

lemma cast_inv_step:
  assumes g: "good_step n C D s s'" and rr: "rep_req_inv s" and ai: "ack_inv n C s" and inv: "cast_inv n C D s"
  shows "cast_inv n (track s' C) (base s s' D) s'"
  unfolding cast_inv_def
proof (intro allI impI)
  fix T' v c
  let ?C = "track s' C" and ?D = "base s s' D"
  assume V: "(T', v, c) \<in> votes s'"
  note gd = good_stepD [OF g]
  have v: "v < n" and vc: "(T', c, c) \<in> votes s'"
  proof -
    have "v < n \<and> (T', c, c) \<in> votes s'"
    proof (cases "(T', v, c) \<in> votes s")
      case True
      then show ?thesis using inv gd(9) unfolding cast_inv_def by blast
    next
      case False
      note new = cstep_votes [OF gd(1,2) V False]
      show ?thesis
      proof (cases "c = v")
        case True
        then show ?thesis using V new by simp
      next
        case c: False
        with new obtain k a where a: "(k, OutRequestVote (int v) a) \<in> reqs s" "owner s k = c" "rv_Term a = T'" by blast
        then have "(rv_Term a, owner s k, owner s k) \<in> votes s" using gd(7) unfolding vreq_inv_def by blast
        then show ?thesis using a(2,3) new gd(9) by auto
      qed
    qed
    then show "v < n" and "(T', c, c) \<in> votes s'" by auto
  qed
  have le': "T' \<le> currentTerm (srv s' v)" by (rule vote_term [OF gd(3) V v])
  have "prefix (take (Suc L) (?C T)) (?D T' c) \<or> T < le_Term (last (?D T' c)) \<or>
        (\<exists>T''. lost_to ?C s' T L T'' \<and> T'' < T')"
    if ack': "acked ?C s' v T L" and lt: "T < T'" and t': "le_Term (?C T ! L) = T" for T L
  proof -
    have ack: "acked C s v T L"
      using acked_new(1) [OF g rr v ack'] le' lt by fastforce
    note E = acked_elected [OF ack gd(2,8) rr]
    note ce = canon_entry [OF g E]
    have t: "le_Term (C T ! L) = T" using t' ce(2) by simp
    obtain cT where "(T, cT) \<in> elected s" using E(1) by force
    then have T1: "1 \<le> T" using gd(5,6) unfolding lead_inv_def cand_inv_def by blast
    show ?thesis
    proof (cases "(T', v, c) \<in> votes s")
      case True
      then have "(T', c, c) \<in> votes s" using inv unfolding cast_inv_def by blast
      then have "?D T' c = D T' c" by (rule base_old)
      moreover have "prefix (take (Suc L) (C T)) (D T' c) \<or> T < le_Term (last (D T' c)) \<or>
          (\<exists>T''. lost_to C s T L T'' \<and> T'' < T')"
        using inv True ack lt t unfolding cast_inv_def by blast
      ultimately show ?thesis using ce(1) lost_to_step [OF g _ E] by auto
    next
      case False
      note new = cstep_votes [OF gd(1,2) V False]
      have wl: "wf_log (elected s) C (logs (srv s v))" and ok: "peer_ok (srv s v)"
        using gd(4) v by (simp_all add: peers_inv_def)
      consider (has) "prefix (take (Suc L) (C T)) (logs (srv s v))"
        | (lost) T'' where "lost_to C s T L T''"
           "T'' < currentTerm (srv s v) \<or> T'' = currentTerm (srv s v) \<and> voteFor (srv s v) \<noteq> -1"
        using ai v ack unfolding ack_inv_def by blast
      then show ?thesis
      proof cases
        case lost
        have "T'' < T'" using lost(2) new by auto
        then show ?thesis using lost_to_step [OF g lost(1) E] by blast
      next
        case has
        show ?thesis
        proof (cases "c = v")
          case True
          then have "?D T' c = logs (srv s v)" using False new by (simp add: base_def lkeep_def)
          then show ?thesis using has ce(1) by simp
        next
          case c: False
          with new obtain k a reply where a: "(k, OutRequestVote (int v) a) \<in> reqs s" "owner s k = c" "rv_Term a = T'"
            "RequestVote a (srv s v) = Inr (srv s' v, reply)" "rvr_VoteErr reply = VoteErr_Nil" by blast
          have q: "(T', c, c) \<in> votes s" "rv_LastLogIndex a = int (length (D T' c)) - 1"
            "rv_LastLogTerm a = le_Term (last (D T' c))"
            using gd(7) a(1) unfolding vreq_inv_def a(2,3) [symmetric] by blast+
          have wd: "wf_log (elected s) C (D T' c)" using gd(6) q(1) by (simp add: cand_inv_def)
          have lr: "logs (srv s v) \<noteq> []" "lastIncludeIndex (srv s v) = -1" using ok by (simp_all add: peer_ok_def)
          note up = RequestVote_uptodate [OF a(4,5) lr]
          have "prefix (take (Suc L) (C T)) (D T' c) \<or> T < le_Term (last (D T' c))"
            by (rule cast_uptodate [OF wl wd has E(2) t T1]) (use up q in simp_all)
          then show ?thesis using base_old [OF q(1)] ce(1) by auto
        qed
      qed
    qed
  qed
  then show "v < n \<and> (T', c, c) \<in> votes s' \<and> (\<forall>T L. acked ?C s' v T L \<longrightarrow> T < T' \<longrightarrow> le_Term (?C T ! L) = T \<longrightarrow>
        prefix (take (Suc L) (?C T)) (?D T' c) \<or> T < le_Term (last (?D T' c)) \<or>
        (\<exists>T''. lost_to ?C s' T L T'' \<and> T'' < T'))"
    using v vc by blast
qed

end
