(* ===== verification/Raft_Safety.thy ===== *)
theory Raft_Safety
  imports Raft_Commit
begin

text \<open>
  The rest of state machine safety: the counters of the append requests count acknowledgements,
  what a peer applies is committed, and so all peers apply the same command at an index, now and
  later, before and after restarts.
\<close>

section \<open>Counting acknowledgements\<close>

text \<open>The peers whose success the goroutines of tick \<open>k\<close> have seen, or can no longer report.\<close>

definition heard :: "nat \<Rightarrow> ('c, 'd) cluster \<Rightarrow> nat \<Rightarrow> nat set" where
  "heard n s k = {v. v < n \<and> (\<exists>a r. (k, OutAppendEntries (int v) a) \<in> reqs s - waiting s \<and>
     (k, OutAppendEntries (int v) a, RepAppend r) \<in> reps s \<and> aer_Success r)}"

definition beat_inv :: "nat \<Rightarrow> ('c, 'd) cluster \<Rightarrow> bool" where
  "beat_inv n s \<longleftrightarrow> (\<forall>k j a. (k, OutAppendEntries j a) \<in> reqs s \<longrightarrow>
     (\<exists>v<n. j = int v \<and> v \<noteq> owner s k) \<and> (ae_Term a, owner s k) \<in> elected s \<and>
     (\<forall>j' a'. (k, OutAppendEntries j' a') \<in> reqs s \<longrightarrow> ae_Term a' = ae_Term a \<and>
        ae_LogIndex a' = ae_LogIndex a \<and> (j' = j \<longrightarrow> a' = a)) \<and>
     counter s k \<le> int (card (insert (owner s k) (heard n s k))))"

lemma beat_invD:
  assumes "beat_inv n s" and "(k, OutAppendEntries j a) \<in> reqs s"
  shows "\<exists>v<n. j = int v \<and> v \<noteq> owner s k" and "(ae_Term a, owner s k) \<in> elected s"
    and "(k, OutAppendEntries j' a') \<in> reqs s \<Longrightarrow> ae_Term a' = ae_Term a \<and> ae_LogIndex a' = ae_LogIndex a"
    and "(k, OutAppendEntries j a') \<in> reqs s \<Longrightarrow> a' = a"
    and "counter s k \<le> int (card (insert (owner s k) (heard n s k)))"
  using assms unfolding beat_inv_def by blast+

lemma heard_finite [simp]: "finite (heard n s k)"
  by (rule finite_subset [of _ "{..<n}"]) (auto simp: heard_def)

text \<open>Steps that do not send append requests and do not raise a counter of theirs.\<close>

lemma beat_inv_frame:
  assumes "beat_inv n s" and "reqs s' = reqs s" and "owner s' = owner s"
    and "waiting s' \<subseteq> waiting s" and "reps s \<subseteq> reps s'" and "elected s \<subseteq> elected s'"
    and "\<And>k j a. (k, OutAppendEntries j a) \<in> reqs s \<Longrightarrow> counter s' k \<le> counter s k"
  shows "beat_inv n s'"
  unfolding beat_inv_def
proof (intro allI impI)
  fix k j a assume "(k, OutAppendEntries j a) \<in> reqs s'"
  then have R: "(k, OutAppendEntries j a) \<in> reqs s" using assms(2) by simp
  have "heard n s k \<subseteq> heard n s' k" using assms(2,4,5) unfolding heard_def by blast
  then have "card (insert (owner s k) (heard n s k)) \<le> card (insert (owner s k) (heard n s' k))"
    by (intro card_mono) auto
  moreover have "counter s' k \<le> counter s k" by (rule assms(7) [OF R])
  moreover have old: "(\<exists>v<n. j = int v \<and> v \<noteq> owner s k) \<and> (ae_Term a, owner s k) \<in> elected s \<and>
     (\<forall>j' a'. (k, OutAppendEntries j' a') \<in> reqs s \<longrightarrow> ae_Term a' = ae_Term a \<and>
        ae_LogIndex a' = ae_LogIndex a \<and> (j' = j \<longrightarrow> a' = a)) \<and>
     counter s k \<le> int (card (insert (owner s k) (heard n s k)))"
    using assms(1) R unfolding beat_inv_def by blast
  ultimately show "(\<exists>v<n. j = int v \<and> v \<noteq> owner s' k) \<and> (ae_Term a, owner s' k) \<in> elected s' \<and>
     (\<forall>j' a'. (k, OutAppendEntries j' a') \<in> reqs s' \<longrightarrow> ae_Term a' = ae_Term a \<and>
        ae_LogIndex a' = ae_LogIndex a \<and> (j' = j \<longrightarrow> a' = a)) \<and>
     counter s' k \<le> int (card (insert (owner s' k) (heard n s' k)))"
    using assms(2,3,6) by auto
qed

text \<open>A reply to an append request: the counter grows by one only if its sender is new.\<close>

lemma beat_inv_reply:
  assumes inv: "beat_inv n s" and w: "(k, OutAppendEntries (int j) a) \<in> waiting s" "waiting s \<subseteq> reqs s"
    and rep: "(k, OutAppendEntries (int j) a, RepAppend r) \<in> reps s"
    and num: "num = counter s k \<or> num = 0 \<or> num = counter s k + 1 \<and> aer_Success r"
    and s': "reqs s' = reqs s" "owner s' = owner s" "reps s' = reps s" "elected s' = elected s"
      "waiting s' = waiting s - {(k, OutAppendEntries (int j) a)}" "counter s' = (counter s)(k := num)"
  shows "beat_inv n s'"
  unfolding beat_inv_def
proof (intro allI impI)
  fix k' j' a' assume R: "(k', OutAppendEntries j' a') \<in> reqs s'"
  have q: "(k, OutAppendEntries (int j) a) \<in> reqs s" using w by blast
  have sub: "heard n s k' \<subseteq> heard n s' k'" unfolding heard_def s' by blast
  have old: "counter s x \<le> int (card (insert (owner s x) (heard n s x)))"
    if "(x, OutAppendEntries y z) \<in> reqs s" for x y z
    using inv that unfolding beat_inv_def by blast
  have "counter s' k' \<le> int (card (insert (owner s k') (heard n s' k')))"
  proof (cases "k' = k \<and> num = counter s k + 1 \<and> aer_Success r")
    case False
    have "card (insert (owner s k') (heard n s k')) \<le> card (insert (owner s k') (heard n s' k'))"
      using sub by (intro card_mono) auto
    moreover have "counter s k' \<le> int (card (insert (owner s k') (heard n s k')))" using old R s'(1) by simp
    moreover have "counter s' k' \<le> max 0 (counter s k')" using False num by (auto simp: s'(6))
    ultimately show ?thesis by linarith
  next
    case True
    have u: "\<And>y. (k, OutAppendEntries (int j) y) \<in> reqs s \<Longrightarrow> y = a" "j < n" "j \<noteq> owner s k"
      using beat_invD(1,4) [OF inv q] by auto
    then have new: "j \<notin> heard n s k" using w(1) unfolding heard_def by blast
    have "j \<in> heard n s' k" using q rep True u(2) unfolding heard_def s' by blast
    then have "insert j (insert (owner s k) (heard n s k)) \<subseteq> insert (owner s k) (heard n s' k)"
      using sub True by auto
    then have "card (insert j (insert (owner s k) (heard n s k))) \<le> card (insert (owner s k) (heard n s' k))"
      by (intro card_mono) auto
    then have "int (card (insert (owner s k) (heard n s k))) + 1 \<le> int (card (insert (owner s k) (heard n s' k)))"
      using new u(3) by simp
    then show ?thesis using old [OF q] True by (simp add: s'(6))
  qed
  then show "(\<exists>v<n. j' = int v \<and> v \<noteq> owner s' k') \<and> (ae_Term a', owner s' k') \<in> elected s' \<and>
     (\<forall>j'' a''. (k', OutAppendEntries j'' a'') \<in> reqs s' \<longrightarrow> ae_Term a'' = ae_Term a' \<and>
        ae_LogIndex a'' = ae_LogIndex a' \<and> (j'' = j' \<longrightarrow> a'' = a')) \<and>
     counter s' k' \<le> int (card (insert (owner s' k') (heard n s' k')))"
    using inv R unfolding beat_inv_def s'(1,2,4) by blast
qed

text \<open>A tick: the requests of a heartbeat are alike and go to different peers.\<close>

lemma beat_inv_tick:
  assumes inv: "beat_inv n s" and ci: "cinv n s" and i: "i < n" and t: "ticker_tick r (srv s i) = Inr (rf', outs)"
    and s': "reqs s' = reqs s \<union> {ticks s} \<times> set outs" "waiting s' = waiting s \<union> {ticks s} \<times> set outs"
      "counter s' = (counter s)(ticks s := 1)" "owner s' = (owner s)(ticks s := i)" "reps s' = reps s"
      "elected s' = elected s"
  shows "beat_inv n s'"
  unfolding beat_inv_def
proof (intro allI impI)
  fix k j a assume R: "(k, OutAppendEntries j a) \<in> reqs s'"
  show "(\<exists>v<n. j = int v \<and> v \<noteq> owner s' k) \<and> (ae_Term a, owner s' k) \<in> elected s' \<and>
     (\<forall>j' a'. (k, OutAppendEntries j' a') \<in> reqs s' \<longrightarrow> ae_Term a' = ae_Term a \<and>
        ae_LogIndex a' = ae_LogIndex a \<and> (j' = j \<longrightarrow> a' = a)) \<and>
     counter s' k \<le> int (card (insert (owner s' k) (heard n s' k)))"
  proof (cases "k = ticks s")
    case False
    then have old: "(k, out) \<in> reqs s' \<longleftrightarrow> (k, out) \<in> reqs s" for out by (simp add: s'(1))
    have eq: "heard n s' k = heard n s k" "owner s' k = owner s k" "counter s' k = counter s k"
      using False unfolding heard_def by (simp_all add: s')
    note b = beat_invD [OF inv, of k j a]
    have "\<forall>j' a'. (k, OutAppendEntries j' a') \<in> reqs s' \<longrightarrow> ae_Term a' = ae_Term a \<and>
        ae_LogIndex a' = ae_LogIndex a \<and> (j' = j \<longrightarrow> a' = a)"
      using b(3,4) R unfolding old by blast
    then show ?thesis using b(1,2,5) R unfolding eq old s'(6) by blast
  next
    case True
    have fresh: "(ticks s, out) \<notin> reqs s" for out using req_tick [OF ci] by blast
    have mem: "out \<in> set outs" if "(k, out) \<in> reqs s'" for out using that True fresh by (auto simp: s'(1))
    have me: "me (srv s i) = int i" "peers (srv s i) = n"
      using ci i by (simp_all add: cinv_def srvs_inv_def srv_inv_def)
    from ticker_tick_log(2) [OF t] mem [OF R] have
      h: "myStatus (srv s i) = Leader" "map dest outs = otherPeers (srv s i)" "\<forall>out\<in>set outs. heartbeat_out (srv s i) out"
      by auto
    have ar: "ae_Term b = currentTerm (srv s i) \<and> ae_LogIndex b = lastLogIndex (srv s i)"
      if "(k, OutAppendEntries y b) \<in> reqs s'" for y b
      using mem [OF that] h(3) by (auto simp: heartbeat_out_def append_request_def)
    have "j \<in> set (otherPeers (srv s i))" using mem [OF R] h(2) by (metis dest.simps(2) image_eqI set_map)
    then have "0 \<le> j" "j < int n" "j \<noteq> int i" using otherPeers_range me by metis+
    then have 1: "\<exists>v<n. j = int v \<and> v \<noteq> owner s' k" using True by (intro exI [of _ "nat j"]) (auto simp: s'(4))
    have 2: "(ae_Term a, owner s' k) \<in> elected s'"
      using leader_elected [OF ci i h(1)] ar [OF R] True by (simp add: s'(4,6))
    have inj: "inj_on dest (set outs)" using otherPeers_distinct h(2) by (metis distinct_map)
    have "a' = a" if "(k, OutAppendEntries j a') \<in> reqs s'" for a'
      using inj_onD [OF inj _ mem [OF that] mem [OF R]] by simp
    then have 3: "\<forall>j' a'. (k, OutAppendEntries j' a') \<in> reqs s' \<longrightarrow> ae_Term a' = ae_Term a \<and>
        ae_LogIndex a' = ae_LogIndex a \<and> (j' = j \<longrightarrow> a' = a)"
      using ar R by metis
    have "0 < card (insert (owner s' k) (heard n s' k))" by (simp add: card_gt_0_iff)
    then have 4: "counter s' k \<le> int (card (insert (owner s' k) (heard n s' k)))" using True by (simp add: s'(3))
    show ?thesis using 1 2 3 4 by blast
  qed
qed

lemma beat_inv_step:
  assumes "cstep n s s'" and "cinv n s" and "beat_inv n s"
  shows "beat_inv n s'"
  using assms(1)
proof cases
  case (tick i r rf' outs)
  show ?thesis by (rule beat_inv_tick [OF assms(3,2) tick(2,5)]) (simp_all add: tick(1))
next
  case (vote_switch k j args reply ok rf' num ret)
  have "(k, OutRequestVote (int j) args) \<in> reqs s"
    using assms(2) vote_switch(2) unfolding cinv_def rep_inv_def by (auto simp: backed_def)
  then have "(k, OutAppendEntries y b) \<notin> reqs s" for y b
    using assms(2) unfolding cinv_def req_inv_def by blast
  then show ?thesis
    by (intro beat_inv_frame [OF assms(3)]) (auto simp: vote_switch(1))
next
  case (append_reply k j args reply ok rf' num ret)
  have w: "waiting s \<subseteq> reqs s" using assms(2) unfolding cinv_def req_inv_def by blast
  have "num = counter s k \<or> num = 0 \<or> num = counter s k + 1 \<and> aer_Success reply"
    using sendAppendEntries_recv_log [OF append_reply(4)] by blast
  then show ?thesis
    by (rule beat_inv_reply [OF assms(3) append_reply(2) w append_reply(3)]) (simp_all add: append_reply(1))
qed (rule beat_inv_frame [OF assms(3)]; auto)+

section \<open>Only committed entries are applied\<close>

text \<open>The entries of \<open>l\<close> up to \<open>M\<close> are committed, by leaders up to term \<open>B\<close>.\<close>

definition applied_ok :: "nat \<Rightarrow> (int \<Rightarrow> 'c LogEntry list) \<Rightarrow> ('c, 'd) cluster \<Rightarrow> int \<Rightarrow> int \<Rightarrow> 'c LogEntry list \<Rightarrow> bool" where
  "applied_ok n C s B M l \<longleftrightarrow> M \<le> 0 \<or> (\<exists>T L. committed n C s T L \<and> T \<le> B \<and> M \<le> int L \<and>
     take (nat (M + 1)) l = take (nat (M + 1)) (C T))"

text \<open>What was sent on the apply channel are the applied entries of the log.\<close>

definition msgs_ok :: "('c, 'd) Raft \<Rightarrow> bool" where
  "msgs_ok rf \<longleftrightarrow> 0 \<le> lastApplied rf \<and> (\<forall>m\<in>set (applyChan rf). \<exists>i. 1 \<le> i \<and> i \<le> lastApplied rf \<and>
     m = commandMsg (le_Cmd (logs rf ! nat i)) i)"

definition apply_inv :: "nat \<Rightarrow> (int \<Rightarrow> 'c LogEntry list) \<Rightarrow> ('c, 'd) cluster \<Rightarrow> bool" where
  "apply_inv n C s \<longleftrightarrow>
     (\<forall>v<n. msgs_ok (srv s v) \<and> applied_ok n C s (currentTerm (srv s v)) (lastApplied (srv s v)) (logs (srv s v))) \<and>
     (\<forall>k j a. (k, OutAppendEntries j a) \<in> reqs s \<longrightarrow> applied_ok n C s (ae_Term a) (ae_LeaderCommit a) (C (ae_Term a)))"

lemma committed_step:
  assumes "good_step n C D s s'" and "committed n C s T L"
  shows "committed n (track s' C) s' T L"
  using assms canon_entry [OF assms(1), of T L] acked_mono [OF assms(1)] good_stepD(10) [OF assms(1)]
  unfolding committed_def by (metis image_mono subsetD)

lemma applied_ok_step:
  assumes "good_step n C D s s'" and "applied_ok n C s B M l" and "B \<le> B'"
    and "take (nat (M + 1)) l' = take (nat (M + 1)) l"
  shows "applied_ok n (track s' C) s' B' M l'"
proof (cases "M \<le> 0")
  case False
  with assms(2) obtain T L where c: "committed n C s T L" "T \<le> B" "M \<le> int L"
    "take (nat (M + 1)) l = take (nat (M + 1)) (C T)" by (auto simp: applied_ok_def)
  have T: "T \<in> fst ` elected s" "L < length (C T)" using c(1) by (simp_all add: committed_def)
  obtain zs where "track s' C T = C T @ zs" using canon_prefix [OF assms(1) T(1)] by (auto elim: prefixE)
  moreover have "nat (M + 1) \<le> length (C T)" using c(3) T(2) by simp
  ultimately have "take (nat (M + 1)) (track s' C T) = take (nat (M + 1)) (C T)" by simp
  then have "take (nat (M + 1)) l' = take (nat (M + 1)) (track s' C T)" "T \<le> B'" using c assms(3,4) by simp_all
  then show ?thesis using committed_step [OF assms(1) c(1)] c(3) unfolding applied_ok_def by blast
qed (simp add: applied_ok_def)

lemma msgs_ok_log:
  assumes "msgs_ok rf" and "lastApplied rf \<le> lastApplied rf'" and "applyChan rf' = applyChan rf @ ms"
    and "\<And>i. 1 \<le> i \<Longrightarrow> i \<le> lastApplied rf \<Longrightarrow> logs rf' ! nat i = logs rf ! nat i"
    and "\<And>m. m \<in> set ms \<Longrightarrow> \<exists>i. lastApplied rf < i \<and> i \<le> lastApplied rf' \<and> m = commandMsg (le_Cmd (logs rf' ! nat i)) i"
  shows "msgs_ok rf'"
  unfolding msgs_ok_def
proof (intro conjI ballI)
  show "0 \<le> lastApplied rf'" using assms(1,2) by (simp add: msgs_ok_def)
  fix m assume "m \<in> set (applyChan rf')"
  then consider "m \<in> set (applyChan rf)" | "m \<in> set ms" using assms(3) by auto
  then show "\<exists>i. 1 \<le> i \<and> i \<le> lastApplied rf' \<and> m = commandMsg (le_Cmd (logs rf' ! nat i)) i"
  proof cases
    case 1
    then obtain i where "1 \<le> i" "i \<le> lastApplied rf" "m = commandMsg (le_Cmd (logs rf ! nat i)) i"
      using assms(1) by (auto simp: msgs_ok_def)
    then show ?thesis using assms(2,4) by (intro exI [of _ i]) auto
  next
    case 2
    from assms(5) [OF 2] obtain i where "lastApplied rf < i" "i \<le> lastApplied rf'"
      "m = commandMsg (le_Cmd (logs rf' ! nat i)) i" by blast
    then show ?thesis using assms(1) by (intro exI [of _ i]) (simp add: msgs_ok_def)
  qed
qed

lemma in_applied_msgs:
  assumes "m \<in> set (applied_msgs rf t)" and "lastIncludeIndex rf = -1"
  shows "\<exists>i. lastApplied rf < i \<and> i \<le> t \<and> m = commandMsg (le_Cmd (logs rf ! nat i)) i"
proof -
  from assms obtain i where "i \<in> set [lastApplied rf + 1..t]" "m = commandMsg (le_Cmd (logs rf ! nat i)) i"
    by (auto simp: applied_msgs_def)
  then show ?thesis by (intro exI [of _ i]) simp
qed

text \<open>A leader commits what a majority has acknowledged.\<close>

lemma commits_committed:
  assumes inv: "cinv n s" "log_inv n C D s" "beat_inv n s"
    and w: "(k, OutAppendEntries (int j) a) \<in> waiting s"
    and rep: "(k, OutAppendEntries (int j) a, RepAppend reply) \<in> reps s"
    and com: "commits a reply (counter s k) (srv s (owner s k)) rf'"
  shows "committed n C s (currentTerm (srv s (owner s k))) (nat (ae_LogIndex a))"
    and "logs (srv s (owner s k)) = C (currentTerm (srv s (owner s k)))" and "0 \<le> ae_LogIndex a"
proof -
  let ?i = "owner s k" and ?T = "ae_Term a"
  have q: "(k, OutAppendEntries (int j) a) \<in> reqs s" using inv(1) w unfolding cinv_def req_inv_def by blast
  note b = beat_invD [OF inv(3) q]
  have li: "peers_inv n C s" "lead_inv n C D s" "areq_inv C s" using inv(2) by (simp_all add: log_inv_def)
  have i: "?i < n" "(?T, ?i, ?i) \<in> votes s" using li(2) b(2) unfolding lead_inv_def by blast+
  have "?T \<le> currentTerm (srv s ?i)" by (rule vote_term [OF inv(1) i(2,1)])
  moreover have "currentTerm (srv s ?i) \<le> ?T" using com by (simp add: commits_def)
  ultimately have T: "currentTerm (srv s ?i) = ?T" by simp
  show lg: "logs (srv s ?i) = C (currentTerm (srv s ?i))" using li(2) b(2) T unfolding lead_inv_def by simp
  show pos: "0 \<le> ae_LogIndex a" using li(3) q by (auto simp: areq_inv_def app_ok_def)
  have ok: "peer_ok (srv s ?i)" and pn: "peers (srv s ?i) = n"
    using li(1) inv(1) i(1) by (auto simp: peers_inv_def cinv_def srvs_inv_def srv_inv_def)
  note e = commits_eq(2) [OF ok com pos]
  define Q where "Q = insert ?i (heard n s k \<union> (if aer_Success reply then {j} else {}))"
  have j: "j < n" "j \<noteq> ?i" using b(1) by auto
  have nh: "j \<notin> heard n s k" using b(4) w unfolding heard_def by blast
  have "counter s k \<le> int (card (insert ?i (heard n s k)))" by (rule b(5))
  moreover have "card (insert ?i (heard n s k)) \<le> card Q" unfolding Q_def by (intro card_mono) auto
  moreover have "card Q = card (insert ?i (heard n s k)) + 1" if "aer_Success reply"
  proof -
    have "Q = insert j (insert ?i (heard n s k))" using that by (auto simp: Q_def)
    then show ?thesis using nh j(2) by simp
  qed
  moreover have "counter s k > int n div 2 \<or> aer_Success reply \<and> counter s k + 1 > int n div 2"
    using com pn by (simp add: commits_def)
  ultimately have "int n div 2 < int (card Q)" by linarith
  then have "majority n Q" using i(1) j(1) by (auto simp: majority_def Q_def heard_def zdiv_int split: if_splits)
  moreover have "acked C s v ?T (nat (ae_LogIndex a))" if "v \<in> Q" for v
  proof -
    from that consider "v = ?i" | "v = j" "aer_Success reply" | "v \<in> heard n s k"
      by (auto simp: Q_def split: if_splits)
    then show ?thesis
    proof cases
      case 1
      then show ?thesis using b(2) e lg T by (simp add: acked_def)
    next
      case 2
      then show ?thesis using rep pos unfolding acked_def by fastforce
    next
      case 3
      then obtain a' r where r: "(k, OutAppendEntries (int v) a') \<in> reqs s"
        "(k, OutAppendEntries (int v) a', RepAppend r) \<in> reps s" "aer_Success r" unfolding heard_def by blast
      then show ?thesis using b(3) [OF r(1)] pos unfolding acked_def by fastforce
    qed
  qed
  ultimately show "committed n C s (currentTerm (srv s ?i)) (nat (ae_LogIndex a))"
    using e lg T b(2) unfolding committed_def by force
qed

lemma take_le_eq: "take p xs = take p ys \<Longrightarrow> q \<le> p \<Longrightarrow> take q xs = take q ys"
proof -
  assume "take p xs = take p ys" "q \<le> p"
  then have "take q (take p xs) = take q (take p ys)" by simp
  then show ?thesis using \<open>q \<le> p\<close> by (simp add: min_absorb1)
qed

lemma append_done_msgs:
  assumes "peer_ok rf" and "lastApplied rf < ae_LeaderCommit a"
  shows "\<exists>rf2. applyChan (append_done a rf) = applyChan rf @ applied_msgs rf2 (ae_LeaderCommit a) \<and>
    lastIncludeIndex rf2 = -1 \<and> logs rf2 = new_logs a rf \<and> lastApplied rf2 = lastApplied rf"
proof (intro exI conjI)
  let ?rf2 = "(acceptLeader (ae_Term a) (ae_LeaderId a) (rf\<lparr>mu := True\<rparr>))\<lparr>logs := new_logs a rf\<rparr>"
  show "applyChan (append_done a rf) = applyChan rf @ applied_msgs ?rf2 (ae_LeaderCommit a)"
    using assms(2) by (simp add: append_done_def Let_def Unlock_def)
  show "lastIncludeIndex ?rf2 = -1" using assms(1) by (simp add: peer_ok_def)
qed simp_all

lemma apply_append:
  assumes g: "good_step n C D s s'" and inv: "apply_inv n C s" and v: "v < n"
    and q: "(k, OutAppendEntries (int v) a) \<in> reqs s" and la: "lastApplied (srv s v) \<le> ae_PrevLogIndex a"
    and ct: "currentTerm (srv s v) \<le> ae_Term a"
    and pt: "prev_term (srv s v) (ae_PrevLogIndex a) = Some (ae_PrevLogTerm a)"
    and s': "srv s' v = append_done a (srv s v)"
  shows "msgs_ok (srv s' v) \<and>
    applied_ok n (track s' C) s' (currentTerm (srv s' v)) (lastApplied (srv s' v)) (logs (srv s' v))"
proof -
  let ?rf = "srv s v" and ?rf' = "srv s' v" and ?LC = "ae_LeaderCommit a"
  note gd = good_stepD [OF g]
  have ok: "peer_ok ?rf" by (rule good_step_log(1) [OF g v])
  have ao: "app_ok C (int v) a" using gd(8) q by (simp add: areq_inv_def)
  obtain c where "(ae_Term a, c) \<in> elected s" using append_elected [OF gd(2) q] by blast
  then have "wf_log (elected s) C (logs ?rf)" "wf_log (elected s) C (C (ae_Term a))"
    using gd(4,5) v by (auto simp: peers_inv_def lead_inv_def)
  note m = append_match [OF ok this ao pt]
  have lg: "logs ?rf' = new_logs a ?rf" by (simp add: s')
  have old: "msgs_ok ?rf" "applied_ok n C s (currentTerm ?rf) (lastApplied ?rf) (logs ?rf)"
    and rq: "applied_ok n C s (ae_Term a) ?LC (C (ae_Term a))"
    using inv v q unfolding apply_inv_def by blast+
  have pl: "ae_PrevLogIndex a \<le> ae_LogIndex a" "?LC \<le> ae_LogIndex a"
    using ao by (auto simp: app_ok_def ae_ok_def ae_len_def split: option.splits)
  have pre: "take (nat (ae_PrevLogIndex a + 1)) (logs ?rf') = take (nat (ae_PrevLogIndex a + 1)) (logs ?rf)"
    using m(2,3) pl(1) unfolding lg by (cases "ae_Logs a") (simp_all add: min_def)
  have keep: "take (nat (lastApplied ?rf + 1)) (logs ?rf') = take (nat (lastApplied ?rf + 1)) (logs ?rf)"
    by (rule take_le_eq [OF pre]) (use la in simp)
  have "take (nat (ae_LogIndex a + 1)) (logs ?rf') = take (nat (ae_LogIndex a + 1)) (C (ae_Term a))"
    using m(2-4) unfolding lg by (cases "ae_Logs a") simp_all
  then have com: "take (nat (?LC + 1)) (logs ?rf') = take (nat (?LC + 1)) (C (ae_Term a))"
    by (rule take_le_eq) (use pl(2) in simp)
  have nth: "logs ?rf' ! nat i = logs ?rf ! nat i" if "1 \<le> i" "i \<le> lastApplied ?rf" for i
  proof -
    have "nat i < nat (lastApplied ?rf + 1)" using that by simp
    then show ?thesis using keep by (metis nth_take)
  qed
  show ?thesis
  proof (cases "lastApplied ?rf < ?LC")
    case False
    then have "applyChan ?rf' = applyChan ?rf @ []" "lastApplied ?rf' = lastApplied ?rf"
      by (simp_all add: s' append_done_def Let_def Unlock_def)
    then show ?thesis
      using msgs_ok_log [OF old(1), of ?rf' "[]"] nth applied_ok_step [OF g old(2) ct keep] by (simp add: s')
  next
    case True
    from append_done_msgs [OF ok True] obtain rf2 where r2: "applyChan ?rf' = applyChan ?rf @ applied_msgs rf2 ?LC"
      "lastIncludeIndex rf2 = -1" "logs rf2 = logs ?rf'" "lastApplied rf2 = lastApplied ?rf"
      using lg s' by auto
    have la': "lastApplied ?rf' = ?LC" using True by (simp add: s')
    have "\<exists>i. lastApplied ?rf < i \<and> i \<le> lastApplied ?rf' \<and> m = commandMsg (le_Cmd (logs ?rf' ! nat i)) i"
      if "m \<in> set (applied_msgs rf2 ?LC)" for m
      using in_applied_msgs [OF that r2(2)] la' r2(3,4) by simp
    with True la' have "msgs_ok ?rf'" by (intro msgs_ok_log [OF old(1) _ r2(1) nth]) simp_all
    then show ?thesis using applied_ok_step [OF g rq order_refl com] la' by (simp add: s')
  qed
qed

lemma apply_peer_step:
  assumes g: "good_step n C D s s'" and bi: "beat_inv n s" and inv: "apply_inv n C s" and v: "v < n"
  shows "msgs_ok (srv s' v) \<and>
    applied_ok n (track s' C) s' (currentTerm (srv s' v)) (lastApplied (srv s' v)) (logs (srv s' v))"
proof -
  let ?rf = "srv s v" and ?rf' = "srv s' v"
  note gd = good_stepD [OF g]
  have ok: "peer_ok ?rf" by (rule good_step_log(1) [OF g v])
  have old: "msgs_ok ?rf" "applied_ok n C s (currentTerm ?rf) (lastApplied ?rf) (logs ?rf)"
    using inv v unfolding apply_inv_def by blast+
  have ct: "currentTerm ?rf \<le> currentTerm ?rf'" by (rule good_step_log(2) [OF g v])
  have len: "nat (lastApplied ?rf + 1) \<le> length (logs ?rf)" "0 \<le> lastApplied ?rf"
    using ok old(1) by (auto simp: peer_ok_def raft_ok_def lastLogIndex_def msgs_ok_def)
  from good_step_peffect [OF g v] show ?thesis
  proof cases
    case keep
    then show ?thesis using old(1) applied_ok_step [OF g old(2) ct, of "logs ?rf'"]
      by (simp add: lkeep_def msgs_ok_def)
  next
    case (start c)
    have f: "logs ?rf' = logs ?rf @ [\<lparr>le_Term = currentTerm ?rf, le_Cmd = Some c\<rparr>]"
      "lastApplied ?rf' = lastApplied ?rf" "applyChan ?rf' = applyChan ?rf @ []"
      unfolding start(1) by (simp_all add: Unlock_def)
    have "msgs_ok ?rf'" by (rule msgs_ok_log [OF old(1) _ f(3)]) (use f len in \<open>simp_all add: nth_append\<close>)
    then show ?thesis using applied_ok_step [OF g old(2) ct, of "logs ?rf'"] f len by simp
  next
    case (append k a)
    then show ?thesis using apply_append [OF g inv v append(2) append(4,3,6)] by simp
  next
    case (commit k j a reply)
    note c = commits_committed [of n s C D k j a reply ?rf'] commits_fields [OF ok commit(4)]
    have com: "committed n C s (currentTerm ?rf) (nat (ae_LogIndex a))" "logs ?rf = C (currentTerm ?rf)"
      "0 \<le> ae_LogIndex a"
      using c(1-3) [OF gd(2) _ bi commit(2,3)] g commit(1,4) unfolding good_step_def by blast+
    show ?thesis
    proof (cases "lastApplied ?rf < ae_LogIndex a")
      case False
      then have "lastApplied ?rf' = lastApplied ?rf" "applyChan ?rf' = applyChan ?rf @ []" using c(10,13) by simp_all
      then show ?thesis using msgs_ok_log [OF old(1), of ?rf' "[]"] applied_ok_step [OF g old(2) ct, of "logs ?rf'"] c(4)
        by simp
    next
      case True
      have la: "lastApplied ?rf' = ae_LogIndex a" and ch: "applyChan ?rf' = applyChan ?rf @ applied_msgs ?rf (ae_LogIndex a)"
        using c(10,12) True by simp_all
      have "lastIncludeIndex ?rf = -1" using ok by (simp add: peer_ok_def)
      then have "msgs_ok ?rf'"
        using in_applied_msgs [of _ ?rf "ae_LogIndex a"] True
        by (intro msgs_ok_log [OF old(1) _ ch]) (simp_all add: c(4) la)
      moreover have "applied_ok n C s (currentTerm ?rf) (ae_LogIndex a) (logs ?rf)"
        using com unfolding applied_ok_def
        by (intro disjI2 exI [of _ "currentTerm ?rf"] exI [of _ "nat (ae_LogIndex a)"]) simp
      ultimately show ?thesis using applied_ok_step [OF g _ ct, of "ae_LogIndex a" "logs ?rf" "logs ?rf'"] c(4) la by simp
    qed
  next
    case (restart r)
    show ?thesis using restart_fields [OF ok restart] by (simp add: msgs_ok_def applied_ok_def)
  qed
qed

lemma apply_request_step:
  assumes g: "good_step n C D s s'" and inv: "apply_inv n C s" and R: "(k, OutAppendEntries j a) \<in> reqs s'"
  shows "applied_ok n (track s' C) s' (ae_Term a) (ae_LeaderCommit a) (track s' C (ae_Term a))"
proof -
  note gd = good_stepD [OF g]
  show ?thesis
  proof (cases "(k, OutAppendEntries j a) \<in> reqs s")
    case True
    then have ao: "app_ok C j a" using gd(8) by (simp add: areq_inv_def)
    have old: "applied_ok n C s (ae_Term a) (ae_LeaderCommit a) (C (ae_Term a))"
      using inv True unfolding apply_inv_def by blast
    have "ae_Term a \<in> fst ` elected s" using append_elected [OF gd(2) True] by force
    then obtain zs where "track s' C (ae_Term a) = C (ae_Term a) @ zs" using canon_prefix [OF g] by (auto elim: prefixE)
    moreover have "nat (ae_LeaderCommit a + 1) \<le> length (C (ae_Term a))" using ao by (auto simp: app_ok_def ae_ok_def)
    ultimately show ?thesis by (intro applied_ok_step [OF g old order_refl]) simp
  next
    case False
    from cstep_reqs [OF gd(1) R False] obtain i r outs where
      t: "i < n" "ticker_tick r (srv s i) = Inr (srv s' i, outs)" "OutAppendEntries j a \<in> set outs" by blast
    from ticker_tick_log(2) [OF t(2)] t(3) have
      h: "currentTerm (srv s' i) = currentTerm (srv s i)" "myStatus (srv s i) = Leader"
      "heartbeat_out (srv s i) (OutAppendEntries j a)" by auto
    from h(3) have a: "ae_Term a = currentTerm (srv s i)" "ae_LeaderCommit a = commitIndex (srv s i)"
      by (auto simp: heartbeat_out_def append_request_def)
    have "commitIndex (srv s i) = lastApplied (srv s i)"
      using good_step_log(1) [OF g t(1)] by (simp add: peer_ok_def raft_ok_def)
    moreover have "(currentTerm (srv s i), i) \<in> elected s'" using leader_elected [OF gd(2) t(1) h(2)] gd(10) by blast
    then have "track s' C (currentTerm (srv s i)) = logs (srv s i)"
      using track_leader [OF gd(3)] h(1) ticker_tick_log(1) [OF t(2)] by (simp add: lkeep_def)
    moreover have "applied_ok n C s (currentTerm (srv s i)) (lastApplied (srv s i)) (logs (srv s i))"
      using inv t(1) unfolding apply_inv_def by blast
    ultimately show ?thesis using applied_ok_step [OF g _ order_refl refl] a by simp
  qed
qed

section \<open>State machine safety\<close>

text \<open>What has been delivered: index and command of every message on an apply channel.\<close>

definition delivered :: "nat \<Rightarrow> ('c, 'd) cluster \<Rightarrow> (int \<times> 'c option) set" where
  "delivered n s = {(CommandIndex m, Command m) | i m. i < n \<and> m \<in> set (applyChan (srv s i)) \<and> CommandValid m}"

text \<open>Runs without snapshots and without late requests that cut a log; \<open>H\<close> collects what any
  peer has ever delivered.\<close>

inductive orderly_run :: "nat \<Rightarrow> (int \<times> 'c option) set \<Rightarrow> ('c, 'd) cluster \<Rightarrow> bool" for n :: nat where
  init: "orderly_run n {} (init_cluster n r)"
| step: "orderly_run n H s \<Longrightarrow> cstep n s s' \<Longrightarrow> snapless n s' \<Longrightarrow> no_cut n s s' \<Longrightarrow>
    orderly_run n (H \<union> delivered n s') s'"

definition history_inv :: "nat \<Rightarrow> (int \<Rightarrow> 'c LogEntry list) \<Rightarrow> ('c, 'd) cluster \<Rightarrow> (int \<times> 'c option) set \<Rightarrow> bool" where
  "history_inv n C s H \<longleftrightarrow> (\<forall>i c. (i, c) \<in> H \<longrightarrow>
     (\<exists>T L. committed n C s T L \<and> 1 \<le> i \<and> i \<le> int L \<and> c = le_Cmd (C T ! nat i)))"

definition commit_inv :: "nat \<Rightarrow> (int \<Rightarrow> 'c LogEntry list) \<Rightarrow> (int \<Rightarrow> nat \<Rightarrow> 'c LogEntry list) \<Rightarrow>
    ('c, 'd) cluster \<Rightarrow> (int \<times> 'c option) set \<Rightarrow> bool" where
  "commit_inv n C D s H \<longleftrightarrow> cinv n s \<and> snapless n s \<and> log_inv n C D s \<and> rep_req_inv s \<and> ack_inv n C s \<and>
     cast_inv n C D s \<and> beat_inv n s \<and> apply_inv n C s \<and> history_inv n C s H"

lemma history_inv_step:
  assumes "good_step n C D s s'" and "history_inv n C s H"
  shows "history_inv n (track s' C) s' H"
  unfolding history_inv_def
proof (intro allI impI)
  fix i c assume "(i, c) \<in> H"
  then obtain T L where c: "committed n C s T L" "1 \<le> i" "i \<le> int L" "c = le_Cmd (C T ! nat i)"
    using assms(2) unfolding history_inv_def by blast
  have "nat i < length (C T)" "T \<in> fst ` elected s" using c by (auto simp: committed_def)
  then have "track s' C T ! nat i = C T ! nat i" using canon_entry(2) [OF assms(1)] by blast
  then show "\<exists>T L. committed n (track s' C) s' T L \<and> 1 \<le> i \<and> i \<le> int L \<and> c = le_Cmd (track s' C T ! nat i)"
    using committed_step [OF assms(1) c(1)] c(2-4) by metis
qed

lemma delivered_committed:
  assumes "apply_inv n C s"
  shows "history_inv n C s (delivered n s)"
  unfolding history_inv_def
proof (intro allI impI)
  fix i c assume "(i, c) \<in> delivered n s"
  then obtain v m where m: "v < n" "m \<in> set (applyChan (srv s v))" "i = CommandIndex m" "c = Command m"
    unfolding delivered_def by blast
  have inv: "msgs_ok (srv s v)" "applied_ok n C s (currentTerm (srv s v)) (lastApplied (srv s v)) (logs (srv s v))"
    using assms m(1) unfolding apply_inv_def by blast+
  from inv(1) m(2) obtain x where x: "1 \<le> x" "x \<le> lastApplied (srv s v)" "m = commandMsg (le_Cmd (logs (srv s v) ! nat x)) x"
    unfolding msgs_ok_def by blast
  then have i: "i = x" "c = le_Cmd (logs (srv s v) ! nat x)" using m(3,4) by (simp_all add: commandMsg_def)
  from inv(2) x(1,2) obtain T L where c: "committed n C s T L" "lastApplied (srv s v) \<le> int L"
    "take (nat (lastApplied (srv s v) + 1)) (logs (srv s v)) = take (nat (lastApplied (srv s v) + 1)) (C T)"
    unfolding applied_ok_def by auto
  have "nat x < nat (lastApplied (srv s v) + 1)" using x(1,2) by simp
  then have "logs (srv s v) ! nat x = C T ! nat x" using c(3) by (metis nth_take)
  then show "\<exists>T L. committed n C s T L \<and> 1 \<le> i \<and> i \<le> int L \<and> c = le_Cmd (C T ! nat i)"
    using c(1,2) i x(1,2) by (intro exI [of _ T] exI [of _ L]) simp
qed

lemma commit_inv_step:
  assumes "commit_inv n C D s H" and "cstep n s s'" and "snapless n s'" and "no_cut n s s'"
  shows "commit_inv n (track s' C) (base s s' D) s' (H \<union> delivered n s')"
proof -
  have inv: "cinv n s" "rep_req_inv s" "ack_inv n C s" "cast_inv n C D s" "beat_inv n s" "apply_inv n C s"
    "history_inv n C s H" using assms(1) by (simp_all add: commit_inv_def)
  have ci: "cinv n s'" by (rule cstep_cinv [OF assms(2) inv(1)])
  have g: "good_step n C D s s'" using assms(1-3) ci by (simp add: good_step_def commit_inv_def)
  have ap: "apply_inv n (track s' C) s'"
    using apply_peer_step [OF g inv(5,6)] apply_request_step [OF g inv(6)] by (simp add: apply_inv_def)
  have "history_inv n (track s' C) s' (H \<union> delivered n s')"
    using history_inv_step [OF g inv(7)] delivered_committed [OF ap] unfolding history_inv_def by blast
  then show ?thesis
    using ci assms(3) log_inv_step [OF g] rep_req_inv_step [OF g inv(2)] ack_inv_step [OF g assms(4) inv(2,3)]
      cast_inv_step [OF g inv(2-4)] beat_inv_step [OF assms(2) inv(1,5)] ap
    by (simp add: commit_inv_def)
qed

lemma commit_inv_init: "commit_inv n C D (init_cluster n r :: ('c, 'd) cluster) {}"
proof -
  let ?s = "init_cluster n r :: ('c, 'd) cluster"
  have "reps ?s = {}" "reqs ?s = {}" "elected ?s = {}" "votes ?s = {}" by (simp_all add: init_cluster_def)
  moreover have "lastApplied (srv ?s v) = 0" "applyChan (srv ?s v) = []" for v
    by (simp_all add: init_cluster_def Make_def ReadRaftState_def MakePersister_def readPersist_def)
  ultimately show ?thesis
    by (simp add: commit_inv_def cinv_init snapless_init log_inv_init rep_req_inv_def ack_inv_def acked_def
        cast_inv_def beat_inv_def apply_inv_def msgs_ok_def applied_ok_def history_inv_def)
qed

lemma orderly_inv: "orderly_run n H s \<Longrightarrow> \<exists>C D. commit_inv n C D s H"
  by (induction rule: orderly_run.induct) (blast intro: commit_inv_init commit_inv_step)+

text \<open>Two committed entries agree wherever both reach.\<close>

lemma committed_agree:
  assumes inv: "commit_inv n C D s H" and c: "committed n C s T L" and c': "committed n C s T' L'"
    and "i \<le> L" and "i \<le> L'"
  shows "C T ! i = C T' ! i"
proof -
  have agree: "C t ! i = C t' ! i" if "committed n C s t l" "committed n C s t' l'" "i \<le> l" "t < t'" for t t' l l'
  proof -
    from that(2) obtain x where "(t', x) \<in> elected s" unfolding committed_def by force
    then have "prefix (take (Suc l) (C t)) (C t')"
      using inv that(1,4) by (intro leader_complete [of n s C D]) (simp_all add: commit_inv_def)
    moreover have "l < length (C t)" using that(1) by (simp add: committed_def)
    ultimately show ?thesis using that(3) by (auto elim!: prefixE simp: nth_append)
  qed
  consider "T = T'" | "T < T'" | "T' < T" by linarith
  then show ?thesis
  proof cases
    case 2
    then show ?thesis by (rule agree [OF c c' assms(4)])
  next
    case 3
    then show ?thesis by (rule agree [OF c' c assms(5), symmetric])
  qed simp
qed

lemma state_machine_safe:
  assumes "orderly_run n H s" and "(i, c) \<in> H" and "(i, c') \<in> H"
  shows "c = c'"
proof -
  obtain C D where inv: "commit_inv n C D s H" using orderly_inv [OF assms(1)] by blast
  then obtain T L T' L' where
    c: "committed n C s T L" "1 \<le> i" "i \<le> int L" "c = le_Cmd (C T ! nat i)" and
    c': "committed n C s T' L'" "i \<le> int L'" "c' = le_Cmd (C T' ! nat i)"
    using assms(2,3) unfolding commit_inv_def history_inv_def by meson
  show ?thesis using committed_agree [OF inv c(1) c'(1), of "nat i"] c c' by simp
qed

text \<open>
  C2: State machine safety. In a run without snapshots in which no late request cuts a log back to a part of
  itself, no index is ever delivered with two different commands: not by two peers, not by one
  peer before and after a restart, not at different times.
\<close>

theorem state_machine_safety:
  assumes "orderly_run n H s" and "(i, c) \<in> H" and "(i, c') \<in> H"
  shows "c = c'"
  using assms by (rule state_machine_safe)

text \<open>
  C4: Leader completeness. In such a run the log of a leader holds, unchanged and at the same indices, everything
  that any peer whose term is not newer has applied.
\<close>

theorem leader_completeness:
  assumes "orderly_run n H s" and "v < n" and "w < n" and "myStatus (srv s w) = Leader"
    and "currentTerm (srv s v) \<le> currentTerm (srv s w)"
  shows "take (nat (lastApplied (srv s v) + 1)) (logs (srv s v)) = take (nat (lastApplied (srv s v) + 1)) (logs (srv s w))"
proof -
  let ?M = "lastApplied (srv s v)" and ?T' = "currentTerm (srv s w)"
  obtain C D where inv: "commit_inv n C D s H" using orderly_inv [OF assms(1)] by blast
  then have wf: "wf_log (elected s) C (logs (srv s v))" "wf_log (elected s) C (logs (srv s w))" "0 \<le> ?M"
    and ap: "applied_ok n C s (currentTerm (srv s v)) ?M (logs (srv s v))"
    using assms(2,3) by (simp_all add: commit_inv_def log_inv_def peers_inv_def apply_inv_def msgs_ok_def)
  have el: "(?T', w) \<in> elected s" using inv leader_elected [OF _ assms(3,4)] by (simp add: commit_inv_def)
  then have C: "C ?T' = logs (srv s w)" using inv by (simp add: commit_inv_def log_inv_def lead_inv_def)
  show ?thesis
  proof (cases "?M = 0")
    case True
    then show ?thesis using wf_log_match [OF wf(1,2), of 0] wf by (simp add: wf_log_def)
  next
    case False
    then obtain T L where c: "committed n C s T L" "T \<le> currentTerm (srv s v)" "?M \<le> int L"
        "take (nat (?M + 1)) (logs (srv s v)) = take (nat (?M + 1)) (C T)"
      using ap wf(3) by (auto simp: applied_ok_def)
    have "prefix (take (Suc L) (C T)) (C ?T')"
    proof (cases "T = ?T'")
      case False
      then show ?thesis using inv c(1,2) assms(5) el by (intro leader_complete [of n s C D]) (simp_all add: commit_inv_def)
    qed (simp add: take_is_prefix)
    moreover have "Suc L \<le> length (C T)" "nat (?M + 1) \<le> Suc L" using c(1,3) by (simp_all add: committed_def)
    ultimately have "take (nat (?M + 1)) (C T) = take (nat (?M + 1)) (C ?T')"
      by (auto elim!: prefixE simp: min_def)
    then show ?thesis using c(4) C by simp
  qed
qed

end
