(* ===== verification/Raft_Runs.thy ===== *)
theory Raft_Runs
  imports Raft_Safety
begin

text \<open>
  Concrete runs of a Raft group. A group with lists instead of sets can be executed; each event it
  executes is a step of the group. The runs show that the hypotheses of log matching and of state machine
  safety can hold, and that without the second one safety fails: a late request lets two peers
  apply different commands at the same index.
\<close>

section \<open>An executable group\<close>

record ('c, 'd) xgroup =
  x_srv :: "('c, 'd) Raft list"
  x_reqs :: "(nat \<times> ('c, 'd) outgoing) list"
  x_reps :: "(nat \<times> ('c, 'd) outgoing \<times> reply) list"
  x_waiting :: "(nat \<times> ('c, 'd) outgoing) list"
  x_counter :: "int list"
  x_owner :: "nat list"

text \<open>Requests are named by their tick and their destination, replies by the same.\<close>

datatype 'c event =
    Tick nat
  | RecvVote nat nat
  | CountVote nat nat
  | RecvAppend nat nat
  | AppendReply nat nat
  | StartCmd nat 'c
  | Restart nat

fun vote_to :: "nat \<Rightarrow> nat \<Rightarrow> (nat \<times> ('c, 'd) outgoing) list \<Rightarrow> RequestVoteArgs option" where
  "vote_to k j [] = None"
| "vote_to k j ((k', out) # xs) =
     (case out of OutRequestVote j' a \<Rightarrow> if k' = k \<and> j' = int j then Some a else vote_to k j xs
      | _ \<Rightarrow> vote_to k j xs)"

fun append_to :: "nat \<Rightarrow> nat \<Rightarrow> (nat \<times> ('c, 'd) outgoing) list \<Rightarrow> 'c AppendEntriesArgs option" where
  "append_to k j [] = None"
| "append_to k j ((k', out) # xs) =
     (case out of OutAppendEntries j' a \<Rightarrow> if k' = k \<and> j' = int j then Some a else append_to k j xs
      | _ \<Rightarrow> append_to k j xs)"

fun vote_reply :: "nat \<Rightarrow> nat \<Rightarrow> (nat \<times> ('c, 'd) outgoing \<times> reply) list \<Rightarrow> (RequestVoteArgs \<times> RequestVoteReply) option" where
  "vote_reply k j [] = None"
| "vote_reply k j ((k', out, rep) # xs) =
     (case (out, rep) of (OutRequestVote j' a, RepVote r) \<Rightarrow> if k' = k \<and> j' = int j then Some (a, r) else vote_reply k j xs
      | _ \<Rightarrow> vote_reply k j xs)"

fun append_reply_of :: "nat \<Rightarrow> nat \<Rightarrow> (nat \<times> ('c, 'd) outgoing \<times> reply) list \<Rightarrow> ('c AppendEntriesArgs \<times> AppendEntriesReply) option" where
  "append_reply_of k j [] = None"
| "append_reply_of k j ((k', out, rep) # xs) =
     (case (out, rep) of (OutAppendEntries j' a, RepAppend r) \<Rightarrow> if k' = k \<and> j' = int j then Some (a, r) else append_reply_of k j xs
      | _ \<Rightarrow> append_reply_of k j xs)"

definition x_init :: "nat \<Rightarrow> ('c, 'd) xgroup" where
  "x_init n = \<lparr>x_srv = map (\<lambda>i. Make n (int i) MakePersister 0) [0..<n], x_reqs = [], x_reps = [], x_waiting = [],
     x_counter = [], x_owner = []\<rparr>"

text \<open>\<open>CountVote\<close> is the two critical sections of \<open>sendRequestVote\<close> one after the other.\<close>

fun xstep :: "nat \<Rightarrow> ('c, 'd) xgroup \<Rightarrow> 'c event \<Rightarrow> ('c, 'd) xgroup option" where
  "xstep n x (Tick i) =
     (if i < n then
        case ticker_tick 0 (x_srv x ! i) of
          Inr (rf', outs) \<Rightarrow> let new = map (Pair (length (x_owner x))) outs in
            Some (x\<lparr>x_srv := (x_srv x)[i := rf'], x_reqs := x_reqs x @ new, x_waiting := x_waiting x @ new,
                    x_counter := x_counter x @ [1], x_owner := x_owner x @ [i]\<rparr>)
        | Inl _ \<Rightarrow> None
      else None)"
| "xstep n x (RecvVote k j) =
     (case vote_to k j (x_reqs x) of
        Some a \<Rightarrow> (if j < n then
          case RequestVote a (x_srv x ! j) of
            Inr (rf', r) \<Rightarrow> Some (x\<lparr>x_srv := (x_srv x)[j := rf'],
                               x_reps := (k, OutRequestVote (int j) a, RepVote r) # x_reps x\<rparr>)
          | Inl _ \<Rightarrow> None
        else None)
      | None \<Rightarrow> None)"
| "xstep n x (CountVote k j) =
     (case vote_reply k j (x_reps x) of
        Some (a, r) \<Rightarrow>
          if (k, OutRequestVote (int j) a) \<in> set (x_waiting x) \<and> k < length (x_owner x) \<and> x_owner x ! k < n then
            case sendRequestVote_check a (x_srv x ! (x_owner x ! k)) of
              Inr (rf1, True) \<Rightarrow>
                (case sendRequestVote_switch r (x_counter x ! k) True rf1 of
                   Inr (rf2, num, _) \<Rightarrow> Some (x\<lparr>x_srv := (x_srv x)[x_owner x ! k := rf2],
                     x_waiting := removeAll (k, OutRequestVote (int j) a) (x_waiting x),
                     x_counter := (x_counter x)[k := num]\<rparr>)
                 | Inl _ \<Rightarrow> None)
            | _ \<Rightarrow> None
          else None
      | None \<Rightarrow> None)"
| "xstep n x (RecvAppend k j) =
     (case append_to k j (x_reqs x) of
        Some a \<Rightarrow> (if j < n then
          case AppendEntries a (x_srv x ! j) of
            Inr (rf', r) \<Rightarrow> Some (x\<lparr>x_srv := (x_srv x)[j := rf'],
                               x_reps := (k, OutAppendEntries (int j) a, RepAppend r) # x_reps x\<rparr>)
          | Inl _ \<Rightarrow> None
        else None)
      | None \<Rightarrow> None)"
| "xstep n x (AppendReply k j) =
     (case append_reply_of k j (x_reps x) of
        Some (a, r) \<Rightarrow>
          if (k, OutAppendEntries (int j) a) \<in> set (x_waiting x) \<and> k < length (x_owner x) \<and> x_owner x ! k < n then
            case sendAppendEntries_recv (int j) a r (x_counter x ! k) True (x_srv x ! (x_owner x ! k)) of
              Inr (rf', num, _) \<Rightarrow> Some (x\<lparr>x_srv := (x_srv x)[x_owner x ! k := rf'],
                 x_waiting := removeAll (k, OutAppendEntries (int j) a) (x_waiting x),
                 x_counter := (x_counter x)[k := num]\<rparr>)
            | Inl _ \<Rightarrow> None
          else None
      | None \<Rightarrow> None)"
| "xstep n x (StartCmd i c) =
     (if i < n then
        case Start c (x_srv x ! i) of
          Inr (rf', _) \<Rightarrow> Some (x\<lparr>x_srv := (x_srv x)[i := rf']\<rparr>)
        | Inl _ \<Rightarrow> None
      else None)"
| "xstep n x (Restart i) =
     (if i < n then
        Some (x\<lparr>x_srv := (x_srv x)[i := Make n (int i) (restart_persister (persister (x_srv x ! i))) 0],
                x_waiting := filter (\<lambda>(k, out). x_owner x ! k \<noteq> i) (x_waiting x)\<rparr>)
      else None)"

text \<open>The conditions of the two theorems on a run; \<open>strict\<close> asks for the second one too.\<close>

fun is_snap :: "('c, 'd) outgoing \<Rightarrow> bool" where
  "is_snap (OutInstallSnapshot j a) = True"
| "is_snap _ = False"

definition x_plain :: "('c, 'd) xgroup \<Rightarrow> bool" where
  "x_plain x \<longleftrightarrow> list_all (\<lambda>rf. lastIncludeIndex rf = -1) (x_srv x) \<and>
     list_all (\<lambda>(k, out). \<not> is_snap out) (x_reqs x)"

definition x_nocut :: "('c, 'd) xgroup \<Rightarrow> ('c, 'd) xgroup \<Rightarrow> bool" where
  "x_nocut x x' \<longleftrightarrow> list_all2 (\<lambda>rf rf'. \<not> strict_prefix (logs rf') (logs rf)) (x_srv x) (x_srv x')"

fun xrun :: "bool \<Rightarrow> nat \<Rightarrow> ('c, 'd) xgroup \<Rightarrow> 'c event list \<Rightarrow> ('c, 'd) xgroup option" where
  "xrun strict n x [] = Some x"
| "xrun strict n x (e # es) =
     (case xstep n x e of
        None \<Rightarrow> None
      | Some x' \<Rightarrow> if x_plain x' \<and> (strict \<longrightarrow> x_nocut x x') then xrun strict n x' es else None)"

section \<open>Executed events are steps\<close>

definition sim :: "nat \<Rightarrow> ('c, 'd) xgroup \<Rightarrow> ('c, 'd) cluster \<Rightarrow> bool" where
  "sim n x s \<longleftrightarrow> length (x_srv x) = n \<and> (\<forall>i<n. srv s i = x_srv x ! i) \<and> reqs s = set (x_reqs x) \<and>
     reps s = set (x_reps x) \<and> waiting s = set (x_waiting x) \<and> checked s = {} \<and>
     (\<forall>k out. (k, out) \<in> set (x_waiting x) \<longrightarrow> k < length (x_owner x)) \<and>
     ticks s = length (x_owner x) \<and> length (x_counter x) = length (x_owner x) \<and>
     (\<forall>k<length (x_owner x). counter s k = x_counter x ! k \<and> owner s k = x_owner x ! k)"

lemma vote_to_in: "vote_to k j xs = Some a \<Longrightarrow> (k, OutRequestVote (int j) a) \<in> set xs"
  by (induction k j xs rule: vote_to.induct) (auto split: outgoing.splits if_splits)

lemma append_to_in: "append_to k j xs = Some a \<Longrightarrow> (k, OutAppendEntries (int j) a) \<in> set xs"
  by (induction k j xs rule: append_to.induct) (auto split: outgoing.splits if_splits)

lemma vote_reply_in: "vote_reply k j xs = Some (a, r) \<Longrightarrow> (k, OutRequestVote (int j) a, RepVote r) \<in> set xs"
  by (induction k j xs rule: vote_reply.induct) (auto split: outgoing.splits reply.splits if_splits)

lemma append_reply_of_in:
  "append_reply_of k j xs = Some (a, r) \<Longrightarrow> (k, OutAppendEntries (int j) a, RepAppend r) \<in> set xs"
  by (induction k j xs rule: append_reply_of.induct) (auto split: outgoing.splits reply.splits if_splits)

lemma sim_init: "sim n (x_init n) (init_cluster n (\<lambda>_. 0))"
  by (simp add: sim_def x_init_def init_cluster_def)

lemma sim_snapless:
  fixes x :: "('c, 'd) xgroup"
  assumes "sim n x s"
  shows "snapless n s \<longleftrightarrow> x_plain x"
proof -
  have "(\<forall>i<n. lastIncludeIndex (srv s i) = -1) \<longleftrightarrow> list_all (\<lambda>rf. lastIncludeIndex rf = -1) (x_srv x)"
    using assms by (simp add: sim_def list_all_length)
  moreover have "(\<forall>k j a. (k, OutInstallSnapshot j a) \<notin> R) \<longleftrightarrow> (\<forall>(k, out)\<in>R. \<not> is_snap out)"
    for R :: "(nat \<times> ('c, 'd) outgoing) set"
    by (fastforce elim: is_snap.elims)
  moreover have "reqs s = set (x_reqs x)" using assms by (simp add: sim_def)
  ultimately show ?thesis by (simp add: snapless_def x_plain_def list_all_iff)
qed

lemma sim_nocut: "sim n x s \<Longrightarrow> sim n x' s' \<Longrightarrow> no_cut n s s' \<longleftrightarrow> x_nocut x x'"
  by (auto simp: sim_def no_cut_def x_nocut_def list_all2_conv_all_nth)

text \<open>A reply to a vote request takes two steps, all other events one.\<close>

definition two_steps :: "nat \<Rightarrow> ('c, 'd) cluster \<Rightarrow> ('c, 'd) cluster \<Rightarrow> bool" where
  "two_steps n s s' \<longleftrightarrow> cstep n s s' \<or> (\<exists>s1. cstep n s s1 \<and> cstep n s1 s' \<and> reqs s1 = reqs s \<and>
     (\<forall>i. lkeep (srv s i) (srv s1 i)))"

lemma xstep_Tick:
  assumes sm: "sim n x s" and i: "i < n" and t: "ticker_tick 0 (x_srv x ! i) = Inr (rf', outs)"
  defines "new \<equiv> map (Pair (length (x_owner x))) outs"
  shows "\<exists>s'. cstep n s s' \<and> sim n (x\<lparr>x_srv := (x_srv x)[i := rf'], x_reqs := x_reqs x @ new, x_waiting := x_waiting x @ new,
      x_counter := x_counter x @ [1], x_owner := x_owner x @ [i]\<rparr>) s'"
proof -
  have tk: "ticker_tick 0 (srv s i) = Inr (rf', outs)" using sm i t by (simp add: sim_def)
  have "\<exists>s'. cstep n s s' \<and> srv s' = (srv s)(i := rf') \<and> reqs s' = reqs s \<union> {ticks s} \<times> set outs \<and>
      waiting s' = waiting s \<union> {ticks s} \<times> set outs \<and> reps s' = reps s \<and> checked s' = checked s \<and>
      counter s' = (counter s)(ticks s := 1) \<and> owner s' = (owner s)(ticks s := i) \<and> ticks s' = Suc (ticks s)"
    by (intro exI conjI, rule cstep.tick [OF i _ _ tk]) simp_all
  then show ?thesis using sm i
    by (elim ex_forward) (auto simp: sim_def new_def nth_append nth_list_update less_Suc_eq)
qed

lemma xstep_RecvVote:
  assumes sm: "sim n x s" and q: "vote_to k j (x_reqs x) = Some a" and j: "j < n"
    and c: "RequestVote a (x_srv x ! j) = Inr (rf', r)"
  shows "\<exists>s'. cstep n s s' \<and> sim n (x\<lparr>x_srv := (x_srv x)[j := rf'],
      x_reps := (k, OutRequestVote (int j) a, RepVote r) # x_reps x\<rparr>) s'"
proof -
  have q': "(k, OutRequestVote (int j) a) \<in> reqs s" and c': "RequestVote a (srv s j) = Inr (rf', r)"
    using sm q j c vote_to_in by (fastforce simp: sim_def)+
  have "\<exists>s'. cstep n s s' \<and> srv s' = (srv s)(j := rf') \<and> reqs s' = reqs s \<and> waiting s' = waiting s \<and>
      reps s' = insert (k, OutRequestVote (int j) a, RepVote r) (reps s) \<and> checked s' = checked s \<and>
      counter s' = counter s \<and> owner s' = owner s \<and> ticks s' = ticks s"
    by (intro exI conjI, rule cstep.recv_vote [OF q' j c']) simp_all
  then show ?thesis using sm j by (elim ex_forward) (auto simp: sim_def nth_list_update)
qed

lemma xstep_RecvAppend:
  assumes sm: "sim n x s" and q: "append_to k j (x_reqs x) = Some a" and j: "j < n"
    and c: "AppendEntries a (x_srv x ! j) = Inr (rf', r)"
  shows "\<exists>s'. cstep n s s' \<and> sim n (x\<lparr>x_srv := (x_srv x)[j := rf'],
      x_reps := (k, OutAppendEntries (int j) a, RepAppend r) # x_reps x\<rparr>) s'"
proof -
  have q': "(k, OutAppendEntries (int j) a) \<in> reqs s" and c': "AppendEntries a (srv s j) = Inr (rf', r)"
    using sm q j c append_to_in by (fastforce simp: sim_def)+
  have "\<exists>s'. cstep n s s' \<and> srv s' = (srv s)(j := rf') \<and> reqs s' = reqs s \<and> waiting s' = waiting s \<and>
      reps s' = insert (k, OutAppendEntries (int j) a, RepAppend r) (reps s) \<and> checked s' = checked s \<and>
      counter s' = counter s \<and> owner s' = owner s \<and> ticks s' = ticks s"
    by (intro exI conjI, rule cstep.recv_append [OF q' j c']) simp_all
  then show ?thesis using sm j by (elim ex_forward) (auto simp: sim_def nth_list_update)
qed

lemma xstep_AppendReply:
  assumes sm: "sim n x s" and q: "append_reply_of k j (x_reps x) = Some (a, r)"
    and w: "(k, OutAppendEntries (int j) a) \<in> set (x_waiting x)" and k: "k < length (x_owner x)" "x_owner x ! k < n"
    and c: "sendAppendEntries_recv (int j) a r (x_counter x ! k) True (x_srv x ! (x_owner x ! k)) = Inr (rf', num, ret)"
  shows "\<exists>s'. cstep n s s' \<and> sim n (x\<lparr>x_srv := (x_srv x)[x_owner x ! k := rf'],
      x_waiting := removeAll (k, OutAppendEntries (int j) a) (x_waiting x), x_counter := (x_counter x)[k := num]\<rparr>) s'"
proof -
  have o: "owner s k = x_owner x ! k" "counter s k = x_counter x ! k" using sm k(1) by (simp_all add: sim_def)
  have w': "(k, OutAppendEntries (int j) a) \<in> waiting s" using sm w by (simp add: sim_def)
  have r': "(k, OutAppendEntries (int j) a, RepAppend r) \<in> reps s"
    using sm append_reply_of_in [OF q] by (simp add: sim_def)
  have c': "sendAppendEntries_recv (int j) a r (counter s k) True (srv s (owner s k)) = Inr (rf', num, ret)"
    using sm c k(2) o by (simp add: sim_def)
  have "\<exists>s'. cstep n s s' \<and> srv s' = (srv s)(owner s k := rf') \<and> reqs s' = reqs s \<and>
      waiting s' = waiting s - {(k, OutAppendEntries (int j) a)} \<and> reps s' = reps s \<and> checked s' = checked s \<and>
      counter s' = (counter s)(k := num) \<and> owner s' = owner s \<and> ticks s' = ticks s"
    by (intro exI conjI, rule cstep.append_reply [OF w' r' c']) simp_all
  then show ?thesis using sm k o by (elim ex_forward) (auto simp: sim_def nth_list_update)
qed

lemma xstep_CountVote:
  assumes sm: "sim n x s" and q: "vote_reply k j (x_reps x) = Some (a, r)"
    and w: "(k, OutRequestVote (int j) a) \<in> set (x_waiting x)" and k: "k < length (x_owner x)" "x_owner x ! k < n"
    and ck: "sendRequestVote_check a (x_srv x ! (x_owner x ! k)) = Inr (rf1, True)"
    and sw: "sendRequestVote_switch r (x_counter x ! k) True rf1 = Inr (rf2, num, ret)"
  shows "\<exists>s'. two_steps n s s' \<and> sim n (x\<lparr>x_srv := (x_srv x)[x_owner x ! k := rf2],
      x_waiting := removeAll (k, OutRequestVote (int j) a) (x_waiting x), x_counter := (x_counter x)[k := num]\<rparr>) s'"
proof -
  let ?o = "owner s k"
  have o: "?o = x_owner x ! k" "counter s k = x_counter x ! k" using sm k(1) by (simp_all add: sim_def)
  have w': "(k, OutRequestVote (int j) a) \<in> waiting s" using sm w by (simp add: sim_def)
  have r': "(k, OutRequestVote (int j) a, RepVote r) \<in> reps s" using sm vote_reply_in [OF q] by (simp add: sim_def)
  have ck': "sendRequestVote_check a (srv s ?o) = Inr (rf1, True)" using sm ck k(2) o by (simp add: sim_def)
  have "\<exists>s1. cstep n s s1 \<and> srv s1 = (srv s)(?o := rf1) \<and> reqs s1 = reqs s \<and>
      waiting s1 = waiting s - {(k, OutRequestVote (int j) a)} \<and> reps s1 = reps s \<and>
      checked s1 = insert (k, OutRequestVote (int j) a, r) (checked s) \<and>
      counter s1 = counter s \<and> owner s1 = owner s \<and> ticks s1 = ticks s"
    by (intro exI conjI, rule cstep.vote_check [OF w' r' ck']) simp_all
  then obtain s1 where s1: "cstep n s s1" "srv s1 = (srv s)(?o := rf1)" "reqs s1 = reqs s"
      "waiting s1 = waiting s - {(k, OutRequestVote (int j) a)}" "reps s1 = reps s"
      "checked s1 = insert (k, OutRequestVote (int j) a, r) (checked s)" "counter s1 = counter s"
      "owner s1 = owner s" "ticks s1 = ticks s" by blast
  have in1: "(k, OutRequestVote (int j) a, r) \<in> checked s1" by (simp add: s1)
  have sw': "sendRequestVote_switch r (counter s1 k) True (srv s1 (owner s1 k)) = Inr (rf2, num, ret)"
    using sw o by (simp add: s1)
  have "\<exists>s'. cstep n s1 s' \<and> srv s' = (srv s1)(?o := rf2) \<and> reqs s' = reqs s1 \<and>
      waiting s' = waiting s1 \<and> reps s' = reps s1 \<and>
      checked s' = checked s1 - {(k, OutRequestVote (int j) a, r)} \<and>
      counter s' = (counter s1)(k := num) \<and> owner s' = owner s1 \<and> ticks s' = ticks s1"
    by (intro exI conjI, rule cstep.vote_switch [OF in1 sw']) (simp_all add: s1)
  then obtain s' where s': "cstep n s1 s'" "srv s' = (srv s1)(?o := rf2)" "reqs s' = reqs s1"
      "waiting s' = waiting s1" "reps s' = reps s1" "checked s' = checked s1 - {(k, OutRequestVote (int j) a, r)}"
      "counter s' = (counter s1)(k := num)" "owner s' = owner s1" "ticks s' = ticks s1" by blast
  have "lkeep (srv s i) (srv s1 i)" for i using sendRequestVote_check_lkeep [OF ck'] by (simp add: s1)
  then have "two_steps n s s'" using s1(1,3) s'(1) unfolding two_steps_def by blast
  moreover have "checked s = {}" using sm by (simp add: sim_def)
  then have "sim n (x\<lparr>x_srv := (x_srv x)[x_owner x ! k := rf2],
      x_waiting := removeAll (k, OutRequestVote (int j) a) (x_waiting x), x_counter := (x_counter x)[k := num]\<rparr>) s'"
    using sm k o by (auto simp: sim_def nth_list_update s' s1)
  ultimately show ?thesis by blast
qed

lemma xstep_Start:
  assumes sm: "sim n x s" and i: "i < n" and c: "Start c (x_srv x ! i) = Inr (rf', res)"
  shows "\<exists>s'. cstep n s s' \<and> sim n (x\<lparr>x_srv := (x_srv x)[i := rf']\<rparr>) s'"
proof -
  have c': "Start c (srv s i) = Inr (rf', res)" using sm i c by (simp add: sim_def)
  from cstep.start [OF i c'] have "cstep n s (set_srv i rf' s)" .
  moreover have "sim n (x\<lparr>x_srv := (x_srv x)[i := rf']\<rparr>) (set_srv i rf' s)"
    using sm i by (auto simp: sim_def nth_list_update)
  ultimately show ?thesis by blast
qed

lemma xstep_Restart:
  assumes sm: "sim n x s" and i: "i < n"
  shows "\<exists>s'. cstep n s s' \<and> sim n (x\<lparr>x_srv := (x_srv x)[i := Make n (int i) (restart_persister (persister (x_srv x ! i))) 0],
      x_waiting := filter (\<lambda>(k, out). x_owner x ! k \<noteq> i) (x_waiting x)\<rparr>) s'"
proof -
  let ?rf = "Make n (int i) (restart_persister (persister (srv s i))) 0"
  have "\<exists>s'. cstep n s s' \<and> srv s' = (srv s)(i := ?rf) \<and> reqs s' = reqs s \<and>
      waiting s' = {(k, out) \<in> waiting s. owner s k \<noteq> i} \<and> reps s' = reps s \<and>
      checked s' = {(k, out, reply) \<in> checked s. owner s k \<noteq> i} \<and>
      counter s' = counter s \<and> owner s' = owner s \<and> ticks s' = ticks s"
    by (intro exI conjI, rule cstep.restart [OF i, of 0]) simp_all
  then show ?thesis using sm i by (elim ex_forward) (auto simp: sim_def nth_list_update)
qed

lemma xstep_sim:
  assumes "sim n x s" and "xstep n x e = Some x'"
  shows "\<exists>s'. two_steps n s s' \<and> sim n x' s'"
proof (cases e)
  case (Tick i)
  then show ?thesis using assms xstep_Tick [OF assms(1), of i]
    by (auto simp: two_steps_def Let_def split: if_splits sum.splits; blast)
next
  case (RecvVote k j)
  then show ?thesis using assms xstep_RecvVote [OF assms(1), of k j]
    by (auto simp: two_steps_def split: if_splits sum.splits option.splits; blast)
next
  case (CountVote k j)
  then show ?thesis using assms xstep_CountVote [OF assms(1), of k j]
    by (auto split: if_splits sum.splits option.splits bool.splits) 
next
  case (RecvAppend k j)
  then show ?thesis using assms xstep_RecvAppend [OF assms(1), of k j]
    by (auto simp: two_steps_def split: if_splits sum.splits option.splits; blast)
next
  case (AppendReply k j)
  then show ?thesis using assms xstep_AppendReply [OF assms(1), of k j]
    by (auto simp: two_steps_def split: if_splits sum.splits option.splits; blast)
next
  case (StartCmd i c)
  then show ?thesis using assms xstep_Start [OF assms(1), of i c]
    by (auto simp: two_steps_def split: if_splits sum.splits; blast)
next
  case (Restart i)
  then show ?thesis using assms xstep_Restart [OF assms(1), of i]
    by (auto simp: two_steps_def split: if_splits)
qed


section \<open>Executed runs are runs of the group\<close>

lemma two_steps_cases:
  assumes "two_steps n s s'" and "snapless n s"
  obtains "cstep n s s'" | s1 where "cstep n s s1" "cstep n s1 s'" "snapless n s1" "\<And>i. logs (srv s1 i) = logs (srv s i)"
  using assms(1) unfolding two_steps_def
proof (elim disjE exE conjE)
  fix s1 assume s1: "cstep n s s1" "cstep n s1 s'" "reqs s1 = reqs s" "\<forall>i. lkeep (srv s i) (srv s1 i)"
  then have "snapless n s1" using assms(2) by (simp add: snapless_def lkeep_def)
  then show thesis by (rule that(2) [OF s1(1,2)]) (use s1(4) in \<open>simp add: lkeep_def\<close>)
qed (rule that(1))

lemma two_steps_plain:
  assumes "plain_reachable n s" and "two_steps n s s'" and "snapless n s'"
  shows "plain_reachable n s'"
  using assms(2)
proof (rule two_steps_cases)
  show "snapless n s" using plain_inv [OF assms(1)] by blast
qed (use assms(1,3) in \<open>blast intro: plain_reachable.step\<close>)+

lemma two_steps_orderly:
  assumes "orderly_run n H s" and "two_steps n s s'" and "snapless n s'" and "no_cut n s s'"
  shows "\<exists>H'. orderly_run n H' s' \<and> H \<union> delivered n s' \<subseteq> H'"
  using assms(2)
proof (rule two_steps_cases)
  show "snapless n s" using orderly_inv [OF assms(1)] unfolding commit_inv_def by blast
next
  assume "cstep n s s'"
  then show ?thesis using orderly_run.step [OF assms(1) _ assms(3,4)] by blast
next
  fix s1 assume s1: "cstep n s s1" "cstep n s1 s'" "snapless n s1" "\<And>i. logs (srv s1 i) = logs (srv s i)"
  have "no_cut n s s1" "no_cut n s1 s'" using assms(4) s1(4) by (simp_all add: no_cut_def)
  then show ?thesis
    using orderly_run.step [OF orderly_run.step [OF assms(1) s1(1,3)] s1(2) assms(3)] by blast
qed

lemma xrun_plain:
  assumes "xrun strict n x es = Some x'" and "sim n x s" and "plain_reachable n s"
  shows "\<exists>s'. plain_reachable n s' \<and> sim n x' s'"
  using assms
proof (induction es arbitrary: x s)
  case (Cons e es)
  from Cons.prems(1) obtain x1 where x1: "xstep n x e = Some x1" "x_plain x1" "xrun strict n x1 es = Some x'"
    by (auto split: option.splits if_splits)
  from xstep_sim [OF Cons.prems(2) x1(1)] obtain s1 where s1: "two_steps n s s1" "sim n x1 s1" by blast
  have "plain_reachable n s1" using two_steps_plain [OF Cons.prems(3) s1(1)] sim_snapless [OF s1(2)] x1(2) by blast
  then show ?case by (rule Cons.IH [OF x1(3) s1(2)])
qed auto

lemma xrun_orderly:
  assumes "xrun True n x es = Some x'" and "sim n x s" and "orderly_run n H s" and "delivered n s \<subseteq> H"
  shows "\<exists>H' s'. orderly_run n H' s' \<and> sim n x' s' \<and> H \<union> delivered n s' \<subseteq> H'"
  using assms
proof (induction es arbitrary: x s H)
  case (Cons e es)
  from Cons.prems(1) obtain x1 where x1: "xstep n x e = Some x1" "x_plain x1" "x_nocut x x1" "xrun True n x1 es = Some x'"
    by (auto split: option.splits if_splits)
  from xstep_sim [OF Cons.prems(2) x1(1)] obtain s1 where s1: "two_steps n s s1" "sim n x1 s1" by blast
  have "snapless n s1" "no_cut n s s1"
    using x1(2,3) sim_snapless [OF s1(2)] sim_nocut [OF Cons.prems(2) s1(2)] by blast+
  from two_steps_orderly [OF Cons.prems(3) s1(1) this] obtain H1 where
    H1: "orderly_run n H1 s1" "H \<union> delivered n s1 \<subseteq> H1" by blast
  then show ?case using Cons.IH [OF x1(4) s1(2) H1(1)] by blast
qed auto

definition x_delivered :: "('c, 'd) xgroup \<Rightarrow> (int \<times> 'c option) list list" where
  "x_delivered x = map (\<lambda>rf. map (\<lambda>m. (CommandIndex m, Command m)) (filter CommandValid (applyChan rf))) (x_srv x)"

lemma x_delivered_in:
  assumes "sim n x s" and "l \<in> set (x_delivered x)" and "p \<in> set l"
  shows "p \<in> delivered n s"
proof -
  from assms(2) obtain i where i: "i < length (x_srv x)"
    "l = map (\<lambda>m. (CommandIndex m, Command m)) (filter CommandValid (applyChan (x_srv x ! i)))"
    by (auto simp: x_delivered_def in_set_conv_nth)
  then obtain m where m: "m \<in> set (applyChan (x_srv x ! i))" "CommandValid m" "p = (CommandIndex m, Command m)"
    using assms(3) by auto
  have "i < n" "srv s i = x_srv x ! i" using assms(1) i(1) by (simp_all add: sim_def)
  then show ?thesis unfolding m(3) delivered_def using m(1,2) by (intro CollectI exI [of _ i] exI [of _ m]) simp
qed


section \<open>An orderly run\<close>

text \<open>Peer 0 is elected, replicates two commands, crashes and restarts as a follower of peer 1.\<close>

definition good_events :: "nat event list" where
  "good_events = [Tick 0, RecvVote 0 1, CountVote 0 1, StartCmd 0 7, StartCmd 0 8, Tick 0, RecvAppend 1 2, AppendReply 1 2,
     Tick 0, RecvAppend 2 1, RecvAppend 2 2, Restart 0, Tick 1, RecvVote 3 2, CountVote 3 2, StartCmd 1 9,
     Tick 1, RecvAppend 4 0, AppendReply 4 0]"

definition x_logs :: "('c, 'd) xgroup \<Rightarrow> (Status \<times> int \<times> int \<times> 'c LogEntry list) list" where
  "x_logs x = map (\<lambda>rf. (myStatus rf, currentTerm rf, lastApplied rf, logs rf)) (x_srv x)"

definition good_log :: "nat LogEntry list" where
  "good_log = [\<lparr>le_Term = 0, le_Cmd = None\<rparr>, \<lparr>le_Term = 1, le_Cmd = Some 7\<rparr>, \<lparr>le_Term = 1, le_Cmd = Some 8\<rparr>,
     \<lparr>le_Term = 2, le_Cmd = Some 9\<rparr>]"

lemma good_run:
  "map_option (\<lambda>x. (x_logs x, x_delivered x)) (xrun True 3 (x_init 3 :: (nat, nat) xgroup) good_events) =
     Some ([(Follower, 2, 2, good_log), (Leader, 2, 3, good_log), (Follower, 2, 2, take 3 good_log)],
       [[(1, Some 7), (2, Some 8)], [(1, Some 7), (2, Some 8), (3, Some 9)], [(1, Some 7), (2, Some 8)]])"
  by code_simp

lemma x_logs_srv:
  assumes "sim n x s" and "i < n"
  shows "x_logs x ! i = (myStatus (srv s i), currentTerm (srv s i), lastApplied (srv s i), logs (srv s i))"
  using assms by (simp add: sim_def x_logs_def)

lemma good_state:
  obtains H and s :: "(nat, nat) cluster" where "orderly_run 3 H s" "plain_reachable 3 s" "(1, Some 7) \<in> H" "(3, Some 9) \<in> H"
    "logs (srv s 0) = good_log" "logs (srv s 2) = take 3 good_log" "lastApplied (srv s 2) = 2" "currentTerm (srv s 2) = 2"
    "logs (srv s 1) = good_log" "myStatus (srv s 1) = Leader" "currentTerm (srv s 1) = 2"
proof -
  obtain x where x: "xrun True 3 (x_init 3 :: (nat, nat) xgroup) good_events = Some x"
    "x_logs x = [(Follower, 2, 2, good_log), (Leader, 2, 3, good_log), (Follower, 2, 2, take 3 good_log)]"
    "x_delivered x = [[(1, Some 7), (2, Some 8)], [(1, Some 7), (2, Some 8), (3, Some 9)], [(1, Some 7), (2, Some 8)]]"
    using good_run by auto
  have "delivered 3 (init_cluster 3 (\<lambda>_. 0) :: (nat, nat) cluster) \<subseteq> {}"
    by (auto simp: delivered_def init_cluster_def Make_def ReadRaftState_def MakePersister_def readPersist_def)
  from xrun_orderly [OF x(1) sim_init orderly_run.init this] obtain H s where
    s: "orderly_run 3 H s" "sim 3 x s" "delivered 3 s \<subseteq> H" by blast
  have "plain_reachable 3 s" using s(1) by (induction rule: orderly_run.induct) (auto intro: plain_reachable.intros)
  moreover have "(1, Some 7) \<in> delivered 3 s" "(3, Some 9) \<in> delivered 3 s"
    by (rule x_delivered_in [OF s(2), of "x_delivered x ! 1"]; simp add: x(3))+
  ultimately show thesis
    using that [of H s] s(1,3) x_logs_srv [OF s(2), of 0] x_logs_srv [OF s(2), of 1] x_logs_srv [OF s(2), of 2]
    unfolding x(2) by (auto simp: numeral_2_eq_2)
qed

theorem log_matching_witness:
  "\<exists>s :: (nat, nat) cluster. plain_reachable 3 s \<and> length (logs (srv s 0)) = 4 \<and>
     take 3 (logs (srv s 0)) = take 3 (logs (srv s 2))"
proof -
  obtain H s where s: "plain_reachable 3 (s :: (nat, nat) cluster)" "logs (srv s 0) = good_log" "logs (srv s 2) = take 3 good_log"
    by (rule good_state)
  from log_matching [OF s(1), of 0 2 2] s(2,3) have "take 3 (logs (srv s 0)) = take 3 (logs (srv s 2))"
    by (simp add: good_log_def numeral_3_eq_3)
  then show ?thesis using s by (intro exI [of _ s]) (simp add: good_log_def)
qed

theorem state_machine_safety_witness:
  "\<exists>H (s :: (nat, nat) cluster). orderly_run 3 H s \<and> (3, Some 9) \<in> H \<and> (\<forall>c. (1, c) \<in> H \<longleftrightarrow> c = Some 7)"
proof -
  obtain H s where s: "orderly_run 3 H (s :: (nat, nat) cluster)" "(1, Some 7) \<in> H" "(3, Some 9) \<in> H" by (rule good_state)
  have "c = Some 7" if "(1, c) \<in> H" for c by (rule state_machine_safety [OF s(1) that s(2)])
  then show ?thesis using s by blast
qed

theorem leader_completeness_witness:
  "\<exists>H (s :: (nat, nat) cluster). orderly_run 3 H s \<and> myStatus (srv s 1) = Leader \<and> lastApplied (srv s 2) = 2 \<and>
     take 3 (logs (srv s 2)) = take 3 (logs (srv s 1))"
proof -
  obtain H s where s: "orderly_run 3 H (s :: (nat, nat) cluster)" "lastApplied (srv s 2) = 2" "currentTerm (srv s 2) = 2"
    "myStatus (srv s 1) = Leader" "currentTerm (srv s 1) = 2" by (rule good_state)
  have "take 3 (logs (srv s 2)) = take 3 (logs (srv s 1))"
    using leader_completeness [OF s(1), of 2 1] s(2-5) by simp
  then show ?thesis using s by blast
qed

section \<open>A run with a late request\<close>

text \<open>
  The leader of term 1 sends its first command to peer 1 and, with a second command, both once
  more. Peer 1 receives the second request first and acknowledges both entries; then the first
  one arrives and, being an append request of the current term that matches, cuts the second
  entry off again, since the handler replaces everything behind the entries of the request.
  The leader counts the acknowledgement and applies both commands. Peer 1 becomes leader with
  the shorter log and applies another command at index 2.
\<close>

definition bad_events :: "nat event list" where
  "bad_events = [Tick 0, RecvVote 0 1, CountVote 0 1, StartCmd 0 7, Tick 0, RecvAppend 1 2, StartCmd 0 8, Tick 0,
     RecvAppend 2 1, RecvAppend 1 1, AppendReply 2 1, Tick 1, RecvVote 3 2, CountVote 3 2, StartCmd 1 9,
     Tick 1, RecvAppend 4 2, AppendReply 4 2]"

lemma bad_run:
  "map_option (\<lambda>x. map applyChan (x_srv x)) (xrun False 3 (x_init 3 :: (nat, nat) xgroup) bad_events) =
     Some [[commandMsg (Some 7) 1, commandMsg (Some 8) 2], [commandMsg (Some 7) 1, commandMsg (Some 9) 2], []]"
  by code_simp

text \<open>
  C5: Without the condition on late requests state machine safety fails: a group of three peers
  reaches, with no crash and no message lost but only delayed, a state in which two peers have
  applied different commands at index 2.
\<close>

theorem state_machine_safety_fails:
  "\<exists>s :: (nat, nat) cluster. plain_reachable 3 s \<and>
     commandMsg (Some 8) 2 \<in> set (applyChan (srv s 0)) \<and> commandMsg (Some 9) 2 \<in> set (applyChan (srv s 1))"
proof -
  obtain x where x: "xrun False 3 (x_init 3 :: (nat, nat) xgroup) bad_events = Some x"
    "map applyChan (x_srv x) =
       [[commandMsg (Some 7) 1, commandMsg (Some 8) 2], [commandMsg (Some 7) 1, commandMsg (Some 9) 2], []]"
    using bad_run by auto
  from xrun_plain [OF x(1) sim_init plain_reachable.init] obtain s where s: "plain_reachable 3 s" "sim 3 x s" by blast
  have "applyChan (srv s i) = map applyChan (x_srv x) ! i" if "i < 3" for i using s(2) that by (simp add: sim_def)
  from this [of 0] this [of 1] show ?thesis using s(1) unfolding x(2) by (intro exI [of _ s]) simp
qed

end
