(* ===== verification/Labrpc.thy ===== *)
theory Labrpc
  imports Go_Prelude "HOL-Library.Word"
begin

text \<open>
  \<open>labrpc/labrpc.go\<close>: remote procedure calls over a simulated network that loses and delays
  messages. The state of the network, its servers and services, the dispatch of a request to a
  method, and the life of a request from \<open>ClientEnd.Call\<close> through \<open>processReq\<close> and the goroutine of
  the handler back to the caller, one definition per stretch between two blocking operations.
  Names are \<open>interface{}\<close> values of a type \<open>'n\<close>; a server is a pointer to an entry of a store,
  since \<open>isServerDead\<close> compares pointers; \<open>'r\<close> is the state behind a receiver, \<open>'v\<close> the type of arguments and
  replies and \<open>'b\<close> the unit of encoded messages. Encoding and decoding are arguments.
\<close>

section \<open>Services and servers\<close>

text \<open>What \<open>reflect\<close> tells about a method.\<close>

record ('r, 'v) Method =
  mt_Name :: string
  mt_PkgPath :: string
  mt_NumIn :: nat
  mt_In2IsPtr :: bool
  mt_NumOut :: nat
  mt_Func :: "'r \<Rightarrow> 'v \<Rightarrow> 'r \<times> 'v"

record ('r, 'v) Service =
  sv_name :: string
  sv_rcvr :: 'r
  sv_methods :: "(string, ('r, 'v) Method) gomap"

fun service_methods :: "('r, 'v) Method list \<Rightarrow> (string, ('r, 'v) Method) gomap \<Rightarrow> (string, ('r, 'v) Method) gomap" where
  "service_methods [] m = m"
| "service_methods (x # xs) m =
     (if mt_PkgPath x \<noteq> [] \<or> mt_NumIn x \<noteq> 3 \<or> \<not> mt_In2IsPtr x \<or> mt_NumOut x \<noteq> 0
      then service_methods xs m
      else service_methods xs (gm_put (mt_Name x) x m))"

definition MakeService :: "string \<Rightarrow> 'r \<Rightarrow> ('r, 'v) Method list \<Rightarrow> ('r, 'v) Service" where
  "MakeService name rcvr typ = \<lparr>sv_name = name, sv_rcvr = rcvr, sv_methods = service_methods typ []\<rparr>"

record ('r, 'v) Server =
  rs_services :: "(string, ('r, 'v) Service) gomap"
  rs_count :: int

definition MakeServer :: "('r, 'v) Server" where
  "MakeServer = \<lparr>rs_services = [], rs_count = 0\<rparr>"

definition AddService :: "('r, 'v) Service \<Rightarrow> ('r, 'v) Server \<Rightarrow> ('r, 'v) Server" where
  "AddService svc rs = rs\<lparr>rs_services := gm_put (sv_name svc) svc (rs_services rs)\<rparr>"

definition Server_GetCount :: "('r, 'v) Server \<Rightarrow> int" where
  "Server_GetCount rs = rs_count rs"

section \<open>Messages and dispatch\<close>

record ('n, 'b) reqMsg =
  rq_endname :: 'n
  rq_svcMeth :: string
  rq_args :: "'b list"

record 'b replyMsg =
  rp_ok :: bool
  rp_reply :: "'b list"

definition noReply :: "'b replyMsg" where
  "noReply = \<lparr>rp_ok = False, rp_reply = []\<rparr>"

text \<open>The encoder, the decoder, and the zero value of the arguments.\<close>

record ('v, 'b) codec =
  cd_enc :: "'v \<Rightarrow> 'b list"
  cd_dec :: "'b list \<Rightarrow> 'v option"
  cd_zero :: 'v

text \<open>\<open>strings.LastIndex(s, ".")\<close>.\<close>

fun LastIndex :: "string \<Rightarrow> char \<Rightarrow> int" where
  "LastIndex [] c = -1"
| "LastIndex (x # xs) c = (let i = LastIndex xs c in if i \<ge> 0 then i + 1 else if x = c then 0 else -1)"

text \<open>\<open>Service.dispatch\<close>; an error of the decoder is ignored, the arguments stay at their zero value.\<close>

definition Service_dispatch :: "('v, 'b) codec \<Rightarrow> string \<Rightarrow> ('n, 'b) reqMsg \<Rightarrow> ('r, 'v) Service \<Rightarrow>
    (('r, 'v) Service \<times> 'b replyMsg) go" where
  "Service_dispatch cd methname req svc =
     (case gm_get (sv_methods svc) methname of
        Some method \<Rightarrow>
          let args = (case cd_dec cd (rq_args req) of None \<Rightarrow> cd_zero cd | Some v \<Rightarrow> v) in
          (case mt_Func method (sv_rcvr svc) args of (rcvr, reply) \<Rightarrow>
             Inr (svc\<lparr>sv_rcvr := rcvr\<rparr>, \<lparr>rp_ok = True, rp_reply = cd_enc cd reply\<rparr>))
      | None \<Rightarrow> Inl (LogFatal (''labrpc.Service.dispatch(): unknown method '' @ methname)))"

definition Server_dispatch :: "('v, 'b) codec \<Rightarrow> ('n, 'b) reqMsg \<Rightarrow> ('r, 'v) Server \<Rightarrow>
    (('r, 'v) Server \<times> 'b replyMsg) go" where
  "Server_dispatch cd req rs =
     (let rs = rs\<lparr>rs_count := rs_count rs + 1\<rparr>;
          dot = LastIndex (rq_svcMeth req) (CHR ''.'')
      in go_bind (go_slice_to (rq_svcMeth req) dot) (\<lambda>serviceName.
         go_bind (go_slice_from (rq_svcMeth req) (dot + 1)) (\<lambda>methodName.
         case gm_get (rs_services rs) serviceName of
           Some service \<Rightarrow>
             go_bind (Service_dispatch cd methodName req service) (\<lambda>(service, r).
               Inr (rs\<lparr>rs_services := gm_put serviceName service (rs_services rs)\<rparr>, r))
         | None \<Rightarrow> Inl (LogFatal (''labrpc.Server.dispatch(): unknown service '' @ serviceName)))))"

section \<open>The network\<close>

text \<open>\<open>nw_loop\<close>: the goroutine that accepts requests runs.\<close>

record 'n Network =
  nw_reliable :: bool
  nw_longDelays :: bool
  nw_longReordering :: bool
  nw_ends :: "('n, 'n) gomap"
  nw_enabled :: "('n, bool) gomap"
  nw_servers :: "('n, nat option) gomap"
  nw_connections :: "('n, 'n option) gomap"
  nw_done :: bool
  nw_loop :: bool
  nw_count :: "32 word"
  nw_bytes :: "64 word"

definition MakeNetwork :: "'n Network" where
  "MakeNetwork = \<lparr>nw_reliable = True, nw_longDelays = False, nw_longReordering = False, nw_ends = [],
     nw_enabled = [], nw_servers = [], nw_connections = [], nw_done = False, nw_loop = True, nw_count = 0,
     nw_bytes = 0\<rparr>"

definition Cleanup :: "'n Network \<Rightarrow> 'n Network go" where
  "Cleanup rn = (if nw_done rn then Inl CloseOfClosedChannel else Inr (rn\<lparr>nw_done := True\<rparr>))"

definition Reliable :: "bool \<Rightarrow> 'n Network \<Rightarrow> 'n Network" where
  "Reliable yes rn = rn\<lparr>nw_reliable := yes\<rparr>"

definition LongReordering :: "bool \<Rightarrow> 'n Network \<Rightarrow> 'n Network" where
  "LongReordering yes rn = rn\<lparr>nw_longReordering := yes\<rparr>"

definition LongDelays :: "bool \<Rightarrow> 'n Network \<Rightarrow> 'n Network" where
  "LongDelays yes rn = rn\<lparr>nw_longDelays := yes\<rparr>"

text \<open>Reading a missing key of a Go map gives the zero value.\<close>

definition get_enabled :: "'n Network \<Rightarrow> 'n \<Rightarrow> bool" where
  "get_enabled rn endname = (case gm_get (nw_enabled rn) endname of None \<Rightarrow> False | Some b \<Rightarrow> b)"

definition get_server :: "'n Network \<Rightarrow> 'n \<Rightarrow> nat option" where
  "get_server rn servername = (case gm_get (nw_servers rn) servername of None \<Rightarrow> None | Some p \<Rightarrow> p)"

definition get_connection :: "'n Network \<Rightarrow> 'n \<Rightarrow> 'n option" where
  "get_connection rn endname = (case gm_get (nw_connections rn) endname of None \<Rightarrow> None | Some s \<Rightarrow> s)"

definition readEndnameInfo :: "'n \<Rightarrow> 'n Network \<Rightarrow> bool \<times> 'n option \<times> nat option \<times> bool \<times> bool" where
  "readEndnameInfo endname rn =
     (let enabled = get_enabled rn endname;
          servername = get_connection rn endname;
          server = (case servername of None \<Rightarrow> None | Some s \<Rightarrow> get_server rn s)
      in (enabled, servername, server, nw_reliable rn, nw_longReordering rn))"

definition isServerDead :: "'n \<Rightarrow> 'n \<Rightarrow> nat \<Rightarrow> 'n Network \<Rightarrow> bool" where
  "isServerDead endname servername server rn =
     (get_enabled rn endname = False \<or> get_server rn servername \<noteq> Some server)"

definition MakeEnd :: "'n \<Rightarrow> 'n Network \<Rightarrow> 'n Network go" where
  "MakeEnd endname rn =
     (case gm_get (nw_ends rn) endname of
        Some _ \<Rightarrow> Inl (LogFatal ''MakeEnd: already exists'')
      | None \<Rightarrow> Inr (rn\<lparr>nw_ends := gm_put endname endname (nw_ends rn),
                        nw_enabled := gm_put endname False (nw_enabled rn),
                        nw_connections := gm_put endname None (nw_connections rn)\<rparr>))"

definition AddServer :: "'n \<Rightarrow> nat \<Rightarrow> 'n Network \<Rightarrow> 'n Network" where
  "AddServer servername rs rn = rn\<lparr>nw_servers := gm_put servername (Some rs) (nw_servers rn)\<rparr>"

definition DeleteServer :: "'n \<Rightarrow> 'n Network \<Rightarrow> 'n Network" where
  "DeleteServer servername rn = rn\<lparr>nw_servers := gm_put servername None (nw_servers rn)\<rparr>"

definition Connect :: "'n \<Rightarrow> 'n \<Rightarrow> 'n Network \<Rightarrow> 'n Network" where
  "Connect endname servername rn = rn\<lparr>nw_connections := gm_put endname (Some servername) (nw_connections rn)\<rparr>"

definition Enable :: "'n \<Rightarrow> bool \<Rightarrow> 'n Network \<Rightarrow> 'n Network" where
  "Enable endname enabled rn = rn\<lparr>nw_enabled := gm_put endname enabled (nw_enabled rn)\<rparr>"

definition GetTotalCount :: "'n Network \<Rightarrow> int" where
  "GetTotalCount rn = sint (nw_count rn)"

definition GetTotalBytes :: "'n Network \<Rightarrow> 64 word" where
  "GetTotalBytes rn = nw_bytes rn"

section \<open>The life of a request\<close>

text \<open>
  The goroutine of the handler: not started, running on a server, or at its send on \<open>ech\<close>. The
  caller with its \<open>processReq\<close>: sending on \<open>e.ch\<close>, accepted, waiting for the handler (with what
  \<open>readEndnameInfo\<close> returned), about to send on \<open>replyCh\<close>, or back from \<open>Call\<close>.
\<close>

datatype 'b handler = Idle | Started nat | AtSend "'b replyMsg"

datatype ('n, 'b, 'v) phase =
    Sending
  | Accepted
  | Waiting 'n nat bool
  | Replying "'b replyMsg"
  | Returned "'v option"

record ('n, 'b, 'v) request =
  rt_msg :: "('n, 'b) reqMsg"
  rt_handler :: "'b handler"
  rt_phase :: "('n, 'b, 'v) phase"

text \<open>The program: the network, the servers by address and the requests by number. \<open>sy_runs\<close> records
  every execution of a handler: the request, the server before it and the server and reply after it.\<close>

record ('n, 'b, 'v, 'r) sys =
  sy_net :: "'n Network"
  sy_servers :: "nat \<Rightarrow> ('r, 'v) Server option"
  sy_reqs :: "nat \<Rightarrow> ('n, 'b, 'v) request option"
  sy_runs :: "(nat \<times> ('r, 'v) Server \<times> ('r, 'v) Server \<times> 'b replyMsg) list"

definition Network_GetCount :: "'n \<Rightarrow> ('n, 'b, 'v, 'r) sys \<Rightarrow> int go" where
  "Network_GetCount servername s =
     (case get_server (sy_net s) servername of
        None \<Rightarrow> Inl NilDereference
      | Some p \<Rightarrow> (case sy_servers s p of None \<Rightarrow> Inl NilDereference | Some svr \<Rightarrow> Inr (Server_GetCount svr)))"

definition set_req :: "nat \<Rightarrow> ('n, 'b, 'v) request \<Rightarrow> ('n, 'b, 'v, 'r) sys \<Rightarrow> ('n, 'b, 'v, 'r) sys" where
  "set_req i q s = s\<lparr>sy_reqs := (sy_reqs s)(i \<mapsto> q)\<rparr>"

text \<open>\<open>Call\<close> up to the send, with a fresh number for the request. The encoder is total: arguments that gob cannot
  encode, on which \<open>Call\<close> panics, are outside the model.\<close>

definition Call_send :: "('v, 'b) codec \<Rightarrow> nat \<Rightarrow> 'n \<Rightarrow> string \<Rightarrow> 'v \<Rightarrow> ('n, 'b, 'v, 'r) sys \<Rightarrow> ('n, 'b, 'v, 'r) sys option" where
  "Call_send cd i endname svcMeth args s =
     (if sy_reqs s i = None then
        Some (set_req i \<lparr>rt_msg = \<lparr>rq_endname = endname, rq_svcMeth = svcMeth, rq_args = cd_enc cd args\<rparr>,
                         rt_handler = Idle, rt_phase = Sending\<rparr> s)
      else None)"

text \<open>\<open>case <-e.done\<close>.\<close>

definition Call_abort :: "nat \<Rightarrow> ('n, 'b, 'v, 'r) sys \<Rightarrow> ('n, 'b, 'v, 'r) sys option" where
  "Call_abort i s =
     (case sy_reqs s i of
        Some q \<Rightarrow> if rt_phase q = Sending \<and> nw_done (sy_net s)
                  then Some (set_req i (q\<lparr>rt_phase := Returned None\<rparr>) s) else None
      | None \<Rightarrow> None)"

text \<open>The goroutine of \<open>MakeNetwork\<close>: \<open>case xreq := <-rn.endCh\<close> and \<open>case <-rn.done\<close>.\<close>

definition accept :: "nat \<Rightarrow> ('n, 'b, 'v, 'r) sys \<Rightarrow> ('n, 'b, 'v, 'r) sys option" where
  "accept i s =
     (case sy_reqs s i of
        Some q \<Rightarrow>
          if rt_phase q = Sending \<and> nw_loop (sy_net s)
          then Some (set_req i (q\<lparr>rt_phase := Accepted\<rparr>)
                 (s\<lparr>sy_net := (sy_net s)\<lparr>nw_count := nw_count (sy_net s) + 1,
                     nw_bytes := nw_bytes (sy_net s) + of_nat (length (rq_args (rt_msg q)))\<rparr>\<rparr>))
          else None
      | None \<Rightarrow> None)"

definition loop_exit :: "('n, 'b, 'v, 'r) sys \<Rightarrow> ('n, 'b, 'v, 'r) sys option" where
  "loop_exit s =
     (if nw_done (sy_net s) \<and> nw_loop (sy_net s) then Some (s\<lparr>sy_net := (sy_net s)\<lparr>nw_loop := False\<rparr>\<rparr>) else None)"

text \<open>\<open>processReq\<close> up to the loop; \<open>lose\<close> is the outcome of \<open>rand.Int()%1000 < 100\<close>.\<close>

definition process_start :: "nat \<Rightarrow> bool \<Rightarrow> ('n, 'b, 'v, 'r) sys \<Rightarrow> ('n, 'b, 'v, 'r) sys option" where
  "process_start i lose s =
     (case sy_reqs s i of
        Some q \<Rightarrow>
          if rt_phase q = Accepted then
            Some (case readEndnameInfo (rq_endname (rt_msg q)) (sy_net s) of
                (True, Some servername, Some server, reliable, _) \<Rightarrow>
                  if \<not> reliable \<and> lose then set_req i (q\<lparr>rt_phase := Replying noReply\<rparr>) s
                  else set_req i (q\<lparr>rt_phase := Waiting servername server reliable, rt_handler := Started server\<rparr>) s
              | _ \<Rightarrow> set_req i (q\<lparr>rt_phase := Replying noReply\<rparr>) s)
          else None
      | None \<Rightarrow> None)"

text \<open>The goroutine of the handler: \<open>r := server.dispatch(req)\<close>.\<close>

definition handle :: "('v, 'b) codec \<Rightarrow> nat \<Rightarrow> ('n, 'b, 'v, 'r) sys \<Rightarrow> ('n, 'b, 'v, 'r) sys go option" where
  "handle cd i s =
     (case sy_reqs s i of
        Some q \<Rightarrow>
          (case rt_handler q of
             Started p \<Rightarrow>
               (case sy_servers s p of
                  None \<Rightarrow> Some (Inl NilDereference)
                | Some rs \<Rightarrow>
                    Some (go_bind (Server_dispatch cd (rt_msg q) rs) (\<lambda>(rs', r).
                      Inr (set_req i (q\<lparr>rt_handler := AtSend r\<rparr>)
                        (s\<lparr>sy_servers := (sy_servers s)(p \<mapsto> rs'), sy_runs := sy_runs s @ [(i, rs, rs', r)]\<rparr>)))))
           | _ \<Rightarrow> None)
      | None \<Rightarrow> None)"

text \<open>The loop of \<open>processReq\<close>: \<open>case <-time.After(...)\<close>, and \<open>case reply = <-ech\<close> with what follows the loop.
  A long delay of the reply is time before \<open>deliver\<close>.\<close>

definition poll :: "nat \<Rightarrow> ('n, 'b, 'v, 'r) sys \<Rightarrow> ('n, 'b, 'v, 'r) sys option" where
  "poll i s =
     (case sy_reqs s i of
        Some q \<Rightarrow>
          (case rt_phase q of
             Waiting servername server reliable \<Rightarrow>
               if isServerDead (rq_endname (rt_msg q)) servername server (sy_net s)
               then Some (set_req i (q\<lparr>rt_phase := Replying noReply\<rparr>) s) else Some s
           | _ \<Rightarrow> None)
      | None \<Rightarrow> None)"

definition receive :: "nat \<Rightarrow> bool \<Rightarrow> ('n, 'b, 'v, 'r) sys \<Rightarrow> ('n, 'b, 'v, 'r) sys option" where
  "receive i lose s =
     (case sy_reqs s i of
        Some q \<Rightarrow>
          (case (rt_phase q, rt_handler q) of
             (Waiting servername server reliable, AtSend reply) \<Rightarrow>
               let serverDead = isServerDead (rq_endname (rt_msg q)) servername server (sy_net s) in
               if serverDead then Some (set_req i (q\<lparr>rt_phase := Replying noReply\<rparr>) s)
               else if \<not> reliable \<and> lose then Some (set_req i (q\<lparr>rt_phase := Replying noReply\<rparr>) s)
               else Some (set_req i (q\<lparr>rt_phase := Replying reply\<rparr>) s)
           | _ \<Rightarrow> None)
      | None \<Rightarrow> None)"

text \<open>The send on \<open>replyCh\<close> and the end of \<open>Call\<close>. The reply is decoded into a fresh value: gob does not
  overwrite with a default value what a caller left in a reply variable it uses again, and this case, of which
  \<open>checkDefault\<close> warns, is not modelled here.\<close>

definition deliver :: "('v, 'b) codec \<Rightarrow> nat \<Rightarrow> ('n, 'b, 'v, 'r) sys \<Rightarrow> ('n, 'b, 'v, 'r) sys go option" where
  "deliver cd i s =
     (case sy_reqs s i of
        Some q \<Rightarrow>
          (case rt_phase q of
             Replying rep \<Rightarrow>
               if rp_ok rep then
                 (case cd_dec cd (rp_reply rep) of
                    None \<Rightarrow> Some (Inl (LogFatal ''ClientEnd.Call(): decode reply''))
                  | Some v \<Rightarrow>
                      Some (Inr (set_req i (q\<lparr>rt_phase := Returned (Some v)\<rparr>)
                        (s\<lparr>sy_net := (sy_net s)\<lparr>nw_bytes := nw_bytes (sy_net s) + of_nat (length (rp_reply rep))\<rparr>\<rparr>))))
               else Some (Inr (set_req i (q\<lparr>rt_phase := Returned None\<rparr>) s))
           | _ \<Rightarrow> None)
      | None \<Rightarrow> None)"

section \<open>Runs\<close>

datatype ('n, 'v) event =
    DoReliable bool | DoLongReordering bool | DoLongDelays bool | DoMakeEnd 'n | DoAddServer 'n nat
  | DoDeleteServer 'n | DoConnect 'n 'n | DoEnable 'n bool | DoCleanup | LoopExit
  | Send nat 'n string 'v | Abort nat | Accept nat | Start nat bool | Handle nat | Poll nat
  | Receive nat bool | Deliver nat

definition on_net :: "('n Network \<Rightarrow> 'n Network) \<Rightarrow> ('n, 'b, 'v, 'r) sys \<Rightarrow> ('n, 'b, 'v, 'r) sys go option" where
  "on_net f s = Some (Inr (s\<lparr>sy_net := f (sy_net s)\<rparr>))"

definition on_net_go :: "('n Network \<Rightarrow> 'n Network go) \<Rightarrow> ('n, 'b, 'v, 'r) sys \<Rightarrow> ('n, 'b, 'v, 'r) sys go option" where
  "on_net_go f s = Some (go_bind (f (sy_net s)) (\<lambda>rn. Inr (s\<lparr>sy_net := rn\<rparr>)))"

fun rpc_step :: "('v, 'b) codec \<Rightarrow> ('n, 'v) event \<Rightarrow> ('n, 'b, 'v, 'r) sys \<Rightarrow> ('n, 'b, 'v, 'r) sys go option" where
  "rpc_step cd (DoReliable b) s = on_net (Reliable b) s"
| "rpc_step cd (DoLongReordering b) s = on_net (LongReordering b) s"
| "rpc_step cd (DoLongDelays b) s = on_net (LongDelays b) s"
| "rpc_step cd (DoMakeEnd e) s = on_net_go (MakeEnd e) s"
| "rpc_step cd (DoAddServer n p) s = on_net (AddServer n p) s"
| "rpc_step cd (DoDeleteServer n) s = on_net (DeleteServer n) s"
| "rpc_step cd (DoConnect e n) s = on_net (Connect e n) s"
| "rpc_step cd (DoEnable e b) s = on_net (Enable e b) s"
| "rpc_step cd DoCleanup s = on_net_go Cleanup s"
| "rpc_step cd LoopExit s = map_option Inr (loop_exit s)"
| "rpc_step cd (Send i e m v) s = map_option Inr (Call_send cd i e m v s)"
| "rpc_step cd (Abort i) s = map_option Inr (Call_abort i s)"
| "rpc_step cd (Accept i) s = map_option Inr (accept i s)"
| "rpc_step cd (Start i d) s = map_option Inr (process_start i d s)"
| "rpc_step cd (Handle i) s = handle cd i s"
| "rpc_step cd (Poll i) s = map_option Inr (poll i s)"
| "rpc_step cd (Receive i d) s = map_option Inr (receive i d s)"
| "rpc_step cd (Deliver i) s = deliver cd i s"

text \<open>A run of events; it ends when a step is not possible or stops the program.\<close>

fun rpc_run :: "('v, 'b) codec \<Rightarrow> ('n, 'v) event list \<Rightarrow> ('n, 'b, 'v, 'r) sys \<Rightarrow> ('n, 'b, 'v, 'r) sys option" where
  "rpc_run cd [] s = Some s"
| "rpc_run cd (e # es) s =
     (case rpc_step cd e s of Some (Inr s') \<Rightarrow> rpc_run cd es s' | _ \<Rightarrow> None)"

definition rpc_init :: "(nat \<Rightarrow> ('r, 'v) Server option) \<Rightarrow> ('n, 'b, 'v, 'r) sys" where
  "rpc_init servers = \<lparr>sy_net = MakeNetwork, sy_servers = servers, sy_reqs = Map.empty, sy_runs = []\<rparr>"

end
