(* ===== verification/Raft_Tester.thy ===== *)
theory Raft_Tester
  imports Raft_Runs Labrpc
begin

text \<open>
  \<open>raft/config.go\<close>: the harness that runs a group of Raft peers. It connects them through a
  \<open>labrpc\<close> network with fresh end names for every instance, crashes and restarts them with
  the state they have saved, reads what they apply and compares it (\<open>checkLogs\<close>), and asks
  them for leaders, terms and agreements. One definition per method; what runs beside a method, other
  goroutines and the clock, is an argument.
\<close>

section \<open>The state of the harness\<close>

text \<open>Names are \<open>interface{}\<close>: ends are named by strings, servers by numbers.\<close>

datatype name = Str string | Num int

text \<open>The error messages of the readers of the apply channels; \<open>NoMsg\<close> is the empty string.\<close>

datatype 'c tester_msg =
    NoMsg
  | CommitDiffers int int "'c option" int "'c option"
  | ApplyOutOfOrder int int
  | ExpectedIndex int int int
  | SnapshotIndexDiffers int

text \<open>
  A server is a pointer into \<open>cf_servers\<close>; the receiver of its service is the instance of the
  peer, numbered like the server. A snapshot is encoded by the harness itself and uses the same
  stream as the saved state. Instants are milliseconds.
\<close>

record ('c, 'v) config =
  cf_net :: "name Network"
  cf_servers :: "(nat, 'v) Server list"
  cf_n :: nat
  cf_rafts :: "('c, 'c gobval) Raft option list"
  cf_applyErr :: "'c tester_msg list"
  cf_connected :: "bool list"
  cf_saved :: "'c gobval Persister option list"
  cf_endnames :: "string list option list"
  cf_logs :: "(int, 'c option) gomap list"
  cf_lastApplied :: "int list"
  cf_finished :: bool
  cf_failed :: bool
  cf_start :: int
  cf_t0 :: int
  cf_rpcs0 :: int
  cf_cmds0 :: int
  cf_bytes0 :: "64 word"
  cf_maxIndex :: int
  cf_maxIndex0 :: int

abbreviation all_servers :: "('c, 'v) config \<Rightarrow> int list" where
  "all_servers cfg \<equiv> [0..int (cf_n cfg) - 1]"

text \<open>\<open>cfg.endnames[i][j]\<close>; a nil slice has no element.\<close>

definition end_name :: "('c, 'v) config \<Rightarrow> int \<Rightarrow> int \<Rightarrow> string go" where
  "end_name cfg i j =
     go_bind (go_index (cf_endnames cfg) i) (\<lambda>es.
       case es of None \<Rightarrow> Inl (IndexOutOfRange j) | Some es \<Rightarrow> go_index es j)"

text \<open>
  \<open>cfg.saved[i]\<close> points to the persister that the running instance writes to, so while there
  is one its content is that of the instance.
\<close>

definition saved_persister :: "('c, 'v) config \<Rightarrow> nat \<Rightarrow> 'c gobval Persister option" where
  "saved_persister cfg i =
     (case cf_rafts cfg ! i of Some rf \<Rightarrow> Some (persister rf) | None \<Rightarrow> cf_saved cfg ! i)"

section \<open>Connections\<close>

definition setEnd :: "int \<Rightarrow> int \<Rightarrow> bool \<Rightarrow> ('c, 'v) config \<Rightarrow> ('c, 'v) config go" where
  "setEnd i j b cfg = go_bind (end_name cfg i j) (\<lambda>endname. Inr (cfg\<lparr>cf_net := Enable (Str endname) b (cf_net cfg)\<rparr>))"

definition connect :: "int \<Rightarrow> ('c, 'v) config \<Rightarrow> ('c, 'v) config go" where
  "connect i cfg =
     go_bind (go_assign (cf_connected cfg) i True) (\<lambda>cs.
     let cfg = cfg\<lparr>cf_connected := cs\<rparr> in
     go_bind (go_for (\<lambda>j cfg. go_bind (go_index (cf_connected cfg) j) (\<lambda>c.
         if c then setEnd i j True cfg else Inr cfg)) (all_servers cfg) cfg) (\<lambda>cfg.
     go_for (\<lambda>j cfg. go_bind (go_index (cf_connected cfg) j) (\<lambda>c.
         if c then setEnd j i True cfg else Inr cfg)) (all_servers cfg) cfg))"

definition disconnect :: "int \<Rightarrow> ('c, 'v) config \<Rightarrow> ('c, 'v) config go" where
  "disconnect i cfg =
     go_bind (go_assign (cf_connected cfg) i False) (\<lambda>cs.
     let cfg = cfg\<lparr>cf_connected := cs\<rparr> in
     go_bind (go_for (\<lambda>j cfg. go_bind (go_index (cf_endnames cfg) i) (\<lambda>es.
         if es \<noteq> None then setEnd i j False cfg else Inr cfg)) (all_servers cfg) cfg) (\<lambda>cfg.
     go_for (\<lambda>j cfg. go_bind (go_index (cf_endnames cfg) j) (\<lambda>es.
         if es \<noteq> None then setEnd j i False cfg else Inr cfg)) (all_servers cfg) cfg))"

definition setunreliable :: "bool \<Rightarrow> ('c, 'v) config \<Rightarrow> ('c, 'v) config" where
  "setunreliable unrel cfg = cfg\<lparr>cf_net := Reliable (\<not> unrel) (cf_net cfg)\<rparr>"

definition setlongreordering :: "bool \<Rightarrow> ('c, 'v) config \<Rightarrow> ('c, 'v) config" where
  "setlongreordering longrel cfg = cfg\<lparr>cf_net := LongReordering longrel (cf_net cfg)\<rparr>"

definition rpcCount :: "int \<Rightarrow> ('c, 'v) config \<Rightarrow> int go" where
  "rpcCount server cfg =
     (case get_server (cf_net cfg) (Num server) of
        None \<Rightarrow> Inl NilDereference
      | Some p \<Rightarrow> go_bind (go_index (cf_servers cfg) (int p)) (\<lambda>svr. Inr (Server_GetCount svr)))"

definition rpcTotal :: "('c, 'v) config \<Rightarrow> int" where
  "rpcTotal cfg = GetTotalCount (cf_net cfg)"

definition bytesTotal :: "('c, 'v) config \<Rightarrow> 64 word" where
  "bytesTotal cfg = GetTotalBytes (cf_net cfg)"

section \<open>Readers of the apply channels\<close>

fun check_each :: "int \<Rightarrow> ('c, 'd) ApplyMsg \<Rightarrow> int \<Rightarrow> (int, 'c option) gomap list \<Rightarrow> 'c tester_msg \<Rightarrow> 'c tester_msg" where
  "check_each i m j [] err_msg = err_msg"
| "check_each i m j (l # ls) err_msg =
     (case gm_get l (CommandIndex m) of
        Some old \<Rightarrow> check_each i m (j + 1) ls
                     (if old \<noteq> Command m then CommitDiffers (CommandIndex m) i (Command m) j old else err_msg)
      | None \<Rightarrow> check_each i m (j + 1) ls err_msg)"

definition checkLogs :: "int \<Rightarrow> ('c, 'd) ApplyMsg \<Rightarrow> ('c, 'v) config \<Rightarrow> (('c, 'v) config \<times> 'c tester_msg \<times> bool) go" where
  "checkLogs i m cfg =
     (let err_msg = check_each i m 0 (cf_logs cfg) NoMsg in
      go_bind (go_index (cf_logs cfg) i) (\<lambda>l.
        let prevok = gm_get l (CommandIndex m - 1) \<noteq> None;
            cfg = cfg\<lparr>cf_logs := (cf_logs cfg)[nat i := gm_put (CommandIndex m) (Command m) l]\<rparr>;
            cfg = (if CommandIndex m > cf_maxIndex cfg then cfg\<lparr>cf_maxIndex := CommandIndex m\<rparr> else cfg)
        in Inr (cfg, err_msg, prevok)))"

text \<open>\<open>applier\<close> for one message; the loop receives the messages of one instance in order, with other
  goroutines running in between.\<close>

definition applier_msg :: "int \<Rightarrow> ('c, 'd) ApplyMsg \<Rightarrow> ('c, 'v) config \<Rightarrow> ('c, 'v) config go" where
  "applier_msg i m cfg =
     (if CommandValid m = False then Inr cfg
      else go_bind (checkLogs i m cfg) (\<lambda>(cfg, err_msg, prevok).
        let err_msg = (if CommandIndex m > 1 \<and> prevok = False then ApplyOutOfOrder i (CommandIndex m) else err_msg)
        in if err_msg \<noteq> NoMsg then Inl (LogFatal ''apply error'') else Inr cfg))"

text \<open>\<open>ingestSnap\<close>; a nil slice is the empty one.\<close>

fun ingest_log :: "int \<Rightarrow> 'c option list \<Rightarrow> (int, 'c option) gomap \<Rightarrow> (int, 'c option) gomap" where
  "ingest_log j [] l = l"
| "ingest_log j (x # xlog) l = ingest_log (j + 1) xlog (gm_put j x l)"

definition ingestSnap :: "int \<Rightarrow> 'c gobval list \<Rightarrow> int \<Rightarrow> ('c, 'v) config \<Rightarrow> (('c, 'v) config \<times> 'c tester_msg) go" where
  "ingestSnap i snap index cfg =
     (if snap = [] then Inl (LogFatal ''nil snapshot'')
      else (case gob_decode_int snap of
        None \<Rightarrow> Inl (LogFatal ''snapshot decode error'')
      | Some (lastIncludedIndex, r) \<Rightarrow>
          (case gob_decode_values r of
             None \<Rightarrow> Inl (LogFatal ''snapshot decode error'')
           | Some (xlog, _) \<Rightarrow>
               if index \<noteq> -1 \<and> index \<noteq> lastIncludedIndex then Inr (cfg, SnapshotIndexDiffers i)
               else go_bind (go_assign (cf_logs cfg) i (ingest_log 0 xlog [])) (\<lambda>ls.
                    go_bind (go_assign (cf_lastApplied cfg) i lastIncludedIndex) (\<lambda>la.
                      Inr (cfg\<lparr>cf_logs := ls, cf_lastApplied := la\<rparr>, NoMsg))))))"

definition SnapShotInterval :: int where
  "SnapShotInterval = 10"

text \<open>What \<open>applierSnap\<close> encodes at index \<open>idx\<close>.\<close>

definition snapshot_of :: "int \<Rightarrow> (int, 'c option) gomap \<Rightarrow> 'c gobval list" where
  "snapshot_of idx l =
     (let w = gob_encode [] (GobInt idx);
          xlog = map (\<lambda>j. case gm_get l j of None \<Rightarrow> None | Some v \<Rightarrow> v) [0..idx]
      in gob_encode w (GobValues xlog))"

text \<open>\<open>applierSnap\<close> for one message, with the instance \<open>rf\<close> it belongs to.\<close>

definition applierSnap_command :: "int \<Rightarrow> ('c, 'c gobval) ApplyMsg \<Rightarrow> ('c, 'c gobval) Raft \<Rightarrow> ('c, 'v) config \<Rightarrow>
    (('c, 'c gobval) Raft \<times> ('c, 'v) config \<times> 'c tester_msg) go" where
  "applierSnap_command i m rf cfg =
     go_bind (go_index (cf_lastApplied cfg) i) (\<lambda>la.
     let err_msg = (if CommandIndex m \<noteq> la + 1 then ExpectedIndex i (la + 1) (CommandIndex m) else NoMsg) in
     go_bind (if err_msg = NoMsg then
                go_bind (checkLogs i m cfg) (\<lambda>(cfg, err_msg, prevok).
                  Inr (cfg, if CommandIndex m > 1 \<and> prevok = False then ApplyOutOfOrder i (CommandIndex m) else err_msg))
              else Inr (cfg, err_msg)) (\<lambda>(cfg, err_msg).
     let cfg = cfg\<lparr>cf_lastApplied := (cf_lastApplied cfg)[nat i := CommandIndex m]\<rparr> in
     if (CommandIndex m + 1) mod SnapShotInterval = 0 then
       go_bind (go_index (cf_logs cfg) i) (\<lambda>l.
       go_bind (Snapshot (CommandIndex m) (snapshot_of (CommandIndex m) l) rf) (\<lambda>rf. Inr (rf, cfg, err_msg)))
     else Inr (rf, cfg, err_msg)))"

definition applierSnap_msg :: "int \<Rightarrow> ('c, 'c gobval) ApplyMsg \<Rightarrow> ('c, 'c gobval) Raft \<times> ('c, 'v) config \<Rightarrow>
    (('c, 'c gobval) Raft \<times> ('c, 'v) config) go" where
  "applierSnap_msg i m = (\<lambda>(rf, cfg).
     go_bind (if SnapshotValid m then
                go_bind (CondInstallSnapshot (SnapshotTerm m) (SnapshotIndex m) (Snapshot_data m) rf) (\<lambda>(rf, ok).
                  if ok then go_bind (ingestSnap i (Snapshot_data m) (SnapshotIndex m) cfg) (\<lambda>(cfg, err_msg). Inr (rf, cfg, err_msg))
                  else Inr (rf, cfg, NoMsg))
              else if CommandValid m then applierSnap_command i m rf cfg
              else Inr (rf, cfg, NoMsg)) (\<lambda>(rf, cfg, err_msg).
     if err_msg \<noteq> NoMsg then Inl (LogFatal ''apply error'') else Inr (rf, cfg)))"

section \<open>Crash and restart\<close>

definition crash1 :: "int \<Rightarrow> ('c, 'v) config \<Rightarrow> ('c, 'v) config go" where
  "crash1 i cfg =
     go_bind (disconnect i cfg) (\<lambda>cfg.
     let cfg = cfg\<lparr>cf_net := DeleteServer (Num i) (cf_net cfg)\<rparr>;
         cfg = (case saved_persister cfg (nat i) of
                  None \<Rightarrow> cfg
                | Some ps \<Rightarrow> cfg\<lparr>cf_saved := (cf_saved cfg)[nat i := Some (Copy ps)]\<rparr>) in
     go_bind (go_index (cf_rafts cfg) i) (\<lambda>rf.
     go_bind (case rf of
                None \<Rightarrow> Inr cfg
              | Some rf \<Rightarrow> go_bind (Kill rf) (\<lambda>_. Inr (cfg\<lparr>cf_rafts := (cf_rafts cfg)[nat i := None]\<rparr>))) (\<lambda>cfg.
     go_bind (go_index (cf_saved cfg) i) (\<lambda>ps.
       case ps of
         None \<Rightarrow> Inr cfg
       | Some ps \<Rightarrow>
           let raftlog = ReadRaftState (GobInt 0) ps;
               snap = ReadSnapshot (GobInt 0) ps
           in Inr (cfg\<lparr>cf_saved := (cf_saved cfg)[nat i :=
                Some (SaveStateAndSnapshot (GobInt 0) raftlog snap MakePersister)]\<rparr>)))))"

text \<open>
  \<open>names\<close> are the results of \<open>randstring\<close>, \<open>typ\<close> what \<open>reflect\<close> tells about the methods of a
  peer, \<open>r\<close> the random number in \<open>Make\<close>. The goroutine of the reader starts to wait.
\<close>

definition make_ends :: "int \<Rightarrow> ('c, 'v) config \<Rightarrow> ('c, 'v) config go" where
  "make_ends i cfg =
     go_for (\<lambda>j cfg. go_bind (end_name cfg i j) (\<lambda>e. go_bind (MakeEnd (Str e) (cf_net cfg)) (\<lambda>net.
       Inr (cfg\<lparr>cf_net := Connect (Str e) (Num j) net\<rparr>)))) (all_servers cfg) cfg"

definition start1_saved :: "int \<Rightarrow> ('c, 'v) config \<Rightarrow> (('c, 'v) config \<times> 'c gobval Persister) go" where
  "start1_saved i cfg =
     go_bind (go_index (cf_saved cfg) i) (\<lambda>ps.
       case ps of
         Some ps \<Rightarrow>
           let ps = Copy ps;
               cfg = cfg\<lparr>cf_saved := (cf_saved cfg)[nat i := Some ps]\<rparr>;
               snap = ReadSnapshot (GobInt 0) ps
           in if snap \<noteq> [] then
                go_bind (ingestSnap i snap (-1) cfg) (\<lambda>(cfg, err).
                  if err \<noteq> NoMsg then Inl (TestFatal ''snapshot'') else Inr (cfg, ps))
              else Inr (cfg, ps)
       | None \<Rightarrow> Inr (cfg\<lparr>cf_saved := (cf_saved cfg)[nat i := Some MakePersister]\<rparr>, MakePersister))"

definition start1 :: "int \<Rightarrow> (int \<Rightarrow> string) \<Rightarrow> (nat, 'v) Method list \<Rightarrow> int \<Rightarrow> ('c, 'v) config \<Rightarrow> ('c, 'v) config go" where
  "start1 i names typ r cfg =
     go_bind (crash1 i cfg) (\<lambda>cfg.
     go_bind (go_assign (cf_endnames cfg) i (Some (map names (all_servers cfg)))) (\<lambda>es.
     let cfg = cfg\<lparr>cf_endnames := es\<rparr> in
     go_bind (make_ends i cfg) (\<lambda>cfg.
     go_bind (go_assign (cf_lastApplied cfg) i 0) (\<lambda>la.
     let cfg = cfg\<lparr>cf_lastApplied := la\<rparr> in
     go_bind (start1_saved i cfg) (\<lambda>(cfg, ps).
     go_bind (go_assign (cf_rafts cfg) i (Some (Make (cf_n cfg) i ps r))) (\<lambda>rs.
     let cfg = cfg\<lparr>cf_rafts := rs\<rparr>;
         p = length (cf_servers cfg);
         svc = MakeService ''Raft'' p typ;
         srv = AddService svc MakeServer
     in Inr (cfg\<lparr>cf_servers := cf_servers cfg @ [srv], cf_net := AddServer (Num i) p (cf_net cfg)\<rparr>)))))))"

definition new_config :: "nat \<Rightarrow> int \<Rightarrow> ('c, 'v) config" where
  "new_config n now = \<lparr>cf_net = MakeNetwork, cf_servers = [], cf_n = n, cf_rafts = replicate n None,
     cf_applyErr = replicate n NoMsg, cf_connected = replicate n False, cf_saved = replicate n None,
     cf_endnames = replicate n None, cf_logs = replicate n [], cf_lastApplied = replicate n 0, cf_finished = False,
     cf_failed = False, cf_start = now, cf_t0 = 0, cf_rpcs0 = 0, cf_cmds0 = 0, cf_bytes0 = 0,
     cf_maxIndex = 0, cf_maxIndex0 = 0\<rparr>"

definition make_config :: "nat \<Rightarrow> bool \<Rightarrow> int \<Rightarrow> (int \<Rightarrow> int \<Rightarrow> string) \<Rightarrow> (nat, 'v) Method list \<Rightarrow> (int \<Rightarrow> int) \<Rightarrow> ('c, 'v) config go" where
  "make_config n unreliable now names typ r =
     (let cfg = setunreliable unreliable (new_config n now);
          cfg = cfg\<lparr>cf_net := LongDelays True (cf_net cfg)\<rparr>
      in go_bind (go_for (\<lambda>i cfg. go_bind (go_assign (cf_logs cfg) i []) (\<lambda>ls.
             start1 i (names i) typ (r i) (cfg\<lparr>cf_logs := ls\<rparr>))) (all_servers cfg) cfg) (\<lambda>cfg.
         go_for connect (all_servers cfg) cfg))"

definition checkTimeout :: "int \<Rightarrow> ('c, 'v) config \<Rightarrow> unit go" where
  "checkTimeout now cfg =
     (if \<not> cf_failed cfg \<and> now - cf_start cfg > 120 * 1000
      then Inl (TestFatal ''test took longer than 120 seconds'') else Inr ())"

definition checkFinished :: "('c, 'v) config \<Rightarrow> bool" where
  "checkFinished cfg = cf_finished cfg"

definition cleanup :: "int \<Rightarrow> ('c, 'v) config \<Rightarrow> ('c, 'v) config go" where
  "cleanup now cfg =
     (let cfg = cfg\<lparr>cf_finished := True\<rparr> in
      go_bind (go_for (\<lambda>i cfg. go_bind (go_index (cf_rafts cfg) i) (\<lambda>rf.
          case rf of None \<Rightarrow> Inr cfg
          | Some rf \<Rightarrow> go_bind (Kill rf) (\<lambda>rf. Inr (cfg\<lparr>cf_rafts := (cf_rafts cfg)[nat i := Some rf]\<rparr>))))
        [0..int (length (cf_rafts cfg)) - 1] cfg) (\<lambda>cfg.
      go_bind (Cleanup (cf_net cfg)) (\<lambda>net.
      go_bind (checkTimeout now cfg) (\<lambda>_. Inr (cfg\<lparr>cf_net := net\<rparr>)))))"

section \<open>Statistics\<close>

definition test_begin :: "int \<Rightarrow> ('c, 'v) config \<Rightarrow> ('c, 'v) config" where
  "test_begin now cfg = cfg\<lparr>cf_t0 := now, cf_rpcs0 := rpcTotal cfg, cf_bytes0 := bytesTotal cfg, cf_cmds0 := 0,
     cf_maxIndex0 := cf_maxIndex cfg\<rparr>"

text \<open>\<open>end\<close>: the numbers it prints, if the test has not failed.\<close>

definition test_end :: "int \<Rightarrow> ('c, 'v) config \<Rightarrow> (int \<times> nat \<times> int \<times> 64 word \<times> int) option go" where
  "test_end now cfg =
     go_bind (checkTimeout now cfg) (\<lambda>_.
       if cf_failed cfg = False then
         let t = now - cf_t0 cfg; npeers = cf_n cfg; nrpc = rpcTotal cfg - cf_rpcs0 cfg;
             nbytes = bytesTotal cfg - cf_bytes0 cfg; ncmds = cf_maxIndex cfg - cf_maxIndex0 cfg
         in Inr (Some (t, npeers, nrpc, nbytes, ncmds))
       else Inr None)"

definition LogSize :: "('c, 'v) config \<Rightarrow> nat go" where
  "LogSize cfg =
     go_for (\<lambda>i logsize. go_bind (go_index (cf_saved cfg) i) (\<lambda>_.
         case saved_persister cfg (nat i) of
           None \<Rightarrow> Inl NilDereference
         | Some ps \<Rightarrow> let n = RaftStateSize ps in Inr (if n > logsize then n else logsize)))
       (all_servers cfg) 0"

section \<open>Questions to the peers\<close>

text \<open>
  The methods below run while the peers go on: \<open>look i\<close> is the configuration at the moment when server
  \<open>i\<close> is asked, \<open>look k i\<close> that in the \<open>k\<close>-th round.
\<close>

definition ask :: "(int \<Rightarrow> ('c, 'v) config) \<Rightarrow> int \<Rightarrow> (int \<times> bool) option go" where
  "ask look i =
     go_bind (go_index (cf_connected (look i)) i) (\<lambda>c.
       if c then
         go_bind (go_index (cf_rafts (look i)) i) (\<lambda>rf.
           case rf of None \<Rightarrow> Inl NilDereference
           | Some rf \<Rightarrow> go_bind (GetState rf) (\<lambda>(_, term, leader). Inr (Some (term, leader))))
       else Inr None)"

text \<open>A missing key of \<open>leaders\<close> gives the nil slice.\<close>

definition leaders_at :: "(int, int list) gomap \<Rightarrow> int \<Rightarrow> int list" where
  "leaders_at leaders term = (case gm_get leaders term of None \<Rightarrow> [] | Some is \<Rightarrow> is)"

definition gather_leader :: "(int \<Rightarrow> ('c, 'v) config) \<Rightarrow> int \<Rightarrow> (int, int list) gomap \<Rightarrow> (int, int list) gomap go" where
  "gather_leader look i leaders =
     go_bind (ask look i) (\<lambda>a.
       case a of
         Some (term, True) \<Rightarrow> Inr (gm_put term (leaders_at leaders term @ [i]) leaders)
       | _ \<Rightarrow> Inr leaders)"

text \<open>The loop over the map; Go chooses any order, which only decides which of several terms with two leaders is
  reported.\<close>

fun last_term :: "(int, int list) gomap \<Rightarrow> int \<Rightarrow> int go" where
  "last_term [] lastTermWithLeader = Inr lastTermWithLeader"
| "last_term ((term, is) # leaders) lastTermWithLeader =
     (if length is > 1 then Inl (TestFatal ''term has more than one leader'')
      else last_term leaders (if term > lastTermWithLeader then term else lastTermWithLeader))"

fun one_leader_rounds :: "(nat \<Rightarrow> int \<Rightarrow> ('c, 'v) config) \<Rightarrow> int list \<Rightarrow> nat list \<Rightarrow> int go" where
  "one_leader_rounds look servers [] = Inl (TestFatal ''expected one leader, got none'')"
| "one_leader_rounds look servers (k # iters) =
     go_bind (go_for (gather_leader (look k)) servers []) (\<lambda>leaders.
     go_bind (last_term leaders (-1)) (\<lambda>lastTermWithLeader.
       if length leaders \<noteq> 0 then go_index (leaders_at leaders lastTermWithLeader) 0
       else one_leader_rounds look servers iters))"

definition checkOneLeader :: "nat \<Rightarrow> (nat \<Rightarrow> int \<Rightarrow> ('c, 'v) config) \<Rightarrow> int go" where
  "checkOneLeader n look = one_leader_rounds look [0..int n - 1] [0..<10]"

definition checkTerms :: "nat \<Rightarrow> (int \<Rightarrow> ('c, 'v) config) \<Rightarrow> int go" where
  "checkTerms n look =
     go_for (\<lambda>i term. go_bind (ask look i) (\<lambda>a.
       case a of
         None \<Rightarrow> Inr term
       | Some (xterm, _) \<Rightarrow>
           if term = -1 then Inr xterm
           else if term \<noteq> xterm then Inl (TestFatal ''servers disagree on term'') else Inr term)) [0..int n - 1] (-1)"

definition checkNoLeader :: "nat \<Rightarrow> (int \<Rightarrow> ('c, 'v) config) \<Rightarrow> unit go" where
  "checkNoLeader n look =
     go_for (\<lambda>i _. go_bind (ask look i) (\<lambda>a.
       case a of
         Some (_, True) \<Rightarrow> Inl (TestFatal ''expected no leader among connected servers'')
       | _ \<Rightarrow> Inr ())) [0..int n - 1] ()"

text \<open>How many servers have a command at \<open>index\<close>, and which one.\<close>

definition nCommitted_at :: "(int \<Rightarrow> ('c, 'v) config) \<Rightarrow> int \<Rightarrow> int \<Rightarrow> int \<times> 'c option \<Rightarrow> (int \<times> 'c option) go" where
  "nCommitted_at look index i = (\<lambda>(count, cmd).
     go_bind (go_index (cf_applyErr (look i)) i) (\<lambda>err.
       if err \<noteq> NoMsg then Inl (TestFatal ''apply error'')
       else go_bind (go_index (cf_logs (look i)) i) (\<lambda>l.
         case gm_get l index of
           Some cmd1 \<Rightarrow> if count > 0 \<and> cmd \<noteq> cmd1 then Inl (TestFatal ''committed values do not match'')
                        else Inr (count + 1, cmd1)
         | None \<Rightarrow> Inr (count, cmd))))"

definition nCommitted :: "nat \<Rightarrow> (int \<Rightarrow> ('c, 'v) config) \<Rightarrow> int \<Rightarrow> (int \<times> 'c option) go" where
  "nCommitted n look index = go_for (nCommitted_at look index) [0..int n - 1] (0, None)"

text \<open>\<open>wait\<close> returns a command, or \<open>-1\<close> when a peer has a newer term.\<close>

datatype 'c wait_result = MovedOn | Decided "'c option"

text \<open>The loop over \<open>cfg.rafts\<close> in \<open>wait\<close>: every server is asked, connected or not.\<close>

fun newer_term :: "(int \<Rightarrow> ('c, 'v) config) \<Rightarrow> int \<Rightarrow> int list \<Rightarrow> bool go" where
  "newer_term look startTerm [] = Inr False"
| "newer_term look startTerm (i # is) =
     go_bind (go_index (cf_rafts (look i)) i) (\<lambda>rf.
       case rf of None \<Rightarrow> Inl NilDereference
       | Some rf \<Rightarrow> go_bind (GetState rf) (\<lambda>(_, t, _).
           if t > startTerm then Inr True else newer_term look startTerm is))"

text \<open>Round \<open>k\<close> counts at \<open>look (2 * k)\<close> and, after a pause, asks for terms at \<open>look (2 * k + 1)\<close>.\<close>

fun wait_rounds :: "nat \<Rightarrow> (nat \<Rightarrow> int \<Rightarrow> ('c, 'v) config) \<Rightarrow> int \<Rightarrow> int \<Rightarrow> int \<Rightarrow> nat list \<Rightarrow> bool go" where
  "wait_rounds N look index n startTerm [] = Inr False"
| "wait_rounds N look index n startTerm (k # iters) =
     go_bind (nCommitted N (look (2 * k)) index) (\<lambda>(nd, _).
       if nd \<ge> n then Inr False
       else if startTerm > -1 then
         go_bind (newer_term (look (2 * k + 1)) startTerm [0..int N - 1]) (\<lambda>moved.
           if moved then Inr True else wait_rounds N look index n startTerm iters)
       else wait_rounds N look index n startTerm iters)"

definition wait :: "nat \<Rightarrow> (nat \<Rightarrow> int \<Rightarrow> ('c, 'v) config) \<Rightarrow> int \<Rightarrow> int \<Rightarrow> int \<Rightarrow> 'c wait_result go" where
  "wait N look index n startTerm =
     go_bind (wait_rounds N look index n startTerm [0..<30]) (\<lambda>moved.
       if moved then Inr MovedOn
       else go_bind (nCommitted N (look 60) index) (\<lambda>(nd, cmd).
         if nd < n then Inl (TestFatal ''too few decided'') else Inr (Decided cmd)))"

section \<open>An agreement\<close>

text \<open>
  \<open>one\<close> changes the peers by \<open>Start\<close> while others go on: \<open>env k\<close> is what they do
  before its \<open>k\<close>-th look at the configuration, \<open>now k\<close> the time at that moment. One count of
  \<open>nCommitted\<close> is one look: the code releases the lock between the servers, so that there the
  peers may also move within a count. A \<open>Start\<close> that waits for a mutex nobody releases ends the run with
  \<open>Inl Blocked\<close>.
\<close>

fun one_start :: "(nat \<Rightarrow> ('c, 'v) config \<Rightarrow> ('c, 'v) config) \<Rightarrow> 'c \<Rightarrow> nat list \<Rightarrow> int \<Rightarrow> nat \<Rightarrow> ('c, 'v) config \<Rightarrow>
    (int \<times> nat \<times> ('c, 'v) config \<times> int) go" where
  "one_start env cmd [] starts k cfg = Inr (starts, k, cfg, -1)"
| "one_start env cmd (si # sis) starts k cfg =
     (let starts = (starts + 1) mod int (cf_n cfg); cfg = env k cfg; k = Suc k in
      go_bind (go_index (cf_connected cfg) starts) (\<lambda>c.
      go_bind (if c then go_index (cf_rafts cfg) starts else Inr None) (\<lambda>rf.
        case rf of
          None \<Rightarrow> one_start env cmd sis starts k cfg
        | Some rf \<Rightarrow> go_bind (Raft_Peer.Start cmd rf) (\<lambda>(rf, index1, _, ok).
            let cfg = cfg\<lparr>cf_rafts := (cf_rafts cfg)[nat starts := Some rf]\<rparr> in
            if ok then Inr (starts, k, cfg, index1) else one_start env cmd sis starts k cfg))))"

partial_function (option) one_poll :: "(nat \<Rightarrow> ('c, 'v) config \<Rightarrow> ('c, 'v) config) \<Rightarrow> (nat \<Rightarrow> int) \<Rightarrow> int \<Rightarrow> 'c \<Rightarrow> int \<Rightarrow> int \<Rightarrow>
    nat \<Rightarrow> ('c, 'v) config \<Rightarrow> (nat \<times> ('c, 'v) config \<times> bool) go option" where
  "one_poll env now t1 cmd index expectedServers k cfg =
     (if now k - t1 < 2000 then
        let cfg = env k cfg in
        case nCommitted (cf_n cfg) (\<lambda>_. cfg) index of
          Inl e \<Rightarrow> Some (Inl e)
        | Inr (nd, cmd1) \<Rightarrow>
            if nd > 0 \<and> nd \<ge> expectedServers \<and> cmd1 = Some cmd then Some (Inr (Suc k, cfg, True))
            else one_poll env now t1 cmd index expectedServers (Suc k) cfg
      else Some (Inr (k, cfg, False)))"

partial_function (option) one_loop :: "(nat \<Rightarrow> ('c, 'v) config \<Rightarrow> ('c, 'v) config) \<Rightarrow> (nat \<Rightarrow> int) \<Rightarrow> int \<Rightarrow> 'c \<Rightarrow> int \<Rightarrow> bool \<Rightarrow>
    int \<Rightarrow> nat \<Rightarrow> ('c, 'v) config \<Rightarrow> (('c, 'v) config \<times> int) go option" where
  "one_loop env now t0 cmd expectedServers retry starts k cfg =
     (if now k - t0 < 10000 \<and> checkFinished cfg = False then
        case one_start env cmd [0..<cf_n cfg] starts k cfg of
          Inl e \<Rightarrow> Some (Inl e)
        | Inr (starts, k, cfg, index) \<Rightarrow>
            if index \<noteq> -1 then
              Option.bind (one_poll env now (now k) cmd index expectedServers k cfg) (\<lambda>r.
                case r of
                  Inl e \<Rightarrow> Some (Inl e)
                | Inr (k, cfg, won) \<Rightarrow>
                    if won then Some (Inr (cfg, index))
                    else if retry = False then Some (Inl (TestFatal ''failed to reach agreement''))
                    else one_loop env now t0 cmd expectedServers retry starts k cfg)
            else one_loop env now t0 cmd expectedServers retry starts (Suc k) (env k cfg)
      else if checkFinished cfg = False then Some (Inl (TestFatal ''failed to reach agreement''))
      else Some (Inr (cfg, -1)))"

definition tester_one :: "(nat \<Rightarrow> ('c, 'v) config \<Rightarrow> ('c, 'v) config) \<Rightarrow> (nat \<Rightarrow> int) \<Rightarrow> 'c \<Rightarrow> int \<Rightarrow> bool \<Rightarrow> ('c, 'v) config \<Rightarrow>
    (('c, 'v) config \<times> int) go option" where
  "tester_one env now cmd expectedServers retry cfg =
     one_loop env now (now 0) cmd expectedServers retry 0 0 cfg"

end
