(* ===== verification/Tester_Wiring.thy ===== *)
theory Tester_Wiring
  imports Raft_Tester
begin

text \<open>
  What the harness of \<open>raft/config.go\<close> promises about the network while a test connects only running
  servers: an end is enabled exactly when it belongs to the running instance of a connected server and
  leads to a connected server, so that a crashed or disconnected instance cannot send and is not reached.
\<close>

declare gm_get_put [simp]

lemma upto_servers: "set [0..int n - 1] = int ` {..<n}"
proof -
  have "x \<in> int ` {..<n}" if "0 \<le> x" "x \<le> int n - 1" for x
    using that by (intro image_eqI [of _ _ "nat x"]) auto
  then show ?thesis by auto
qed

lemma go_for_visits:
  assumes "go_for body js s = Inr s'" and "j \<in> set js" and "P s"
    and "\<And>k s s'. body k s = Inr s' \<Longrightarrow> P s \<Longrightarrow> P s'"
  shows "\<exists>s1 s2. P s1 \<and> body j s1 = Inr s2"
  using assms(1-3)
proof (induction js arbitrary: s)
  case (Cons k js)
  then obtain s1 where s1: "body k s = Inr s1" "go_for body js s1 = Inr s'" by auto
  show ?case
  proof (cases "k = j")
    case True
    then show ?thesis using s1(1) Cons.prems(3) by blast
  next
    case False
    then show ?thesis using Cons.IH [OF s1(2)] Cons.prems(2,3) assms(4) [OF s1(1)] by simp
  qed
qed simp

text \<open>What the pass for \<open>j\<close> establishes and later passes keep holds at the end.\<close>

lemma go_for_reaches:
  assumes "go_for body js s = Inr s'" and "P s" and "j \<in> set js"
    and "\<And>k s s'. k \<in> set js \<Longrightarrow> body k s = Inr s' \<Longrightarrow> P s \<Longrightarrow> P s' \<and> (k = j \<or> Q s \<longrightarrow> Q s')"
  shows "Q s'"
proof -
  have *: "P s \<Longrightarrow> Q s \<or> j \<in> set ks \<Longrightarrow> Q s'" if "go_for body ks s = Inr s'" "set ks \<subseteq> set js" for ks s
    using that
  proof (induction ks arbitrary: s)
    case (Cons k ks)
    then obtain s1 where s1: "body k s = Inr s1" "go_for body ks s1 = Inr s'" by auto
    have "k \<in> set js" "set ks \<subseteq> set js" using Cons.prems(4) by simp_all
    then have p: "P s1" "k = j \<or> Q s \<longrightarrow> Q s1" using assms(4) [OF _ s1(1) Cons.prems(1)] by simp_all
    then have "Q s1 \<or> j \<in> set ks" using Cons.prems(2) by auto
    then show ?case by (rule Cons.IH [OF p(1) _ s1(2) \<open>set ks \<subseteq> set js\<close>])
  qed simp
  show ?thesis by (rule * [OF assms(1)]) (use assms(2,3) in simp_all)
qed

section \<open>Ends and their names\<close>

definition wire :: "('c, 'v) config \<Rightarrow> nat \<times> nat \<Rightarrow> string option" where
  "wire cfg = (\<lambda>(i, j). if i < cf_n cfg \<and> j < cf_n cfg then map_option (\<lambda>es. es ! j) (cf_endnames cfg ! i) else None)"

definition shaped :: "('c, 'v) config \<Rightarrow> bool" where
  "shaped cfg \<longleftrightarrow> length (cf_connected cfg) = cf_n cfg \<and> length (cf_endnames cfg) = cf_n cfg \<and>
     length (cf_rafts cfg) = cf_n cfg \<and> length (cf_saved cfg) = cf_n cfg \<and>
     (\<forall>i<cf_n cfg. \<forall>es. cf_endnames cfg ! i = Some es \<longrightarrow> length es = cf_n cfg)"

definition net_same :: "'n Network \<Rightarrow> 'n Network \<Rightarrow> bool" where
  "net_same rn rn' \<longleftrightarrow> nw_ends rn' = nw_ends rn \<and> nw_connections rn' = nw_connections rn \<and> nw_servers rn' = nw_servers rn"

text \<open>\<open>cfg'\<close> is \<open>cfg\<close> with the ends in \<open>X\<close> enabled or disabled.\<close>

definition rewired :: "bool \<Rightarrow> name set \<Rightarrow> ('c, 'v) config \<Rightarrow> ('c, 'v) config \<Rightarrow> bool" where
  "rewired b X cfg cfg' \<longleftrightarrow> cfg' = cfg\<lparr>cf_net := cf_net cfg'\<rparr> \<and> net_same (cf_net cfg) (cf_net cfg') \<and>
     (\<forall>e. get_enabled (cf_net cfg') e = (if e \<in> X then b else get_enabled (cf_net cfg) e))"

lemma get_enabled_Enable [simp]: "get_enabled (Enable e b rn) e' = (if e' = e then b else get_enabled rn e')"
  by (simp add: get_enabled_def Enable_def)

lemma net_same_Enable [simp]: "net_same rn (Enable e b rn)"
  by (simp add: net_same_def Enable_def)

lemma rewired_none: "rewired b {} cfg cfg"
  by (simp add: rewired_def net_same_def)

lemma rewired_one: "rewired b {Str x} cfg (cfg\<lparr>cf_net := Enable (Str x) b (cf_net cfg)\<rparr>)"
  by (simp add: rewired_def)

lemma rewired_trans:
  assumes "rewired b X cfg cfg1" and "rewired b Y cfg1 cfg2"
  shows "rewired b (X \<union> Y) cfg cfg2"
proof -
  have "cfg2 = cfg\<lparr>cf_net := cf_net cfg2\<rparr>"
    using assms unfolding rewired_def by (metis (no_types, lifting) config.surjective config.update_convs(1))
  then show ?thesis using assms unfolding rewired_def net_same_def by simp
qed

text \<open>A loop that sets one end per server or none.\<close>

lemma go_for_rewired:
  assumes "\<And>j c. j \<in> set js \<Longrightarrow> \<exists>net. c = cfg\<lparr>cf_net := net\<rparr> \<Longrightarrow>
      body j c = Inr (case f j of None \<Rightarrow> c | Some x \<Rightarrow> c\<lparr>cf_net := Enable (Str x) b (cf_net c)\<rparr>)"
    and "\<exists>net. c = cfg\<lparr>cf_net := net\<rparr>"
  shows "\<exists>c'. go_for body js c = Inr c' \<and> rewired b {Str x | x. \<exists>j\<in>set js. f j = Some x} c c'"
  using assms
proof (induction js arbitrary: c)
  case Nil
  then show ?case using rewired_none by simp
next
  case (Cons j js)
  define c1 where "c1 = (case f j of None \<Rightarrow> c | Some x \<Rightarrow> c\<lparr>cf_net := Enable (Str x) b (cf_net c)\<rparr>)"
  have b: "body j c = Inr c1" using Cons.prems unfolding c1_def by (intro Cons.prems(1)) simp_all
  have r: "rewired b {Str x | x. f j = Some x} c c1"
    using rewired_none rewired_one by (cases "f j") (simp_all add: c1_def)
  have "\<exists>net. c1 = cfg\<lparr>cf_net := net\<rparr>" using Cons.prems(2) by (auto simp: c1_def split: option.split)
  then obtain c' where c': "go_for body js c1 = Inr c'" "rewired b {Str x | x. \<exists>j\<in>set js. f j = Some x} c1 c'"
    using Cons.IH [OF Cons.prems(1), of c1] by fastforce
  have "{Str x | x. f j = Some x} \<union> {Str x | x. \<exists>j\<in>set js. f j = Some x} = {Str x | x. \<exists>j\<in>set (j # js). f j = Some x}"
    by auto
  then show ?case using b c' rewired_trans [OF r c'(2)] by simp
qed

lemma end_name_wire:
  assumes "shaped cfg" and "wire cfg (i, j) = Some x"
  shows "end_name cfg (int i) (int j) = Inr x"
  using assms by (auto simp: shaped_def wire_def end_name_def go_index_def split: if_splits)

lemma setEnd_wire:
  assumes "shaped cfg" and "wire cfg (i, j) = Some x"
  shows "setEnd (int i) (int j) b cfg = Inr (cfg\<lparr>cf_net := Enable (Str x) b (cf_net cfg)\<rparr>)"
  using end_name_wire [OF assms] by (simp add: setEnd_def)

lemma shaped_net [simp]: "shaped (cfg\<lparr>cf_net := net\<rparr>) = shaped cfg"
  by (simp add: shaped_def)

lemma wire_net [simp]: "wire (cfg\<lparr>cf_net := net\<rparr>) = wire cfg"
  by (auto simp: wire_def fun_eq_iff)

lemma wire_connected [simp]: "wire (cfg\<lparr>cf_connected := cs\<rparr>) = wire cfg"
  by (auto simp: wire_def fun_eq_iff)

section \<open>Connecting and disconnecting\<close>

text \<open>The ends of server \<open>i\<close> and those that lead to it, on the servers in \<open>P\<close>.\<close>

definition ends_of :: "('c, 'v) config \<Rightarrow> nat \<Rightarrow> (nat \<Rightarrow> bool) \<Rightarrow> name set" where
  "ends_of cfg i P = {Str x | x. \<exists>j. P j \<and> (wire cfg (i, j) = Some x \<or> wire cfg (j, i) = Some x)}"

lemma ends_of_iff:
  "e \<in> ends_of cfg i P \<longleftrightarrow> (\<exists>a b x. wire cfg (a, b) = Some x \<and> e = Str x \<and> (a = i \<and> P b \<or> b = i \<and> P a))"
  by (auto simp: ends_of_def)

lemma ends_loop:
  assumes sh: "shaped c0" "cf_n c0 = n" and c: "\<exists>net. c = c0\<lparr>cf_net := net\<rparr>"
    and body: "\<And>j c. j < n \<Longrightarrow> \<exists>net. c = c0\<lparr>cf_net := net\<rparr> \<Longrightarrow>
      body (int j) c = (if on j then setEnd (int (p j)) (int (q j)) b c else Inr c)"
    and up: "\<And>j. j < n \<Longrightarrow> on j \<Longrightarrow> wire c0 (p j, q j) \<noteq> None"
  shows "\<exists>c'. go_for body [0..int n - 1] c = Inr c' \<and>
    rewired b {Str x | x. \<exists>j<n. on j \<and> wire c0 (p j, q j) = Some x} c c'"
proof -
  let ?f = "\<lambda>j. if on (nat j) then wire c0 (p (nat j), q (nat j)) else None"
  have *: "body j c = Inr (case ?f j of None \<Rightarrow> c | Some x \<Rightarrow> c\<lparr>cf_net := Enable (Str x) b (cf_net c)\<rparr>)"
    if jin: "j \<in> set [0..int n - 1]" and cnet: "\<exists>net. c = c0\<lparr>cf_net := net\<rparr>" for j c
  proof -
    obtain j' where j: "j = int j'" "j' < n" using jin unfolding upto_servers by blast
    obtain net where net: "c = c0\<lparr>cf_net := net\<rparr>" using cnet by blast
    show ?thesis
    proof (cases "on j'")
      case True
      then obtain x where "wire c0 (p j', q j') = Some x" using up [OF j(2)] by blast
      moreover from this have "setEnd (int (p j')) (int (q j')) b c = Inr (c\<lparr>cf_net := Enable (Str x) b (cf_net c)\<rparr>)"
        using sh(1) by (intro setEnd_wire) (simp_all add: net)
      ultimately show ?thesis using body [OF j(2) cnet] True j(1) by simp
    qed (use body [OF j(2) cnet] j(1) in simp)
  qed
  have "{Str x | x. \<exists>j\<in>set [0..int n - 1]. ?f j = Some x} = {Str x | x. \<exists>j<n. on j \<and> wire c0 (p j, q j) = Some x}"
    unfolding upto_servers by (auto split: if_splits)
  then show ?thesis using go_for_rewired [where js = "[0..int n - 1]" and cfg = c0 and body = body and f = ?f and b = b and c = c, OF * c] by simp
qed

text \<open>Two loops one after the other, out of \<open>i\<close> and into \<open>i\<close>.\<close>

lemma ends_loops:
  assumes sh: "shaped c0" "cf_n c0 = n"
    and out: "\<And>j c. j < n \<Longrightarrow> \<exists>net. c = c0\<lparr>cf_net := net\<rparr> \<Longrightarrow>
      out (int j) c = (if on j then setEnd (int i) (int j) b c else Inr c)"
    and inc: "\<And>j c. j < n \<Longrightarrow> \<exists>net. c = c0\<lparr>cf_net := net\<rparr> \<Longrightarrow>
      inc (int j) c = (if on' j then setEnd (int j) (int i) b c else Inr c)"
    and up: "\<And>j. j < n \<Longrightarrow> on j \<Longrightarrow> wire c0 (i, j) \<noteq> None" "\<And>j. j < n \<Longrightarrow> on' j \<Longrightarrow> wire c0 (j, i) \<noteq> None"
  shows "\<exists>c'. go_bind (go_for out [0..int n - 1] c0) (\<lambda>c. go_for inc [0..int (cf_n c) - 1] c) = Inr c' \<and>
    rewired b {Str x | x. \<exists>j<n. on j \<and> wire c0 (i, j) = Some x \<or> on' j \<and> wire c0 (j, i) = Some x} c0 c'"
proof -
  have "\<exists>net. c0 = c0\<lparr>cf_net := net\<rparr>" by (rule exI [of _ "cf_net c0"]) simp
  then obtain c1 where c1: "go_for out [0..int n - 1] c0 = Inr c1"
      "rewired b {Str x | x. \<exists>j<n. on j \<and> wire c0 (i, j) = Some x} c0 c1"
    using ends_loop [of c0 n c0 out on "\<lambda>_. i" "\<lambda>j. j" b, OF sh _ out up(1)] by blast
  have e: "\<exists>net. c1 = c0\<lparr>cf_net := net\<rparr>" using c1(2) unfolding rewired_def by blast
  then obtain c2 where c2: "go_for inc [0..int n - 1] c1 = Inr c2"
      "rewired b {Str x | x. \<exists>j<n. on' j \<and> wire c0 (j, i) = Some x} c1 c2"
    using ends_loop [of c0 n c1 inc on' "\<lambda>j. j" "\<lambda>_. i" b, OF sh _ inc up(2)] by blast
  have "{Str x | x. \<exists>j<n. on j \<and> wire c0 (i, j) = Some x} \<union> {Str x | x. \<exists>j<n. on' j \<and> wire c0 (j, i) = Some x} =
      {Str x | x. \<exists>j<n. on j \<and> wire c0 (i, j) = Some x \<or> on' j \<and> wire c0 (j, i) = Some x}" by auto
  moreover have "cf_n c1 = n" using e sh(2) by auto
  ultimately show ?thesis using c1(1) c2(1) rewired_trans [OF c1(2) c2(2)] by simp
qed

lemma wire_some: "i < cf_n cfg \<Longrightarrow> j < cf_n cfg \<Longrightarrow> wire cfg (i, j) \<noteq> None \<longleftrightarrow> cf_endnames cfg ! i \<noteq> None"
  by (auto simp: wire_def)

lemma connect_spec:
  assumes sh: "shaped cfg" and i: "i < cf_n cfg" "cf_endnames cfg ! i \<noteq> None"
    and up: "\<And>j. j < cf_n cfg \<Longrightarrow> cf_connected cfg ! j \<Longrightarrow> cf_endnames cfg ! j \<noteq> None"
  defines "c1 \<equiv> cfg\<lparr>cf_connected := (cf_connected cfg)[i := True]\<rparr>"
  shows "\<exists>cfg'. connect (int i) cfg = Inr cfg' \<and>
    rewired True (ends_of cfg i (\<lambda>j. j < cf_n cfg \<and> cf_connected c1 ! j)) c1 cfg'"
proof -
  have sh1: "shaped c1" "cf_n c1 = cf_n cfg" using sh by (simp_all add: c1_def shaped_def)
  have up1: "cf_endnames cfg ! j \<noteq> None" if "j < cf_n cfg" "cf_connected c1 ! j" for j
    using up [of j] that i sh by (cases "j = i") (simp_all add: c1_def shaped_def)
  have "\<exists>c'. go_bind (go_for (\<lambda>j c. go_bind (go_index (cf_connected c) j) (\<lambda>b. if b then setEnd (int i) j True c else Inr c))
        [0..int (cf_n cfg) - 1] c1) (\<lambda>c. go_for (\<lambda>j c. go_bind (go_index (cf_connected c) j)
          (\<lambda>b. if b then setEnd j (int i) True c else Inr c)) [0..int (cf_n c) - 1] c) = Inr c' \<and>
      rewired True {Str x | x. \<exists>j<cf_n cfg. cf_connected c1 ! j \<and> wire c1 (i, j) = Some x \<or>
        cf_connected c1 ! j \<and> wire c1 (j, i) = Some x} c1 c'"
    by (rule ends_loops [OF sh1])
      (use sh1 i up1 in \<open>auto simp: go_index_def shaped_def wire_some c1_def simp del: not_None_eq\<close>)
  moreover have "connect (int i) cfg = go_bind (go_for (\<lambda>j c. go_bind (go_index (cf_connected c) j) (\<lambda>b. if b then setEnd (int i) j True c else Inr c))
        [0..int (cf_n cfg) - 1] c1) (\<lambda>c. go_for (\<lambda>j c. go_bind (go_index (cf_connected c) j)
          (\<lambda>b. if b then setEnd j (int i) True c else Inr c)) [0..int (cf_n c) - 1] c)"
    using i(1) sh by (simp add: connect_def go_assign_def shaped_def Let_def c1_def)
  moreover have "{Str x | x. \<exists>j<cf_n cfg. cf_connected c1 ! j \<and> wire c1 (i, j) = Some x \<or>
        cf_connected c1 ! j \<and> wire c1 (j, i) = Some x} = ends_of cfg i (\<lambda>j. j < cf_n cfg \<and> cf_connected c1 ! j)"
    by (auto simp: ends_of_def c1_def)
  ultimately show ?thesis by simp
qed

lemma disconnect_spec:
  assumes sh: "shaped cfg" and i: "i < cf_n cfg"
  defines "c1 \<equiv> cfg\<lparr>cf_connected := (cf_connected cfg)[i := False]\<rparr>"
  shows "\<exists>cfg'. disconnect (int i) cfg = Inr cfg' \<and> rewired False (ends_of cfg i (\<lambda>j. j < cf_n cfg)) c1 cfg'"
proof -
  have sh1: "shaped c1" "cf_n c1 = cf_n cfg" using sh by (simp_all add: c1_def shaped_def)
  have "\<exists>c'. go_bind (go_for (\<lambda>j c. go_bind (go_index (cf_endnames c) (int i)) (\<lambda>es. if es \<noteq> None then setEnd (int i) j False c else Inr c))
        [0..int (cf_n cfg) - 1] c1) (\<lambda>c. go_for (\<lambda>j c. go_bind (go_index (cf_endnames c) j)
          (\<lambda>es. if es \<noteq> None then setEnd j (int i) False c else Inr c)) [0..int (cf_n c) - 1] c) = Inr c' \<and>
      rewired False {Str x | x. \<exists>j<cf_n cfg. cf_endnames cfg ! i \<noteq> None \<and> wire c1 (i, j) = Some x \<or>
        cf_endnames cfg ! j \<noteq> None \<and> wire c1 (j, i) = Some x} c1 c'"
    by (rule ends_loops [OF sh1])
      (use sh1 i in \<open>auto simp: go_index_def shaped_def wire_some c1_def simp del: not_None_eq\<close>)
  moreover have "disconnect (int i) cfg = go_bind (go_for (\<lambda>j c. go_bind (go_index (cf_endnames c) (int i)) (\<lambda>es. if es \<noteq> None then setEnd (int i) j False c else Inr c))
        [0..int (cf_n cfg) - 1] c1) (\<lambda>c. go_for (\<lambda>j c. go_bind (go_index (cf_endnames c) j)
          (\<lambda>es. if es \<noteq> None then setEnd j (int i) False c else Inr c)) [0..int (cf_n c) - 1] c)"
    using i(1) sh by (simp add: disconnect_def go_assign_def shaped_def Let_def c1_def)
  moreover have "{Str x | x. \<exists>j<cf_n cfg. cf_endnames cfg ! i \<noteq> None \<and> wire c1 (i, j) = Some x \<or>
        cf_endnames cfg ! j \<noteq> None \<and> wire c1 (j, i) = Some x} = ends_of cfg i (\<lambda>j. j < cf_n cfg)"
    by (auto simp: ends_of_def c1_def wire_def)
  ultimately show ?thesis by simp
qed

section \<open>The invariant of the wiring\<close>

definition wired :: "('c, 'v) config \<Rightarrow> bool" where
  "wired cfg \<longleftrightarrow> shaped cfg \<and>
     (\<forall>p q x. wire cfg p = Some x \<longrightarrow> wire cfg q = Some x \<longrightarrow> p = q) \<and>
     (\<forall>p x. wire cfg p = Some x \<longrightarrow> gm_get (nw_ends (cf_net cfg)) (Str x) \<noteq> None) \<and>
     (\<forall>e. get_enabled (cf_net cfg) e \<longleftrightarrow>
        (\<exists>i j x. wire cfg (i, j) = Some x \<and> e = Str x \<and> cf_connected cfg ! i \<and> cf_connected cfg ! j)) \<and>
     (\<forall>i j x. wire cfg (i, j) = Some x \<longrightarrow> get_connection (cf_net cfg) (Str x) = Some (Num (int j))) \<and>
     (\<forall>i<cf_n cfg. cf_connected cfg ! i \<longrightarrow> cf_endnames cfg ! i \<noteq> None) \<and>
     (\<forall>i<cf_n cfg. cf_rafts cfg ! i = None \<longrightarrow> get_server (cf_net cfg) (Num (int i)) = None) \<and>
     (\<forall>i<cf_n cfg. cf_connected cfg ! i \<longrightarrow> cf_rafts cfg ! i \<noteq> None)"

lemma wiredD:
  assumes "wired cfg"
  shows "shaped cfg" and "wire cfg p = Some x \<Longrightarrow> wire cfg q = Some x \<Longrightarrow> p = q"
    and "wire cfg p = Some x \<Longrightarrow> gm_get (nw_ends (cf_net cfg)) (Str x) \<noteq> None"
    and "get_enabled (cf_net cfg) e \<longleftrightarrow>
        (\<exists>i j x. wire cfg (i, j) = Some x \<and> e = Str x \<and> cf_connected cfg ! i \<and> cf_connected cfg ! j)"
    and "wire cfg (i, j) = Some x \<Longrightarrow> get_connection (cf_net cfg) (Str x) = Some (Num (int j))"
    and "i < cf_n cfg \<Longrightarrow> cf_connected cfg ! i \<Longrightarrow> cf_endnames cfg ! i \<noteq> None"
    and "i < cf_n cfg \<Longrightarrow> cf_rafts cfg ! i = None \<Longrightarrow> get_server (cf_net cfg) (Num (int i)) = None"
    and "i < cf_n cfg \<Longrightarrow> cf_connected cfg ! i \<Longrightarrow> cf_rafts cfg ! i \<noteq> None"
  using assms unfolding wired_def by blast+

lemma wire_bound: "wire cfg (i, j) = Some x \<Longrightarrow> i < cf_n cfg \<and> j < cf_n cfg"
  by (auto simp: wire_def split: if_splits)

lemma rewired_fields:
  assumes "rewired b X cfg cfg'"
  shows "cf_n cfg' = cf_n cfg" and "cf_connected cfg' = cf_connected cfg" and "cf_endnames cfg' = cf_endnames cfg"
    and "cf_rafts cfg' = cf_rafts cfg" and "cf_saved cfg' = cf_saved cfg" and "wire cfg' = wire cfg" and "shaped cfg' = shaped cfg"
    and "nw_ends (cf_net cfg') = nw_ends (cf_net cfg)" and "get_connection (cf_net cfg') = get_connection (cf_net cfg)"
    and "get_server (cf_net cfg') = get_server (cf_net cfg)"
    and "get_enabled (cf_net cfg') e = (if e \<in> X then b else get_enabled (cf_net cfg) e)"
proof -
  obtain net where *: "cfg' = cfg\<lparr>cf_net := net\<rparr>" using assms unfolding rewired_def by blast
  show "cf_n cfg' = cf_n cfg" "cf_connected cfg' = cf_connected cfg" "cf_endnames cfg' = cf_endnames cfg"
    "cf_rafts cfg' = cf_rafts cfg" "cf_saved cfg' = cf_saved cfg" "wire cfg' = wire cfg" "shaped cfg' = shaped cfg"
    by (simp_all add: *)
  show "nw_ends (cf_net cfg') = nw_ends (cf_net cfg)" "get_connection (cf_net cfg') = get_connection (cf_net cfg)"
    "get_server (cf_net cfg') = get_server (cf_net cfg)"
    "get_enabled (cf_net cfg') e = (if e \<in> X then b else get_enabled (cf_net cfg) e)"
    using assms by (simp_all add: rewired_def net_same_def get_connection_def get_server_def fun_eq_iff)
qed

text \<open>A change of the enabled ends alone.\<close>

lemma wired_rewired:
  assumes inv: "wired cfg" and r: "rewired b X (cfg\<lparr>cf_connected := cs\<rparr>) cfg'" and len: "length cs = cf_n cfg"
    and on: "\<And>i. i < cf_n cfg \<Longrightarrow> cs ! i \<Longrightarrow> cf_endnames cfg ! i \<noteq> None \<and> cf_rafts cfg ! i \<noteq> None"
    and en: "\<And>e. (if e \<in> X then b else get_enabled (cf_net cfg) e) \<longleftrightarrow>
      (\<exists>i j x. wire cfg (i, j) = Some x \<and> e = Str x \<and> cs ! i \<and> cs ! j)"
  shows "wired cfg'"
proof -
  note f = rewired_fields(1-10) [OF r, simplified]
  have en': "get_enabled (cf_net cfg') e \<longleftrightarrow> (\<exists>i j x. wire cfg (i, j) = Some x \<and> e = Str x \<and> cs ! i \<and> cs ! j)" for e
    using rewired_fields(11) [OF r, of e] en [of e] by (cases "e \<in> X") simp_all
  have "shaped cfg'" using wiredD(1) [OF inv] len by (simp add: f shaped_def)
  moreover have "wire cfg p = Some x \<longrightarrow> wire cfg q = Some x \<longrightarrow> p = q" for p q x using wiredD(2) [OF inv] by blast
  moreover have "wire cfg p = Some x \<longrightarrow> gm_get (nw_ends (cf_net cfg)) (Str x) \<noteq> None" for p x using wiredD(3) [OF inv] by blast
  moreover have "wire cfg (i, j) = Some x \<longrightarrow> get_connection (cf_net cfg) (Str x) = Some (Num (int j))" for i j x
    using wiredD(5) [OF inv] by blast
  moreover have "\<forall>i<cf_n cfg. cf_rafts cfg ! i = None \<longrightarrow> get_server (cf_net cfg) (Num (int i)) = None"
    using wiredD(7) [OF inv] by blast
  ultimately show ?thesis using on unfolding wired_def f en' by blast
qed

lemma connect_started:
  assumes "connect (int i) cfg = Inr cfg'" and "shaped cfg" and "i < cf_n cfg"
  shows "cf_endnames cfg ! i \<noteq> None"
proof
  assume none: "cf_endnames cfg ! i = None"
  let ?c1 = "cfg\<lparr>cf_connected := (cf_connected cfg)[i := True]\<rparr>"
  let ?body = "\<lambda>j c. go_bind (go_index (cf_connected c) j) (\<lambda>b. if b then setEnd (int i) j True c else Inr c)"
  have len: "length (cf_connected cfg) = cf_n cfg" using assms(2) by (simp add: shaped_def)
  from assms(1) obtain c2 where c2: "go_for ?body [0..int (cf_n cfg) - 1] ?c1 = Inr c2"
    using assms(3) len by (auto simp: connect_def go_assign_def Let_def elim!: go_bind_Inr_E)
  have in0: "int i \<in> set [0..int (cf_n cfg) - 1]" using assms(3) by simp
  have "\<exists>s1 s2. (\<exists>net. s1 = ?c1\<lparr>cf_net := net\<rparr>) \<and> ?body (int i) s1 = Inr s2"
  proof (rule go_for_visits [OF c2 in0])
    show "\<exists>net. ?c1 = ?c1\<lparr>cf_net := net\<rparr>" by (rule exI [of _ "cf_net cfg"]) simp
  qed (auto simp: setEnd_def split: if_splits)
  then show False using none assms(2,3) len
    by (auto simp: setEnd_def end_name_def go_index_def shaped_def split: if_splits)
qed

lemma connect_wired:
  assumes "connect (int i) cfg = Inr cfg'" and inv: "wired cfg" and i: "i < cf_n cfg" and run: "cf_rafts cfg ! i \<noteq> None"
  shows "wired cfg'"
proof -
  let ?cs = "(cf_connected cfg)[i := True]"
  have st: "cf_endnames cfg ! i \<noteq> None" by (rule connect_started [OF assms(1) wiredD(1) [OF inv] i])
  have len: "length (cf_connected cfg) = cf_n cfg" using wiredD(1) [OF inv] by (simp add: shaped_def)
  have r: "rewired True (ends_of cfg i (\<lambda>j. j < cf_n cfg \<and> ?cs ! j)) (cfg\<lparr>cf_connected := ?cs\<rparr>) cfg'"
    using connect_spec [OF wiredD(1) [OF inv] i st wiredD(6) [OF inv]] assms(1) by auto
  show ?thesis
  proof (rule wired_rewired [OF inv r])
    fix j assume "j < cf_n cfg" "?cs ! j"
    then show "cf_endnames cfg ! j \<noteq> None \<and> cf_rafts cfg ! j \<noteq> None"
      using st run wiredD(6,8) [OF inv, of j] i len by (cases "j = i") auto
  next
    fix e
    have on: "?cs ! j \<longleftrightarrow> j = i \<or> cf_connected cfg ! j" if "j < cf_n cfg" for j using that i len by (cases "j = i") auto
    have "e \<in> ends_of cfg i (\<lambda>j. j < cf_n cfg \<and> ?cs ! j) \<or> get_enabled (cf_net cfg) e \<longleftrightarrow>
      (\<exists>a b x. wire cfg (a, b) = Some x \<and> e = Str x \<and> ?cs ! a \<and> ?cs ! b)" (is "?L \<longleftrightarrow> ?R")
    proof
      assume ?L then show ?R unfolding ends_of_iff wiredD(4) [OF inv] using on i wire_bound by metis
    next
      assume ?R
      then obtain a b x where w: "wire cfg (a, b) = Some x" "e = Str x" "?cs ! a" "?cs ! b" by blast
      then show ?L unfolding ends_of_iff wiredD(4) [OF inv] using on wire_bound [OF w(1)] by blast
    qed
    then show "(if e \<in> ends_of cfg i (\<lambda>j. j < cf_n cfg \<and> ?cs ! j) then True else get_enabled (cf_net cfg) e) \<longleftrightarrow>
      (\<exists>i j x. wire cfg (i, j) = Some x \<and> e = Str x \<and> ?cs ! i \<and> ?cs ! j)"
      unfolding if_bool_eq_disj by blast
  qed (simp add: len)
qed

lemma disconnect_wired:
  assumes "disconnect (int i) cfg = Inr cfg'" and inv: "wired cfg" and i: "i < cf_n cfg"
  shows "wired cfg' \<and> \<not> cf_connected cfg' ! i"
proof -
  let ?cs = "(cf_connected cfg)[i := False]"
  have len: "length (cf_connected cfg) = cf_n cfg" using wiredD(1) [OF inv] by (simp add: shaped_def)
  have r: "rewired False (ends_of cfg i (\<lambda>j. j < cf_n cfg)) (cfg\<lparr>cf_connected := ?cs\<rparr>) cfg'"
    using disconnect_spec [OF wiredD(1) [OF inv] i] assms(1) by auto
  have on: "?cs ! j \<longleftrightarrow> j \<noteq> i \<and> cf_connected cfg ! j" if "j < cf_n cfg" for j using that i len by (cases "j = i") auto
  have "wired cfg'"
  proof (rule wired_rewired [OF inv r])
    fix j assume "j < cf_n cfg" "?cs ! j"
    then show "cf_endnames cfg ! j \<noteq> None \<and> cf_rafts cfg ! j \<noteq> None" using wiredD(6,8) [OF inv, of j] on by blast
  next
    fix e
    have "e \<notin> ends_of cfg i (\<lambda>j. j < cf_n cfg) \<and> get_enabled (cf_net cfg) e \<longleftrightarrow>
      (\<exists>a b x. wire cfg (a, b) = Some x \<and> e = Str x \<and> ?cs ! a \<and> ?cs ! b)" (is "?L \<longleftrightarrow> ?R")
    proof
      assume L: ?L
      then obtain a b x where w: "wire cfg (a, b) = Some x" "e = Str x" "cf_connected cfg ! a" "cf_connected cfg ! b"
        unfolding wiredD(4) [OF inv] by blast
      moreover from this L have "a \<noteq> i" "b \<noteq> i" unfolding ends_of_iff using wire_bound [OF w(1)] by blast+
      ultimately show ?R using on wire_bound [OF w(1)] by blast
    next
      assume ?R
      then obtain a b x where w: "wire cfg (a, b) = Some x" "e = Str x" "?cs ! a" "?cs ! b" by blast
      then have c: "a \<noteq> i" "b \<noteq> i" "cf_connected cfg ! a" "cf_connected cfg ! b" using on wire_bound [OF w(1)] by blast+
      have "(a, b) = (a', b')" if "wire cfg (a', b') = Some x" for a' b' using wiredD(2) [OF inv w(1) that] .
      then have "e \<notin> ends_of cfg i (\<lambda>j. j < cf_n cfg)" unfolding ends_of_iff using c w(2) by blast
      then show ?L unfolding wiredD(4) [OF inv] using c w by blast
    qed
    then show "(if e \<in> ends_of cfg i (\<lambda>j. j < cf_n cfg) then False else get_enabled (cf_net cfg) e) \<longleftrightarrow>
      (\<exists>i j x. wire cfg (i, j) = Some x \<and> e = Str x \<and> ?cs ! i \<and> ?cs ! j)"
      unfolding if_bool_eq_disj by blast
  qed (simp add: len)
  then show ?thesis using rewired_fields(2) [OF r] i len by simp
qed

section \<open>Crash and restart\<close>

lemma wired_frame:
  assumes "wired cfg" and "cf_n cfg' = cf_n cfg" and "cf_connected cfg' = cf_connected cfg" and "cf_endnames cfg' = cf_endnames cfg"
    and "nw_ends (cf_net cfg') = nw_ends (cf_net cfg)" and "nw_enabled (cf_net cfg') = nw_enabled (cf_net cfg)"
    and "nw_connections (cf_net cfg') = nw_connections (cf_net cfg)"
    and "length (cf_rafts cfg') = cf_n cfg" and "length (cf_saved cfg') = cf_n cfg"
    and "\<And>i. i < cf_n cfg \<Longrightarrow> cf_rafts cfg' ! i = None \<Longrightarrow> get_server (cf_net cfg') (Num (int i)) = None"
    and "\<And>i. i < cf_n cfg \<Longrightarrow> cf_connected cfg ! i \<Longrightarrow> cf_rafts cfg' ! i \<noteq> None"
  shows "wired cfg'"
proof -
  have w: "wire cfg' = wire cfg" using assms(2,4) by (auto simp: wire_def fun_eq_iff)
  have e: "get_enabled (cf_net cfg') = get_enabled (cf_net cfg)" "get_connection (cf_net cfg') = get_connection (cf_net cfg)"
    using assms(6,7) by (simp_all add: get_enabled_def get_connection_def fun_eq_iff)
  have "shaped cfg'" using wiredD(1) [OF assms(1)] assms(2-4,8,9) by (simp add: shaped_def)
  then show ?thesis using assms(1,10,11) unfolding wired_def w e assms(2-5) by blast
qed

lemma crash1_wired:
  assumes "crash1 (int i) cfg = Inr cfg'" and inv: "wired cfg" and i: "i < cf_n cfg"
  shows "wired cfg' \<and> \<not> cf_connected cfg' ! i \<and> cf_rafts cfg' = (cf_rafts cfg)[i := None] \<and> cf_n cfg' = cf_n cfg"
proof -
  from assms(1) obtain c1 where c1: "disconnect (int i) cfg = Inr c1" by (auto simp: crash1_def)
  then have inv1: "wired c1" "\<not> cf_connected c1 ! i" using disconnect_wired [OF _ inv i] by blast+
  obtain X where "rewired False X (cfg\<lparr>cf_connected := (cf_connected cfg)[i := False]\<rparr>) c1"
    using disconnect_spec [OF wiredD(1) [OF inv] i] c1 by auto
  then have n: "cf_n c1 = cf_n cfg" "cf_rafts c1 = cf_rafts cfg" using rewired_fields(1,4) by fastforce+
  have sh: "shaped c1" by (rule wiredD(1) [OF inv1(1)])
  have same: "cf_rafts cfg ! i = None \<Longrightarrow> (cf_rafts cfg)[i := None] = cf_rafts cfg" by (metis list_update_id)
  have f: "cf_n cfg' = cf_n c1" "cf_connected cfg' = cf_connected c1" "cf_endnames cfg' = cf_endnames c1"
      "cf_net cfg' = DeleteServer (Num (int i)) (cf_net c1)" "length (cf_saved cfg') = length (cf_saved c1)"
      "cf_rafts cfg' = (cf_rafts c1)[i := None]"
    using assms(1) c1 i n sh
    by (auto simp: crash1_def Let_def go_index_def shaped_def same split: option.splits if_splits)
  have "wired cfg'"
  proof (rule wired_frame [OF inv1(1)])
    fix j assume "j < cf_n c1" "cf_rafts cfg' ! j = None"
    then show "get_server (cf_net cfg') (Num (int j)) = None"
      using wiredD(7) [OF inv1(1), of j] by (cases "j = i") (auto simp: f get_server_def DeleteServer_def)
  next
    fix j assume "j < cf_n c1" "cf_connected c1 ! j"
    then show "cf_rafts cfg' ! j \<noteq> None" using wiredD(8) [OF inv1(1), of j] inv1(2) by (cases "j = i") (auto simp: f)
  qed (use sh in \<open>simp_all add: f DeleteServer_def shaped_def\<close>)
  then show ?thesis using inv1(2) n by (simp add: f)
qed

lemma rewired_n: "rewired b X (cfg\<lparr>cf_connected := cs\<rparr>) cfg' \<Longrightarrow> cf_n cfg' = cf_n cfg"
  using rewired_fields(1) by fastforce

lemma connect_n:
  assumes "connect (int i) cfg = Inr cfg'" and "wired cfg" and "i < cf_n cfg"
  shows "cf_n cfg' = cf_n cfg \<and> cf_rafts cfg' = cf_rafts cfg"
  using connect_spec [OF wiredD(1) [OF assms(2)] assms(3) connect_started [OF assms(1) wiredD(1) [OF assms(2)] assms(3)]
      wiredD(6) [OF assms(2)]] assms(1) rewired_fields(1,4) by fastforce

lemma disconnect_n:
  assumes "disconnect (int i) cfg = Inr cfg'" and "wired cfg" and "i < cf_n cfg"
  shows "cf_n cfg' = cf_n cfg"
  using disconnect_spec [OF wiredD(1) [OF assms(2)] assms(3)] assms(1) rewired_n by force

text \<open>The ends of a new instance: all names are new, disabled, and lead to the peers.\<close>

lemma make_ends_loop:
  assumes "go_for (\<lambda>j cfg. go_bind (end_name cfg i j) (\<lambda>e. go_bind (MakeEnd (Str e) (cf_net cfg)) (\<lambda>net.
       Inr (cfg\<lparr>cf_net := Connect (Str e) (Num j) net\<rparr>)))) js (c0\<lparr>cf_net := net\<rparr>) = Inr c'"
    and "\<And>j. j \<in> set js \<Longrightarrow> end_name c0 i j = Inr (f j)"
  shows "distinct (map f js) \<and> (\<forall>j\<in>set js. gm_get (nw_ends net) (Str (f j)) = None) \<and> c' = c0\<lparr>cf_net := cf_net c'\<rparr> \<and>
    nw_servers (cf_net c') = nw_servers net \<and>
    (\<forall>e. gm_get (nw_ends (cf_net c')) e \<noteq> None \<longleftrightarrow> gm_get (nw_ends net) e \<noteq> None \<or> e \<in> Str ` f ` set js) \<and>
    (\<forall>e. get_enabled (cf_net c') e \<longleftrightarrow> get_enabled net e \<and> e \<notin> Str ` f ` set js) \<and>
    (\<forall>j\<in>set js. get_connection (cf_net c') (Str (f j)) = Some (Num j)) \<and>
    (\<forall>e. e \<notin> Str ` f ` set js \<longrightarrow> get_connection (cf_net c') e = get_connection net e)"
  using assms
proof (induction js arbitrary: net)
  case (Cons j js)
  have e: "end_name (c0\<lparr>cf_net := net\<rparr>) i j = Inr (f j)" using Cons.prems(2) [of j] by (simp add: end_name_def)
  with Cons.prems(1) have new: "gm_get (nw_ends net) (Str (f j)) = None" by (auto simp: MakeEnd_def split: option.splits)
  define net1 where "net1 = Connect (Str (f j)) (Num j) (net\<lparr>nw_ends := gm_put (Str (f j)) (Str (f j)) (nw_ends net),
    nw_enabled := gm_put (Str (f j)) False (nw_enabled net), nw_connections := gm_put (Str (f j)) None (nw_connections net)\<rparr>)"
  have "go_for (\<lambda>j cfg. go_bind (end_name cfg i j) (\<lambda>e. go_bind (MakeEnd (Str e) (cf_net cfg)) (\<lambda>net.
       Inr (cfg\<lparr>cf_net := Connect (Str e) (Num j) net\<rparr>)))) js (c0\<lparr>cf_net := net1\<rparr>) = Inr c'"
    using Cons.prems(1) e new by (simp add: MakeEnd_def net1_def)
  from Cons.IH [OF this Cons.prems(2)] have IH: "distinct (map f js)" "\<forall>j\<in>set js. gm_get (nw_ends net1) (Str (f j)) = None"
    "c' = c0\<lparr>cf_net := cf_net c'\<rparr>" "nw_servers (cf_net c') = nw_servers net1"
    "\<forall>e. gm_get (nw_ends (cf_net c')) e \<noteq> None \<longleftrightarrow> gm_get (nw_ends net1) e \<noteq> None \<or> e \<in> Str ` f ` set js"
    "\<forall>e. get_enabled (cf_net c') e \<longleftrightarrow> get_enabled net1 e \<and> e \<notin> Str ` f ` set js"
    "\<forall>j\<in>set js. get_connection (cf_net c') (Str (f j)) = Some (Num j)"
    "\<forall>e. e \<notin> Str ` f ` set js \<longrightarrow> get_connection (cf_net c') e = get_connection net1 e" by auto
  have ends: "gm_get (nw_ends net1) = (gm_get (nw_ends net))(Str (f j) \<mapsto> Str (f j))" by (simp add: net1_def Connect_def)
  have en: "get_enabled net1 e \<longleftrightarrow> get_enabled net e \<and> e \<noteq> Str (f j)" for e by (simp add: net1_def Connect_def get_enabled_def)
  have con: "get_connection net1 e = (if e = Str (f j) then Some (Num j) else get_connection net e)" for e
    by (simp add: net1_def Connect_def get_connection_def)
  have sv: "nw_servers net1 = nw_servers net" by (simp add: net1_def Connect_def)
  have nin: "f j \<notin> f ` set js" using IH(2) ends by fastforce
  then have nin': "Str (f j) \<notin> Str ` f ` set js" by auto
  have "\<forall>j\<in>set js. gm_get (nw_ends net) (Str (f j)) = None" using IH(2) ends by (auto split: if_splits)
  moreover have "get_connection (cf_net c') (Str (f j)) = Some (Num j)" using IH(8) nin' con by simp
  moreover have "get_connection (cf_net c') e = get_connection net e" if "e \<notin> Str ` f ` set (j # js)" for e
    using IH(8) that con by simp
  moreover have "gm_get (nw_ends (cf_net c')) e \<noteq> None \<longleftrightarrow> gm_get (nw_ends net) e \<noteq> None \<or> e \<in> Str ` f ` set (j # js)" for e
    using IH(5) unfolding ends by auto
  moreover have "get_enabled (cf_net c') e \<longleftrightarrow> get_enabled net e \<and> e \<notin> Str ` f ` set (j # js)" for e
    using IH(6) en by auto
  ultimately show ?case using new nin IH(1,3,4,7) sv by simp
qed auto

lemma make_ends_wired:
  assumes inv: "wired c1" and i: "i < cf_n c1" and off: "\<not> cf_connected c1 ! i"
    and m: "make_ends (int i) (c1\<lparr>cf_endnames := (cf_endnames c1)[i := Some (map names (all_servers c1))]\<rparr>) = Inr c3"
  shows "wired c3 \<and> cf_n c3 = cf_n c1 \<and> cf_rafts c3 = cf_rafts c1 \<and> cf_saved c3 = cf_saved c1 \<and> cf_servers c3 = cf_servers c1"
proof -
  let ?c2 = "c1\<lparr>cf_endnames := (cf_endnames c1)[i := Some (map names (all_servers c1))]\<rparr>"
  let ?S = "set (all_servers c1)"
  have sh: "shaped c1" by (rule wiredD(1) [OF inv])
  have nth: "map names (all_servers c1) ! j = names (int j)" if "j < cf_n c1" for j using that by simp
  have "end_name ?c2 (int i) j = Inr (names j)" if "j \<in> ?S" for j
    using that i sh nth [of "nat j"] by (auto simp: end_name_def go_index_def shaped_def)
  moreover have "?c2 = ?c2\<lparr>cf_net := cf_net c1\<rparr>" by simp
  ultimately have l: "distinct (map names (all_servers c1))" "\<forall>j\<in>?S. gm_get (nw_ends (cf_net c1)) (Str (names j)) = None"
    "c3 = ?c2\<lparr>cf_net := cf_net c3\<rparr>" "nw_servers (cf_net c3) = nw_servers (cf_net c1)"
    "\<forall>e. gm_get (nw_ends (cf_net c3)) e \<noteq> None \<longleftrightarrow> gm_get (nw_ends (cf_net c1)) e \<noteq> None \<or> e \<in> Str ` names ` ?S"
    "\<forall>e. get_enabled (cf_net c3) e \<longleftrightarrow> get_enabled (cf_net c1) e \<and> e \<notin> Str ` names ` ?S"
    "\<forall>j\<in>?S. get_connection (cf_net c3) (Str (names j)) = Some (Num j)"
    "\<forall>e. e \<notin> Str ` names ` ?S \<longrightarrow> get_connection (cf_net c3) e = get_connection (cf_net c1) e"
    using make_ends_loop [where i = "int i" and js = "all_servers c1" and ?c0.0 = ?c2 and net = "cf_net c1" and c' = c3 and f = names] m unfolding make_ends_def by auto
  obtain net where c3: "c3 = ?c2\<lparr>cf_net := net\<rparr>" using l(3) by blast
  have f: "cf_n c3 = cf_n c1" "cf_connected c3 = cf_connected c1" "cf_rafts c3 = cf_rafts c1" "cf_saved c3 = cf_saved c1"
      "cf_servers c3 = cf_servers c1" "cf_endnames c3 = (cf_endnames c1)[i := Some (map names (all_servers c1))]"
    by (simp_all add: c3)
  have sh3: "shaped c3" using sh i by (auto simp: shaped_def f nth_list_update split: if_splits)
  have w: "wire c3 (a, b) = (if a = i then if b < cf_n c1 then Some (names (int b)) else None else wire c1 (a, b))" for a b
    using i sh nth by (simp add: wire_def f shaped_def nth_list_update)
  have old: "Str x \<notin> Str ` names ` ?S" if "wire c1 p = Some x" for p x
    using wiredD(3) [OF inv that] l(2) by (auto simp del: set_upto not_None_eq)
  have mem: "int b \<in> ?S" if "b < cf_n c1" for b using that by simp
  have inj: "b = b'" if "names (int b) = names (int b')" "b < cf_n c1" "b' < cf_n c1" for b b'
  proof -
    have "inj_on names ?S" using l(1) unfolding distinct_map by blast
    then have "int b = int b'" using that(1) mem [OF that(2)] mem [OF that(3)] by (rule inj_onD)
    then show ?thesis by simp
  qed
  have "p = q" if "wire c3 p = Some x" "wire c3 q = Some x" for p q x
  proof -
    obtain a b a' b' where pq: "p = (a, b)" "q = (a', b')" by (cases p, cases q)
    show ?thesis
    proof (cases "a = i \<longleftrightarrow> a' = i")
      case True
      then show ?thesis using that inj wiredD(2) [OF inv] unfolding pq by (auto simp: w split: if_splits)
    next
      case False
      have no: "\<not> (b < cf_n c1 \<and> wire c1 r = Some (names (int b)))" for b r
        using old [of r "names (int b)"] mem [of b] by blast
      show ?thesis using False that no [of b "(a', b')"] no [of b' "(a, b)"] unfolding pq by (auto simp: w split: if_splits)
    qed
  qed
  moreover have "gm_get (nw_ends (cf_net c3)) (Str x) \<noteq> None" if "wire c3 p = Some x" for p x
    using that wiredD(3) [OF inv] l(5) mem by (cases p) (auto simp: w split: if_splits)
  moreover have "get_enabled (cf_net c3) e \<longleftrightarrow> (\<exists>a b x. wire c3 (a, b) = Some x \<and> e = Str x \<and> cf_connected c3 ! a \<and> cf_connected c3 ! b)" for e
  proof -
    have "wire c3 (a, b) = Some x \<and> e = Str x \<and> cf_connected c3 ! a \<and> cf_connected c3 ! b \<longleftrightarrow>
        wire c1 (a, b) = Some x \<and> e = Str x \<and> cf_connected c1 ! a \<and> cf_connected c1 ! b" for a b x
      using off by (cases "a = i") (simp_all add: w f(2))
    then have "(\<exists>a b x. wire c3 (a, b) = Some x \<and> e = Str x \<and> cf_connected c3 ! a \<and> cf_connected c3 ! b) \<longleftrightarrow>
        (\<exists>a b x. wire c1 (a, b) = Some x \<and> e = Str x \<and> cf_connected c1 ! a \<and> cf_connected c1 ! b)"
      by simp
    then have eq: "(\<exists>a b x. wire c3 (a, b) = Some x \<and> e = Str x \<and> cf_connected c3 ! a \<and> cf_connected c3 ! b) \<longleftrightarrow> get_enabled (cf_net c1) e"
      using wiredD(4) [OF inv, of e] by simp
    have "e \<notin> Str ` names ` ?S" if "get_enabled (cf_net c1) e" using that old unfolding wiredD(4) [OF inv] by blast
    then have "get_enabled (cf_net c3) e \<longleftrightarrow> get_enabled (cf_net c1) e" using l(6) by meson
    then show ?thesis unfolding eq .
  qed
  moreover have "get_connection (cf_net c3) (Str x) = Some (Num (int b))" if "wire c3 (a, b) = Some x" for a b x
  proof (cases "a = i")
    case True
    then show ?thesis using that l(7) by (auto simp: w split: if_splits)
  next
    case False
    then have "wire c1 (a, b) = Some x" using that by (simp add: w)
    then show ?thesis using l(8) old [of "(a, b)" x] wiredD(5) [OF inv, of a b x] by simp
  qed
  moreover have "cf_endnames c3 ! a \<noteq> None" if "a < cf_n c3" "cf_connected c3 ! a" for a
    using that wiredD(6) [OF inv, of a] off by (cases "a = i") (simp_all add: f)
  moreover have "get_server (cf_net c3) (Num (int a)) = None" if "a < cf_n c3" "cf_rafts c3 ! a = None" for a
    using that wiredD(7) [OF inv, of a] l(4) by (simp add: f get_server_def)
  moreover have "cf_rafts c3 ! a \<noteq> None" if "a < cf_n c3" "cf_connected c3 ! a" for a
    using that wiredD(8) [OF inv, of a] by (simp add: f)
  ultimately have "wired c3" using sh3 unfolding wired_def by blast
  then show ?thesis using f by blast
qed

lemma start1_wired:
  assumes "start1 (int i) names typ r cfg = Inr cfg'" and inv: "wired cfg" and i: "i < cf_n cfg"
  shows "wired cfg' \<and> cf_n cfg' = cf_n cfg \<and> cf_rafts cfg' ! i \<noteq> None \<and>
    (\<forall>j. cf_rafts cfg ! j \<noteq> None \<longrightarrow> cf_rafts cfg' ! j \<noteq> None)"
proof -
  from assms(1) obtain c1 where c1: "crash1 (int i) cfg = Inr c1" by (auto simp: start1_def)
  have inv1: "wired c1" "\<not> cf_connected c1 ! i" "cf_n c1 = cf_n cfg" "cf_rafts c1 = (cf_rafts cfg)[i := None]" using crash1_wired [OF c1 inv i] by blast+
  have sh: "shaped c1" by (rule wiredD(1) [OF inv1(1)])
  from assms(1) c1 obtain c3 where
    c3: "make_ends (int i) (c1\<lparr>cf_endnames := (cf_endnames c1)[i := Some (map names (all_servers c1))]\<rparr>) = Inr c3"
    by (auto simp: start1_def Let_def go_assign_def split: if_splits)
  have m: "wired c3" "cf_n c3 = cf_n c1" "cf_rafts c3 = cf_rafts c1" "cf_saved c3 = cf_saved c1"
    using make_ends_wired [OF inv1(1) _ inv1(2) c3] i inv1(3) by auto
  have f: "cf_n cfg' = cf_n c3 \<and> cf_connected cfg' = cf_connected c3 \<and> cf_endnames cfg' = cf_endnames c3 \<and>
      (\<exists>p. cf_net cfg' = AddServer (Num (int i)) p (cf_net c3)) \<and> length (cf_saved cfg') = length (cf_saved c3) \<and>
      (\<exists>rf. cf_rafts cfg' = (cf_rafts c3)[i := Some rf])"
    using assms(1) c1 c3 sh i inv1(3)
    by (auto simp: start1_def start1_saved_def ingestSnap_def Let_def go_index_def go_assign_def shaped_def
        split: if_splits option.splits prod.splits)
  then obtain p rf where f': "cf_n cfg' = cf_n c3" "cf_connected cfg' = cf_connected c3" "cf_endnames cfg' = cf_endnames c3"
      "cf_net cfg' = AddServer (Num (int i)) p (cf_net c3)" "length (cf_saved cfg') = length (cf_saved c3)"
      "cf_rafts cfg' = (cf_rafts c3)[i := Some rf]" by blast
  have "wired cfg'"
  proof (rule wired_frame [OF m(1)])
    fix j assume "j < cf_n c3" "cf_rafts cfg' ! j = None"
    then show "get_server (cf_net cfg') (Num (int j)) = None"
      using wiredD(7) [OF m(1), of j] wiredD(1) [OF m(1)]
      by (cases "j = i") (simp_all add: f' AddServer_def get_server_def shaped_def)
  next
    fix j assume "j < cf_n c3" "cf_connected c3 ! j"
    then show "cf_rafts cfg' ! j \<noteq> None" using wiredD(8) [OF m(1), of j] wiredD(1) [OF m(1)]
      by (cases "j = i") (simp_all add: f' shaped_def)
  qed (use wiredD(1) [OF m(1)] in \<open>simp_all add: f' AddServer_def shaped_def\<close>)
  moreover have "cf_rafts cfg' ! j \<noteq> None" if "cf_rafts cfg ! j \<noteq> None \<or> j = i" for j
    using that inv1(4) wiredD(1) [OF m(1)] i m(2) inv1(3) unfolding f' m(3) by (cases "j = i") (simp_all add: shaped_def m(3))
  ultimately show ?thesis using f' m(2) inv1(3) by simp
qed

section \<open>Every configuration of a test\<close>

text \<open>
  What a test does with the configuration: the calls of the harness, the peers and the readers that
  run beside them, and the settings of the network. The tests connect a server only while an instance of
  it runs: \<open>make_config\<close> starts every server before it connects any, and after \<open>crash1\<close> every test of
  \<open>raft/test_test.go\<close> calls \<open>start1\<close> before \<open>connect\<close>. The code of \<open>connect\<close> has no such guard, and
  for a crashed server it would enable the ends of the instance that is gone.
\<close>

inductive tester_reachable :: "nat \<Rightarrow> ('c, 'v) config \<Rightarrow> bool" for n :: nat where
  init: "tester_reachable n (new_config n now)"
| start: "tester_reachable n cfg \<Longrightarrow> i < n \<Longrightarrow> start1 (int i) names typ r cfg = Inr cfg' \<Longrightarrow> tester_reachable n cfg'"
| crash: "tester_reachable n cfg \<Longrightarrow> i < n \<Longrightarrow> crash1 (int i) cfg = Inr cfg' \<Longrightarrow> tester_reachable n cfg'"
| connect: "tester_reachable n cfg \<Longrightarrow> i < n \<Longrightarrow> cf_rafts cfg ! i \<noteq> None \<Longrightarrow> connect (int i) cfg = Inr cfg' \<Longrightarrow> tester_reachable n cfg'"
| disconnect: "tester_reachable n cfg \<Longrightarrow> i < n \<Longrightarrow> disconnect (int i) cfg = Inr cfg' \<Longrightarrow> tester_reachable n cfg'"
| peer: "tester_reachable n cfg \<Longrightarrow> i < n \<Longrightarrow> cf_rafts cfg ! i = Some rf \<Longrightarrow>
    tester_reachable n (cfg\<lparr>cf_rafts := (cf_rafts cfg)[i := Some rf']\<rparr>)"
| read: "tester_reachable n cfg \<Longrightarrow> i < n \<Longrightarrow> applier_msg (int i) (m :: ('c, 'c gobval) ApplyMsg) cfg = Inr cfg' \<Longrightarrow> tester_reachable n cfg'"
| unreliable: "tester_reachable n cfg \<Longrightarrow> tester_reachable n (setunreliable b cfg)"
| reordering: "tester_reachable n cfg \<Longrightarrow> tester_reachable n (setlongreordering b cfg)"
| delays: "tester_reachable n cfg \<Longrightarrow> tester_reachable n (cfg\<lparr>cf_net := LongDelays b (cf_net cfg)\<rparr>)"
| clear: "tester_reachable n cfg \<Longrightarrow> tester_reachable n (cfg\<lparr>cf_logs := ls\<rparr>)"
| begin_test: "tester_reachable n cfg \<Longrightarrow> tester_reachable n (test_begin now cfg)"

lemma applier_msg_frame:
  assumes "applier_msg i m cfg = Inr cfg'"
  shows "cf_n cfg' = cf_n cfg" and "cf_connected cfg' = cf_connected cfg" and "cf_endnames cfg' = cf_endnames cfg"
    and "cf_net cfg' = cf_net cfg" and "cf_rafts cfg' = cf_rafts cfg" and "cf_saved cfg' = cf_saved cfg"
  using assms by (auto simp: applier_msg_def checkLogs_def Let_def split: if_splits)

lemma wired_other:
  assumes "wired cfg" and "cf_n cfg' = cf_n cfg" and "cf_connected cfg' = cf_connected cfg" and "cf_endnames cfg' = cf_endnames cfg"
    and "cf_net cfg' = cf_net cfg" and "length (cf_rafts cfg') = length (cf_rafts cfg)" and "cf_saved cfg' = cf_saved cfg"
    and "\<And>i. cf_rafts cfg' ! i = None \<Longrightarrow> cf_rafts cfg ! i = None"
  shows "wired cfg'"
  by (rule wired_frame [OF assms(1)])
    (use assms wiredD(1,7) [OF assms(1)] in \<open>auto simp: shaped_def\<close>, use assms(8) wiredD(8) [OF assms(1)] in blast)

lemma wired_init: "wired (new_config n now)"
  by (auto simp: wired_def shaped_def new_config_def wire_def MakeNetwork_def get_enabled_def get_server_def)

lemma tester_wired: "tester_reachable n cfg \<Longrightarrow> wired cfg \<and> cf_n cfg = n"
proof (induction rule: tester_reachable.induct)
  case (init now)
  show ?case by (simp add: wired_init) (simp add: new_config_def)
next
  case (start cfg i names ty r cfg')
  then show ?case using start1_wired [OF start(3)] by simp
next
  case (crash cfg i cfg')
  then show ?case using crash1_wired [OF crash(3)] by simp
next
  case (connect cfg i cfg')
  then show ?case using connect_wired [OF connect(4)] connect_n [OF connect(4)] by simp
next
  case (disconnect cfg i cfg')
  then show ?case using disconnect_wired [OF disconnect(3)] disconnect_n [OF disconnect(3)] by simp
next
  case (peer cfg i rf rf')
  have "wired (cfg\<lparr>cf_rafts := (cf_rafts cfg)[i := Some rf']\<rparr>)"
  proof (rule wired_other [OF conjunct1 [OF peer(4)]])
    fix j assume "cf_rafts (cfg\<lparr>cf_rafts := (cf_rafts cfg)[i := Some rf']\<rparr>) ! j = None"
    then have none: "(cf_rafts cfg)[i := Some rf'] ! j = None" by simp
    have "i < length (cf_rafts cfg)" using peer(2,4) wiredD(1) [of cfg] by (auto simp: shaped_def)
    then show "cf_rafts cfg ! j = None" using none by (cases "j = i") auto
  qed simp_all
  then show ?case using peer by simp
next
  case (read cfg i m cfg')
  note f = applier_msg_frame [OF read(3)]
  show ?case using wired_other [OF conjunct1 [OF read(4)] f(1-4) _ f(6)] read(4) by (simp add: f)
next
  case (unreliable cfg b)
  then show ?case using wired_frame [of cfg "setunreliable b cfg"] wiredD(1,7,8) [of cfg]
    by (simp add: setunreliable_def Reliable_def get_server_def shaped_def)
next
  case (reordering cfg b)
  then show ?case using wired_frame [of cfg "setlongreordering b cfg"] wiredD(1,7,8) [of cfg]
    by (simp add: setlongreordering_def LongReordering_def get_server_def shaped_def)
next
  case (delays cfg b)
  then show ?case using wired_frame [of cfg "cfg\<lparr>cf_net := LongDelays b (cf_net cfg)\<rparr>"] wiredD(1,7,8) [of cfg]
    by (simp add: LongDelays_def get_server_def shaped_def)
next
  case (clear cfg ls)
  then show ?case using wired_other [of cfg "cfg\<lparr>cf_logs := ls\<rparr>"] by simp
next
  case (begin_test cfg now)
  then show ?case using wired_other [of cfg "test_begin now cfg"] by (simp add: test_begin_def)
qed

lemma make_config_reachable:
  fixes cfg :: "('c, 'v) config"
  assumes "make_config n unreliable now names ty r = Inr cfg"
  shows "tester_reachable n cfg"
proof -
  let ?c0 = "setunreliable unreliable (new_config n now) :: ('c, 'v) config"
  let ?c = "?c0\<lparr>cf_net := LongDelays True (cf_net ?c0)\<rparr>"
  have 0: "tester_reachable n ?c" by (intro tester_reachable.delays tester_reachable.unreliable tester_reachable.init)
  have n: "cf_n ?c = n" by (simp add: setunreliable_def new_config_def)
  from assms obtain c1 where c1: "go_for (\<lambda>i cfg. go_bind (go_assign (cf_logs cfg) i []) (\<lambda>ls.
       start1 i (names i) ty (r i) (cfg\<lparr>cf_logs := ls\<rparr>))) [0..int n - 1] ?c = Inr c1"
      "go_for connect [0..int (cf_n c1) - 1] c1 = Inr cfg"
    unfolding make_config_def Let_def n by auto
  have starts: "tester_reachable n s' \<and> cf_rafts s' ! nat j \<noteq> None \<and> (\<forall>i. cf_rafts s ! i \<noteq> None \<longrightarrow> cf_rafts s' ! i \<noteq> None)"
    if j: "j \<in> set [0..int n - 1]" and s: "tester_reachable n s"
      and b: "go_bind (go_assign (cf_logs s) j []) (\<lambda>ls. start1 j (names j) ty (r j) (s\<lparr>cf_logs := ls\<rparr>)) = Inr s'" for j s s'
  proof -
    from j obtain i where i: "j = int i" "i < n" unfolding upto_servers by blast
    from b obtain ls where st: "start1 (int i) (names j) ty (r j) (s\<lparr>cf_logs := ls\<rparr>) = Inr s'" using i(1) by auto
    have cl: "tester_reachable n (s\<lparr>cf_logs := ls\<rparr>)" by (rule tester_reachable.clear [OF s])
    then show ?thesis using start1_wired [OF st] tester_wired [OF cl] tester_reachable.start [OF cl i(2) st] i by simp
  qed
  have 1: "tester_reachable n c1"
    by (rule go_for_keeps [where P = "tester_reachable n", OF c1(1) 0]) (rule conjunct1 [OF starts])
  have n1: "cf_n c1 = n" using tester_wired [OF 1] by blast
  have run: "cf_rafts c1 ! i \<noteq> None" if "i < n" for i
  proof (rule go_for_reaches [where P = "tester_reachable n" and Q = "\<lambda>s. cf_rafts s ! i \<noteq> None" and j = "int i", OF c1(1) 0])
    fix k s s' assume k: "k \<in> set [0..int n - 1]" and s: "tester_reachable n s"
      and b: "go_bind (go_assign (cf_logs s) k []) (\<lambda>ls. start1 k (names k) ty (r k) (s\<lparr>cf_logs := ls\<rparr>)) = Inr s'"
    show "tester_reachable n s' \<and> (k = int i \<or> cf_rafts s ! i \<noteq> None \<longrightarrow> cf_rafts s' ! i \<noteq> None)"
      using starts [OF k s b] by auto
  qed (use that in simp)
  have "tester_reachable n cfg \<and> cf_rafts cfg = cf_rafts c1"
  proof (rule go_for_keeps [where P = "\<lambda>s. tester_reachable n s \<and> cf_rafts s = cf_rafts c1", OF c1(2)])
    fix j s s' assume j: "j \<in> set [0..int (cf_n c1) - 1]" and b: "connect j s = Inr s'"
      and s: "tester_reachable n s \<and> cf_rafts s = cf_rafts c1"
    from j obtain i where i: "j = int i" "i < n" unfolding upto_servers n1 by blast
    have w: "wired s" "cf_n s = n" using tester_wired s by blast+
    show "tester_reachable n s' \<and> cf_rafts s' = cf_rafts c1"
      using tester_reachable.connect [of n s i s'] connect_n [of i s s'] run i b s w by simp
  qed (simp add: 1)
  then show ?thesis ..
qed

text \<open>
  C7: In every configuration a test reaches by starting, crashing, connecting and disconnecting servers (a server is
  connected only while an instance of it runs), an end of the network is enabled exactly when it is an end of the latest
  instance of a connected server and leads to a connected server; both servers then run and the end is connected to the
  second one. So a crashed or superseded instance, or one cut off, can neither send nor be reached.
\<close>

theorem tester_isolation:
  assumes "tester_reachable n cfg"
  shows "get_enabled (cf_net cfg) e \<longleftrightarrow>
    (\<exists>i<n. \<exists>j<n. \<exists>es. cf_endnames cfg ! i = Some es \<and> e = Str (es ! j) \<and> cf_connected cfg ! i \<and> cf_connected cfg ! j \<and>
       cf_rafts cfg ! i \<noteq> None \<and> cf_rafts cfg ! j \<noteq> None \<and> get_connection (cf_net cfg) e = Some (Num (int j)))"
proof -
  have inv: "wired cfg" "cf_n cfg = n" using tester_wired [OF assms] by blast+
  have "get_enabled (cf_net cfg) e \<longleftrightarrow> (\<exists>i j x. wire cfg (i, j) = Some x \<and> e = Str x \<and> cf_connected cfg ! i \<and> cf_connected cfg ! j)"
    by (rule wiredD(4) [OF inv(1)])
  also have "\<dots> \<longleftrightarrow> (\<exists>i j x. wire cfg (i, j) = Some x \<and> e = Str x \<and> cf_connected cfg ! i \<and> cf_connected cfg ! j \<and>
      cf_rafts cfg ! i \<noteq> None \<and> cf_rafts cfg ! j \<noteq> None \<and> get_connection (cf_net cfg) e = Some (Num (int j)))"
    (is "?L \<longleftrightarrow> ?R")
  proof (rule iffI)
    assume ?L
    then obtain i j x where w: "wire cfg (i, j) = Some x" "e = Str x" "cf_connected cfg ! i" "cf_connected cfg ! j" by blast
    moreover have "cf_rafts cfg ! i \<noteq> None" "cf_rafts cfg ! j \<noteq> None"
      using wiredD(8) [OF inv(1)] wire_bound [OF w(1)] w(3,4) by simp_all
    moreover have "get_connection (cf_net cfg) e = Some (Num (int j))" using wiredD(5) [OF inv(1) w(1)] w(2) by simp
    ultimately show ?R by blast
  next
    assume ?R
    then show ?L by (elim exE conjE) (intro exI conjI)
  qed
  also have "\<dots> \<longleftrightarrow> (\<exists>i<n. \<exists>j<n. \<exists>es. cf_endnames cfg ! i = Some es \<and> e = Str (es ! j) \<and> cf_connected cfg ! i \<and>
      cf_connected cfg ! j \<and> cf_rafts cfg ! i \<noteq> None \<and> cf_rafts cfg ! j \<noteq> None \<and>
      get_connection (cf_net cfg) e = Some (Num (int j)))"
    by (auto simp: wire_def inv(2))
  finally show ?thesis .
qed


text \<open>Three servers, of which one is cut off.\<close>

definition sample_names :: "int \<Rightarrow> int \<Rightarrow> string" where
  "sample_names i j = [char_of (nat i), char_of (nat j)]"

definition sample_config :: "(nat, nat) config go" where
  "sample_config = go_bind (make_config 3 False 0 sample_names [] (\<lambda>_. 0)) (disconnect 1)"

lemma sample_ends:
  "(case sample_config of Inl _ \<Rightarrow> [] | Inr cfg \<Rightarrow>
      map (\<lambda>(i, j). get_enabled (cf_net cfg) (Str (sample_names i j))) [(0, 2), (2, 0), (0, 1), (1, 2)]) =
    [True, True, False, False]"
  by code_simp

theorem tester_isolation_witness:
  "\<exists>cfg :: (nat, nat) config. tester_reachable 3 cfg \<and> get_enabled (cf_net cfg) (Str (sample_names 0 2)) \<and>
     (\<exists>i<3. \<exists>j<3. \<exists>es. cf_endnames cfg ! i = Some es \<and> Str (sample_names 0 2) = Str (es ! j) \<and>
        cf_rafts cfg ! i \<noteq> None \<and> cf_rafts cfg ! j \<noteq> None \<and> get_connection (cf_net cfg) (Str (sample_names 0 2)) = Some (Num (int j)))"
proof -
  obtain cfg where cfg: "sample_config = Inr cfg" "get_enabled (cf_net cfg) (Str (sample_names 0 2))"
  proof (cases sample_config)
    case (Inl stop)
    show ?thesis using sample_ends unfolding Inl by simp
  next
    case (Inr cfg)
    show ?thesis using sample_ends unfolding Inr by (intro that [OF Inr]) simp
  qed
  from cfg(1) obtain c1 where c1: "make_config 3 False 0 sample_names [] (\<lambda>_. 0) = Inr c1" "disconnect (int 1) c1 = Inr cfg"
    by (auto simp: sample_config_def)
  have "tester_reachable 3 cfg"
    by (rule tester_reachable.disconnect [OF make_config_reachable [OF c1(1)] _ c1(2)]) simp
  with tester_isolation [OF this, of "Str (sample_names 0 2)"] cfg(2) show ?thesis by blast
qed

end
