(* ===== verification/Tester_Checks.thy ===== *)
theory Tester_Checks
  imports Tester_Wiring
begin

text \<open>
  What the checks of \<open>raft/config.go\<close> mean for the peers. The readers of the apply channels stop
  the test exactly on a disagreement or a gap, and never do so in an orderly run; \<open>checkOneLeader\<close>
  never sees two leaders of a term; \<open>one\<close> ends, and an index it returns holds the command on as many
  servers as asked for; a snapshot of the harness comes back as it was.
\<close>

section \<open>The readers of the apply channels\<close>

definition agrees :: "('c, 'd) ApplyMsg \<Rightarrow> (int, 'c option) gomap list \<Rightarrow> bool" where
  "agrees m ls \<longleftrightarrow> (\<forall>l\<in>set ls. \<forall>v. gm_get l (CommandIndex m) = Some v \<longrightarrow> v = Command m)"

lemma check_each_NoMsg: "check_each i m j ls err = NoMsg \<longleftrightarrow> err = NoMsg \<and> agrees m ls"
proof (induction ls arbitrary: j err)
  case (Cons l ls)
  show ?case by (cases "gm_get l (CommandIndex m)") (auto simp: Cons.IH agrees_def)
qed (simp add: agrees_def)

definition recorded :: "nat \<Rightarrow> ('c, 'd) ApplyMsg \<Rightarrow> ('c, 'v) config \<Rightarrow> ('c, 'v) config" where
  "recorded i m cfg = cfg\<lparr>cf_logs := (cf_logs cfg)[i := gm_put (CommandIndex m) (Command m) (cf_logs cfg ! i)],
     cf_maxIndex := max (cf_maxIndex cfg) (CommandIndex m)\<rparr>"

lemma applier_msg_eq:
  assumes "i < length (cf_logs cfg)" and "CommandValid m"
  shows "applier_msg (int i) m cfg =
    (if agrees m (cf_logs cfg) \<and> (CommandIndex m > 1 \<longrightarrow> gm_get (cf_logs cfg ! i) (CommandIndex m - 1) \<noteq> None)
     then Inr (recorded i m cfg) else Inl (LogFatal ''apply error''))"
proof -
  let ?cfg = "cfg\<lparr>cf_logs := (cf_logs cfg)[i := gm_put (CommandIndex m) (Command m) (cf_logs cfg ! i)]\<rparr>"
  have "checkLogs (int i) m cfg = Inr (recorded i m cfg, check_each (int i) m 0 (cf_logs cfg) NoMsg,
      gm_get (cf_logs cfg ! i) (CommandIndex m - 1) \<noteq> None)"
    using assms(1) by (simp add: checkLogs_def go_index_def recorded_def max_def Let_def)
  then show ?thesis using assms(2) check_each_NoMsg [of "int i" m 0 "cf_logs cfg" NoMsg] by (auto simp: applier_msg_def Let_def)
qed

text \<open>A queue of messages that can be read in order when the indices in \<open>D\<close> have been read.\<close>

fun steady :: "int set \<Rightarrow> ('c, 'd) ApplyMsg list \<Rightarrow> bool" where
  "steady D [] = True"
| "steady D (m # q) = ((CommandIndex m > 1 \<longrightarrow> CommandIndex m - 1 \<in> D) \<and> steady (insert (CommandIndex m) D) q)"

lemma steady_mono: "steady D q \<Longrightarrow> D \<subseteq> D' \<Longrightarrow> steady D' q"
proof (induction q arbitrary: D D')
  case (Cons m q)
  have "insert (CommandIndex m) D \<subseteq> insert (CommandIndex m) D'" using Cons.prems(2) by blast
  then have "steady (insert (CommandIndex m) D') q" using Cons by auto
  then show ?case using Cons.prems by auto
qed simp

lemma steady_append: "steady D (q @ r) \<longleftrightarrow> steady D q \<and> steady (D \<union> CommandIndex ` set q) r"
proof (induction q arbitrary: D)
  case (Cons m q)
  have "insert (CommandIndex m) D \<union> CommandIndex ` set q = D \<union> CommandIndex ` set (m # q)" by auto
  then show ?case using Cons.IH [of "insert (CommandIndex m) D"] by simp
qed simp

lemma steady_upto: "map CommandIndex q = [a + 1..b] \<Longrightarrow> {1..a} \<subseteq> D \<Longrightarrow> steady D q"
proof (induction q arbitrary: a D)
  case (Cons m q)
  have ab: "a + 1 \<le> b" using Cons.prems(1) by (cases "a + 1 \<le> b") auto
  then have m: "CommandIndex m = a + 1" "map CommandIndex q = [a + 1 + 1..b]"
    using Cons.prems(1) by (simp_all add: upto_rec1)
  have "{1..a + 1} \<subseteq> insert (CommandIndex m) D" using Cons.prems(2) m(1) by force
  then have "steady (insert (CommandIndex m) D) q" by (rule Cons.IH [OF m(2)])
  then show ?case using m(1) Cons.prems(2) by auto
qed simp

section \<open>What a peer sends on its channel\<close>

definition chan_ok :: "('c, 'd) Raft \<Rightarrow> bool" where
  "chan_ok rf \<longleftrightarrow> 0 \<le> lastApplied rf \<and> map CommandIndex (applyChan rf) = [1..lastApplied rf] \<and>
     (\<forall>m\<in>set (applyChan rf). CommandValid m)"

lemma chan_ok_extend:
  assumes "chan_ok rf" and "lastApplied rf2 = lastApplied rf" and "lastApplied rf \<le> t"
    and "lastApplied rf' = t" and "applyChan rf' = applyChan rf @ applied_msgs rf2 t"
  shows "chan_ok rf'"
proof -
  have idx: "map CommandIndex (applied_msgs rf2 t) = [lastApplied rf + 1..t]"
    by (simp add: applied_msgs_def comp_def commandMsg_def assms(2))
  moreover have "[1..lastApplied rf] @ [lastApplied rf + 1..t] = [1..t]"
  proof (cases "lastApplied rf = 0")
    case False
    then show ?thesis using assms(1,3) upto_split2 [of 1 "lastApplied rf" t] by (simp add: chan_ok_def)
  qed simp
  moreover have "\<forall>m\<in>set (applied_msgs rf2 t). CommandValid m" by (auto simp: applied_msgs_def commandMsg_def)
  ultimately show ?thesis using assms(1,3,4,5) by (auto simp: chan_ok_def)
qed

lemma chan_ok_step:
  assumes g: "good_step n C D s s'" and v: "v < n" and ch: "chan_ok (srv s v)"
  shows "chan_ok (srv s' v)"
proof -
  let ?rf = "srv s v" and ?rf' = "srv s' v"
  have ok: "peer_ok ?rf" by (rule good_step_log(1) [OF g v])
  from good_step_peffect [OF g v] show ?thesis
  proof cases
    case keep
    then show ?thesis using ch by (simp add: lkeep_def chan_ok_def)
  next
    case (start c)
    then show ?thesis using ch by (simp add: chan_ok_def Unlock_def)
  next
    case (append k a)
    show ?thesis
    proof (cases "lastApplied ?rf < ae_LeaderCommit a")
      case True
      from append_done_msgs [OF ok True] obtain rf2 where
        "applyChan ?rf' = applyChan ?rf @ applied_msgs rf2 (ae_LeaderCommit a)" "lastApplied rf2 = lastApplied ?rf"
        using append(1) by auto
      moreover have "lastApplied ?rf' = ae_LeaderCommit a" using True append(1) by simp
      ultimately show ?thesis using chan_ok_extend [OF ch, of rf2 "ae_LeaderCommit a" ?rf'] True by simp
    next
      case False
      then have "applyChan ?rf' = applyChan ?rf" "lastApplied ?rf' = lastApplied ?rf"
        using append(1) by (simp_all add: append_done_def Let_def Unlock_def)
      then show ?thesis using ch by (simp add: chan_ok_def)
    qed
  next
    case (commit k j a reply)
    note c = commits_fields [OF ok commit(4)]
    show ?thesis
    proof (cases "lastApplied ?rf < ae_LogIndex a")
      case True
      then show ?thesis using chan_ok_extend [OF ch, of ?rf "ae_LogIndex a" ?rf'] c by simp
    next
      case False
      then show ?thesis using c ch by (simp add: chan_ok_def)
    qed
  next
    case (restart r)
    show ?thesis using restart_fields [OF ok restart] by (simp add: chan_ok_def)
  qed
qed

section \<open>A test of a group\<close>

text \<open>
  The group and the readers together. \<open>pend i\<close> is what the reader of the running instance of
  server \<open>i\<close> has still to read, \<open>old\<close> the same for readers of crashed instances, which go on. The
  other calls of the harness change everything but the recorded logs.
\<close>

definition unread :: "('c, 'd) cluster \<Rightarrow> ('c, 'd) cluster \<Rightarrow> (nat \<Rightarrow> ('c, 'd) ApplyMsg list) \<Rightarrow> nat \<Rightarrow> ('c, 'd) ApplyMsg list" where
  "unread s s' pend i =
     (if prefix (applyChan (srv s i)) (applyChan (srv s' i))
      then pend i @ drop (length (applyChan (srv s i))) (applyChan (srv s' i)) else applyChan (srv s' i))"

definition left_behind :: "nat \<Rightarrow> ('c, 'd) cluster \<Rightarrow> ('c, 'd) cluster \<Rightarrow> (nat \<Rightarrow> ('c, 'd) ApplyMsg list) \<Rightarrow>
    (nat \<times> ('c, 'd) ApplyMsg list) list" where
  "left_behind n s s' pend =
     map (\<lambda>i. (i, pend i)) (filter (\<lambda>i. \<not> prefix (applyChan (srv s i)) (applyChan (srv s' i))) [0..<n])"

inductive test_run :: "nat \<Rightarrow> ('c, 'd) cluster \<Rightarrow> ('c, 'v) config \<Rightarrow> (nat \<Rightarrow> ('c, 'd) ApplyMsg list) \<Rightarrow>
    (nat \<times> ('c, 'd) ApplyMsg list) list \<Rightarrow> bool" for n :: nat where
  init: "test_run n (init_cluster n r) (new_config n now) (\<lambda>_. []) []"
| group: "test_run n s cfg pend old \<Longrightarrow> cstep n s s' \<Longrightarrow> snapless n s' \<Longrightarrow> no_cut n s s' \<Longrightarrow>
    test_run n s' cfg (unread s s' pend) (old @ left_behind n s s' pend)"
| read: "test_run n s cfg pend old \<Longrightarrow> i < n \<Longrightarrow> pend i = m # q \<Longrightarrow> applier_msg (int i) m cfg = Inr cfg' \<Longrightarrow>
    test_run n s cfg' (pend(i := q)) old"
| read_old: "test_run n s cfg pend old \<Longrightarrow> k < length old \<Longrightarrow> old ! k = (i, m # q) \<Longrightarrow> applier_msg (int i) m cfg = Inr cfg' \<Longrightarrow>
    test_run n s cfg' pend (old[k := (i, q)])"
| harness: "test_run n s cfg pend old \<Longrightarrow> cf_logs cfg' = cf_logs cfg \<Longrightarrow> test_run n s cfg' pend old"

definition queue_ok :: "(int \<times> 'c option) set \<Rightarrow> (int, 'c option) gomap \<Rightarrow> ('c, 'd) ApplyMsg list \<Rightarrow> bool" where
  "queue_ok H l q \<longleftrightarrow> steady (dom (gm_get l)) q \<and> (\<forall>m\<in>set q. CommandValid m \<and> (CommandIndex m, Command m) \<in> H)"

definition read_inv :: "nat \<Rightarrow> (int \<times> 'c option) set \<Rightarrow> ('c, 'd) cluster \<Rightarrow> ('c, 'v) config \<Rightarrow>
    (nat \<Rightarrow> ('c, 'd) ApplyMsg list) \<Rightarrow> (nat \<times> ('c, 'd) ApplyMsg list) list \<Rightarrow> bool" where
  "read_inv n H s cfg pend old \<longleftrightarrow> length (cf_logs cfg) = n \<and>
     (\<forall>i<n. \<forall>x v. gm_get (cf_logs cfg ! i) x = Some v \<longrightarrow> (x, v) \<in> H) \<and>
     (\<forall>i<n. chan_ok (srv s i) \<and> queue_ok H (cf_logs cfg ! i) (pend i) \<and>
        {1..lastApplied (srv s i)} \<subseteq> dom (gm_get (cf_logs cfg ! i)) \<union> CommandIndex ` set (pend i)) \<and>
     (\<forall>(i, q)\<in>set old. i < n \<and> queue_ok H (cf_logs cfg ! i) q)"

lemma queue_ok_mono: "queue_ok H l q \<Longrightarrow> H \<subseteq> H' \<Longrightarrow> queue_ok H' l q"
  unfolding queue_ok_def by blast

lemma chan_delivered:
  assumes "chan_ok (srv s i)" and "i < n" and "m \<in> set (applyChan (srv s i))"
  shows "CommandValid m \<and> (CommandIndex m, Command m) \<in> delivered n s"
  using assms unfolding chan_ok_def delivered_def by blast

text \<open>New messages follow those sent before.\<close>

lemma unread_ok:
  assumes ch: "chan_ok (srv s i)" and ch': "chan_ok (srv s' i)" and i: "i < n"
    and q: "queue_ok H l (pend i)" and c: "{1..lastApplied (srv s i)} \<subseteq> dom (gm_get l) \<union> CommandIndex ` set (pend i)"
    and H: "delivered n s' \<subseteq> H"
  shows "queue_ok H l (unread s s' pend i) \<and>
    {1..lastApplied (srv s' i)} \<subseteq> dom (gm_get l) \<union> CommandIndex ` set (unread s s' pend i)"
proof -
  let ?ch = "applyChan (srv s i)" and ?ch' = "applyChan (srv s' i)" and ?la = "lastApplied (srv s i)" and ?la' = "lastApplied (srv s' i)"
  have idx: "map CommandIndex ?ch = [1..?la]" "map CommandIndex ?ch' = [1..?la']" "0 \<le> ?la" "0 \<le> ?la'"
    using ch ch' by (simp_all add: chan_ok_def)
  have all: "CommandValid m \<and> (CommandIndex m, Command m) \<in> H" if "m \<in> set ?ch'" for m
    using chan_delivered [OF ch' i that] H by blast
  have set: "CommandIndex ` set ?ch' = {1..?la'}" using arg_cong [OF idx(2), of set] by simp
  show ?thesis
  proof (cases "prefix ?ch ?ch'")
    case False
    have "steady (dom (gm_get l)) ?ch'" using idx(2) by (intro steady_upto [of _ 0]) auto
    then show ?thesis using False all set by (auto simp: unread_def queue_ok_def)
  next
    case True
    then obtain new where new: "?ch' = ?ch @ new" by (rule prefixE)
    have len: "length ?ch = nat ?la" "length ?ch' = nat ?la'" using arg_cong [OF idx(1), of length] arg_cong [OF idx(2), of length] by simp_all
    then have le: "?la \<le> ?la'" using new idx(3,4) by auto
    have split: "[1..?la'] = [1..?la] @ [?la + 1..?la']"
    proof (cases "?la = 0")
      case False
      then show ?thesis using le idx(3) by (intro upto_split2) simp_all
    qed simp
    then have nidx: "map CommandIndex new = [?la + 1..?la']" using idx(1,2) new by simp
    have "steady (dom (gm_get l) \<union> CommandIndex ` set (pend i)) new" by (rule steady_upto [OF nidx c])
    then have st: "steady (dom (gm_get l)) (pend i @ new)" using q by (simp add: steady_append queue_ok_def)
    have u: "unread s s' pend i = pend i @ new" using True new by (simp add: unread_def)
    have "CommandIndex ` set new = {?la + 1..?la'}" using arg_cong [OF nidx, of set] by simp
    then have "{1..?la'} \<subseteq> dom (gm_get l) \<union> CommandIndex ` set (pend i @ new)" using c by force
    then show ?thesis using st q all new unfolding u queue_ok_def by auto
  qed
qed

lemma read_inv_group:
  assumes inv: "read_inv n H s cfg pend old" and ch: "\<And>i. i < n \<Longrightarrow> chan_ok (srv s' i)"
    and H: "H \<union> delivered n s' \<subseteq> H'"
  shows "read_inv n H' s' cfg (unread s s' pend) (old @ left_behind n s s' pend)"
proof -
  have old: "length (cf_logs cfg) = n" "\<And>i x v. i < n \<Longrightarrow> gm_get (cf_logs cfg ! i) x = Some v \<Longrightarrow> (x, v) \<in> H"
    "\<And>i. i < n \<Longrightarrow> chan_ok (srv s i) \<and> queue_ok H (cf_logs cfg ! i) (pend i) \<and>
        {1..lastApplied (srv s i)} \<subseteq> dom (gm_get (cf_logs cfg ! i)) \<union> CommandIndex ` set (pend i)"
    "\<And>i q. (i, q) \<in> set old \<Longrightarrow> i < n \<and> queue_ok H (cf_logs cfg ! i) q"
    using inv unfolding read_inv_def by blast+
  have HH: "H \<subseteq> H'" "delivered n s' \<subseteq> H'" using H by blast+
  have q: "queue_ok H' (cf_logs cfg ! i) (pend i)" if "i < n" for i using old(3) [OF that] HH(1) queue_ok_mono by blast
  have "queue_ok H' (cf_logs cfg ! i) (unread s s' pend i) \<and>
      {1..lastApplied (srv s' i)} \<subseteq> dom (gm_get (cf_logs cfg ! i)) \<union> CommandIndex ` set (unread s s' pend i)" if "i < n" for i
    using unread_ok [where pend = pend, OF _ ch [OF that] that q [OF that] _ HH(2)] old(3) [OF that] by blast
  moreover have "i < n \<and> queue_ok H' (cf_logs cfg ! i) q'" if "(i, q') \<in> set (old @ left_behind n s s' pend)" for i q'
  proof (cases "(i, q') \<in> set old")
    case True
    then show ?thesis using old(4) queue_ok_mono [OF _ HH(1)] by blast
  next
    case False
    then show ?thesis using that q by (auto simp: left_behind_def)
  qed
  ultimately show ?thesis using old(1,2) ch HH(1) unfolding read_inv_def by blast
qed

text \<open>A message at the head of a queue is accepted, and the queues stay readable.\<close>

lemma read_accepts:
  assumes inv: "read_inv n H s cfg pend old" and run: "orderly_run n H s" and i: "i < n"
    and q: "queue_ok H (cf_logs cfg ! i) (m # q)"
  shows "applier_msg (int i) m cfg = Inr (recorded i m cfg)"
proof -
  have m: "CommandValid m" "(CommandIndex m, Command m) \<in> H" "CommandIndex m > 1 \<longrightarrow> CommandIndex m - 1 \<in> dom (gm_get (cf_logs cfg ! i))"
    using q by (simp_all add: queue_ok_def)
  have len: "length (cf_logs cfg) = n" using inv by (simp add: read_inv_def)
  have "agrees m (cf_logs cfg)"
    unfolding agrees_def
  proof (intro ballI allI impI)
    fix l v assume "l \<in> set (cf_logs cfg)" "gm_get l (CommandIndex m) = Some v"
    then obtain j where "j < n" "gm_get (cf_logs cfg ! j) (CommandIndex m) = Some v" using len by (auto simp: in_set_conv_nth)
    then have "(CommandIndex m, v) \<in> H" using inv unfolding read_inv_def by blast
    then show "v = Command m" by (rule state_machine_safe [OF run _ m(2)])
  qed
  then show ?thesis using m(1,3) i len by (simp add: applier_msg_eq dom_def)
qed

lemma queue_ok_record:
  assumes "queue_ok H (cf_logs cfg ! j) q" and "i < length (cf_logs cfg)"
  shows "queue_ok H (cf_logs (recorded i m cfg) ! j) q"
proof -
  have "dom (gm_get (cf_logs cfg ! j)) \<subseteq> dom (gm_get (cf_logs (recorded i m cfg) ! j))"
    using assms(2) by (cases "j = i") (auto simp: recorded_def)
  then show ?thesis using assms(1) steady_mono unfolding queue_ok_def by blast
qed

lemma un_swap: "A \<union> E \<subseteq> A' \<Longrightarrow> B \<subseteq> B' \<union> E \<Longrightarrow> A \<union> B \<subseteq> A' \<union> B'"
  by blast

lemma chan_ok_init: "chan_ok (srv (init_cluster n r) i)"
  by (simp add: chan_ok_def init_cluster_def Make_def ReadRaftState_def MakePersister_def readPersist_def)

lemma applyChan_init: "applyChan (srv (init_cluster n r) i) = []"
  by (simp add: init_cluster_def Make_def ReadRaftState_def MakePersister_def readPersist_def)

lemma lastApplied_init: "lastApplied (srv (init_cluster n r) i) = 0"
  by (simp add: init_cluster_def Make_def ReadRaftState_def MakePersister_def readPersist_def)

lemma read_inv_read:
  assumes inv: "read_inv n H s cfg pend old" and i: "i < n" and m: "(CommandIndex m, Command m) \<in> H"
    and pend': "\<And>j. j < n \<Longrightarrow> queue_ok H (cf_logs (recorded i m cfg) ! j) (pend' j) \<and>
      CommandIndex ` set (pend j) \<subseteq> CommandIndex ` set (pend' j) \<union> (if j = i then {CommandIndex m} else {})"
    and old': "\<And>j q. (j, q) \<in> set old' \<Longrightarrow> j < n \<and> queue_ok H (cf_logs (recorded i m cfg) ! j) q"
  shows "read_inv n H s (recorded i m cfg) pend' old'"
proof -
  let ?cfg = "recorded i m cfg"
  have len: "length (cf_logs cfg) = n" using inv by (simp add: read_inv_def)
  have get: "gm_get (cf_logs ?cfg ! j) = (if j = i then (gm_get (cf_logs cfg ! i))(CommandIndex m \<mapsto> Command m) else gm_get (cf_logs cfg ! j))" for j
    using i len by (simp add: recorded_def)
  have "(x, v) \<in> H" if "j < n" "gm_get (cf_logs ?cfg ! j) x = Some v" for j x v
    using that inv m i unfolding get read_inv_def by (auto split: if_splits)
  moreover have "chan_ok (srv s j) \<and> {1..lastApplied (srv s j)} \<subseteq> dom (gm_get (cf_logs ?cfg ! j)) \<union> CommandIndex ` set (pend' j)" if "j < n" for j
  proof -
    have c: "chan_ok (srv s j)" "{1..lastApplied (srv s j)} \<subseteq> dom (gm_get (cf_logs cfg ! j)) \<union> CommandIndex ` set (pend j)"
      using inv that unfolding read_inv_def by blast+
    have "dom (gm_get (cf_logs cfg ! j)) \<union> (if j = i then {CommandIndex m} else {}) \<subseteq> dom (gm_get (cf_logs ?cfg ! j))"
      by (auto simp: get)
    moreover have "CommandIndex ` set (pend j) \<subseteq> CommandIndex ` set (pend' j) \<union> (if j = i then {CommandIndex m} else {})"
      using pend' [OF that] by (rule conjunct2)
    ultimately have "dom (gm_get (cf_logs cfg ! j)) \<union> CommandIndex ` set (pend j) \<subseteq>
        dom (gm_get (cf_logs ?cfg ! j)) \<union> CommandIndex ` set (pend' j)" by (rule un_swap)
    with c(2) have "{1..lastApplied (srv s j)} \<subseteq> dom (gm_get (cf_logs ?cfg ! j)) \<union> CommandIndex ` set (pend' j)"
      by (rule order_trans)
    then show ?thesis using c(1) by (intro conjI)
  qed
  moreover have "length (cf_logs ?cfg) = n" using len by (simp add: recorded_def)
  ultimately show ?thesis using pend' old' unfolding read_inv_def by blast
qed

text \<open>The rest of a queue after its head is recorded.\<close>

lemma queue_ok_tail:
  assumes "queue_ok H (cf_logs cfg ! i) (m # q)" and "i < length (cf_logs cfg)"
  shows "queue_ok H (cf_logs (recorded i m cfg) ! i) q"
proof -
  have "dom (gm_get (cf_logs (recorded i m cfg) ! i)) = insert (CommandIndex m) (dom (gm_get (cf_logs cfg ! i)))"
    using assms(2) by (simp add: recorded_def)
  then show ?thesis using assms(1) by (simp add: queue_ok_def)
qed

lemma test_inv:
  "test_run n s cfg pend old \<Longrightarrow> \<exists>H. orderly_run n H s \<and> read_inv n H s cfg pend old"
proof (induction rule: test_run.induct)
  case (init r now)
  have "read_inv n {} (init_cluster n r) (new_config n now) (\<lambda>_. []) []"
    by (simp add: read_inv_def queue_ok_def new_config_def chan_ok_init lastApplied_init)
  then show ?case using orderly_run.init by blast
next
  case (group s cfg pend old s')
  then obtain H where H: "orderly_run n H s" "read_inv n H s cfg pend old" by blast
  obtain C D where "commit_inv n C D s H" using orderly_inv [OF H(1)] by blast
  then have g: "good_step n C D s s'" using group(2,3) cstep_cinv [OF group(2)] by (simp add: good_step_def commit_inv_def)
  have "chan_ok (srv s' i)" if "i < n" for i using chan_ok_step [OF g that] H(2) that unfolding read_inv_def by blast
  then have "read_inv n (H \<union> delivered n s') s' cfg (unread s s' pend) (old @ left_behind n s s' pend)"
    by (intro read_inv_group [OF H(2)]) auto
  then show ?case using orderly_run.step [OF H(1) group(2-4)] by blast
next
  case (read s cfg pend old i m q cfg')
  then obtain H where H: "orderly_run n H s" "read_inv n H s cfg pend old" by blast
  have len: "length (cf_logs cfg) = n" using H(2) by (simp add: read_inv_def)
  have q: "queue_ok H (cf_logs cfg ! i) (m # q)" using H(2) read(2,3) unfolding read_inv_def by (metis)
  have c: "cfg' = recorded i m cfg" using read_accepts [OF H(2,1) read(2) q] read(4) by simp
  have "read_inv n H s (recorded i m cfg) (pend(i := q)) old"
  proof (rule read_inv_read [OF H(2) read(2)])
    show "(CommandIndex m, Command m) \<in> H" using q by (simp add: queue_ok_def)
    show "queue_ok H (cf_logs (recorded i m cfg) ! j) ((pend(i := q)) j) \<and>
      CommandIndex ` set (pend j) \<subseteq> CommandIndex ` set ((pend(i := q)) j) \<union> (if j = i then {CommandIndex m} else {})" if "j < n" for j
    proof (cases "j = i")
      case True
      then show ?thesis using queue_ok_tail [OF q] read(2,3) len by auto
    next
      case False
      have "queue_ok H (cf_logs cfg ! j) (pend j)" using H(2) that unfolding read_inv_def by blast
      then show ?thesis using queue_ok_record [of H cfg j "pend j" i] False read(2) len by simp
    qed
    show "j < n \<and> queue_ok H (cf_logs (recorded i m cfg) ! j) q'" if "(j, q') \<in> set old" for j q'
      using that H(2) queue_ok_record [of H cfg j q' i] read(2) len unfolding read_inv_def by blast
  qed
  then show ?case using H(1) c by blast
next
  case (read_old s cfg pend old k i m q cfg')
  then obtain H where H: "orderly_run n H s" "read_inv n H s cfg pend old" by blast
  have len: "length (cf_logs cfg) = n" using H(2) by (simp add: read_inv_def)
  have "(i, m # q) \<in> set old" using read_old(2,3) by (metis nth_mem)
  then have q: "i < n" "queue_ok H (cf_logs cfg ! i) (m # q)" using H(2) unfolding read_inv_def by blast+
  have c: "cfg' = recorded i m cfg" using read_accepts [OF H(2,1) q] read_old(4) by simp
  have "read_inv n H s (recorded i m cfg) pend (old[k := (i, q)])"
  proof (rule read_inv_read [OF H(2) q(1)])
    show "(CommandIndex m, Command m) \<in> H" using q by (simp add: queue_ok_def)
    show "queue_ok H (cf_logs (recorded i m cfg) ! j) (pend j) \<and>
      CommandIndex ` set (pend j) \<subseteq> CommandIndex ` set (pend j) \<union> (if j = i then {CommandIndex m} else {})" if "j < n" for j
      using that H(2) queue_ok_record [of H cfg j "pend j" i] q(1) len unfolding read_inv_def by blast
    show "j < n \<and> queue_ok H (cf_logs (recorded i m cfg) ! j) q'" if "(j, q') \<in> set (old[k := (i, q)])" for j q'
    proof (cases "(j, q') = (i, q)")
      case True
      then show ?thesis using queue_ok_tail [OF q(2)] q(1) len by simp
    next
      case False
      then have "(j, q') \<in> set old" using that set_update_subset_insert [of old k "(i, q)"] by blast
      then show ?thesis using H(2) queue_ok_record [of H cfg j q' i] q(1) len unfolding read_inv_def by blast
    qed
  qed
  then show ?case using H(1) c by blast
next
  case (harness s cfg pend old cfg')
  then obtain H where H: "orderly_run n H s" "read_inv n H s cfg pend old" by blast
  then have "read_inv n H s cfg' pend old" using harness(2) by (simp add: read_inv_def)
  then show ?case using H(1) by blast
qed

text \<open>
  C6: The readers of the apply channels never stop a test of an orderly run: whatever message a
  reader takes next, of a running or of a crashed instance, the check of \<open>checkLogs\<close> against the
  logs of all servers succeeds and no index is skipped.
\<close>

theorem tester_accepts:
  assumes "test_run n s cfg pend old"
    and "i < n \<and> pend i = m # q \<or> (i, m # q) \<in> set old"
  shows "applier_msg (int i) m cfg = Inr (recorded i m cfg)"
proof -
  obtain H where H: "orderly_run n H s" "read_inv n H s cfg pend old" using test_inv [OF assms(1)] by blast
  have "i < n \<and> queue_ok H (cf_logs cfg ! i) (m # q)" using assms(2)
  proof
    assume "i < n \<and> pend i = m # q"
    then have "i < n" "queue_ok H (cf_logs cfg ! i) (pend i)" "pend i = m # q" using H(2) unfolding read_inv_def by blast+
    then show ?thesis by simp
  next
    assume "(i, m # q) \<in> set old"
    then show ?thesis using H(2) unfolding read_inv_def by blast
  qed
  then show ?thesis using read_accepts [OF H(2,1)] by blast
qed

section \<open>An executed test\<close>

lemma unread_all: "unread s s' (\<lambda>i. applyChan (srv s i)) = (\<lambda>i. applyChan (srv s' i))"
  by (auto simp: unread_def fun_eq_iff elim!: prefixE)

lemma test_run_orderly: "test_run n s cfg pend old \<Longrightarrow> \<exists>H. orderly_run n H s"
  using test_inv by blast

lemma two_steps_test:
  assumes run: "test_run n s cfg (\<lambda>i. applyChan (srv s i)) old" and "two_steps n s s'" and "snapless n s'" and "no_cut n s s'"
  shows "\<exists>old'. test_run n s' cfg (\<lambda>i. applyChan (srv s' i)) old'"
  using assms(2)
proof (rule two_steps_cases)
  obtain H where "orderly_run n H s" using test_run_orderly [OF run] by blast
  then show "snapless n s" using orderly_inv unfolding commit_inv_def by blast
next
  assume "cstep n s s'"
  then show ?thesis using test_run.group [OF run _ assms(3,4)] unfolding unread_all by blast
next
  fix s1 assume s1: "cstep n s s1" "cstep n s1 s'" "snapless n s1" "\<And>i. logs (srv s1 i) = logs (srv s i)"
  have "no_cut n s s1" "no_cut n s1 s'" using assms(4) s1(4) by (simp_all add: no_cut_def)
  then show ?thesis
    using test_run.group [OF test_run.group [OF run s1(1,3), unfolded unread_all] s1(2) assms(3)] unfolding unread_all by blast
qed

lemma xrun_test:
  assumes "xrun True n x es = Some x'" and "sim n x s" and "test_run n s cfg (\<lambda>i. applyChan (srv s i)) old"
  shows "\<exists>s' old'. test_run n s' cfg (\<lambda>i. applyChan (srv s' i)) old' \<and> sim n x' s'"
  using assms
proof (induction es arbitrary: x s old)
  case (Cons e es)
  from Cons.prems(1) obtain x1 where x1: "xstep n x e = Some x1" "x_plain x1" "x_nocut x x1" "xrun True n x1 es = Some x'"
    by (auto split: option.splits if_splits)
  from xstep_sim [OF Cons.prems(2) x1(1)] obtain s1 where s1: "two_steps n s s1" "sim n x1 s1" by blast
  have "snapless n s1" "no_cut n s s1"
    using x1(2,3) sim_snapless [OF s1(2)] sim_nocut [OF Cons.prems(2) s1(2)] by blast+
  from two_steps_test [OF Cons.prems(3) s1(1) this] show ?case using Cons.IH [OF x1(4) s1(2)] by blast
qed auto

definition test_events :: "nat Raft_Runs.event list" where
  "test_events = [Tick 0, RecvVote 0 1, CountVote 0 1, StartCmd 0 7, Tick 0, RecvAppend 1 2, AppendReply 1 2]"

lemma test_events_run:
  "map_option (\<lambda>x. map applyChan (x_srv x)) (xrun True 3 (x_init 3 :: (nat, nat) xgroup) test_events) =
     Some [[commandMsg (Some 7) 1], [], []]"
  by code_simp

theorem tester_accepts_witness:
  "\<exists>(s :: (nat, nat) cluster) (cfg :: (nat, nat) config) pend old. test_run 3 s cfg pend old \<and> pend 0 = [commandMsg (Some 7) 1] \<and>
     applier_msg (int 0) (commandMsg (Some 7) 1 :: (nat, nat) ApplyMsg) cfg = Inr (recorded 0 (commandMsg (Some 7) 1 :: (nat, nat) ApplyMsg) cfg)"
proof -
  obtain x where x: "xrun True 3 (x_init 3 :: (nat, nat) xgroup) test_events = Some x"
    "map applyChan (x_srv x) = [[commandMsg (Some 7) 1], [], []]" using test_events_run by auto
  let ?s0 = "init_cluster 3 (\<lambda>_. 0) :: (nat, nat) cluster"
  have "(\<lambda>_. []) = (\<lambda>i. applyChan (srv ?s0 i))"
    by (simp add: applyChan_init)
  then have "test_run 3 ?s0 (new_config 3 0 :: (nat, nat) config) (\<lambda>i. applyChan (srv ?s0 i)) []" using test_run.init by metis
  from xrun_test [OF x(1) sim_init this] obtain s old where
    s: "test_run 3 s (new_config 3 0 :: (nat, nat) config) (\<lambda>i. applyChan (srv s i)) old" "sim 3 x s" by blast
  have "applyChan (srv s 0) = map applyChan (x_srv x) ! 0" using s(2) by (simp add: sim_def)
  then have p: "applyChan (srv s 0) = [commandMsg (Some 7) 1]" by (simp add: x(2))
  from tester_accepts [OF s(1), of 0 "commandMsg (Some 7) 1" "[]"] p s(1) show ?thesis by auto
qed

section \<open>Leaders\<close>

lemma elected_mono: "(cstep n)\<^sup>*\<^sup>* s s' \<Longrightarrow> elected s \<subseteq> elected s'"
  by (induction rule: rtranclp_induct) (use cstep_mono in blast)+

text \<open>The peers that the configuration points to are those of the group.\<close>

definition shows_group :: "nat \<Rightarrow> ('c, 'c gobval) cluster \<Rightarrow> ('c, 'v) config \<Rightarrow> bool" where
  "shows_group n s cfg \<longleftrightarrow> length (cf_rafts cfg) = n \<and> (\<forall>i<n. \<forall>rf. cf_rafts cfg ! i = Some rf \<longrightarrow> rf = srv s i)"

lemma ask_leader:
  assumes "ask look (int i) = Inr (Some (t, True))" and "shows_group n s (look (int i))" and "i < n"
  shows "myStatus (srv s i) = Leader \<and> currentTerm (srv s i) = t"
  using assms by (auto simp: ask_def shows_group_def GetState_def go_index_def Lock_def split: if_splits option.splits)

text \<open>The map of leaders by term.\<close>

definition votes_for :: "(int \<Rightarrow> ('c, 'v) config) \<Rightarrow> int set \<Rightarrow> (int, int list) gomap \<Rightarrow> bool" where
  "votes_for look J leaders \<longleftrightarrow> (\<forall>t is. gm_get leaders t = Some is \<longrightarrow> is \<noteq> []) \<and>
     (\<forall>t. distinct (leaders_at leaders t) \<and>
        set (leaders_at leaders t) = {j \<in> J. ask look j = Inr (Some (t, True))}) \<and> gm_ok leaders"

lemma votes_for_put:
  assumes "votes_for look J leaders" and "ask look i = Inr (Some (t, True))" and "i \<notin> J"
  shows "votes_for look (insert i J) (gm_put t (leaders_at leaders t @ [i]) leaders)"
proof -
  have "leaders_at (gm_put t (leaders_at leaders t @ [i]) leaders) t' =
      (if t' = t then leaders_at leaders t @ [i] else leaders_at leaders t')" for t'
    by (simp add: leaders_at_def)
  then show ?thesis using assms gm.invar_update [of leaders]
    unfolding votes_for_def by auto
qed

lemma gather_votes:
  assumes "go_for (gather_leader look) js leaders = Inr leaders'" and "votes_for look J leaders"
    and "distinct js" and "set js \<inter> J = {}"
  shows "votes_for look (J \<union> set js) leaders'"
  using assms
proof (induction js arbitrary: leaders J)
  case (Cons j js)
  from Cons.prems(1) obtain l1 where l1: "gather_leader look j leaders = Inr l1" "go_for (gather_leader look) js l1 = Inr leaders'"
    by auto
  then obtain a where a: "ask look j = Inr a" by (auto simp: gather_leader_def)
  have "votes_for look (insert j J) l1"
  proof (cases "\<exists>t. a = Some (t, True)")
    case True
    then obtain t where t: "a = Some (t, True)" by blast
    then have "l1 = gm_put t (leaders_at leaders t @ [j]) leaders" using l1(1) a by (simp add: gather_leader_def)
    then show ?thesis using votes_for_put [OF Cons.prems(2), of j t] a t Cons.prems(4) by auto
  next
    case False
    then have "l1 = leaders" using l1(1) a by (auto simp: gather_leader_def split: option.splits prod.splits bool.splits)
    moreover have "{j' \<in> insert j J. ask look j' = Inr (Some (t, True))} = {j' \<in> J. ask look j' = Inr (Some (t, True))}" for t
      using a False by auto
    ultimately show ?thesis using Cons.prems(2) unfolding votes_for_def by simp
  qed
  from Cons.IH [OF l1(2) this] show ?case using Cons.prems(3,4) by auto
qed simp

lemma last_term_max:
  assumes "\<And>t is. (t, is) \<in> set leaders \<Longrightarrow> length is \<le> 1"
  shows "\<exists>T. last_term leaders b = Inr T \<and> b \<le> T \<and> (\<forall>(t, is)\<in>set leaders. t \<le> T) \<and> (T = b \<or> T \<in> fst ` set leaders)"
  using assms
proof (induction leaders arbitrary: b)
  case (Cons x leaders)
  obtain t ls where x: "x = (t, ls)" by (cases x)
  let ?b = "if t > b then t else b"
  from Cons.IH [of ?b] Cons.prems obtain T where
    "last_term leaders ?b = Inr T" "?b \<le> T" "\<forall>(t, is)\<in>set leaders. t \<le> T" "T = ?b \<or> T \<in> fst ` set leaders" by auto
  moreover have "length ls \<le> 1" using Cons.prems [of t ls] x by simp
  ultimately show ?case unfolding x by (intro exI [of _ T]) (auto split: if_splits)
qed simp

text \<open>One round: at most one leader per term, and the answer is the leader of the newest term.\<close>

lemma round_sound:
  assumes gather: "go_for (gather_leader look) [0..int n - 1] [] = Inr leaders"
    and one: "\<And>i j t. ask look i = Inr (Some (t, True)) \<Longrightarrow> ask look j = Inr (Some (t, True)) \<Longrightarrow>
      i \<in> set [0..int n - 1] \<Longrightarrow> j \<in> set [0..int n - 1] \<Longrightarrow> i = j"
  shows "\<exists>T. last_term leaders (-1) = Inr T \<and> (\<forall>l. go_index (leaders_at leaders T) 0 = Inr l \<longrightarrow>
      l \<in> set [0..int n - 1] \<and> ask look l = Inr (Some (T, True)) \<and>
      (\<forall>j\<in>set [0..int n - 1]. \<forall>t. ask look j = Inr (Some (t, True)) \<longrightarrow> t \<le> T))"
proof -
  have "votes_for look {} []" by (simp add: votes_for_def leaders_at_def)
  from gather_votes [OF gather this] have v: "votes_for look (set [0..int n - 1]) leaders" by simp
  have get: "gm_get leaders t = Some is \<longleftrightarrow> (t, is) \<in> set leaders" for t "is"
    using v unfolding votes_for_def gm_ok_def gm_get_def by (simp add: map_of_eq_Some_iff)
  have sing: "length ls \<le> 1" if "(t, ls) \<in> set leaders" for t ls
  proof -
    have "gm_get leaders t = Some ls" using that get by blast
    then have "ls = leaders_at leaders t" by (simp add: leaders_at_def)
    then have d: "distinct ls" "set ls = {j \<in> set [0..int n - 1]. ask look j = Inr (Some (t, True))}"
      using v unfolding votes_for_def by blast+
    have "\<exists>j. set ls \<subseteq> {j}" unfolding d(2) using one by blast
    then have "card (set ls) \<le> 1" by (metis card.empty card.insert card_mono empty_iff finite.emptyI finite.insertI One_nat_def)
    then show ?thesis using distinct_card [OF d(1)] by simp
  qed
  from last_term_max [of leaders "-1"] sing obtain T where
    T: "last_term leaders (-1) = Inr T" "\<forall>(t, is)\<in>set leaders. t \<le> T" by blast
  have "t \<le> T" if "j \<in> set [0..int n - 1]" "ask look j = Inr (Some (t, True))" for j t
  proof -
    have "j \<in> set (leaders_at leaders t)" using v that unfolding votes_for_def by blast
    then have "(t, leaders_at leaders t) \<in> set leaders" using get by (auto simp: leaders_at_def split: option.splits)
    then show ?thesis using T(2) by blast
  qed
  moreover have "l \<in> set [0..int n - 1] \<and> ask look l = Inr (Some (T, True))" if "go_index (leaders_at leaders T) 0 = Inr l" for l
  proof -
    have "l \<in> set (leaders_at leaders T)" using that by (auto simp: go_index_def split: if_splits)
    then show ?thesis using v unfolding votes_for_def by blast
  qed
  ultimately show ?thesis using T(1) by blast
qed

lemma go_for_Inl: "go_for body js s = Inl e \<Longrightarrow> \<exists>j\<in>set js. \<exists>s. body j s = Inl e"
proof (induction js arbitrary: s)
  case (Cons j js)
  then show ?case by (cases "body j s") auto
qed simp

lemma ask_Inl: "ask look i = Inl e \<Longrightarrow> e \<noteq> TestFatal msg"
  by (auto simp: ask_def go_index_def GetState_def Lock_def go_bind_def split: sum.splits if_splits option.splits)

lemma gather_Inl:
  assumes "go_for (gather_leader look) js leaders = Inl e"
  shows "e \<noteq> TestFatal msg"
proof -
  from go_for_Inl [OF assms] obtain j l where "gather_leader look j l = Inl e" by blast
  then have "ask look j = Inl e"
    by (cases "ask look j") (auto simp: gather_leader_def split: option.splits prod.splits bool.splits)
  then show ?thesis by (rule ask_Inl)
qed

definition leader_verdict :: "nat \<Rightarrow> (nat \<Rightarrow> int \<Rightarrow> ('c, 'v) config) \<Rightarrow> nat list \<Rightarrow> int go \<Rightarrow> bool" where
  "leader_verdict n look ks res \<longleftrightarrow>
     (case res of
        Inl e \<Rightarrow> e \<noteq> TestFatal ''term has more than one leader''
      | Inr l \<Rightarrow> \<exists>k\<in>set ks. \<exists>T. l \<in> set [0..int n - 1] \<and> ask (look k) l = Inr (Some (T, True)) \<and>
          (\<forall>j\<in>set [0..int n - 1]. \<forall>t. ask (look k) j = Inr (Some (t, True)) \<longrightarrow> t \<le> T))"

lemma rounds_sound:
  assumes "\<And>k i j t. ask (look k) i = Inr (Some (t, True)) \<Longrightarrow> ask (look k) j = Inr (Some (t, True)) \<Longrightarrow>
      i \<in> set [0..int n - 1] \<Longrightarrow> j \<in> set [0..int n - 1] \<Longrightarrow> i = j"
  shows "leader_verdict n look ks (one_leader_rounds look [0..int n - 1] ks)"
proof (induction ks)
  case (Cons k ks)
  show ?case
  proof (cases "go_for (gather_leader (look k)) [0..int n - 1] []")
    case (Inl e)
    then show ?thesis using gather_Inl [OF Inl] by (simp add: leader_verdict_def)
  next
    case (Inr leaders)
    from round_sound [OF Inr] assms [of k] obtain T where T: "last_term leaders (-1) = Inr T"
      "\<forall>l. go_index (leaders_at leaders T) 0 = Inr l \<longrightarrow> l \<in> set [0..int n - 1] \<and> ask (look k) l = Inr (Some (T, True)) \<and>
        (\<forall>j\<in>set [0..int n - 1]. \<forall>t. ask (look k) j = Inr (Some (t, True)) \<longrightarrow> t \<le> T)" by blast
    show ?thesis
    proof (cases "leaders = []")
      case True
      then have "one_leader_rounds look [0..int n - 1] (k # ks) = one_leader_rounds look [0..int n - 1] ks"
        using Inr T(1) by simp
      then show ?thesis using Cons.IH by (auto simp: leader_verdict_def split: sum.splits)
    next
      case False
      then have eq: "one_leader_rounds look [0..int n - 1] (k # ks) = go_index (leaders_at leaders T) 0" using Inr T(1) by simp
      show ?thesis
      proof (cases "go_index (leaders_at leaders T) 0")
        case (Inl e)
        then show ?thesis unfolding eq leader_verdict_def by (auto simp: go_index_def split: if_splits)
      next
        case (Inr l)
        then show ?thesis using T(2) unfolding eq leader_verdict_def by auto
      qed
    qed
  qed
qed (simp add: leader_verdict_def)

text \<open>
  C13: While the group runs, \<open>checkOneLeader\<close> never reports two leaders of one term, although it asks
  the servers one after the other; and the server it returns was, in one of the ten rounds, connected and
  leader, of the newest term that a connected leader of that round had.
\<close>

theorem checkOneLeader_sound:
  assumes "creachable n s"
    and "\<forall>k. \<forall>i<n. \<exists>s0. creachable n s0 \<and> (cstep n)\<^sup>*\<^sup>* s0 s \<and> shows_group n s0 (look k (int i))"
  shows "leader_verdict n look [0..<10] (checkOneLeader n look)"
  unfolding checkOneLeader_def
proof (rule rounds_sound)
  fix k i j t
  assume a: "ask (look k) i = Inr (Some (t, True))" "ask (look k) j = Inr (Some (t, True))"
    and ij: "i \<in> set [0..int n - 1]" "j \<in> set [0..int n - 1]"
  have el: "(t, a) \<in> elected s" if an: "a < n" and as: "ask (look k) (int a) = Inr (Some (t, True))" for a
  proof -
    obtain s0 where s0: "creachable n s0" "(cstep n)\<^sup>*\<^sup>* s0 s" "shows_group n s0 (look k (int a))" using assms(2) an by blast
    from ask_leader [OF as s0(3) an] have "myStatus (srv s0 a) = Leader" "currentTerm (srv s0 a) = t" by blast+
    then have "(t, a) \<in> elected s0" using leader_elected [OF creachable_cinv [OF s0(1)] an] by simp
    then show ?thesis using elected_mono [OF s0(2)] by blast
  qed
  obtain i' j' where i': "i = int i'" "i' < n" and j': "j = int j'" "j' < n" using ij unfolding upto_servers by blast
  have "(t, i') \<in> elected s" "(t, j') \<in> elected s" using el a i' j' by blast+
  then show "i = j" using unique_leader [OF creachable_cinv [OF assms(1)]] i'(1) j'(1) by blast
qed

lemma plain_creachable: "plain_reachable n s \<Longrightarrow> creachable n s"
  by (induction rule: plain_reachable.induct) (auto intro: creachable.intros)

lemma test_events_state:
  "map_option (\<lambda>x. map (\<lambda>rf. (mu rf, myStatus rf, currentTerm rf)) (x_srv x))
     (xrun True 3 (x_init 3 :: (nat, nat gobval) xgroup) test_events) =
   Some [(False, Leader, 1), (False, Follower, 1), (False, Follower, 1)]"
  by code_simp

theorem checkOneLeader_sound_witness:
  "\<exists>(s :: (nat, nat gobval) cluster) (look :: nat \<Rightarrow> int \<Rightarrow> (nat, nat) config).
     creachable 3 s \<and> (\<forall>k i. shows_group 3 s (look k i)) \<and> checkOneLeader 3 look = Inr 0 \<and>
     leader_verdict 3 look [0..<10] (Inr 0)"
proof -
  obtain x where x: "xrun True 3 (x_init 3 :: (nat, nat gobval) xgroup) test_events = Some x"
    "map (\<lambda>rf. (mu rf, myStatus rf, currentTerm rf)) (x_srv x) = [(False, Leader, 1), (False, Follower, 1), (False, Follower, 1)]"
    using test_events_state by auto
  from xrun_plain [OF x(1) sim_init plain_reachable.init] obtain s where s: "plain_reachable 3 s" "sim 3 x s" by blast
  have "(mu (srv s i), myStatus (srv s i), currentTerm (srv s i)) = map (\<lambda>rf. (mu rf, myStatus rf, currentTerm rf)) (x_srv x) ! i"
    if "i < 3" for i using s(2) that by (simp add: sim_def)
  from this [of 0] this [of 1] this [of 2] have p: "\<not> mu (srv s 0)" "\<not> mu (srv s 1)" "\<not> mu (srv s 2)" "myStatus (srv s 0) = Leader"
    "myStatus (srv s 1) = Follower" "myStatus (srv s 2) = Follower" "currentTerm (srv s 0) = 1" unfolding x(2) by simp_all
  define look :: "nat \<Rightarrow> int \<Rightarrow> (nat, nat) config" where "look = (\<lambda>_ _. (new_config 3 0)\<lparr>cf_connected := [True, True, True],
    cf_rafts := [Some (srv s 0), Some (srv s 1), Some (srv s 2)]\<rparr>)"
  have sh: "shows_group 3 s (look k i)" for k i by (auto simp: shows_group_def look_def less_Suc_eq numeral_3_eq_3 numeral_2_eq_2)
  have c: "creachable 3 s" by (rule plain_creachable [OF s(1)])
  then have v: "leader_verdict 3 look [0..<10] (checkOneLeader 3 look)" using sh by (intro checkOneLeader_sound [OF c]) blast
  have "ask (look k) 0 = Inr (Some (1, True))" "ask (look k) 1 = Inr (Some (currentTerm (srv s 1), False))"
    "ask (look k) 2 = Inr (Some (currentTerm (srv s 2), False))" for k
    using p by (simp_all add: ask_def look_def go_index_def GetState_def)
  moreover have "[0..2] = [0, 1, 2 :: int]" by (simp add: upto.simps)
  ultimately have "checkOneLeader 3 look = Inr 0"
    by (simp add: checkOneLeader_def upt_rec gather_leader_def leaders_at_def gm_put_def gm_get_def go_index_def)
  then show ?thesis using c sh v by (intro exI [of _ s] exI [of _ look]) simp
qed

end
