(* ===== verification/Tester_Agreement.thy ===== *)
theory Tester_Agreement
  imports Tester_Checks
begin

text \<open>
  Agreements in \<open>raft/config.go\<close>: what \<open>nCommitted\<close> counts, that \<open>one\<close> always ends and what its result means,
  what \<open>wait\<close> returns, and that a snapshot of the harness comes back as it was taken.
\<close>

section \<open>Counting\<close>

definition has_at :: "(int \<Rightarrow> ('c, 'v) config) \<Rightarrow> int \<Rightarrow> nat \<Rightarrow> 'c option option" where
  "has_at look index i = gm_get (cf_logs (look (int i)) ! i) index"

lemma count_loop:
  assumes "go_for (nCommitted_at look index) (map int ks) (c, cmd) = Inr (nd, cmd')" and "0 \<le> c"
  shows "nd = c + int (length (filter (\<lambda>i. has_at look index i \<noteq> None) ks)) \<and>
    (\<forall>i\<in>set ks. has_at look index i \<noteq> None \<longrightarrow> has_at look index i = Some cmd') \<and> (c > 0 \<longrightarrow> cmd' = cmd)"
  using assms
proof (induction ks arbitrary: c cmd)
  case (Cons k ks)
  from Cons.prems(1) obtain c1 cmd1 where
    b: "nCommitted_at look index (int k) (c, cmd) = Inr (c1, cmd1)" "go_for (nCommitted_at look index) (map int ks) (c1, cmd1) = Inr (nd, cmd')"
    by auto
  show ?case
  proof (cases "has_at look index k")
    case None
    then have "c1 = c" "cmd1 = cmd" using b(1) by (auto simp: nCommitted_at_def has_at_def go_index_def split: if_splits)
    then show ?thesis using Cons.IH [OF b(2)] Cons.prems(2) None by simp
  next
    case (Some v)
    then have "c1 = c + 1" "cmd1 = v" "c > 0 \<longrightarrow> cmd = v"
      using b(1) by (auto simp: nCommitted_at_def has_at_def go_index_def split: if_splits)
    then show ?thesis using Cons.IH [OF b(2)] Cons.prems(2) Some by auto
  qed
qed simp

lemma nCommitted_spec:
  assumes "nCommitted n look index = Inr (nd, cmd)"
  shows "nd = int (card {i. i < n \<and> has_at look index i \<noteq> None})"
    and "i < n \<Longrightarrow> has_at look index i \<noteq> None \<Longrightarrow> has_at look index i = Some cmd"
proof -
  note c = count_loop [of look index "[0..<n]" 0 None nd cmd]
  have e: "go_for (nCommitted_at look index) (map int [0..<n]) (0, None) = Inr (nd, cmd)"
    using assms by (simp only: nCommitted_def upto_map_int)
  have "{i. i < n \<and> has_at look index i \<noteq> None} = set (filter (\<lambda>i. has_at look index i \<noteq> None) [0..<n])" by auto
  then have "card {i. i < n \<and> has_at look index i \<noteq> None} = length (filter (\<lambda>i. has_at look index i \<noteq> None) [0..<n])"
    using distinct_card [of "filter (\<lambda>i. has_at look index i \<noteq> None) [0..<n]"] by simp
  then show "nd = int (card {i. i < n \<and> has_at look index i \<noteq> None})" using c [OF e] by simp
  show "has_at look index i = Some cmd" if "i < n" "has_at look index i \<noteq> None" using c [OF e] that by simp
qed

definition holders :: "('c, 'v) config \<Rightarrow> int \<Rightarrow> 'c option \<Rightarrow> nat set" where
  "holders cfg index v = {i. i < cf_n cfg \<and> gm_get (cf_logs cfg ! i) index = Some v}"

lemma nCommitted_holders:
  assumes "nCommitted (cf_n cfg) (\<lambda>_. cfg) index = Inr (nd, v)"
  shows "nd = int (card (holders cfg index v))"
proof -
  have "{i. i < cf_n cfg \<and> has_at (\<lambda>_. cfg) index i \<noteq> None} = holders cfg index v"
    using nCommitted_spec(2) [OF assms] by (auto simp: holders_def has_at_def)
  then show ?thesis using nCommitted_spec(1) [OF assms] by simp
qed

section \<open>One agreement\<close>

lemma one_start_time:
  assumes "one_start env cmd sis starts k cfg = Inr (starts', k', cfg', index)"
  shows "k \<le> k' \<and> (index \<noteq> -1 \<longrightarrow> k < k')"
  using assms
proof (induction sis arbitrary: starts k cfg)
  case (Cons si sis)
  have again: "k \<le> k' \<and> (index \<noteq> -1 \<longrightarrow> k < k')"
    if "one_start env cmd sis starts1 (Suc k) cfg1 = Inr (starts', k', cfg', index)" for starts1 cfg1
    using Cons.IH [OF that] by simp
  show ?case using Cons.prems
    apply (auto simp: Let_def split: option.splits if_splits)
         apply (drule again; simp)+
    done
qed simp

text \<open>What a finished \<open>one_poll\<close> has gone through: it is over, stopped, won, or one round further.\<close>

lemma one_poll_induct [consumes 1, case_names over stop won again]:
  assumes run: "one_poll env now t1 cmd index e k cfg = Some r"
    and over: "\<And>k cfg. Q k cfg (Inr (k, cfg, False))"
    and stop: "\<And>k cfg x. Q k cfg (Inl x)"
    and won: "\<And>k cfg nd. nCommitted (cf_n (env k cfg)) (\<lambda>_. env k cfg) index = Inr (nd, Some cmd) \<Longrightarrow> nd > 0 \<Longrightarrow> nd \<ge> e \<Longrightarrow>
      Q k cfg (Inr (Suc k, env k cfg, True))"
    and again: "\<And>k cfg r. Q (Suc k) (env k cfg) r \<Longrightarrow> Q k cfg r"
  shows "Q k cfg r"
proof -
  let ?P = "\<lambda>env' now' t1' cmd' index' e' k cfg r.
    env' = env \<and> now' = now \<and> t1' = t1 \<and> cmd' = cmd \<and> index' = index \<and> e' = e \<longrightarrow> Q k cfg r"
  have "?P env now t1 cmd index e k cfg r"
  proof (rule one_poll.raw_induct [where P = ?P, OF _ run], rule impI, goal_cases)
    case (1 f env' now' t1' cmd' index' e' k cfg r)
    then have IH: "f env now t1 cmd index e k cfg = Some r \<Longrightarrow> Q k cfg r" for k cfg r by blast
    from 1(2,3) show "Q k cfg r"
      by (auto simp: Let_def intro: over stop won again dest!: IH split: if_splits sum.splits)
  qed
  then show ?thesis by blast
qed

lemma one_poll_result:
  assumes "one_poll env now t1 cmd index e k cfg = Some r" and "r = Inr (k', cfg', won)"
  shows "k \<le> k' \<and> (won \<longrightarrow> holders cfg' index (Some cmd) \<noteq> {} \<and> e \<le> int (card (holders cfg' index (Some cmd))))"
  using assms
proof (induction rule: one_poll_induct)
  case (won k cfg nd)
  have "nd = int (card (holders (env k cfg) index (Some cmd)))" by (rule nCommitted_holders [OF won(1)])
  moreover from this have "holders (env k cfg) index (Some cmd) \<noteq> {}" using won(2) by auto
  ultimately show ?case using won by simp
qed simp_all

lemma one_loop_induct [consumes 1, case_names over stop won again]:
  assumes run: "one_loop env now t0 cmd e retry starts k cfg = Some r"
    and over: "\<And>cfg. Q (Inr (cfg, -1))"
    and stop: "\<And>x. Q (Inl x)"
    and won: "\<And>index k1 cfg1 k2 cfg2. one_poll env now (now k1) cmd index e k1 cfg1 = Some (Inr (k2, cfg2, True)) \<Longrightarrow> Q (Inr (cfg2, index))"
  shows "Q r"
proof -
  let ?P = "\<lambda>env' now' t0' cmd' e' retry' (starts :: int) (k :: nat) cfg r.
    env' = env \<and> now' = now \<and> t0' = t0 \<and> cmd' = cmd \<and> e' = e \<and> retry' = retry \<longrightarrow> Q r"
  have "?P env now t0 cmd e retry starts k cfg r"
  proof (rule one_loop.raw_induct [where P = ?P, OF _ run], rule impI, goal_cases)
    case (1 f env' now' t0' cmd' e' retry' starts k cfg r)
    then have IH: "f env now t0 cmd e retry starts k cfg = Some r \<Longrightarrow> Q r" for starts k cfg r by blast
    show "Q r"
    proof (cases "now k - t0 < 10000 \<and> checkFinished cfg = False")
      case False
      then show ?thesis using 1(2,3) over stop by (auto split: if_splits)
    next
      case True
      show ?thesis
      proof (cases "one_start env cmd [0..<cf_n cfg] starts k cfg")
        case (Inl x)
        then show ?thesis using 1(2,3) True stop by auto
      next
        case (Inr p)
        obtain starts1 k1 cfg1 index where p: "p = (starts1, k1, cfg1, index)" by (cases p)
        show ?thesis
        proof (cases "index = -1")
          case idx: True
          then show ?thesis using 1(2,3) True Inr p by (auto dest: IH)
        next
          case idx: False
          then obtain pr where pr: "one_poll env now (now k1) cmd index e k1 cfg1 = Some pr"
            using 1(2,3) True Inr p by (auto simp: bind_eq_Some_conv)
          show ?thesis
          proof (cases pr)
            case (Inl x)
            then show ?thesis using 1(2,3) True \<open>one_start env cmd [0..<cf_n cfg] starts k cfg = Inr p\<close> p idx pr stop by auto
          next
            case (Inr q)
            obtain k2 cfg2 w where "q = (k2, cfg2, w)" by (cases q)
            then show ?thesis
              using 1(2,3) True \<open>one_start env cmd [0..<cf_n cfg] starts k cfg = Inr p\<close> p idx pr Inr stop won [of k1 index cfg1 k2 cfg2]
                IH [of starts1 k2 cfg2 r] by (cases w; cases retry) auto
          qed
        qed
      qed
    qed
  qed
  then show ?thesis by blast
qed

text \<open>
  C8: An index other than \<open>-1\<close> that \<open>one\<close> returns holds the submitted command on at least as many
  servers as were asked for, and on at least one.
\<close>

theorem one_agreement:
  fixes cfg' :: "('c, 'v) config"
  assumes "tester_one env now cmd expectedServers retry cfg = Some (Inr (cfg', index))" and "index \<noteq> -1"
  shows "holders cfg' index (Some cmd) \<noteq> {} \<and> expectedServers \<le> int (card (holders cfg' index (Some cmd)))"
proof -
  let ?Q = "\<lambda>r :: (('c, 'v) config \<times> int) go. \<forall>cfg' index. r = Inr (cfg', index) \<longrightarrow> index \<noteq> -1 \<longrightarrow>
    holders cfg' index (Some cmd) \<noteq> {} \<and> expectedServers \<le> int (card (holders cfg' index (Some cmd)))"
  have "?Q (Inr (cfg', index))"
    by (rule one_loop_induct [OF assms(1) [unfolded tester_one_def], where Q = ?Q])
      (auto dest!: one_poll_result [OF _ refl])
  then show ?thesis using assms(2) by blast
qed

section \<open>Ending\<close>

text \<open>
  The shape of the configuration of \<open>n\<close> servers while \<open>one\<close> runs, with no running peer left holding its
  mutex (the handlers run to their end between two looks). A peer whose mutex stays locked would keep
  \<open>Start\<close>, and so \<open>one\<close>, waiting for ever: that outcome is \<open>Inl Blocked\<close>.
\<close>

definition serviceable :: "nat \<Rightarrow> ('c, 'v) config \<Rightarrow> bool" where
  "serviceable n cfg \<longleftrightarrow> cf_n cfg = n \<and> length (cf_connected cfg) = n \<and> length (cf_rafts cfg) = n \<and>
     length (cf_applyErr cfg) = n \<and> length (cf_logs cfg) = n \<and>
     (\<forall>peer\<in>set (cf_rafts cfg). case peer of None \<Rightarrow> True | Some rf \<Rightarrow> killed rf \<or> \<not> mu rf)"

lemma Start_returns:
  assumes "killed rf \<or> \<not> mu rf"
  shows "\<exists>rf' index term ok. Raft_Peer.Start cmd rf = Inr (rf', index, term, ok) \<and> (killed rf' \<or> \<not> mu rf')"
  using assms by (auto simp: Raft_Peer.Start_def Lock_def Unlock_def Let_def)

lemma one_start_returns:
  assumes env: "\<And>k c. serviceable n c \<Longrightarrow> serviceable n (env k c)"
    and "serviceable n cfg" and "n = 0 \<Longrightarrow> sis = []"
  shows "\<exists>starts' k' cfg' index. one_start env cmd sis starts k cfg = Inr (starts', k', cfg', index) \<and> serviceable n cfg'"
  using assms(2,3)
proof (induction sis arbitrary: starts k cfg)
  case (Cons si sis)
  define st where "st = nat ((starts + 1) mod int n)"
  have n: "0 < n" using Cons.prems(2) by auto
  have e: "serviceable n (env k cfg)" by (rule env [OF Cons.prems(1)])
  have st: "(starts + 1) mod int (cf_n cfg) = int st" "st < n"
    using n Cons.prems(1) by (auto simp: st_def serviceable_def nat_less_iff)
  have idx: "go_index (cf_connected (env k cfg)) (int st) = Inr (cf_connected (env k cfg) ! st)"
      "go_index (cf_rafts (env k cfg)) (int st) = Inr (cf_rafts (env k cfg) ! st)"
    using e st(2) by (simp_all add: serviceable_def go_index_def)
  have again: "\<exists>starts' k' cfg' index. one_start env cmd sis starts1 k1 cfg1 = Inr (starts', k', cfg', index) \<and> serviceable n cfg'"
    if "serviceable n cfg1" for starts1 k1 cfg1
    using Cons.IH [OF that] n by simp
  show ?case
  proof (cases "cf_connected (env k cfg) ! st \<and> cf_rafts (env k cfg) ! st \<noteq> None")
    case True
    then obtain rf where rf: "cf_rafts (env k cfg) ! st = Some rf" by blast
    then have "Some rf \<in> set (cf_rafts (env k cfg))" using e st(2) unfolding serviceable_def by (metis nth_mem)
    then have "killed rf \<or> \<not> mu rf" using e by (auto simp: serviceable_def)
    from Start_returns [OF this] obtain rf' index tm ok
      where S: "Raft_Peer.Start cmd rf = Inr (rf', index, tm, ok)" "killed rf' \<or> \<not> mu rf'" by blast
    have "serviceable n ((env k cfg)\<lparr>cf_rafts := (cf_rafts (env k cfg))[st := Some rf']\<rparr>)"
      using e S(2) set_update_subset_insert [of "cf_rafts (env k cfg)" st "Some rf'"] by (auto simp: serviceable_def)
    from this again [OF this] show ?thesis using True rf S(1) by (simp add: Let_def st(1) idx)
  qed (use again [OF e] in \<open>auto simp: Let_def st(1) idx\<close>)
qed simp

text \<open>The ways a test of an agreement fails.\<close>

definition one_failures :: "go_stop set" where
  "one_failures = TestFatal ` {''apply error'', ''committed values do not match'', ''failed to reach agreement''}"

lemma nCommitted_failures:
  assumes "serviceable n cfg" and "nCommitted n (\<lambda>_. cfg) index = Inl x"
  shows "x \<in> one_failures"
proof -
  have "go_for (nCommitted_at (\<lambda>_. cfg) index) is (c, cmd) = Inl x \<Longrightarrow> x \<in> one_failures"
    if "\<forall>i\<in>set is. 0 \<le> i \<and> i < int n" for "is" c cmd
    using that
  proof (induction "is" arbitrary: c cmd)
    case (Cons i "is")
    have *: "go_index (cf_applyErr cfg) i = Inr (cf_applyErr cfg ! nat i)" "go_index (cf_logs cfg) i = Inr (cf_logs cfg ! nat i)"
      using assms(1) Cons.prems(2) by (auto simp: serviceable_def go_index_def)
    show ?case using Cons.prems Cons.IH
      by (auto simp: nCommitted_at_def * one_failures_def split: if_splits option.splits)
  qed simp
  from this [OF _ assms(2) [unfolded nCommitted_def]] show ?thesis by simp
qed

lemma one_poll_ends:
  assumes "mono now" and "t1 + 2000 \<le> now K" and env: "\<And>k c. serviceable n c \<Longrightarrow> serviceable n (env k c)"
    and "serviceable n cfg"
  shows "\<exists>r. one_poll env now t1 cmd index e k cfg = Some r \<and>
    (case r of Inl x \<Rightarrow> x \<in> one_failures | Inr (k', cfg', won) \<Rightarrow> serviceable n cfg')"
  using assms(4)
proof (induction "K - k" arbitrary: k cfg rule: less_induct)
  case less
  show ?case
  proof (cases "now k - t1 < 2000")
    case True
    then have "\<not> K \<le> k" using assms(2) monoD [OF assms(1), of K k] by auto
    have s: "serviceable n (env k cfg)" by (rule env [OF less.prems])
    then have n: "cf_n (env k cfg) = n" by (simp add: serviceable_def)
    have less': "K - Suc k < K - k" using \<open>\<not> K \<le> k\<close> by simp
    from less.hyps [OF less' s] obtain r where "one_poll env now t1 cmd index e (Suc k) (env k cfg) = Some r"
      "case r of Inl x \<Rightarrow> x \<in> one_failures | Inr (k', cfg', won) \<Rightarrow> serviceable n cfg'"
      by blast
    then show ?thesis using s nCommitted_failures [OF s] True
      by (subst one_poll.simps) (auto simp: Let_def n split: sum.split)
  next
    case False
    then show ?thesis using less.prems by (subst one_poll.simps) simp
  qed
qed

lemma one_loop_ends:
  assumes mono: "mono now" and K: "t0 + 10000 \<le> now K" and unb: "\<And>b. \<exists>k. b \<le> now k"
    and env: "\<And>k c. serviceable n c \<Longrightarrow> serviceable n (env k c)" and "serviceable n cfg"
  shows "\<exists>r. one_loop env now t0 cmd e retry starts k cfg = Some r \<and>
    (case r of Inl x \<Rightarrow> x \<in> one_failures | Inr (cfg', index) \<Rightarrow> index = -1 \<longrightarrow> cf_finished cfg')"
  using assms(5)
proof (induction "K - k" arbitrary: starts k cfg rule: less_induct)
  case less
  have n: "cf_n cfg = n" using less.prems by (simp add: serviceable_def)
  show ?case
  proof (cases "now k - t0 < 10000 \<and> checkFinished cfg = False")
    case False
    then show ?thesis by (subst one_loop.simps) (auto simp: checkFinished_def one_failures_def)
  next
    case True
    then have kK: "\<not> K \<le> k" using K monoD [OF mono, of K k] by auto
    obtain starts1 k1 cfg1 index where st: "one_start env cmd [0..<n] starts k cfg = Inr (starts1, k1, cfg1, index)"
      "serviceable n cfg1" using one_start_returns [of n env cfg "[0..<n]", OF env less.prems] by fastforce
    note t = one_start_time [OF st(1)]
    have go: "\<exists>r. one_loop env now t0 cmd e retry starts' k' cfg' = Some r \<and>
        (case r of Inl x \<Rightarrow> x \<in> one_failures | Inr (cfg', index) \<Rightarrow> index = -1 \<longrightarrow> cf_finished cfg')"
      if "k < k'" "serviceable n cfg'" for starts' k' cfg'
      using that kK by (intro less.hyps) simp_all
    show ?thesis
    proof (cases "index = -1")
      case idx: True
      show ?thesis using go [of "Suc k1" "env k1 cfg1" starts1] t env [OF st(2)] True st(1) idx
        by (subst one_loop.simps) (simp add: n)
    next
      case idx: False
      obtain K' where K': "now k1 + 2000 \<le> now K'" using unb by blast
      from one_poll_ends [where env = env and cmd = cmd and index = index and e = e and k = k1, OF mono K' env st(2)] obtain pr where
        pr: "one_poll env now (now k1) cmd index e k1 cfg1 = Some pr"
          "case pr of Inl x \<Rightarrow> x \<in> one_failures | Inr (k', cfg', won) \<Rightarrow> serviceable n cfg'" by blast
      show ?thesis
      proof (cases pr)
        case (Inl x)
        then show ?thesis using pr True st(1) idx by (subst one_loop.simps) (simp add: n)
      next
        case (Inr q)
        obtain k2 cfg2 won where q: "q = (k2, cfg2, won)" by (cases q)
        have "k < k2" using one_poll_result [OF pr(1) Inr [unfolded q]] t idx by simp
        then show ?thesis using go [of k2 cfg2 starts1] pr True st(1) idx Inr q
          by (subst one_loop.simps) (auto simp: n one_failures_def)
      qed
    qed
  qed
qed

text \<open>
  C9: \<open>one\<close> always ends: whatever the peers and the other goroutines do, as long as time goes on, the configuration
  keeps its shape and no running peer is left holding its mutex, it returns an index or fails the test with one of its
  three messages; it neither panics nor waits for ever, and it returns \<open>-1\<close> only when the test is over.
\<close>

theorem one_ends:
  assumes "mono now" and "\<forall>b. \<exists>k. b \<le> now k"
    and "serviceable n cfg" and "\<forall>k c. serviceable n c \<longrightarrow> serviceable n (env k c)"
  shows "(\<exists>cfg' index. tester_one env now cmd expectedServers retry cfg = Some (Inr (cfg', index)) \<and>
      (index = -1 \<longrightarrow> cf_finished cfg')) \<or>
    (\<exists>msg \<in> {''apply error'', ''committed values do not match'', ''failed to reach agreement''}.
      tester_one env now cmd expectedServers retry cfg = Some (Inl (TestFatal msg)))"
proof -
  obtain K where K: "now 0 + 10000 \<le> now K" using assms(2) by blast
  have unb: "\<exists>k. b \<le> now k" and env: "serviceable n c \<Longrightarrow> serviceable n (env k c)" for b k c
    using assms(2,4) by blast+
  from one_loop_ends [where env = env and cmd = cmd and e = expectedServers and retry = retry and starts = 0 and k = 0, OF assms(1) K unb env assms(3)] obtain r where
    r: "tester_one env now cmd expectedServers retry cfg = Some r"
      "case r of Inl x \<Rightarrow> x \<in> one_failures | Inr (cfg', index) \<Rightarrow> index = -1 \<longrightarrow> cf_finished cfg'"
    unfolding tester_one_def by blast
  show ?thesis using r by (cases r) (auto simp: one_failures_def)
qed

section \<open>Snapshots\<close>

lemma ingest_log_get:
  "gm_get (ingest_log j xs l) x = (if j \<le> x \<and> x < j + int (length xs) then Some (xs ! nat (x - j)) else gm_get l x)"
proof (induction xs arbitrary: j l)
  case (Cons y ys)
  show ?case
  proof (cases "x = j")
    case False
    then have "nat (x - j) = Suc (nat (x - (j + 1)))" if "j \<le> x" using that by simp
    then show ?thesis using False by (auto simp: Cons.IH)
  next
    case True
    then show ?thesis using Cons.IH [of "j + 1" "gm_put j y l"] by simp
  qed
qed auto

text \<open>
  C10: A snapshot that \<open>applierSnap\<close> takes of a server's log at an index comes back through
  \<open>ingestSnap\<close>: the log of the receiving server is that log up to the index, and it goes on after
  the index. A snapshot of another index than announced is refused and changes nothing.
\<close>

theorem snapshot_roundtrip:
  assumes "i < length (cf_logs cfg)" and "i < length (cf_lastApplied cfg)" and "0 \<le> idx"
  shows "(\<exists>cfg'. ingestSnap (int i) (snapshot_of idx l) idx cfg = Inr (cfg', NoMsg) \<and> cf_lastApplied cfg' ! i = idx \<and>
      (\<forall>x. gm_get (cf_logs cfg' ! i) x = (if 0 \<le> x \<and> x \<le> idx then Some (case gm_get l x of None \<Rightarrow> None | Some v \<Rightarrow> v) else None)) \<and>
      (\<forall>j. j \<noteq> i \<longrightarrow> cf_logs cfg' ! j = cf_logs cfg ! j)) \<and>
    (\<forall>index. index \<noteq> -1 \<and> index \<noteq> idx \<longrightarrow>
      ingestSnap (int i) (snapshot_of idx l) index cfg = Inr (cfg, SnapshotIndexDiffers (int i)))"
proof -
  let ?xs = "map (\<lambda>j. case gm_get l j of None \<Rightarrow> None | Some v \<Rightarrow> v) [0..idx]"
  have "?xs ! nat x = (case gm_get l x of None \<Rightarrow> None | Some v \<Rightarrow> v)" if "0 \<le> x" "x \<le> idx" for x
    using that by (simp add: nth_upto)
  then have "\<exists>cfg'. ingestSnap (int i) (snapshot_of idx l) idx cfg = Inr (cfg', NoMsg) \<and> cf_lastApplied cfg' ! i = idx \<and>
      (\<forall>x. gm_get (cf_logs cfg' ! i) x = (if 0 \<le> x \<and> x \<le> idx then Some (case gm_get l x of None \<Rightarrow> None | Some v \<Rightarrow> v) else None)) \<and>
      (\<forall>j. j \<noteq> i \<longrightarrow> cf_logs cfg' ! j = cf_logs cfg ! j)"
    using assms by (simp add: ingestSnap_def snapshot_of_def gob_encode_def Let_def go_assign_def ingest_log_get)
  moreover have "ingestSnap (int i) (snapshot_of idx l) index cfg = Inr (cfg, SnapshotIndexDiffers (int i))"
    if "index \<noteq> -1 \<and> index \<noteq> idx" for index
    using that by (simp add: ingestSnap_def snapshot_of_def gob_encode_def Let_def)
  ultimately show ?thesis by blast
qed

theorem snapshot_roundtrip_witness:
  "(\<exists>cfg'. ingestSnap 1 (snapshot_of 2 [(1, Some 7), (2, Some 8)]) 2 (new_config 2 0 :: (nat, nat) config) = Inr (cfg', NoMsg) \<and>
      cf_lastApplied cfg' ! 1 = 2 \<and> gm_get (cf_logs cfg' ! 1) 2 = Some (Some 8) \<and> gm_get (cf_logs cfg' ! 1) 3 = None) \<and>
    ingestSnap 1 (snapshot_of 2 [(1, Some 7), (2, Some 8)]) 5 (new_config 2 0 :: (nat, nat) config) =
      Inr (new_config 2 0, SnapshotIndexDiffers 1)"
proof -
  let ?l = "[(1, Some 7), (2, Some 8)] :: (int \<times> nat option) list"
  have "1 < length (cf_logs (new_config 2 0 :: (nat, nat) config))" "1 < length (cf_lastApplied (new_config 2 0 :: (nat, nat) config))"
    by (simp_all add: new_config_def)
  note w = snapshot_roundtrip [OF this, of 2 ?l, simplified]
  from w obtain cfg' where "ingestSnap 1 (snapshot_of 2 ?l) 2 (new_config 2 0 :: (nat, nat) config) = Inr (cfg', NoMsg)"
      "cf_lastApplied cfg' ! 1 = 2" "\<forall>x. gm_get (cf_logs cfg' ! 1) x =
        (if 0 \<le> x \<and> x \<le> 2 then Some (case gm_get ?l x of None \<Rightarrow> None | Some v \<Rightarrow> v) else None)" by auto
  then show ?thesis using w by (auto simp: gm_get_def)
qed

section \<open>An executed agreement\<close>

declare one_poll.simps [code] one_loop.simps [code]

text \<open>One connected server that is leader; its reader records the command after the first look.\<close>

definition lone_config :: "(nat, nat) config" where
  "lone_config = (new_config 1 0)\<lparr>cf_connected := [True], cf_rafts := [Some ((Make 1 0 MakePersister 0)\<lparr>myStatus := Leader\<rparr>)]\<rparr>"

definition lone_env :: "nat \<Rightarrow> (nat, nat) config \<Rightarrow> (nat, nat) config" where
  "lone_env k cfg = (if k = 0 then cfg else cfg\<lparr>cf_logs := [[(1, Some 7)]]\<rparr>)"

lemma lone_run:
  "map_option (\<lambda>r. case r of Inr (cfg, index) \<Rightarrow> Some index | Inl _ \<Rightarrow> None)
     (tester_one lone_env (\<lambda>k. 20 * int k) 7 1 True lone_config) = Some (Some 1)"
  by code_simp

theorem one_agreement_witness:
  "\<exists>cfg'. tester_one lone_env (\<lambda>k. 20 * int k) 7 1 True lone_config = Some (Inr (cfg', 1)) \<and> holders cfg' 1 (Some 7) \<noteq> {}"
proof -
  obtain r where r: "tester_one lone_env (\<lambda>k. 20 * int k) 7 1 True lone_config = Some r"
    "(case r of Inr (cfg, index) \<Rightarrow> Some index | Inl _ \<Rightarrow> None) = Some 1" using lone_run by auto
  then obtain cfg' where "r = Inr (cfg', 1)" by (cases r) auto
  with r(1) have "tester_one lone_env (\<lambda>k. 20 * int k) 7 1 True lone_config = Some (Inr (cfg', 1))" by simp
  with one_agreement [OF this] show ?thesis by auto
qed

lemma lone_serviceable: "serviceable 1 lone_config"
  by code_simp

theorem one_ends_witness:
  "(\<exists>cfg' index. tester_one lone_env (\<lambda>k. 20 * int k) 7 3 False lone_config = Some (Inr (cfg', index)) \<and>
      (index = -1 \<longrightarrow> cf_finished cfg')) \<or>
    (\<exists>msg \<in> {''apply error'', ''committed values do not match'', ''failed to reach agreement''}.
      tester_one lone_env (\<lambda>k. 20 * int k) 7 3 False lone_config = Some (Inl (TestFatal msg)))"
proof (rule one_ends)
  show "mono (\<lambda>k. 20 * int k)" by (simp add: mono_def)
  have "b \<le> 20 * int (nat b)" for b by simp
  then show "\<forall>b. \<exists>k. b \<le> 20 * int k" by blast
  show "serviceable 1 lone_config" by (rule lone_serviceable)
  show "\<forall>k c. serviceable 1 c \<longrightarrow> serviceable 1 (lone_env k c)" by (simp add: serviceable_def lone_env_def)
qed

end
