(* ===== verification/Shard_Services.thy ===== *)
theory Shard_Services
  imports Raft_Peer
begin

text \<open>
  The services on top of Raft as far as the repository has them: the shard controller
  (\<open>shardctrler\<close>), the sharded store (\<open>shardkv\<close>) and the replicated store (\<open>kvraft\<close>). The clerks are
  complete, they retry until a server accepts; the servers start a Raft peer and have empty
  RPC handlers, which leave the reply at its zero value. \<open>labrpc\<close> is an argument: \<open>call t srv args\<close> is what
  the \<open>t\<close>-th call of a clerk returns, \<open>None\<close> for \<open>false\<close>.
\<close>

section \<open>Configurations and messages of the shard controller\<close>

definition NShards :: nat where
  "NShards = 10"

text \<open>\<open>Shards\<close> is an array of \<open>NShards\<close> group ids; a nil map of groups is the empty map.\<close>

record Config =
  cf_Num :: int
  cf_Shards :: "int list"
  cf_Groups :: "(int, string list) gomap"

definition zeroConfig :: Config where
  "zeroConfig = \<lparr>cf_Num = 0, cf_Shards = replicate NShards 0, cf_Groups = []\<rparr>"

definition wf_Config :: "Config \<Rightarrow> bool" where
  "wf_Config c \<longleftrightarrow> length (cf_Shards c) = NShards"

type_synonym Err = string

record JoinArgs = ja_Servers :: "(int, string list) gomap"
record LeaveArgs = la_GIDs :: "int list"
record MoveArgs = ma_Shard :: int  ma_GID :: int
record QueryArgs = qa_Num :: int

record JoinReply = jr_WrongLeader :: bool  jr_Err :: Err
record LeaveReply = lr_WrongLeader :: bool  lr_Err :: Err
record MoveReply = mr_WrongLeader :: bool  mr_Err :: Err
record QueryReply = qr_WrongLeader :: bool  qr_Err :: Err  qr_Config :: Config

section \<open>The clerk of the shard controller\<close>

text \<open>\<open>for _, srv := range ck.servers\<close> with a call in each round, and the endless loop around it. The number
  of calls made so far is threaded through.\<close>

fun try_servers :: "(nat \<Rightarrow> 'srv \<Rightarrow> 'reply option) \<Rightarrow> ('reply \<Rightarrow> bool) \<Rightarrow> 'srv list \<Rightarrow> nat \<Rightarrow> nat \<times> 'reply option" where
  "try_servers call good [] t = (t, None)"
| "try_servers call good (srv # servers) t =
     (case call t srv of
        Some reply \<Rightarrow> if good reply then (t + 1, Some reply) else try_servers call good servers (t + 1)
      | None \<Rightarrow> try_servers call good servers (t + 1))"

partial_function (option) clerk_loop :: "(nat \<Rightarrow> 'srv \<Rightarrow> 'reply option) \<Rightarrow> ('reply \<Rightarrow> bool) \<Rightarrow> 'srv list \<Rightarrow> nat \<Rightarrow>
    (nat \<times> 'reply) option" where
  "clerk_loop call good servers t =
     (case try_servers call good servers t of
        (t', Some reply) \<Rightarrow> Some (t', reply)
      | (t', None) \<Rightarrow> clerk_loop call good servers t')"

declare clerk_loop.simps [code]

definition Query :: "(nat \<Rightarrow> 'srv \<Rightarrow> QueryArgs \<Rightarrow> QueryReply option) \<Rightarrow> 'srv list \<Rightarrow> int \<Rightarrow> nat \<Rightarrow> (nat \<times> Config) option" where
  "Query call servers num t =
     (let args = \<lparr>qa_Num = num\<rparr> in
      map_option (\<lambda>(t, reply). (t, qr_Config reply))
        (clerk_loop (\<lambda>t srv. call t srv args) (\<lambda>reply. qr_WrongLeader reply = False) servers t))"

definition Clerk_Join :: "(nat \<Rightarrow> 'srv \<Rightarrow> JoinArgs \<Rightarrow> JoinReply option) \<Rightarrow> 'srv list \<Rightarrow> (int, string list) gomap \<Rightarrow> nat \<Rightarrow> nat option" where
  "Clerk_Join call servers groups t =
     (let args = \<lparr>ja_Servers = groups\<rparr> in
      map_option fst (clerk_loop (\<lambda>t srv. call t srv args) (\<lambda>reply. jr_WrongLeader reply = False) servers t))"

definition Leave :: "(nat \<Rightarrow> 'srv \<Rightarrow> LeaveArgs \<Rightarrow> LeaveReply option) \<Rightarrow> 'srv list \<Rightarrow> int list \<Rightarrow> nat \<Rightarrow> nat option" where
  "Leave call servers gids t =
     (let args = \<lparr>la_GIDs = gids\<rparr> in
      map_option fst (clerk_loop (\<lambda>t srv. call t srv args) (\<lambda>reply. lr_WrongLeader reply = False) servers t))"

definition Move :: "(nat \<Rightarrow> 'srv \<Rightarrow> MoveArgs \<Rightarrow> MoveReply option) \<Rightarrow> 'srv list \<Rightarrow> int \<Rightarrow> int \<Rightarrow> nat \<Rightarrow> nat option" where
  "Move call servers shard gid t =
     (let args = \<lparr>ma_Shard = shard, ma_GID = gid\<rparr> in
      map_option fst (clerk_loop (\<lambda>t srv. call t srv args) (\<lambda>reply. mr_WrongLeader reply = False) servers t))"

section \<open>The server of the shard controller\<close>

record ('c, 'd) ShardCtrler =
  sc_me :: int
  sc_rf :: "('c, 'd) Raft"
  sc_configs :: "Config list"

text \<open>The handlers do nothing.\<close>

definition ShardCtrler_Join :: "JoinArgs \<Rightarrow> JoinReply \<Rightarrow> ('c, 'd) ShardCtrler \<Rightarrow> ('c, 'd) ShardCtrler \<times> JoinReply" where
  "ShardCtrler_Join args reply sc = (sc, reply)"

definition ShardCtrler_Leave :: "LeaveArgs \<Rightarrow> LeaveReply \<Rightarrow> ('c, 'd) ShardCtrler \<Rightarrow> ('c, 'd) ShardCtrler \<times> LeaveReply" where
  "ShardCtrler_Leave args reply sc = (sc, reply)"

definition ShardCtrler_Move :: "MoveArgs \<Rightarrow> MoveReply \<Rightarrow> ('c, 'd) ShardCtrler \<Rightarrow> ('c, 'd) ShardCtrler \<times> MoveReply" where
  "ShardCtrler_Move args reply sc = (sc, reply)"

definition ShardCtrler_Query :: "QueryArgs \<Rightarrow> QueryReply \<Rightarrow> ('c, 'd) ShardCtrler \<Rightarrow> ('c, 'd) ShardCtrler \<times> QueryReply" where
  "ShardCtrler_Query args reply sc = (sc, reply)"

definition ShardCtrler_Kill :: "('c, 'd) ShardCtrler \<Rightarrow> ('c, 'd) ShardCtrler go" where
  "ShardCtrler_Kill sc = go_bind (Kill (sc_rf sc)) (\<lambda>rf. Inr (sc\<lparr>sc_rf := rf\<rparr>))"

definition ShardCtrler_Raft :: "('c, 'd) ShardCtrler \<Rightarrow> ('c, 'd) Raft" where
  "ShardCtrler_Raft sc = sc_rf sc"

text \<open>\<open>StartServer\<close>; \<open>n\<close> is the number of servers and \<open>r\<close> the random part of the election timeout.\<close>

definition ShardCtrler_StartServer :: "nat \<Rightarrow> int \<Rightarrow> 'c gobval Persister \<Rightarrow> int \<Rightarrow> ('c, 'd) ShardCtrler" where
  "ShardCtrler_StartServer n i ps r =
     \<lparr>sc_me = i, sc_rf = Make n i ps r, sc_configs = [zeroConfig\<lparr>cf_Groups := []\<rparr>]\<rparr>"

section \<open>The sharded store\<close>

definition OK :: Err where "OK = ''OK''"
definition ErrNoKey :: Err where "ErrNoKey = ''ErrNoKey''"
definition ErrWrongGroup :: Err where "ErrWrongGroup = ''ErrWrongGroup''"
definition ErrWrongLeader :: Err where "ErrWrongLeader = ''ErrWrongLeader''"

record PutAppendArgs = pa_Key :: string  pa_Value :: string  pa_Op :: string
record PutAppendReply = pr_Err :: Err
record GetArgs = ga_Key :: string
record GetReply = gr_Err :: Err  gr_Value :: string

text \<open>\<open>key2shard\<close>: \<open>key[0]\<close> is the first byte.\<close>

definition key2shard :: "string \<Rightarrow> int" where
  "key2shard key =
     (let shard = (case key of [] \<Rightarrow> 0 | c # _ \<Rightarrow> (of_char c :: int)) in shard mod int NShards)"

text \<open>The clerk: its controller clerk's servers, its configuration, \<open>make_end\<close>.\<close>

record 'srv Clerk =
  ck_sm :: "'srv list"
  ck_config :: Config
  ck_make_end :: "string \<Rightarrow> 'srv"

definition MakeClerk :: "'srv list \<Rightarrow> (string \<Rightarrow> 'srv) \<Rightarrow> 'srv Clerk" where
  "MakeClerk ctrlers make_end = \<lparr>ck_sm = ctrlers, ck_config = zeroConfig, ck_make_end = make_end\<rparr>"

text \<open>What the loop over the servers of a group does with a reply.\<close>

datatype verdict = Accept | Break | Continue

definition Get_verdict :: "GetReply \<Rightarrow> verdict" where
  "Get_verdict reply =
     (if gr_Err reply = OK \<or> gr_Err reply = ErrNoKey then Accept
      else if gr_Err reply = ErrWrongGroup then Break else Continue)"

definition PutAppend_verdict :: "PutAppendReply \<Rightarrow> verdict" where
  "PutAppend_verdict reply =
     (if pr_Err reply = OK then Accept else if pr_Err reply = ErrWrongGroup then Break else Continue)"

fun try_group :: "(nat \<Rightarrow> 'srv \<Rightarrow> 'reply option) \<Rightarrow> ('reply \<Rightarrow> verdict) \<Rightarrow> (string \<Rightarrow> 'srv) \<Rightarrow> string list \<Rightarrow> nat \<Rightarrow>
    nat \<times> 'reply option" where
  "try_group call verdict make_end [] u = (u, None)"
| "try_group call verdict make_end (s # servers) u =
     (case call u (make_end s) of
        None \<Rightarrow> try_group call verdict make_end servers (u + 1)
      | Some reply \<Rightarrow>
          (case verdict reply of
             Accept \<Rightarrow> (u + 1, Some reply)
           | Break \<Rightarrow> (u + 1, None)
           | Continue \<Rightarrow> try_group call verdict make_end servers (u + 1)))"

text \<open>The loop that \<open>Get\<close> and \<open>PutAppend\<close> share; \<open>t\<close> and \<open>u\<close> count the calls to the controller and to the groups.\<close>

partial_function (option) shardkv_loop :: "(nat \<Rightarrow> 'srv \<Rightarrow> 'reply option) \<Rightarrow> ('reply \<Rightarrow> verdict) \<Rightarrow>
    (nat \<Rightarrow> 'srv \<Rightarrow> QueryArgs \<Rightarrow> QueryReply option) \<Rightarrow> string \<Rightarrow> 'srv Clerk \<Rightarrow> nat \<Rightarrow> nat \<Rightarrow>
    ('srv Clerk \<times> 'reply) go option" where
  "shardkv_loop call verdict query key ck t u =
     (case go_index (cf_Shards (ck_config ck)) (key2shard key) of
        Inl stop \<Rightarrow> Some (Inl stop)
      | Inr gid \<Rightarrow>
          (case (case gm_get (cf_Groups (ck_config ck)) gid of
                   None \<Rightarrow> (u, None)
                 | Some servers \<Rightarrow> try_group call verdict (ck_make_end ck) servers u) of
             (u', Some reply) \<Rightarrow> Some (Inr (ck, reply))
           | (u', None) \<Rightarrow>
               (case Query query (ck_sm ck) (-1) t of
                  None \<Rightarrow> None
                | Some (t', config) \<Rightarrow>
                    shardkv_loop call verdict query key (ck\<lparr>ck_config := config\<rparr>) t' u')))"

declare shardkv_loop.simps [code]

definition shardkv_Get :: "(nat \<Rightarrow> 'srv \<Rightarrow> GetArgs \<Rightarrow> GetReply option) \<Rightarrow>
    (nat \<Rightarrow> 'srv \<Rightarrow> QueryArgs \<Rightarrow> QueryReply option) \<Rightarrow> string \<Rightarrow> 'srv Clerk \<Rightarrow> nat \<Rightarrow> nat \<Rightarrow> ('srv Clerk \<times> string) go option" where
  "shardkv_Get call query key ck t u =
     (let args = \<lparr>ga_Key = key\<rparr> in
      map_option (map_sum id (\<lambda>(ck, reply). (ck, gr_Value reply)))
        (shardkv_loop (\<lambda>u srv. call u srv args) Get_verdict query key ck t u))"

definition shardkv_PutAppend :: "(nat \<Rightarrow> 'srv \<Rightarrow> PutAppendArgs \<Rightarrow> PutAppendReply option) \<Rightarrow>
    (nat \<Rightarrow> 'srv \<Rightarrow> QueryArgs \<Rightarrow> QueryReply option) \<Rightarrow> string \<Rightarrow> string \<Rightarrow> string \<Rightarrow> 'srv Clerk \<Rightarrow> nat \<Rightarrow> nat \<Rightarrow> 'srv Clerk go option" where
  "shardkv_PutAppend call query key value op ck t u =
     (let args = \<lparr>pa_Key = key, pa_Value = value, pa_Op = op\<rparr> in
      map_option (map_sum id fst)
        (shardkv_loop (\<lambda>u srv. call u srv args) PutAppend_verdict query key ck t u))"

definition shardkv_Put :: "(nat \<Rightarrow> 'srv \<Rightarrow> PutAppendArgs \<Rightarrow> PutAppendReply option) \<Rightarrow>
    (nat \<Rightarrow> 'srv \<Rightarrow> QueryArgs \<Rightarrow> QueryReply option) \<Rightarrow> string \<Rightarrow> string \<Rightarrow> 'srv Clerk \<Rightarrow> nat \<Rightarrow> nat \<Rightarrow> 'srv Clerk go option" where
  "shardkv_Put call query key value ck t u = shardkv_PutAppend call query key value ''Put'' ck t u"

definition shardkv_Append :: "(nat \<Rightarrow> 'srv \<Rightarrow> PutAppendArgs \<Rightarrow> PutAppendReply option) \<Rightarrow>
    (nat \<Rightarrow> 'srv \<Rightarrow> QueryArgs \<Rightarrow> QueryReply option) \<Rightarrow> string \<Rightarrow> string \<Rightarrow> 'srv Clerk \<Rightarrow> nat \<Rightarrow> nat \<Rightarrow> 'srv Clerk go option" where
  "shardkv_Append call query key value ck t u = shardkv_PutAppend call query key value ''Append'' ck t u"

record ('c, 'd, 'srv) ShardKV =
  sk_me :: int
  sk_rf :: "('c, 'd) Raft"
  sk_make_end :: "string \<Rightarrow> 'srv"
  sk_gid :: int
  sk_ctrlers :: "'srv list"
  sk_maxraftstate :: int

definition ShardKV_Get :: "GetArgs \<Rightarrow> GetReply \<Rightarrow> ('c, 'd, 'srv) ShardKV \<Rightarrow> ('c, 'd, 'srv) ShardKV \<times> GetReply" where
  "ShardKV_Get args reply kv = (kv, reply)"

definition ShardKV_PutAppend :: "PutAppendArgs \<Rightarrow> PutAppendReply \<Rightarrow> ('c, 'd, 'srv) ShardKV \<Rightarrow> ('c, 'd, 'srv) ShardKV \<times> PutAppendReply" where
  "ShardKV_PutAppend args reply kv = (kv, reply)"

definition ShardKV_Kill :: "('c, 'd, 'srv) ShardKV \<Rightarrow> ('c, 'd, 'srv) ShardKV go" where
  "ShardKV_Kill kv = go_bind (Kill (sk_rf kv)) (\<lambda>rf. Inr (kv\<lparr>sk_rf := rf\<rparr>))"

definition ShardKV_StartServer :: "nat \<Rightarrow> int \<Rightarrow> 'c gobval Persister \<Rightarrow> int \<Rightarrow> int \<Rightarrow> 'srv list \<Rightarrow> (string \<Rightarrow> 'srv) \<Rightarrow> int \<Rightarrow>
    ('c, 'd, 'srv) ShardKV" where
  "ShardKV_StartServer n i ps maxraftstate gid ctrlers make_end r =
     \<lparr>sk_me = i, sk_rf = Make n i ps r, sk_make_end = make_end, sk_gid = gid, sk_ctrlers = ctrlers,
      sk_maxraftstate = maxraftstate\<rparr>"

section \<open>The replicated store\<close>

text \<open>Its clerk does not call any server.\<close>

definition kvraft_Get :: "string \<Rightarrow> 'srv list \<Rightarrow> 'srv list \<times> string" where
  "kvraft_Get key ck = (ck, [])"

definition kvraft_PutAppend :: "string \<Rightarrow> string \<Rightarrow> string \<Rightarrow> 'srv list \<Rightarrow> 'srv list" where
  "kvraft_PutAppend key value op ck = ck"

definition kvraft_Put :: "string \<Rightarrow> string \<Rightarrow> 'srv list \<Rightarrow> 'srv list" where
  "kvraft_Put key value ck = kvraft_PutAppend key value ''Put'' ck"

definition kvraft_Append :: "string \<Rightarrow> string \<Rightarrow> 'srv list \<Rightarrow> 'srv list" where
  "kvraft_Append key value ck = kvraft_PutAppend key value ''Append'' ck"

record ('c, 'd) KVServer =
  kv_me :: int
  kv_rf :: "('c, 'd) Raft"
  kv_dead :: bool
  kv_maxraftstate :: int

definition KVServer_Get :: "GetArgs \<Rightarrow> GetReply \<Rightarrow> ('c, 'd) KVServer \<Rightarrow> ('c, 'd) KVServer \<times> GetReply" where
  "KVServer_Get args reply kv = (kv, reply)"

definition KVServer_PutAppend :: "PutAppendArgs \<Rightarrow> PutAppendReply \<Rightarrow> ('c, 'd) KVServer \<Rightarrow> ('c, 'd) KVServer \<times> PutAppendReply" where
  "KVServer_PutAppend args reply kv = (kv, reply)"

definition KVServer_Kill :: "('c, 'd) KVServer \<Rightarrow> ('c, 'd) KVServer go" where
  "KVServer_Kill kv =
     (let kv = kv\<lparr>kv_dead := True\<rparr> in go_bind (Kill (kv_rf kv)) (\<lambda>rf. Inr (kv\<lparr>kv_rf := rf\<rparr>)))"

definition KVServer_killed :: "('c, 'd) KVServer \<Rightarrow> bool" where
  "KVServer_killed kv = kv_dead kv"

definition StartKVServer :: "nat \<Rightarrow> int \<Rightarrow> 'c gobval Persister \<Rightarrow> int \<Rightarrow> int \<Rightarrow> ('c, 'd) KVServer" where
  "StartKVServer n i ps maxraftstate r =
     \<lparr>kv_me = i, kv_rf = Make n i ps r, kv_dead = False, kv_maxraftstate = maxraftstate\<rparr>"

end
