(* ===== verification/KV_Tester.thy ===== *)
theory KV_Tester
  imports Tester_Wiring Shard_Services
begin

text \<open>
  \<open>kvraft/config.go\<close>: the harness of the replicated store. Servers and clerks are wired through
  named ends that can be enabled and disabled in groups, servers are shut down and started again with
  what they have saved, and the group can be split so that the leader is in the minority.
  \<open>shardctrler/config.go\<close> has the same code for the shard controller.
\<close>

section \<open>Handles in random order\<close>

definition swap_at :: "nat \<Rightarrow> nat \<Rightarrow> 'a list \<Rightarrow> 'a list" where
  "swap_at i j xs = xs[i := xs ! j, j := xs ! i]"

text \<open>\<open>rnd i\<close> is the result of \<open>rand.Intn(i + 1)\<close>; the zero value of a pointer is nil.\<close>

definition random_handles :: "(nat \<Rightarrow> nat) \<Rightarrow> 'a option list \<Rightarrow> 'a option list" where
  "random_handles rnd kvh =
     (let sa = go_copy (replicate (length kvh) None) kvh
      in fold (\<lambda>i sa. swap_at i (rnd i) sa) [0..<length sa] sa)"

section \<open>The state of the harness\<close>

text \<open>A clerk is the address of its object; \<open>kc_ops\<close> is an \<open>int32\<close>.\<close>

record ('c, 'd, 'v) kv_config =
  kc_net :: "name Network"
  kc_servers :: "(nat, 'v) Server list"
  kc_n :: nat
  kc_kvservers :: "('c, 'd) KVServer option list"
  kc_saved :: "'c gobval Persister option list"
  kc_endnames :: "string list option list"
  kc_clerks :: "(nat, string list) gomap"
  kc_nextClientId :: int
  kc_maxraftstate :: int
  kc_failed :: bool
  kc_start :: int
  kc_t0 :: int
  kc_rpcs0 :: int
  kc_ops :: "32 word"

abbreviation kv_all :: "('c, 'd, 'v) kv_config \<Rightarrow> int list" where
  "kv_all cfg \<equiv> [0..int (kc_n cfg) - 1]"

text \<open>\<open>cfg.saved[i]\<close> is the persister the running server writes to.\<close>

definition kv_saved :: "('c, 'd, 'v) kv_config \<Rightarrow> int \<Rightarrow> 'c gobval Persister option go" where
  "kv_saved cfg i =
     go_bind (go_index (kc_saved cfg) i) (\<lambda>ps.
     go_bind (go_index (kc_kvservers cfg) i) (\<lambda>kv.
       Inr (case kv of Some kv \<Rightarrow> Some (persister (kv_rf kv)) | None \<Rightarrow> ps)))"

definition kv_checkTimeout :: "int \<Rightarrow> ('c, 'd, 'v) kv_config \<Rightarrow> unit go" where
  "kv_checkTimeout now cfg =
     (if \<not> kc_failed cfg \<and> now - kc_start cfg > 120 * 1000
      then Inl (TestFatal ''test took longer than 120 seconds'') else Inr ())"

definition kv_cleanup :: "int \<Rightarrow> ('c, 'd, 'v) kv_config \<Rightarrow> ('c, 'd, 'v) kv_config go" where
  "kv_cleanup now cfg =
     go_bind (go_for (\<lambda>i cfg. go_bind (go_index (kc_kvservers cfg) i) (\<lambda>kv.
         case kv of None \<Rightarrow> Inr cfg
         | Some kv \<Rightarrow> go_bind (KVServer_Kill kv) (\<lambda>kv. Inr (cfg\<lparr>kc_kvservers := (kc_kvservers cfg)[nat i := Some kv]\<rparr>))))
       [0..int (length (kc_kvservers cfg)) - 1] cfg) (\<lambda>cfg.
     go_bind (Cleanup (kc_net cfg)) (\<lambda>net.
     go_bind (kv_checkTimeout now cfg) (\<lambda>_. Inr (cfg\<lparr>kc_net := net\<rparr>))))"

text \<open>The maximum over all servers of a size of their persister.\<close>

definition max_size :: "('c gobval Persister \<Rightarrow> nat) \<Rightarrow> ('c, 'd, 'v) kv_config \<Rightarrow> nat go" where
  "max_size sz cfg =
     go_for (\<lambda>i logsize. go_bind (kv_saved cfg i) (\<lambda>ps.
         case ps of None \<Rightarrow> Inl NilDereference
         | Some ps \<Rightarrow> let n = sz ps in Inr (if n > logsize then n else logsize))) (kv_all cfg) 0"

definition kv_LogSize :: "('c, 'd, 'v) kv_config \<Rightarrow> nat go" where
  "kv_LogSize cfg = max_size RaftStateSize cfg"

definition kv_SnapshotSize :: "('c, 'd, 'v) kv_config \<Rightarrow> nat go" where
  "kv_SnapshotSize cfg = max_size SnapshotSize cfg"

section \<open>Connections\<close>

definition kv_end :: "('c, 'd, 'v) kv_config \<Rightarrow> int \<Rightarrow> int \<Rightarrow> string go" where
  "kv_end cfg i j =
     go_bind (go_index (kc_endnames cfg) i) (\<lambda>es.
       case es of None \<Rightarrow> Inl (IndexOutOfRange j) | Some es \<Rightarrow> go_index es j)"

definition kv_enable :: "int \<Rightarrow> int \<Rightarrow> bool \<Rightarrow> ('c, 'd, 'v) kv_config \<Rightarrow> ('c, 'd, 'v) kv_config go" where
  "kv_enable i j b cfg = go_bind (kv_end cfg i j) (\<lambda>endname. Inr (cfg\<lparr>kc_net := Enable (Str endname) b (kc_net cfg)\<rparr>))"

definition connectUnlocked :: "int \<Rightarrow> int list \<Rightarrow> ('c, 'd, 'v) kv_config \<Rightarrow> ('c, 'd, 'v) kv_config go" where
  "connectUnlocked i to cfg =
     go_bind (go_for (\<lambda>j cfg. kv_enable i j True cfg) to cfg) (\<lambda>cfg.
     go_for (\<lambda>j cfg. kv_enable j i True cfg) to cfg)"

text \<open>The second guard asks for \<open>cfg.endnames[j]\<close>, with the position \<open>j\<close> in \<open>from\<close> instead of
  \<open>from[j]\<close>.\<close>

definition disconnectUnlocked :: "int \<Rightarrow> int list \<Rightarrow> ('c, 'd, 'v) kv_config \<Rightarrow> ('c, 'd, 'v) kv_config go" where
  "disconnectUnlocked i frm cfg =
     go_bind (go_for (\<lambda>j cfg. go_bind (go_index (kc_endnames cfg) i) (\<lambda>es.
         if es \<noteq> None then kv_enable i j False cfg else Inr cfg)) frm cfg) (\<lambda>cfg.
     go_for (\<lambda>(j, x) cfg. go_bind (go_index (kc_endnames cfg) j) (\<lambda>es.
         if es \<noteq> None then kv_enable x i False cfg else Inr cfg)) (zip [0..int (length frm) - 1] frm) cfg)"

definition kv_All :: "('c, 'd, 'v) kv_config \<Rightarrow> int list" where
  "kv_All cfg = map (\<lambda>i. i) (kv_all cfg)"

definition ConnectAll :: "('c, 'd, 'v) kv_config \<Rightarrow> ('c, 'd, 'v) kv_config go" where
  "ConnectAll cfg = go_for (\<lambda>i cfg. connectUnlocked i (kv_All cfg) cfg) (kv_all cfg) cfg"

definition kv_partition :: "int list \<Rightarrow> int list \<Rightarrow> ('c, 'd, 'v) kv_config \<Rightarrow> ('c, 'd, 'v) kv_config go" where
  "kv_partition p1 p2 cfg =
     go_bind (go_for (\<lambda>i cfg. go_bind (disconnectUnlocked i p2 cfg) (connectUnlocked i p1)) p1 cfg) (\<lambda>cfg.
     go_for (\<lambda>i cfg. go_bind (disconnectUnlocked i p1 cfg) (connectUnlocked i p2)) p2 cfg)"

section \<open>Clerks\<close>

definition clerk_names :: "('c, 'd, 'v) kv_config \<Rightarrow> nat \<Rightarrow> string list" where
  "clerk_names cfg ck = (case gm_get (kc_clerks cfg) ck of None \<Rightarrow> [] | Some es \<Rightarrow> es)"

definition clerk_enable :: "bool \<Rightarrow> nat \<Rightarrow> int list \<Rightarrow> ('c, 'd, 'v) kv_config \<Rightarrow> ('c, 'd, 'v) kv_config go" where
  "clerk_enable b ck to cfg =
     (let endnames = clerk_names cfg ck in
      go_for (\<lambda>j cfg. go_bind (go_index endnames j) (\<lambda>s. Inr (cfg\<lparr>kc_net := Enable (Str s) b (kc_net cfg)\<rparr>))) to cfg)"

definition ConnectClientUnlocked :: "nat \<Rightarrow> int list \<Rightarrow> ('c, 'd, 'v) kv_config \<Rightarrow> ('c, 'd, 'v) kv_config go" where
  "ConnectClientUnlocked ck to cfg = clerk_enable True ck to cfg"

definition DisconnectClientUnlocked :: "nat \<Rightarrow> int list \<Rightarrow> ('c, 'd, 'v) kv_config \<Rightarrow> ('c, 'd, 'v) kv_config go" where
  "DisconnectClientUnlocked ck frm cfg = clerk_enable False ck frm cfg"

text \<open>One fresh end to server \<open>j\<close>.\<close>

definition kv_make_end :: "string \<Rightarrow> int \<Rightarrow> ('c, 'd, 'v) kv_config \<Rightarrow> ('c, 'd, 'v) kv_config go" where
  "kv_make_end e j cfg = go_bind (MakeEnd (Str e) (kc_net cfg)) (\<lambda>net. Inr (cfg\<lparr>kc_net := Connect (Str e) (Num j) net\<rparr>))"

text \<open>\<open>names\<close> are the results of \<open>randstring\<close>, \<open>ck\<close> is the address of the new clerk. The clerk is the
  list of its ends.\<close>

definition makeClient :: "nat \<Rightarrow> (int \<Rightarrow> string) \<Rightarrow> (nat \<Rightarrow> nat) \<Rightarrow> int list \<Rightarrow> ('c, 'd, 'v) kv_config \<Rightarrow>
    (('c, 'd, 'v) kv_config \<times> string option list) go" where
  "makeClient ck names rnd to cfg =
     go_bind (go_for (\<lambda>j cfg. kv_make_end (names j) j cfg) (kv_all cfg) cfg) (\<lambda>cfg.
     let endnames = map names (kv_all cfg);
         ends = map Some endnames;
         servers = random_handles rnd ends;
         cfg = cfg\<lparr>kc_clerks := gm_put ck endnames (kc_clerks cfg), kc_nextClientId := kc_nextClientId cfg + 1\<rparr>
     in go_bind (ConnectClientUnlocked ck to cfg) (\<lambda>cfg. Inr (cfg, servers)))"

text \<open>\<open>deleteClient\<close> also removes files with the names of the ends, which do not exist.\<close>

definition deleteClient :: "nat \<Rightarrow> ('c, 'd, 'v) kv_config \<Rightarrow> ('c, 'd, 'v) kv_config" where
  "deleteClient ck cfg = cfg\<lparr>kc_clerks := gm_delete ck (kc_clerks cfg)\<rparr>"

section \<open>Servers\<close>

definition ShutdownServer :: "int \<Rightarrow> ('c, 'd, 'v) kv_config \<Rightarrow> ('c, 'd, 'v) kv_config go" where
  "ShutdownServer i cfg =
     go_bind (disconnectUnlocked i (kv_All cfg) cfg) (\<lambda>cfg.
     let cfg = cfg\<lparr>kc_net := DeleteServer (Num i) (kc_net cfg)\<rparr> in
     go_bind (kv_saved cfg i) (\<lambda>ps.
     let cfg = (case ps of None \<Rightarrow> cfg | Some ps \<Rightarrow> cfg\<lparr>kc_saved := (kc_saved cfg)[nat i := Some (Copy ps)]\<rparr>) in
     go_bind (go_index (kc_kvservers cfg) i) (\<lambda>kv.
       case kv of None \<Rightarrow> Inr cfg
       | Some kv \<Rightarrow> go_bind (KVServer_Kill kv) (\<lambda>_. Inr (cfg\<lparr>kc_kvservers := (kc_kvservers cfg)[nat i := None]\<rparr>)))))"

text \<open>The objects behind the two services of the server at position \<open>p\<close> of \<open>kc_servers\<close> have the
  addresses \<open>2 * p\<close> and \<open>2 * p + 1\<close>.\<close>

definition StartServer :: "int \<Rightarrow> (int \<Rightarrow> string) \<Rightarrow> (nat, 'v) Method list \<Rightarrow> (nat, 'v) Method list \<Rightarrow> int \<Rightarrow>
    ('c, 'd, 'v) kv_config \<Rightarrow> ('c, 'd, 'v) kv_config go" where
  "StartServer i names kvtyp rftyp r cfg =
     go_bind (go_assign (kc_endnames cfg) i (Some (map names (kv_all cfg)))) (\<lambda>es.
     let cfg = cfg\<lparr>kc_endnames := es\<rparr> in
     go_bind (go_for (\<lambda>j cfg. go_bind (kv_end cfg i j) (\<lambda>e. kv_make_end e j cfg)) (kv_all cfg) cfg) (\<lambda>cfg.
     go_bind (kv_saved cfg i) (\<lambda>ps.
     let ps = (case ps of Some ps \<Rightarrow> Copy ps | None \<Rightarrow> MakePersister);
         cfg = cfg\<lparr>kc_saved := (kc_saved cfg)[nat i := Some ps]\<rparr> in
     go_bind (go_assign (kc_kvservers cfg) i (Some (StartKVServer (kc_n cfg) i ps (kc_maxraftstate cfg) r))) (\<lambda>kvs.
     let p = length (kc_servers cfg);
         srv = AddService (MakeService ''Raft'' (2 * p + 1) rftyp) (AddService (MakeService ''KVServer'' (2 * p) kvtyp) MakeServer)
     in Inr (cfg\<lparr>kc_kvservers := kvs, kc_servers := kc_servers cfg @ [srv],
                 kc_net := AddServer (Num i) p (kc_net cfg)\<rparr>)))))"

fun leader_loop :: "('c, 'd, 'v) kv_config \<Rightarrow> int list \<Rightarrow> (bool \<times> int) go" where
  "leader_loop cfg [] = Inr (False, 0)"
| "leader_loop cfg (i # is) =
     go_bind (go_index (kc_kvservers cfg) i) (\<lambda>kv.
       case kv of None \<Rightarrow> Inl NilDereference
       | Some kv \<Rightarrow> go_bind (GetState (kv_rf kv)) (\<lambda>(_, _, is_leader).
           if is_leader then Inr (True, i) else leader_loop cfg is))"

definition kv_Leader :: "('c, 'd, 'v) kv_config \<Rightarrow> (bool \<times> int) go" where
  "kv_Leader cfg = leader_loop cfg (kv_all cfg)"

text \<open>The loop of \<open>make_partition\<close> over all servers but \<open>l\<close>; the slices start with zeros.\<close>

definition partition_step :: "int \<Rightarrow> int \<Rightarrow> int list \<times> int list \<times> int \<Rightarrow> (int list \<times> int list \<times> int) go" where
  "partition_step l i = (\<lambda>(p1, p2, j).
     if i \<noteq> l then
       if j < int (length p1) then go_bind (go_assign p1 j i) (\<lambda>p1. Inr (p1, p2, j + 1))
       else go_bind (go_assign p2 (j - int (length p1)) i) (\<lambda>p2. Inr (p1, p2, j + 1))
     else Inr (p1, p2, j))"

definition make_partition :: "('c, 'd, 'v) kv_config \<Rightarrow> (int list \<times> int list) go" where
  "make_partition cfg =
     go_bind (kv_Leader cfg) (\<lambda>(_, l).
     let p1 = replicate (kc_n cfg div 2 + 1) 0;
         p2 = replicate (kc_n cfg div 2) 0 in
     go_bind (go_for (partition_step l) (kv_all cfg) (p1, p2, 0)) (\<lambda>(p1, p2, j).
     go_bind (go_assign p2 (int (length p2) - 1) l) (\<lambda>p2. Inr (p1, p2))))"

section \<open>A whole test\<close>

definition kv_new_config :: "nat \<Rightarrow> int \<Rightarrow> int \<Rightarrow> ('c, 'd, 'v) kv_config" where
  "kv_new_config n maxraftstate now = \<lparr>kc_net = MakeNetwork, kc_servers = [], kc_n = n, kc_kvservers = replicate n None,
     kc_saved = replicate n None, kc_endnames = replicate n None, kc_clerks = [], kc_nextClientId = int n + 1000,
     kc_maxraftstate = maxraftstate, kc_failed = False, kc_start = now, kc_t0 = 0, kc_rpcs0 = 0, kc_ops = 0\<rparr>"

definition kv_make_config :: "nat \<Rightarrow> bool \<Rightarrow> int \<Rightarrow> int \<Rightarrow> (int \<Rightarrow> int \<Rightarrow> string) \<Rightarrow> (nat, 'v) Method list \<Rightarrow>
    (nat, 'v) Method list \<Rightarrow> (int \<Rightarrow> int) \<Rightarrow> ('c, 'd, 'v) kv_config go" where
  "kv_make_config n unreliable maxraftstate now names kvtyp rftyp r =
     (let cfg = kv_new_config n maxraftstate now in
      go_bind (go_for (\<lambda>i cfg. StartServer i (names i) kvtyp rftyp (r i) cfg) (kv_all cfg) cfg) (\<lambda>cfg.
      go_bind (ConnectAll cfg) (\<lambda>cfg.
        Inr (cfg\<lparr>kc_net := Reliable (\<not> unreliable) (kc_net cfg)\<rparr>))))"

definition kv_rpcTotal :: "('c, 'd, 'v) kv_config \<Rightarrow> int" where
  "kv_rpcTotal cfg = GetTotalCount (kc_net cfg)"

definition kv_begin :: "int \<Rightarrow> ('c, 'd, 'v) kv_config \<Rightarrow> ('c, 'd, 'v) kv_config" where
  "kv_begin now cfg = cfg\<lparr>kc_t0 := now, kc_rpcs0 := kv_rpcTotal cfg, kc_ops := 0\<rparr>"

definition kv_op :: "('c, 'd, 'v) kv_config \<Rightarrow> ('c, 'd, 'v) kv_config" where
  "kv_op cfg = cfg\<lparr>kc_ops := kc_ops cfg + 1\<rparr>"

definition kv_end_test :: "int \<Rightarrow> ('c, 'd, 'v) kv_config \<Rightarrow> (int \<times> nat \<times> int \<times> int) option go" where
  "kv_end_test now cfg =
     go_bind (kv_checkTimeout now cfg) (\<lambda>_.
       if kc_failed cfg = False then
         let t = now - kc_t0 cfg; npeers = kc_n cfg; nrpc = kv_rpcTotal cfg - kc_rpcs0 cfg; ops = sint (kc_ops cfg)
         in Inr (Some (t, npeers, nrpc, ops))
       else Inr None)"

end
