(* ===== verification/KV_Tester_Props.thy ===== *)
theory KV_Tester_Props
  imports KV_Tester "HOL-Library.Multiset"
begin

text \<open>
  What the harness of \<open>kvraft/config.go\<close> promises: a partition lets exactly the servers of one side
  talk to each other, the sides \<open>make_partition\<close> chooses put the leader into the minority when the
  number of servers is odd, a restarted server starts from what its old instance saved, and the
  order in which a clerk tries the servers is a permutation of them.
\<close>

section \<open>Handles in random order\<close>

lemma mset_swap_at: "i < length xs \<Longrightarrow> j < length xs \<Longrightarrow> mset (swap_at i j xs) = mset xs"
  by (simp add: swap_at_def mset_swap)

lemma fold_swap_at:
  assumes "\<And>i. i \<in> set is \<Longrightarrow> i < length xs \<and> rnd i < length xs"
  shows "mset (fold (\<lambda>i. swap_at i (rnd i)) is xs) = mset xs"
  using assms
proof (induction "is" arbitrary: xs)
  case (Cons i "is")
  have "length (swap_at i (rnd i) xs) = length xs" by (simp add: swap_at_def)
  then show ?case using Cons by (simp add: mset_swap_at)
qed simp

text \<open>
  The ends a new clerk gets are the ends the harness made, each exactly once, in an order that
  depends on the random numbers alone; nothing is lost or doubled by the shuffle.
\<close>

theorem random_handles_permutation:
  assumes "\<And>i. rnd i \<le> i"
  shows "mset (random_handles rnd kvh) = mset kvh"
proof -
  have "i < length kvh \<and> rnd i < length kvh" if "i \<in> set [0..<length kvh]" for i
    using that assms [of i] by auto
  then show ?thesis using fold_swap_at [of "[0..<length kvh]" kvh rnd] by (simp add: random_handles_def)
qed

theorem random_handles_permutation_witness:
  "mset (random_handles (\<lambda>i. i div 2) [Some ''a'', Some ''b'', Some ''c'']) = mset [Some ''a'', Some ''b'', Some ''c''] \<and>
   random_handles (\<lambda>i. i div 2) [Some ''a'', Some ''b'', Some ''c''] \<noteq> [Some ''a'', Some ''b'', Some ''c'']"
proof -
  have "random_handles (\<lambda>i. i div 2) [Some ''a'', Some ''b'', Some ''c''] \<noteq> [Some ''a'', Some ''b'', Some ''c'']" by code_simp
  moreover have "mset (random_handles (\<lambda>i. i div 2) [Some ''a'', Some ''b'', Some ''c'']) = mset [Some ''a'', Some ''b'', Some ''c'']"
    by (rule random_handles_permutation) simp
  ultimately show ?thesis by simp
qed

section \<open>Ends of a group of running servers\<close>

abbreviation kv_ids :: "('c, 'd, 'v) kv_config \<Rightarrow> int set" where
  "kv_ids cfg \<equiv> {0..<int (kc_n cfg)}"

definition kv_wire :: "('c, 'd, 'v) kv_config \<Rightarrow> int \<Rightarrow> int \<Rightarrow> name" where
  "kv_wire cfg i j = Str (the (kc_endnames cfg ! nat i) ! nat j)"

text \<open>Every server has been started, and no two ends have the same name.\<close>

definition kv_started :: "('c, 'd, 'v) kv_config \<Rightarrow> bool" where
  "kv_started cfg \<longleftrightarrow> length (kc_endnames cfg) = kc_n cfg \<and>
     (\<forall>es\<in>set (kc_endnames cfg). es \<noteq> None \<and> length (the es) = kc_n cfg) \<and>
     inj_on (\<lambda>(i, j). kv_wire cfg i j) (kv_ids cfg \<times> kv_ids cfg)"

definition kv_linked :: "('c, 'd, 'v) kv_config \<Rightarrow> int \<Rightarrow> int \<Rightarrow> bool" where
  "kv_linked cfg i j = get_enabled (kc_net cfg) (kv_wire cfg i j)"

lemma kv_net_simps [simp]:
  "kv_wire (cfg\<lparr>kc_net := net\<rparr>) = kv_wire cfg" "kv_started (cfg\<lparr>kc_net := net\<rparr>) = kv_started cfg"
  by (simp_all add: kv_wire_def kv_started_def fun_eq_iff)

lemma kv_wire_inj:
  assumes "kv_started cfg" and "i \<in> kv_ids cfg" "j \<in> kv_ids cfg" "a \<in> kv_ids cfg" "b \<in> kv_ids cfg"
  shows "kv_wire cfg i j = kv_wire cfg a b \<longleftrightarrow> i = a \<and> j = b"
  using inj_onD [of "\<lambda>(i, j). kv_wire cfg i j" "kv_ids cfg \<times> kv_ids cfg" "(i, j)" "(a, b)"] assms
  by (auto simp: kv_started_def)

lemma kv_enable_started:
  assumes "kv_started cfg" and "i \<in> kv_ids cfg" "j \<in> kv_ids cfg"
  shows "kv_enable i j b cfg = Inr (cfg\<lparr>kc_net := Enable (kv_wire cfg i j) b (kc_net cfg)\<rparr>)"
proof -
  have "kc_endnames cfg ! nat i \<in> set (kc_endnames cfg)" using assms by (auto simp: kv_started_def)
  then obtain es where "kc_endnames cfg ! nat i = Some es" "length es = kc_n cfg" using assms(1) by (auto simp: kv_started_def)
  then show ?thesis using assms by (simp add: kv_enable_def kv_end_def go_index_def kv_started_def kv_wire_def)
qed

text \<open>\<open>cfg'\<close> is \<open>cfg\<close> with the ends between the pairs in \<open>T\<close> enabled and those in \<open>F\<close> disabled.\<close>

definition relinked :: "(int \<times> int) set \<Rightarrow> (int \<times> int) set \<Rightarrow> ('c, 'd, 'v) kv_config \<Rightarrow> ('c, 'd, 'v) kv_config \<Rightarrow> bool" where
  "relinked T F cfg cfg' \<longleftrightarrow> cfg' = cfg\<lparr>kc_net := kc_net cfg'\<rparr> \<and> net_same (kc_net cfg) (kc_net cfg') \<and>
     (\<forall>i\<in>kv_ids cfg. \<forall>j\<in>kv_ids cfg. kv_linked cfg' i j = ((i, j) \<in> T \<or> (i, j) \<notin> F \<and> kv_linked cfg i j)) \<and>
     (\<forall>e. e \<notin> (\<lambda>(i, j). kv_wire cfg i j) ` (T \<union> F) \<longrightarrow> get_enabled (kc_net cfg') e = get_enabled (kc_net cfg) e)"

lemma relinked_fields:
  assumes "relinked T F cfg cfg'"
  shows "kc_n cfg' = kc_n cfg" "kv_wire cfg' = kv_wire cfg" "kc_endnames cfg' = kc_endnames cfg" "kv_started cfg' = kv_started cfg"
proof -
  obtain net where "cfg' = cfg\<lparr>kc_net := net\<rparr>" using assms unfolding relinked_def by blast
  then show "kc_n cfg' = kc_n cfg" "kv_wire cfg' = kv_wire cfg" "kc_endnames cfg' = kc_endnames cfg" "kv_started cfg' = kv_started cfg"
    by simp_all
qed

lemma relinked_none: "relinked {} {} cfg cfg"
  by (simp add: relinked_def net_same_def)

lemma relinked_one:
  assumes "kv_started cfg" and "i \<in> kv_ids cfg" "j \<in> kv_ids cfg"
  shows "\<exists>cfg'. kv_enable i j b cfg = Inr cfg' \<and> relinked (if b then {(i, j)} else {}) (if b then {} else {(i, j)}) cfg cfg'"
proof -
  let ?c = "cfg\<lparr>kc_net := Enable (kv_wire cfg i j) b (kc_net cfg)\<rparr>"
  have "kv_linked ?c x y = (if x = i \<and> y = j then b else kv_linked cfg x y)" if "x \<in> kv_ids cfg" "y \<in> kv_ids cfg" for x y
    using kv_wire_inj [OF assms(1) that assms(2,3)] by (simp add: kv_linked_def)
  then have "relinked (if b then {(i, j)} else {}) (if b then {} else {(i, j)}) cfg ?c"
    by (auto simp: relinked_def)
  then show ?thesis using kv_enable_started [OF assms] by blast
qed

lemma relinked_trans:
  assumes "relinked T F cfg cfg1" and "relinked T' F' cfg1 cfg2" and "(T \<union> T') \<inter> (F \<union> F') = {}"
  shows "relinked (T \<union> T') (F \<union> F') cfg cfg2"
proof -
  note f = relinked_fields [OF assms(1)]
  have "cfg2 = cfg\<lparr>kc_net := kc_net cfg2\<rparr>"
    using assms(1,2) unfolding relinked_def by (metis (no_types, lifting) kv_config.surjective kv_config.update_convs(1))
  moreover have "net_same (kc_net cfg) (kc_net cfg2)" using assms(1,2) by (simp add: relinked_def net_same_def)
  moreover have "kv_linked cfg2 i j = ((i, j) \<in> T \<union> T' \<or> (i, j) \<notin> F \<union> F' \<and> kv_linked cfg i j)"
    if "i \<in> kv_ids cfg" "j \<in> kv_ids cfg" for i j
  proof -
    have "kv_linked cfg2 i j = ((i, j) \<in> T' \<or> (i, j) \<notin> F' \<and> kv_linked cfg1 i j)"
      "kv_linked cfg1 i j = ((i, j) \<in> T \<or> (i, j) \<notin> F \<and> kv_linked cfg i j)"
      using that assms(1,2) f(1) unfolding relinked_def by simp_all
    then show ?thesis using assms(3) by auto
  qed
  moreover have "get_enabled (kc_net cfg2) e = get_enabled (kc_net cfg) e"
    if "e \<notin> (\<lambda>(i, j). kv_wire cfg i j) ` ((T \<union> T') \<union> (F \<union> F'))" for e
  proof -
    have "e \<notin> (\<lambda>(i, j). kv_wire cfg i j) ` (T \<union> F)" "e \<notin> (\<lambda>(i, j). kv_wire cfg1 i j) ` (T' \<union> F')"
      using that unfolding f(2) by blast+
    then show ?thesis using assms(1,2) unfolding relinked_def by simp
  qed
  ultimately show ?thesis unfolding relinked_def by blast
qed

text \<open>A loop whose rounds enable ends in \<open>T\<close> and disable ends in \<open>F\<close>.\<close>

lemma go_for_relinked:
  assumes "kv_started cfg" and "kc_endnames cfg = es" and "kc_n cfg = n"
    and "\<And>j c. j \<in> set js \<Longrightarrow> kv_started c \<Longrightarrow> kc_endnames c = es \<Longrightarrow> kc_n c = n \<Longrightarrow> \<exists>c'. body j c = Inr c' \<and> relinked (T j) (F j) c c'"
    and "\<Union> (T ` set js) \<inter> \<Union> (F ` set js) = {}"
  shows "\<exists>cfg'. go_for body js cfg = Inr cfg' \<and> relinked (\<Union> (T ` set js)) (\<Union> (F ` set js)) cfg cfg'"
  using assms
proof (induction js arbitrary: cfg)
  case Nil
  then show ?case using relinked_none by simp
next
  case (Cons j js)
  obtain c1 where c1: "body j cfg = Inr c1" "relinked (T j) (F j) cfg c1"
    using Cons.prems(4) [of j cfg] Cons.prems(1-3) by auto
  note f = relinked_fields [OF c1(2)]
  have "\<exists>cfg'. go_for body js c1 = Inr cfg' \<and> relinked (\<Union> (T ` set js)) (\<Union> (F ` set js)) c1 cfg'"
    by (rule Cons.IH) (use Cons.prems f in auto)
  then obtain c2 where c2: "go_for body js c1 = Inr c2" "relinked (\<Union> (T ` set js)) (\<Union> (F ` set js)) c1 c2" by blast
  have "relinked (T j \<union> \<Union> (T ` set js)) (F j \<union> \<Union> (F ` set js)) cfg c2"
    by (rule relinked_trans [OF c1(2) c2(2)]) (use Cons.prems(5) in auto)
  then show ?case using c1(1) c2(1) by simp
qed

section \<open>Connecting, disconnecting, partitions\<close>

definition star :: "int \<Rightarrow> int set \<Rightarrow> (int \<times> int) set" where
  "star i P = {i} \<times> P \<union> P \<times> {i}"

lemma enable_loops:
  fixes cfg :: "('c, 'd, 'v) kv_config"
  assumes st: "kv_started cfg" and i: "i \<in> kv_ids cfg" and P: "set ps \<subseteq> kv_ids cfg"
    and out: "\<And>j c. j \<in> set ps \<Longrightarrow> kv_started c \<Longrightarrow> kc_endnames c = kc_endnames cfg \<Longrightarrow> kc_n c = kc_n cfg \<Longrightarrow> out j c = kv_enable i j b c"
    and inc: "\<And>k c. k \<in> set ks \<Longrightarrow> kv_started c \<Longrightarrow> kc_endnames c = kc_endnames cfg \<Longrightarrow> kc_n c = kc_n cfg \<Longrightarrow> inc k c = kv_enable (g k) i b c"
    and ks: "g ` set ks = set ps"
  shows "\<exists>cfg'. go_bind (go_for out ps cfg) (go_for inc ks) = Inr cfg' \<and>
    relinked (if b then star i (set ps) else {}) (if b then {} else star i (set ps)) cfg cfg'"
proof -
  let ?on = "\<lambda>X. if b then X else {}" and ?off = "\<lambda>X. if b then {} else X"
  have "\<exists>c1. go_for out ps cfg = Inr c1 \<and> relinked (\<Union>j\<in>set ps. ?on {(i, j)}) (\<Union>j\<in>set ps. ?off {(i, j)}) cfg c1"
  proof (rule go_for_relinked [OF st refl refl])
    fix j and c :: "('c, 'd, 'v) kv_config" assume j: "j \<in> set ps" and c: "kv_started c" "kc_endnames c = kc_endnames cfg" "kc_n c = kc_n cfg"
    show "\<exists>c'. out j c = Inr c' \<and> relinked (?on {(i, j)}) (?off {(i, j)}) c c'"
      unfolding out [OF j c] using j c(3) i P by (intro relinked_one [OF c(1)]) auto
  qed auto
  then obtain c1 where c1: "go_for out ps cfg = Inr c1" "relinked (\<Union>j\<in>set ps. ?on {(i, j)}) (\<Union>j\<in>set ps. ?off {(i, j)}) cfg c1" by blast
  note f = relinked_fields [OF c1(2)]
  have "\<exists>c2. go_for inc ks c1 = Inr c2 \<and> relinked (\<Union>k\<in>set ks. ?on {(g k, i)}) (\<Union>k\<in>set ks. ?off {(g k, i)}) c1 c2"
  proof (rule go_for_relinked)
    fix k and c :: "('c, 'd, 'v) kv_config" assume k: "k \<in> set ks" and c: "kv_started c" "kc_endnames c = kc_endnames cfg" "kc_n c = kc_n cfg"
    have "g k \<in> set ps" using k ks by blast
    then show "\<exists>c'. inc k c = Inr c' \<and> relinked (?on {(g k, i)}) (?off {(g k, i)}) c c'"
      unfolding inc [OF k c] using c(3) i P by (intro relinked_one [OF c(1)]) auto
  qed (use f st in auto)
  then obtain c2 where c2: "go_for inc ks c1 = Inr c2" "relinked (\<Union>k\<in>set ks. ?on {(g k, i)}) (\<Union>k\<in>set ks. ?off {(g k, i)}) c1 c2" by blast
  have "relinked ((\<Union>j\<in>set ps. ?on {(i, j)}) \<union> (\<Union>k\<in>set ks. ?on {(g k, i)})) ((\<Union>j\<in>set ps. ?off {(i, j)}) \<union> (\<Union>k\<in>set ks. ?off {(g k, i)})) cfg c2"
    by (rule relinked_trans [OF c1(2) c2(2)]) auto
  moreover have "(\<Union>j\<in>set ps. ?on {(i, j)}) \<union> (\<Union>k\<in>set ks. ?on {(g k, i)}) = ?on (star i (set ps))"
    "(\<Union>j\<in>set ps. ?off {(i, j)}) \<union> (\<Union>k\<in>set ks. ?off {(g k, i)}) = ?off (star i (set ps))"
    by (auto simp: star_def ks [symmetric])
  ultimately show ?thesis using c1(1) c2(1) by simp
qed

lemma connectUnlocked_started:
  assumes "kv_started cfg" and "i \<in> kv_ids cfg" and "set ps \<subseteq> kv_ids cfg"
  shows "\<exists>cfg'. connectUnlocked i ps cfg = Inr cfg' \<and> relinked (star i (set ps)) {} cfg cfg'"
  using enable_loops [OF assms, of "\<lambda>j. kv_enable i j True" True ps "\<lambda>j. kv_enable j i True" "\<lambda>k. k"]
  by (simp add: connectUnlocked_def)

text \<open>When all servers have been started, the guard that reads the wrong entry does no harm.\<close>

lemma disconnectUnlocked_started:
  fixes cfg :: "('c, 'd, 'v) kv_config"
  assumes st: "kv_started cfg" and "i \<in> kv_ids cfg" and "set ps \<subseteq> kv_ids cfg" and len: "length ps \<le> kc_n cfg"
  shows "\<exists>cfg'. disconnectUnlocked i ps cfg = Inr cfg' \<and> relinked {} (star i (set ps)) cfg cfg'"
proof -
  let ?ks = "zip [0..int (length ps) - 1] ps"
  have up: "\<exists>es. go_index (kc_endnames c) j = Inr (Some es)" if "kv_started c" "j \<in> kv_ids c" for c :: "('c, 'd, 'v) kv_config" and j
  proof -
    have "kc_endnames c ! nat j \<in> set (kc_endnames c)" using that by (auto simp: kv_started_def)
    then show ?thesis using that by (auto simp: go_index_def kv_started_def)
  qed
  have "\<exists>cfg'. go_bind (go_for (\<lambda>j cfg. go_bind (go_index (kc_endnames cfg) i) (\<lambda>es.
         if es \<noteq> None then kv_enable i j False cfg else Inr cfg)) ps cfg)
       (go_for (\<lambda>(j, x) cfg. go_bind (go_index (kc_endnames cfg) j) (\<lambda>es.
         if es \<noteq> None then kv_enable x i False cfg else Inr cfg)) ?ks) = Inr cfg' \<and>
      relinked (if False then star i (set ps) else {}) (if False then {} else star i (set ps)) cfg cfg'"
  proof (rule enable_loops [OF assms(1-3)])
    fix j and c :: "('c, 'd, 'v) kv_config" assume "kv_started c" "kc_n c = kc_n cfg"
    then show "go_bind (go_index (kc_endnames c) i) (\<lambda>es. if es \<noteq> None then kv_enable i j False c else Inr c) = kv_enable i j False c"
      using up [of c i] assms(2) by auto
  next
    fix k and c :: "('c, 'd, 'v) kv_config" assume k: "k \<in> set ?ks" and c: "kv_started c" "kc_n c = kc_n cfg"
    obtain a x where ax: "k = (a, x)" by (cases k)
    have "a \<in> set [0..int (length ps) - 1]" using k unfolding ax by (rule set_zip_leftD)
    then have a: "a \<in> kv_ids c" using len c(2) by auto
    then show "(case k of (j, x) \<Rightarrow> \<lambda>cfg. go_bind (go_index (kc_endnames cfg) j) (\<lambda>es.
         if es \<noteq> None then kv_enable x i False cfg else Inr cfg)) c = kv_enable (snd k) i False c"
      using up [OF c(1) a] by (auto simp: ax)
  next
    have "map snd ?ks = ps" by (simp add: map_snd_zip)
    then show "snd ` set ?ks = set ps" by (metis set_map)
  qed
  then show ?thesis by (simp add: disconnectUnlocked_def)
qed

text \<open>One round of \<open>partition\<close>.\<close>

lemma partition_round:
  assumes "kv_started cfg" and "i \<in> kv_ids cfg" and "set ps \<subseteq> kv_ids cfg" and "set qs \<subseteq> kv_ids cfg" and "length qs \<le> kc_n cfg"
    and "set ps \<inter> set qs = {}" and "i \<in> set ps"
  shows "\<exists>cfg'. go_bind (disconnectUnlocked i qs cfg) (connectUnlocked i ps) = Inr cfg' \<and>
    relinked (star i (set ps)) (star i (set qs)) cfg cfg'"
proof -
  obtain c1 where c1: "disconnectUnlocked i qs cfg = Inr c1" "relinked {} (star i (set qs)) cfg c1"
    using disconnectUnlocked_started [OF assms(1,2,4,5)] by blast
  note f = relinked_fields [OF c1(2)]
  obtain c2 where c2: "connectUnlocked i ps c1 = Inr c2" "relinked (star i (set ps)) {} c1 c2"
    using connectUnlocked_started [of c1 i ps] assms(1-3) f by auto
  have "relinked ({} \<union> star i (set ps)) (star i (set qs) \<union> {}) cfg c2"
    by (rule relinked_trans [OF c1(2) c2(2)]) (use assms(6,7) in \<open>auto simp: star_def\<close>)
  then show ?thesis using c1(1) c2(1) by simp
qed

lemma partition_rounds:
  fixes cfg :: "('c, 'd, 'v) kv_config"
  assumes "kv_started cfg" and "set ps \<subseteq> kv_ids cfg" and "set qs \<subseteq> kv_ids cfg" and "length qs \<le> kc_n cfg" and "set ps \<inter> set qs = {}"
  shows "\<exists>cfg'. go_for (\<lambda>i cfg. go_bind (disconnectUnlocked i qs cfg) (connectUnlocked i ps)) ps cfg = Inr cfg' \<and>
    relinked (set ps \<times> set ps) (set ps \<times> set qs \<union> set qs \<times> set ps) cfg cfg'"
proof -
  have "\<exists>cfg'. go_for (\<lambda>i cfg. go_bind (disconnectUnlocked i qs cfg) (connectUnlocked i ps)) ps cfg = Inr cfg' \<and>
      relinked (\<Union>i\<in>set ps. star i (set ps)) (\<Union>i\<in>set ps. star i (set qs)) cfg cfg'"
  proof (rule go_for_relinked [OF assms(1) refl refl])
    fix i and c :: "('c, 'd, 'v) kv_config" assume "i \<in> set ps" "kv_started c" "kc_n c = kc_n cfg"
    then show "\<exists>c'. go_bind (disconnectUnlocked i qs c) (connectUnlocked i ps) = Inr c' \<and> relinked (star i (set ps)) (star i (set qs)) c c'"
      using assms by (intro partition_round) auto
  qed (use assms(5) in \<open>auto simp: star_def\<close>)
  moreover have "(\<Union>i\<in>set ps. star i (set ps)) = set ps \<times> set ps" "(\<Union>i\<in>set ps. star i (set qs)) = set ps \<times> set qs \<union> set qs \<times> set ps"
    by (auto simp: star_def)
  ultimately show ?thesis by simp
qed

lemma kv_partition_relinked:
  assumes "kv_started cfg" and "set p1 \<subseteq> kv_ids cfg" and "set p2 \<subseteq> kv_ids cfg" and "distinct (p1 @ p2)"
  shows "\<exists>cfg'. kv_partition p1 p2 cfg = Inr cfg' \<and>
    relinked (set p1 \<times> set p1 \<union> set p2 \<times> set p2) (set p1 \<times> set p2 \<union> set p2 \<times> set p1) cfg cfg'"
proof -
  have len: "length p \<le> kc_n cfg" if "set p \<subseteq> kv_ids cfg" "distinct p" for p
    using card_mono [of "kv_ids cfg" "set p"] that by (simp add: distinct_card)
  have dis: "set p1 \<inter> set p2 = {}" "set p2 \<inter> set p1 = {}" using assms(4) by auto
  obtain c1 where c1: "go_for (\<lambda>i cfg. go_bind (disconnectUnlocked i p2 cfg) (connectUnlocked i p1)) p1 cfg = Inr c1"
      "relinked (set p1 \<times> set p1) (set p1 \<times> set p2 \<union> set p2 \<times> set p1) cfg c1"
    using partition_rounds [OF assms(1-3) len [OF assms(3)] dis(1)] assms(4) by auto
  note f = relinked_fields [OF c1(2)]
  obtain c2 where c2: "go_for (\<lambda>i cfg. go_bind (disconnectUnlocked i p1 cfg) (connectUnlocked i p2)) p2 c1 = Inr c2"
      "relinked (set p2 \<times> set p2) (set p2 \<times> set p1 \<union> set p1 \<times> set p2) c1 c2"
    using partition_rounds [of c1 p2 p1] assms len [OF assms(2)] dis(2) f by auto
  have "relinked (set p1 \<times> set p1 \<union> set p2 \<times> set p2) ((set p1 \<times> set p2 \<union> set p2 \<times> set p1) \<union> (set p2 \<times> set p1 \<union> set p1 \<times> set p2)) cfg c2"
    by (rule relinked_trans [OF c1(2) c2(2)]) (use dis in auto)
  moreover have "(set p1 \<times> set p2 \<union> set p2 \<times> set p1) \<union> (set p2 \<times> set p1 \<union> set p1 \<times> set p2) = set p1 \<times> set p2 \<union> set p2 \<times> set p1" by auto
  ultimately show ?thesis using c1(1) c2(1) by (simp add: kv_partition_def)
qed

text \<open>
  After \<open>partition\<close> on a group of started servers, with two disjoint sides, every server can
  send to every server of its own side and to none of the other side; an end between servers that
  are on no side, and every end of a clerk, is as it was.
\<close>

theorem kv_partition_splits:
  assumes "kv_started cfg" and "set p1 \<subseteq> kv_ids cfg" and "set p2 \<subseteq> kv_ids cfg" and "distinct (p1 @ p2)"
  shows "\<exists>cfg'. kv_partition p1 p2 cfg = Inr cfg' \<and>
    (\<forall>i\<in>kv_ids cfg. \<forall>j\<in>kv_ids cfg. kv_linked cfg' i j \<longleftrightarrow>
       {i, j} \<subseteq> set p1 \<or> {i, j} \<subseteq> set p2 \<or> \<not> {i, j} \<subseteq> set p1 \<union> set p2 \<and> kv_linked cfg i j) \<and>
    (\<forall>e. (\<forall>i\<in>kv_ids cfg. \<forall>j\<in>kv_ids cfg. e \<noteq> kv_wire cfg i j) \<longrightarrow>
       get_enabled (kc_net cfg') e = get_enabled (kc_net cfg) e)"
proof -
  obtain cfg' where c: "kv_partition p1 p2 cfg = Inr cfg'"
      "relinked (set p1 \<times> set p1 \<union> set p2 \<times> set p2) (set p1 \<times> set p2 \<union> set p2 \<times> set p1) cfg cfg'"
    using kv_partition_relinked [OF assms] by blast
  have dis: "set p1 \<inter> set p2 = {}" using assms(4) by simp
  have "kv_linked cfg' i j \<longleftrightarrow> {i, j} \<subseteq> set p1 \<or> {i, j} \<subseteq> set p2 \<or> \<not> {i, j} \<subseteq> set p1 \<union> set p2 \<and> kv_linked cfg i j"
    if "i \<in> kv_ids cfg" "j \<in> kv_ids cfg" for i j
  proof -
    have "kv_linked cfg' i j = ((i, j) \<in> set p1 \<times> set p1 \<union> set p2 \<times> set p2 \<or>
        (i, j) \<notin> set p1 \<times> set p2 \<union> set p2 \<times> set p1 \<and> kv_linked cfg i j)"
      using c(2) that unfolding relinked_def by blast
    then show ?thesis using dis by auto
  qed
  moreover have "get_enabled (kc_net cfg') e = get_enabled (kc_net cfg) e"
    if "\<forall>i\<in>kv_ids cfg. \<forall>j\<in>kv_ids cfg. e \<noteq> kv_wire cfg i j" for e
  proof -
    let ?X = "(set p1 \<times> set p1 \<union> set p2 \<times> set p2) \<union> (set p1 \<times> set p2 \<union> set p2 \<times> set p1)"
    have "?X \<subseteq> kv_ids cfg \<times> kv_ids cfg" using assms(2,3) by blast
    then have "e \<notin> (\<lambda>(i, j). kv_wire cfg i j) ` ?X" using that by fast
    then show ?thesis using c(2) unfolding relinked_def by blast
  qed
  ultimately show ?thesis using c(1) by blast
qed

section \<open>The sides make_partition chooses\<close>

lemma partition_step_flat:
  assumes "0 \<le> j" and "j < int (length p1 + length p2) \<or> i = l"
  shows "\<exists>q1 q2. partition_step l i (p1, p2, j) = Inr (q1, q2, if i = l then j else j + 1) \<and>
    length q1 = length p1 \<and> length q2 = length p2 \<and> q1 @ q2 = (if i = l then p1 @ p2 else (p1 @ p2)[nat j := i])"
proof (cases "j < int (length p1)")
  case True
  then show ?thesis using assms by (auto simp: partition_step_def go_assign_def list_update_append)
next
  case False
  then have "nat j - length p1 = nat (j - int (length p1))" by simp
  then show ?thesis using assms False by (auto simp: partition_step_def go_assign_def list_update_append)
qed

text \<open>The two slices, one after the other, are filled from the left with the servers other than \<open>l\<close>.\<close>

lemma partition_loop_flat:
  assumes "p1 @ p2 = ys @ replicate k 0" and "length (filter (\<lambda>i. i \<noteq> l) is) \<le> k"
  shows "\<exists>q1 q2 j. go_for (partition_step l) is (p1, p2, int (length ys)) = Inr (q1, q2, j) \<and>
    length q1 = length p1 \<and> length q2 = length p2 \<and>
    q1 @ q2 = ys @ filter (\<lambda>i. i \<noteq> l) is @ replicate (k - length (filter (\<lambda>i. i \<noteq> l) is)) 0"
  using assms
proof (induction "is" arbitrary: p1 p2 ys k)
  case Nil
  then show ?case by simp
next
  case (Cons i "is")
  have len: "length p1 + length p2 = length ys + k" using arg_cong [OF Cons.prems(1), of length] by simp
  show ?case
  proof (cases "i = l")
    case True
    then show ?thesis using Cons.IH [OF Cons.prems(1)] Cons.prems(2) by (simp add: partition_step_def)
  next
    case False
    then obtain k' where k: "k = Suc k'" using Cons.prems(2) by (cases k) auto
    obtain q1 q2 where q: "partition_step l i (p1, p2, int (length ys)) = Inr (q1, q2, int (length (ys @ [i])))"
        "length q1 = length p1" "length q2 = length p2" "q1 @ q2 = (p1 @ p2)[length ys := i]"
      using partition_step_flat [of "int (length ys)" p1 p2 i l] False len k by (auto simp: add.commute)
    have "q1 @ q2 = (ys @ [i]) @ replicate k' 0" using q(4) Cons.prems(1) by (simp add: k list_update_append)
    from Cons.IH [OF this] show ?thesis using q(1-3) False Cons.prems(2) by (simp add: k)
  qed
qed

lemma make_partition_flat:
  assumes "kv_Leader cfg = Inr (b, l)" and "2 \<le> kc_n cfg" and l: "0 \<le> l" "l < int (kc_n cfg)"
  shows "\<exists>p1 p2. make_partition cfg = Inr (p1, p2) \<and> length p1 = kc_n cfg div 2 + 1 \<and>
    p1 @ p2 = filter (\<lambda>i. i \<noteq> l) (kv_all cfg) @ replicate (1 - kc_n cfg mod 2) 0 @ [l]"
proof -
  define n where "n = kc_n cfg"
  define xs where "xs = filter (\<lambda>i. i \<noteq> l) [0..int n - 1]"
  have "length xs = card (set xs)" unfolding xs_def by (rule distinct_card [symmetric]) simp
  also have "set xs = {0..int n - 1} - {l}" unfolding xs_def by auto
  also have "card ({0..int n - 1} - {l}) = n - 1" using l by (simp add: card_Diff_singleton n_def)
  finally have len: "length xs = n - 1" .
  let ?p1 = "replicate (n div 2 + 1) (0 :: int)" and ?p2 = "replicate (n div 2) (0 :: int)"
  let ?k = "n div 2 + 1 + n div 2"
  have flat: "?p1 @ ?p2 = [] @ replicate ?k 0" by (simp only: replicate_add append_Nil)
  have fits: "length (filter (\<lambda>i. i \<noteq> l) [0..int n - 1]) \<le> ?k" using len unfolding xs_def by linarith
  obtain q1 q2 j where q: "go_for (partition_step l) [0..int n - 1] (?p1, ?p2, 0) = Inr (q1, q2, j)"
      "length q1 = n div 2 + 1" "length q2 = n div 2" "q1 @ q2 = xs @ replicate (?k - length xs) 0"
    using partition_loop_flat [OF flat fits] unfolding xs_def length_replicate list.size of_nat_0 append_Nil int_ops(1) by blast
  have k: "?k - length xs = Suc (1 - n mod 2)" using assms(2) len unfolding n_def by presburger
  have "q2 \<noteq> []" using q(3) assms(2) by (auto simp: n_def)
  then obtain r x where r: "q2 = r @ [x]" by (metis rev_exhaust)
  have "q1 @ r = xs @ replicate (1 - n mod 2) 0"
    using q(4) unfolding k r by (simp add: replicate_append_same [symmetric] flip: append_assoc)
  moreover have "make_partition cfg = Inr (q1, r @ [l])"
    using assms(1) q(1) by (simp add: make_partition_def Let_def go_assign_def r flip: n_def)
  ultimately show ?thesis using q(2) by (simp add: xs_def n_def flip: append_assoc)
qed

text \<open>All servers run, and none is inside a critical section.\<close>

definition kv_running :: "('c, 'd, 'v) kv_config \<Rightarrow> bool" where
  "kv_running cfg \<longleftrightarrow> length (kc_kvservers cfg) = kc_n cfg \<and>
     (\<forall>kv\<in>set (kc_kvservers cfg). kv \<noteq> None \<and> \<not> mu (kv_rf (the kv)))"

definition kv_is_leader :: "('c, 'd, 'v) kv_config \<Rightarrow> int \<Rightarrow> bool" where
  "kv_is_leader cfg i \<longleftrightarrow> myStatus (kv_rf (the (kc_kvservers cfg ! nat i))) = Leader"

lemma leader_loop_find:
  assumes "kv_running cfg" and "set is \<subseteq> kv_ids cfg"
  shows "leader_loop cfg is = Inr (case find (kv_is_leader cfg) is of None \<Rightarrow> (False, 0) | Some i \<Rightarrow> (True, i))"
  using assms(2)
proof (induction "is")
  case (Cons i "is")
  then have i: "0 \<le> i" "i < int (length (kc_kvservers cfg))" using assms(1) by (auto simp: kv_running_def)
  then have "kc_kvservers cfg ! nat i \<in> set (kc_kvservers cfg)" by auto
  then obtain kv where kv: "kc_kvservers cfg ! nat i = Some kv" "\<not> mu (kv_rf kv)"
    using assms(1) by (auto simp: kv_running_def)
  then have "leader_loop cfg (i # is) = (if kv_is_leader cfg i then Inr (True, i) else leader_loop cfg is)"
    using i by (simp add: go_index_def GetState_def Lock_def kv_is_leader_def)
  then show ?case using Cons by simp
qed simp

lemma kv_Leader_found:
  assumes "kv_running cfg" and "l \<in> kv_ids cfg" and "kv_is_leader cfg l"
  shows "\<exists>m\<in>kv_ids cfg. kv_Leader cfg = Inr (True, m) \<and> kv_is_leader cfg m"
proof -
  have "find (kv_is_leader cfg) (kv_all cfg) \<noteq> None" using assms(2,3) by (auto simp: find_None_iff)
  then obtain m where m: "find (kv_is_leader cfg) (kv_all cfg) = Some m" by blast
  then have "m \<in> kv_ids cfg" "kv_is_leader cfg m" unfolding find_Some_iff by auto
  moreover have "set (kv_all cfg) \<subseteq> kv_ids cfg" by auto
  ultimately show ?thesis using leader_loop_find [OF assms(1), of "kv_all cfg"] m unfolding kv_Leader_def by auto
qed

text \<open>
  C11: In a group with an odd number of servers, at least three, that all run and of which one believes to be the leader,
  \<open>make_partition\<close> returns two sides that together are the servers, each once; the first is a
  majority, the second is the rest with the leader that \<open>Leader\<close> found in it. After \<open>partition\<close> with these sides two
  servers can send to each other exactly when they are on the same side.
\<close>

theorem make_partition_minority:
  assumes "kv_started cfg" and "kv_running cfg" and "odd (kc_n cfg)" and "3 \<le> kc_n cfg"
    and "l \<in> kv_ids cfg" and "kv_is_leader cfg l"
  shows "\<exists>m p1 p2 cfg'. kv_Leader cfg = Inr (True, m) \<and> kv_is_leader cfg m \<and>
    make_partition cfg = Inr (p1, p2) \<and> m \<in> set p2 \<and>
    mset (p1 @ p2) = mset (kv_all cfg) \<and> length p1 = kc_n cfg div 2 + 1 \<and>
    kv_partition p1 p2 cfg = Inr cfg' \<and>
    (\<forall>i\<in>kv_ids cfg. \<forall>j\<in>kv_ids cfg. kv_linked cfg' i j \<longleftrightarrow> i \<in> set p1 \<and> j \<in> set p1 \<or> i \<in> set p2 \<and> j \<in> set p2)"
proof -
  obtain m where m: "m \<in> kv_ids cfg" "kv_Leader cfg = Inr (True, m)" "kv_is_leader cfg m"
    using kv_Leader_found [OF assms(2,5,6)] by blast
  obtain p1 p2 where p: "make_partition cfg = Inr (p1, p2)" "length p1 = kc_n cfg div 2 + 1"
      "p1 @ p2 = filter (\<lambda>i. i \<noteq> m) (kv_all cfg) @ [m]"
    using make_partition_flat [OF m(2)] m(1) assms(3,4) by (auto simp: odd_iff_mod_2_eq_one)
  have ms: "mset (p1 @ p2) = mset (kv_all cfg)"
  proof -
    have "distinct (filter (\<lambda>i. i \<noteq> m) (kv_all cfg) @ [m])" by simp
    moreover have "set (filter (\<lambda>i. i \<noteq> m) (kv_all cfg) @ [m]) = set (kv_all cfg)" using m(1) by auto
    ultimately show ?thesis unfolding p(3) by (subst set_eq_iff_mset_eq_distinct [symmetric]) simp_all
  qed
  have dis: "distinct (p1 @ p2)" using mset_eq_imp_distinct_iff [OF ms] by simp
  have un: "set p1 \<union> set p2 = kv_ids cfg" using mset_eq_setD [OF ms] by auto
  have "length p1 + length p2 = kc_n cfg" using arg_cong [OF ms, of size] by simp
  then have "p2 \<noteq> []" using p(2) assms(3,4) by auto
  then have m2: "m \<in> set p2" using arg_cong [OF p(3), of last] by (metis last_appendR last_in_set last_snoc)
  obtain cfg' where c: "kv_partition p1 p2 cfg = Inr cfg'" and
    lk: "\<forall>i\<in>kv_ids cfg. \<forall>j\<in>kv_ids cfg. kv_linked cfg' i j \<longleftrightarrow> (i, j) \<in> set p1 \<times> set p1 \<union> set p2 \<times> set p2 \<or>
        (i, j) \<notin> set p1 \<times> set p2 \<union> set p2 \<times> set p1 \<and> kv_linked cfg i j"
    using kv_partition_relinked [OF assms(1) _ _ dis] un unfolding relinked_def by blast
  have "\<forall>i\<in>kv_ids cfg. \<forall>j\<in>kv_ids cfg. kv_linked cfg' i j \<longleftrightarrow> i \<in> set p1 \<and> j \<in> set p1 \<or> i \<in> set p2 \<and> j \<in> set p2"
  proof (intro ballI)
    fix i j assume ij: "i \<in> kv_ids cfg" "j \<in> kv_ids cfg"
    then have "i \<in> set p1 \<longleftrightarrow> i \<notin> set p2" "j \<in> set p1 \<longleftrightarrow> j \<notin> set p2" using dis un by auto
    then show "kv_linked cfg' i j \<longleftrightarrow> i \<in> set p1 \<and> j \<in> set p1 \<or> i \<in> set p2 \<and> j \<in> set p2" using lk ij by auto
  qed
  then show ?thesis using m(2,3) p(1,2) m2 ms c by blast
qed

text \<open>
  With an even number of servers the result of \<open>make_partition\<close> is no partition: server 0 is
  listed twice, because the two slices together have one entry more than there are servers. With
  a single server \<open>make_partition\<close> panics.
\<close>

theorem make_partition_even:
  assumes "kv_Leader cfg = Inr (b, l)" and "l \<in> kv_ids cfg"
  shows "if even (kc_n cfg) then \<exists>p1 p2. make_partition cfg = Inr (p1, p2) \<and> count (mset (p1 @ p2)) 0 = 2
    else kc_n cfg = 1 \<longrightarrow> make_partition cfg = Inl (IndexOutOfRange (- 1))"
proof (cases "even (kc_n cfg)")
  case True
  have "kc_n cfg \<noteq> 0" using assms(2) by auto
  then have n: "2 \<le> kc_n cfg" using True by presburger
  obtain p1 p2 where p: "make_partition cfg = Inr (p1, p2)" "p1 @ p2 = filter (\<lambda>i. i \<noteq> l) (kv_all cfg) @ [0, l]"
    using make_partition_flat [OF assms(1) n] assms(2) True by auto
  have c0: "count (mset (kv_all cfg)) 0 = 1" using n distinct_count_atmost_1 [of "kv_all cfg"] by simp
  have "count (mset (p1 @ p2)) 0 = 2" unfolding p(2) using c0 by (cases "l = 0") (simp_all add: mset_filter)
  then show ?thesis using p(1) True by auto
next
  case False
  have "make_partition cfg = Inl (IndexOutOfRange (- 1))" if n: "kc_n cfg = 1"
  proof -
    have "l = 0" using assms(2) n by simp
    then show ?thesis using assms(1) n by (simp add: make_partition_def Let_def go_assign_def partition_step_def)
  qed
  then show ?thesis using False by simp
qed

section \<open>Starting and restarting servers\<close>

text \<open>Fresh, pairwise different names: the loop that makes the ends of a new instance succeeds.\<close>

lemma kv_make_ends:
  assumes "\<And>j. j \<in> set js \<Longrightarrow> kv_end c0 i j = Inr (f j)" and "distinct (map f js)"
    and "\<And>j. j \<in> set js \<Longrightarrow> gm_get (nw_ends net) (Str (f j)) = None"
  shows "\<exists>net'. go_for (\<lambda>j cfg. go_bind (kv_end cfg i j) (\<lambda>e. kv_make_end e j cfg)) js (c0\<lparr>kc_net := net\<rparr>) = Inr (c0\<lparr>kc_net := net'\<rparr>) \<and>
    nw_servers net' = nw_servers net \<and>
    (\<forall>e. gm_get (nw_ends net') e = None \<longleftrightarrow> gm_get (nw_ends net) e = None \<and> e \<notin> Str ` f ` set js)"
  using assms
proof (induction js arbitrary: net)
  case (Cons j js)
  have e: "kv_end (c0\<lparr>kc_net := net\<rparr>) i j = Inr (f j)" using Cons.prems(1) [of j] by (simp add: kv_end_def)
  define net1 where "net1 = Connect (Str (f j)) (Num j) (net\<lparr>nw_ends := gm_put (Str (f j)) (Str (f j)) (nw_ends net),
    nw_enabled := gm_put (Str (f j)) False (nw_enabled net), nw_connections := gm_put (Str (f j)) None (nw_connections net)\<rparr>)"
  have step: "kv_make_end (f j) j (c0\<lparr>kc_net := net\<rparr>) = Inr (c0\<lparr>kc_net := net1\<rparr>)"
    using Cons.prems(3) [of j] by (simp add: kv_make_end_def MakeEnd_def net1_def)
  have ends: "gm_get (nw_ends net1) = (gm_get (nw_ends net))(Str (f j) \<mapsto> Str (f j))" "nw_servers net1 = nw_servers net"
    by (simp_all add: net1_def Connect_def)
  have "gm_get (nw_ends net1) (Str (f k)) = None" if "k \<in> set js" for k
  proof -
    have "f k \<in> set (map f js)" "f j \<notin> set (map f js)" using that Cons.prems(2) by auto
    then have "f k \<noteq> f j" by metis
    then show ?thesis using that Cons.prems(3) [of k] by (simp add: ends)
  qed
  then obtain net' where n: "go_for (\<lambda>j cfg. go_bind (kv_end cfg i j) (\<lambda>e. kv_make_end e j cfg)) js (c0\<lparr>kc_net := net1\<rparr>) = Inr (c0\<lparr>kc_net := net'\<rparr>)"
      "nw_servers net' = nw_servers net1"
      "\<forall>e. gm_get (nw_ends net') e = None \<longleftrightarrow> gm_get (nw_ends net1) e = None \<and> e \<notin> Str ` f ` set js"
    using Cons.IH [of net1] Cons.prems(1,2) by auto
  have "gm_get (nw_ends net') e = None \<longleftrightarrow> gm_get (nw_ends net) e = None \<and> e \<notin> Str ` f ` set (j # js)" for e
    using n(3) by (auto simp: ends)
  then show ?case using n(1,2) e step ends(2) by auto
qed auto

definition kv_shaped :: "('c, 'd, 'v) kv_config \<Rightarrow> bool" where
  "kv_shaped cfg \<longleftrightarrow> length (kc_endnames cfg) = kc_n cfg \<and> length (kc_kvservers cfg) = kc_n cfg \<and> length (kc_saved cfg) = kc_n cfg"

definition kv_persisted :: "('c, 'd, 'v) kv_config \<Rightarrow> int \<Rightarrow> 'c gobval Persister option" where
  "kv_persisted cfg i = (case kc_kvservers cfg ! nat i of Some kv \<Rightarrow> Some (persister (kv_rf kv)) | None \<Rightarrow> kc_saved cfg ! nat i)"

lemma kv_saved_shaped: "kv_shaped cfg \<Longrightarrow> i \<in> kv_ids cfg \<Longrightarrow> kv_saved cfg i = Inr (kv_persisted cfg i)"
  by (simp add: kv_saved_def kv_shaped_def go_index_def kv_persisted_def split: option.split)

text \<open>What a new instance starts from.\<close>

definition restored :: "('c, 'd, 'v) kv_config \<Rightarrow> int \<Rightarrow> 'c gobval Persister" where
  "restored cfg i = (case kv_persisted cfg i of Some ps \<Rightarrow> Copy ps | None \<Rightarrow> MakePersister)"

lemma StartServer_starts:
  assumes sh: "kv_shaped cfg" and i: "i \<in> kv_ids cfg" and d: "distinct (map names (kv_all cfg))"
    and fresh: "\<And>j. j \<in> kv_ids cfg \<Longrightarrow> gm_get (nw_ends (kc_net cfg)) (Str (names j)) = None"
  shows "\<exists>cfg'. StartServer i names kvtyp rftyp r cfg = Inr cfg' \<and> kv_shaped cfg' \<and> kc_n cfg' = kc_n cfg \<and>
    kc_endnames cfg' = (kc_endnames cfg)[nat i := Some (map names (kv_all cfg))] \<and>
    kc_kvservers cfg' = (kc_kvservers cfg)[nat i := Some (StartKVServer (kc_n cfg) i
      (restored cfg i) (kc_maxraftstate cfg) r)] \<and>
    kc_saved cfg' = (kc_saved cfg)[nat i := Some (restored cfg i)] \<and> kc_maxraftstate cfg' = kc_maxraftstate cfg \<and>
    get_server (kc_net cfg') (Num i) = Some (length (kc_servers cfg)) \<and>
    (\<forall>e. gm_get (nw_ends (kc_net cfg')) e = None \<longleftrightarrow> gm_get (nw_ends (kc_net cfg)) e = None \<and> e \<notin> Str ` names ` kv_ids cfg)"
proof -
  let ?c = "cfg\<lparr>kc_endnames := (kc_endnames cfg)[nat i := Some (map names (kv_all cfg))]\<rparr>"
  have set: "set (kv_all cfg) = kv_ids cfg" by auto
  have nth: "map names (kv_all cfg) ! nat j = names j" if "j \<in> kv_ids cfg" for j using that by (subst nth_map) auto
  have e: "kv_end ?c i j = Inr (names j)" if "j \<in> set (kv_all cfg)" for j
    using that sh i nth [of j] by (auto simp: kv_end_def go_index_def kv_shaped_def)
  obtain net where net: "go_for (\<lambda>j cfg. go_bind (kv_end cfg i j) (\<lambda>e. kv_make_end e j cfg)) (kv_all cfg) ?c = Inr (?c\<lparr>kc_net := net\<rparr>)"
      "\<forall>e. gm_get (nw_ends net) e = None \<longleftrightarrow> gm_get (nw_ends (kc_net cfg)) e = None \<and> e \<notin> Str ` names ` kv_ids cfg"
    using kv_make_ends [of "kv_all cfg" ?c i names "kc_net cfg", OF e d] fresh unfolding set by auto
  let ?c1 = "?c\<lparr>kc_net := net\<rparr>"
  have sv: "kv_saved ?c1 i = Inr (kv_persisted cfg i)" using kv_saved_shaped [of ?c1 i] sh i by (simp add: kv_shaped_def kv_persisted_def cong: option.case_cong)
  have rng: "0 \<le> i" "i < int (length (kc_endnames cfg))" "i < int (length (kc_kvservers cfg))" using sh i by (auto simp: kv_shaped_def)
  show ?thesis using rng sh net sv
    by (simp add: StartServer_def go_assign_def Let_def kv_shaped_def AddServer_def get_server_def restored_def)
qed

lemma ConnectAll_links:
  assumes "kv_started cfg"
  shows "\<exists>cfg'. ConnectAll cfg = Inr cfg' \<and> relinked (kv_ids cfg \<times> kv_ids cfg) {} cfg cfg'"
proof -
  have all: "set (kv_all cfg) = kv_ids cfg" by auto
  have "\<exists>cfg'. ConnectAll cfg = Inr cfg' \<and> relinked (\<Union>i\<in>set (kv_all cfg). star i (kv_ids cfg)) (\<Union>i\<in>set (kv_all cfg). {}) cfg cfg'"
    unfolding ConnectAll_def
  proof (rule go_for_relinked [OF assms refl refl])
    fix j and c :: "('a, 'b, 'c) kv_config" assume "j \<in> set (kv_all cfg)" "kv_started c" "kc_n c = kc_n cfg"
    moreover have "set (kv_All c) = kv_ids c" by (auto simp: kv_All_def)
    ultimately show "\<exists>c'. connectUnlocked j (kv_All c) c = Inr c' \<and> relinked (star j (kv_ids cfg)) {} c c'"
      using connectUnlocked_started [of c j "kv_All c"] by simp
  qed simp
  moreover have "(\<Union>i\<in>set (kv_all cfg). star i (kv_ids cfg)) = kv_ids cfg \<times> kv_ids cfg" unfolding all by (auto simp: star_def)
  ultimately show ?thesis by simp
qed

lemma sample_names_inj: "inj_on (\<lambda>(i, j). sample_names i j) ({0..<int 3} \<times> {0..<int 3})"
proof -
  have "{0..<int 3} = {0, 1, 2}" by auto
  then show ?thesis by (simp add: inj_on_def sample_names_def)
qed

lemma start_all:
  fixes c0 :: "('c, 'd, 'v) kv_config"
  assumes "inj_on (\<lambda>(i, j). names i j) ({0..<int n} \<times> {0..<int n})" and "k \<le> n" and "c0 = kv_new_config n ms now"
  shows "\<exists>cfg. go_for (\<lambda>i cfg. StartServer i (names i) kvtyp rftyp (r i) cfg) (map int [0..<k]) c0 = Inr cfg \<and>
    kv_shaped cfg \<and> kc_n cfg = n \<and> kc_maxraftstate cfg = ms \<and>
    (\<forall>i<k. kc_endnames cfg ! i = Some (map (names (int i)) [0..int n - 1]) \<and>
       kc_kvservers cfg ! i = Some (StartKVServer n (int i) MakePersister ms (r (int i)))) \<and>
    (\<forall>i<n. k \<le> i \<longrightarrow> kc_kvservers cfg ! i = None \<and> kc_saved cfg ! i = None) \<and>
    (\<forall>i\<in>{int k..<int n}. \<forall>j\<in>{0..<int n}. gm_get (nw_ends (kc_net cfg)) (Str (names i j)) = None)"
  using assms(2)
proof (induction k)
  case 0
  then show ?case by (simp add: assms(3) kv_new_config_def kv_shaped_def MakeNetwork_def)
next
  case (Suc k)
  then obtain cfg where IH: "go_for (\<lambda>i cfg. StartServer i (names i) kvtyp rftyp (r i) cfg) (map int [0..<k]) c0 = Inr cfg"
    "kv_shaped cfg" "kc_n cfg = n" "kc_maxraftstate cfg = ms"
    "\<And>i. i < k \<Longrightarrow> kc_endnames cfg ! i = Some (map (names (int i)) [0..int n - 1])"
    "\<And>i. i < k \<Longrightarrow> kc_kvservers cfg ! i = Some (StartKVServer n (int i) MakePersister ms (r (int i)))"
    "\<And>i. i < n \<Longrightarrow> k \<le> i \<Longrightarrow> kc_kvservers cfg ! i = None" "\<And>i. i < n \<Longrightarrow> k \<le> i \<Longrightarrow> kc_saved cfg ! i = None"
    "\<And>i j. i \<in> {int k..<int n} \<Longrightarrow> j \<in> {0..<int n} \<Longrightarrow> gm_get (nw_ends (kc_net cfg)) (Str (names i j)) = None" by auto
  have inj: "names i j = names i' j' \<Longrightarrow> i = i' \<and> j = j'"
    if "i \<in> {0..<int n}" "j \<in> {0..<int n}" "i' \<in> {0..<int n}" "j' \<in> {0..<int n}" for i j i' j'
    using inj_onD [OF assms(1), of "(i, j)" "(i', j')"] that by simp
  have k: "int k \<in> kv_ids cfg" using Suc.prems IH(3) by simp
  have d: "distinct (map (names (int k)) (kv_all cfg))"
    unfolding distinct_map using inj [of "int k" _ "int k"] Suc.prems IH(3) by (auto intro!: inj_onI)
  have fresh: "gm_get (nw_ends (kc_net cfg)) (Str (names (int k) j)) = None" if "j \<in> kv_ids cfg" for j
    using IH(9) [of "int k" j] that Suc.prems IH(3) by simp
  have none: "restored cfg (int k) = MakePersister" using IH(7,8) [of k] Suc.prems by (simp add: kv_persisted_def restored_def)
  obtain cfg' where c: "StartServer (int k) (names (int k)) kvtyp rftyp (r (int k)) cfg = Inr cfg'" "kv_shaped cfg'" "kc_n cfg' = kc_n cfg"
    "kc_endnames cfg' = (kc_endnames cfg)[k := Some (map (names (int k)) (kv_all cfg))]"
    "kc_kvservers cfg' = (kc_kvservers cfg)[k := Some (StartKVServer n (int k) MakePersister ms (r (int k)))]"
    "kc_saved cfg' = (kc_saved cfg)[k := Some MakePersister]" "kc_maxraftstate cfg' = ms"
    "\<forall>e. gm_get (nw_ends (kc_net cfg')) e = None \<longleftrightarrow> gm_get (nw_ends (kc_net cfg)) e = None \<and> e \<notin> Str ` names (int k) ` kv_ids cfg"
    using StartServer_starts [OF IH(2) k d fresh, where kvtyp = kvtyp and rftyp = rftyp and r = "r (int k)"] none IH(3,4) by auto
  have len: "length (kc_endnames cfg) = n" "length (kc_kvservers cfg) = n" using IH(2,3) by (simp_all add: kv_shaped_def)
  have "gm_get (nw_ends (kc_net cfg')) (Str (names i j)) = None" if ij: "i \<in> {int (Suc k)..<int n}" "j \<in> {0..<int n}" for i j
  proof -
    have "names i j \<noteq> names (int k) j'" if "j' \<in> kv_ids cfg" for j' using inj [of i j "int k" j'] ij that IH(3) by auto
    then have "Str (names i j) \<notin> Str ` names (int k) ` kv_ids cfg" unfolding image_image image_iff name.inject by blast
    then show ?thesis using c(8) IH(9) [of i j] ij by simp
  qed
  moreover have "kc_endnames cfg' ! i = Some (map (names (int i)) [0..int n - 1])" if "i < Suc k" for i
    using that IH(3,5) Suc.prems len by (cases "i = k") (simp_all add: c(4))
  moreover have "kc_kvservers cfg' ! i = Some (StartKVServer n (int i) MakePersister ms (r (int i)))" if "i < Suc k" for i
    using that IH(6) Suc.prems len by (cases "i = k") (simp_all add: c(5))
  moreover have "kc_kvservers cfg' ! i = None \<and> kc_saved cfg' ! i = None" if "i < n" "Suc k \<le> i" for i
    using that IH(7,8) [of i] by (simp add: c(5,6))
  ultimately show ?case using IH(1,3) c(1-3,7) by (simp add: go_for_append)
qed

lemma Make_unlocked: "\<not> mu (Make n i ps r)" and Make_persister: "persister (Make n i ps r) = ps"
  by (simp_all add: Make_def readPersist_def split: option.split)

lemma kv_make_config_ok:
  assumes "inj_on (\<lambda>(i, j). names i j) ({0..<int n} \<times> {0..<int n})"
  shows "\<exists>cfg :: ('c, 'd, 'v) kv_config. kv_make_config n unreliable ms now names kvtyp rftyp r = Inr cfg \<and> kc_n cfg = n \<and>
    kv_started cfg \<and> kv_shaped cfg \<and> kv_running cfg \<and> nw_reliable (kc_net cfg) = (\<not> unreliable) \<and>
    (\<forall>i<n. kc_kvservers cfg ! i = Some (StartKVServer n (int i) MakePersister ms (r (int i)))) \<and>
    (\<forall>i\<in>{0..<int n}. \<forall>j\<in>{0..<int n}. kv_linked cfg i j)"
proof -
  let ?c0 = "kv_new_config n ms now :: ('c, 'd, 'v) kv_config"
  obtain c1 :: "('c, 'd, 'v) kv_config" where
    c1: "go_for (\<lambda>i cfg. StartServer i (names i) kvtyp rftyp (r i) cfg) [0..int n - 1] ?c0 = Inr c1" "kv_shaped c1" "kc_n c1 = n"
      "\<forall>i<n. kc_endnames c1 ! i = Some (map (names (int i)) [0..int n - 1]) \<and>
         kc_kvservers c1 ! i = Some (StartKVServer n (int i) MakePersister ms (r (int i)))"
    using start_all [OF assms order_refl refl, where ms = ms and now = now and kvtyp = kvtyp and rftyp = rftyp and r = r] unfolding upto_map_int by blast
  have wire: "kv_wire c1 i j = Str (names i j)" if "i \<in> {0..<int n}" "j \<in> {0..<int n}" for i j
    using c1(4) that by (auto simp: kv_wire_def nth_map)
  have st: "kv_started c1"
  proof -
    have "inj_on (\<lambda>(i, j). kv_wire c1 i j) ({0..<int n} \<times> {0..<int n})"
    proof (rule inj_onI)
      fix p q assume "p \<in> {0..<int n} \<times> {0..<int n}" "q \<in> {0..<int n} \<times> {0..<int n}"
        "(case p of (i, j) \<Rightarrow> kv_wire c1 i j) = (case q of (i, j) \<Rightarrow> kv_wire c1 i j)"
      then show "p = q" using inj_onD [OF assms, of p q] wire by (cases p; cases q) simp
    qed
    then show ?thesis using c1(2-4) by (auto simp: kv_started_def kv_shaped_def in_set_conv_nth)
  qed
  have run: "kv_running c1" using c1(2-4) by (auto simp: kv_running_def kv_shaped_def in_set_conv_nth StartKVServer_def Make_unlocked)
  obtain c2 where c2: "ConnectAll c1 = Inr c2" "relinked (kv_ids c1 \<times> kv_ids c1) {} c1 c2" using ConnectAll_links [OF st] by blast
  note f = relinked_fields [OF c2(2)]
  obtain net where net: "c2 = c1\<lparr>kc_net := net\<rparr>" using c2(2) unfolding relinked_def by blast
  let ?c3 = "c2\<lparr>kc_net := Reliable (\<not> unreliable) (kc_net c2)\<rparr>"
  have "kv_linked ?c3 i j" if "i \<in> {0..<int n}" "j \<in> {0..<int n}" for i j
  proof -
    have "kv_linked c2 i j" using c2(2) that c1(3) unfolding relinked_def by auto
    then show ?thesis by (simp add: kv_linked_def get_enabled_def Reliable_def)
  qed
  moreover have "kv_make_config n unreliable ms now names kvtyp rftyp r = Inr ?c3"
    using c1(1) c2(1) by (simp add: kv_make_config_def Let_def) (simp add: kv_new_config_def)
  moreover have "kv_started ?c3" "kc_n ?c3 = n" using st f c1(3) by simp_all
  moreover have "kv_running ?c3" "kv_shaped ?c3" using run c1(2) by (simp_all add: net kv_running_def kv_shaped_def)
  moreover have "nw_reliable (kc_net ?c3) = (\<not> unreliable)" by (simp add: Reliable_def)
  moreover have "\<forall>i<n. kc_kvservers ?c3 ! i = Some (StartKVServer n (int i) MakePersister ms (r (int i)))" using c1(4) by (simp add: net)
  ultimately show ?thesis by blast
qed

text \<open>
  \<open>make_config\<close> with pairwise different end names returns a group in which every server runs on
  an empty persister, and every server can send to every server.
\<close>

theorem kv_make_config_starts:
  assumes "inj_on (\<lambda>(i, j). names i j) ({0..<int n} \<times> {0..<int n})"
  shows "\<exists>cfg :: ('c, 'd, 'v) kv_config. kv_make_config n unreliable ms now names kvtyp rftyp r = Inr cfg \<and> kc_n cfg = n \<and>
    kv_started cfg \<and> kv_shaped cfg \<and> kv_running cfg \<and> nw_reliable (kc_net cfg) = (\<not> unreliable) \<and>
    (\<forall>i<n. kc_kvservers cfg ! i = Some (StartKVServer n (int i) MakePersister ms (r (int i)))) \<and>
    (\<forall>i\<in>{0..<int n}. \<forall>j\<in>{0..<int n}. kv_linked cfg i j)"
  using kv_make_config_ok [OF assms] .

theorem kv_make_config_starts_witness:
  "inj_on (\<lambda>(i, j). sample_names i j) ({0..<int 3} \<times> {0..<int 3}) \<and>
   (\<exists>cfg :: (nat, nat, nat) kv_config. kv_make_config 3 True (- 1) 0 sample_names [] [] (\<lambda>_. 0) = Inr cfg \<and>
      kv_started cfg \<and> kv_linked cfg 0 2 \<and> \<not> nw_reliable (kc_net cfg))"
proof -
  have inj: "inj_on (\<lambda>(i, j). sample_names i j) ({0..<int 3} \<times> {0..<int 3})" by (rule sample_names_inj)
  obtain cfg :: "(nat, nat, nat) kv_config" where "kv_make_config 3 True (- 1) 0 sample_names [] [] (\<lambda>_. 0) = Inr cfg"
      "kv_started cfg" "nw_reliable (kc_net cfg) = (\<not> True)" "\<forall>i\<in>{0..<int 3}. \<forall>j\<in>{0..<int 3}. kv_linked cfg i j"
    using kv_make_config_starts [OF inj, of True "- 1" 0 "[]" "[]" "\<lambda>_. 0"] by blast
  then show ?thesis using inj by auto
qed

section \<open>Restarts\<close>

lemma Copy_same: "Copy ps = ps"
  by (cases ps) (simp add: Copy_def MakePersister_def)

lemma ShutdownServer_stops:
  assumes "kv_started cfg" and "kv_shaped cfg" and i: "i \<in> kv_ids cfg" and kv: "kc_kvservers cfg ! nat i = Some kv" "\<not> mu (kv_rf kv)"
  shows "\<exists>cfg1. ShutdownServer i cfg = Inr cfg1 \<and> kc_kvservers cfg1 = (kc_kvservers cfg)[nat i := None] \<and>
    kc_saved cfg1 = (kc_saved cfg)[nat i := Some (persister (kv_rf kv))] \<and> kc_n cfg1 = kc_n cfg \<and> kv_shaped cfg1 \<and>
    kc_maxraftstate cfg1 = kc_maxraftstate cfg \<and> nw_ends (kc_net cfg1) = nw_ends (kc_net cfg) \<and>
    get_server (kc_net cfg1) (Num i) = None \<and> (\<forall>j\<in>kv_ids cfg. \<not> kv_linked cfg1 i j \<and> \<not> kv_linked cfg1 j i)"
proof -
  have all: "set (kv_All cfg) = kv_ids cfg" "length (kv_All cfg) \<le> kc_n cfg" by (auto simp: kv_All_def)
  obtain c1 where c1: "disconnectUnlocked i (kv_All cfg) cfg = Inr c1" "relinked {} (star i (kv_ids cfg)) cfg c1"
    using disconnectUnlocked_started [OF assms(1) i _ all(2)] unfolding all(1) by blast
  obtain net where net: "c1 = cfg\<lparr>kc_net := net\<rparr>" "nw_ends net = nw_ends (kc_net cfg)"
    using c1(2) unfolding relinked_def net_same_def by (metis kv_config.select_convs(1) kv_config.surjective kv_config.update_convs(1))
  let ?c2 = "c1\<lparr>kc_net := DeleteServer (Num i) (kc_net c1)\<rparr>"
  have "kv_shaped ?c2" "kv_persisted ?c2 i = Some (persister (kv_rf kv))"
    using assms(2) kv(1) by (simp_all add: net(1) kv_shaped_def kv_persisted_def)
  then have sv: "kv_saved ?c2 i = Inr (Some (persister (kv_rf kv)))" using kv_saved_shaped [of ?c2 i] i by (simp add: net(1))
  have rng: "0 \<le> i" "i < int (length (kc_kvservers cfg))" using i assms(2) by (auto simp: kv_shaped_def)
  have kill: "\<exists>kv'. KVServer_Kill kv = Inr kv'" using kv(2) by (simp add: KVServer_Kill_def Kill_def Lock_def Let_def)
  have off: "\<not> kv_linked c1 i j \<and> \<not> kv_linked c1 j i" if "j \<in> kv_ids cfg" for j
    using c1(2) i that unfolding relinked_def star_def by blast
  show ?thesis using rng sv kill kv(1) assms(2) c1(1) net off
    by (auto simp: ShutdownServer_def Let_def go_index_def Copy_same kv_shaped_def DeleteServer_def get_server_def
        kv_linked_def kv_wire_def get_enabled_def)
qed

text \<open>
  C12: Stopping a server and starting it again: between the two no end leads from it or to it and
  the network does not know it; afterwards it runs a new instance made from what the old one had
  last saved, its Raft state and its snapshot, and the other servers are as they were.
\<close>

theorem kv_restart_keeps_state:
  assumes "kv_started cfg" and "kv_shaped cfg" and "i \<in> kv_ids cfg" and "kc_kvservers cfg ! nat i = Some kv" and "\<not> mu (kv_rf kv)"
    and "distinct (map names (kv_all cfg))" and "\<And>j. j \<in> kv_ids cfg \<Longrightarrow> gm_get (nw_ends (kc_net cfg)) (Str (names j)) = None"
  shows "\<exists>cfg1 cfg2. ShutdownServer i cfg = Inr cfg1 \<and> kc_kvservers cfg1 ! nat i = None \<and> get_server (kc_net cfg1) (Num i) = None \<and>
    (\<forall>j\<in>kv_ids cfg. \<not> kv_linked cfg1 i j \<and> \<not> kv_linked cfg1 j i) \<and>
    StartServer i names kvtyp rftyp r cfg1 = Inr cfg2 \<and>
    kc_kvservers cfg2 = (kc_kvservers cfg)[nat i := Some (StartKVServer (kc_n cfg) i (persister (kv_rf kv)) (kc_maxraftstate cfg) r)] \<and>
    get_server (kc_net cfg2) (Num i) \<noteq> None"
proof -
  obtain cfg1 where s: "ShutdownServer i cfg = Inr cfg1" "kc_kvservers cfg1 = (kc_kvservers cfg)[nat i := None]"
    "kc_saved cfg1 = (kc_saved cfg)[nat i := Some (persister (kv_rf kv))]" "kc_n cfg1 = kc_n cfg" "kv_shaped cfg1"
    "kc_maxraftstate cfg1 = kc_maxraftstate cfg" "nw_ends (kc_net cfg1) = nw_ends (kc_net cfg)"
    "get_server (kc_net cfg1) (Num i) = None" "\<forall>j\<in>kv_ids cfg. \<not> kv_linked cfg1 i j \<and> \<not> kv_linked cfg1 j i"
    using ShutdownServer_stops [OF assms(1-5)] by blast
  have i: "nat i < length (kc_kvservers cfg)" "nat i < length (kc_saved cfg)" "i \<in> kv_ids cfg1"
    using assms(2,3) s(4) by (auto simp: kv_shaped_def)
  have ps: "restored cfg1 i = persister (kv_rf kv)" using i by (simp add: restored_def kv_persisted_def s(2,3) Copy_same)
  obtain cfg2 where "StartServer i names kvtyp rftyp r cfg1 = Inr cfg2"
      "kc_kvservers cfg2 = (kc_kvservers cfg1)[nat i := Some (StartKVServer (kc_n cfg1) i (restored cfg1 i) (kc_maxraftstate cfg1) r)]"
      "get_server (kc_net cfg2) (Num i) = Some (length (kc_servers cfg1))"
    using StartServer_starts [OF s(5) i(3), of names kvtyp rftyp r] assms(6,7) s(4,7) by auto
  then show ?thesis using s i ps by simp
qed

section \<open>A group of three\<close>

definition sample_kv :: "(nat, nat, nat) kv_config go" where
  "sample_kv = kv_make_config 3 False (- 1) 0 sample_names [] [] (\<lambda>_. 0)"

definition new_name :: "int \<Rightarrow> string" where
  "new_name j = [char_of (nat j)]"

lemma sample_kv_runs:
  "\<exists>cfg. sample_kv = Inr cfg \<and> kc_n cfg = 3 \<and> kv_started cfg \<and> kv_shaped cfg \<and> kv_running cfg \<and>
     (\<forall>i<3. kc_kvservers cfg ! i = Some (StartKVServer 3 (int i) MakePersister (- 1) 0))"
  using kv_make_config_ok [OF sample_names_inj, where unreliable = False and ms = "- 1" and now = 0 and kvtyp = "[]" and rftyp = "[]" and r = "\<lambda>_. 0"]
  unfolding sample_kv_def by blast

lemma sample_kv_fresh:
  "(case sample_kv of Inl _ \<Rightarrow> [] | Inr cfg \<Rightarrow> map (\<lambda>j. gm_get (nw_ends (kc_net cfg)) (Str (new_name j))) [0, 1, 2]) = [None, None, None]"
  by code_simp

text \<open>The group once server 1 has won an election.\<close>

definition elect :: "int \<Rightarrow> ('c, 'd, 'v) kv_config \<Rightarrow> ('c, 'd, 'v) kv_config" where
  "elect l cfg = cfg\<lparr>kc_kvservers := (kc_kvservers cfg)[nat l := map_option (\<lambda>kv. kv\<lparr>kv_rf := (kv_rf kv)\<lparr>myStatus := Leader\<rparr>\<rparr>) (kc_kvservers cfg ! nat l)]\<rparr>"

lemma elect_keeps:
  assumes "kv_started cfg" and "kv_running cfg" and "l \<in> kv_ids cfg"
  shows "kv_started (elect l cfg)" and "kv_running (elect l cfg)" and "kv_is_leader (elect l cfg) l"
proof -
  have l: "nat l < length (kc_kvservers cfg)" using assms(2,3) by (auto simp: kv_running_def)
  then obtain kv where kv: "kc_kvservers cfg ! nat l = Some kv" "\<not> mu (kv_rf kv)"
    using assms(2) nth_mem [OF l] unfolding kv_running_def by (metis option.collapse)
  show "kv_started (elect l cfg)" using assms(1) by (simp add: elect_def kv_started_def kv_wire_def)
  let ?kv = "kv\<lparr>kv_rf := (kv_rf kv)\<lparr>myStatus := Leader\<rparr>\<rparr>"
  have "set ((kc_kvservers cfg)[nat l := Some ?kv]) \<subseteq> insert (Some ?kv) (set (kc_kvservers cfg))" by (rule set_update_subset_insert)
  then show "kv_running (elect l cfg)" using assms(2) kv(2) by (auto simp: elect_def kv_running_def kv(1))
  show "kv_is_leader (elect l cfg) l" using l kv by (simp add: elect_def kv_is_leader_def)
qed

theorem kv_partition_splits_witness:
  "\<exists>cfg cfg' :: (nat, nat, nat) kv_config. kv_started cfg \<and> kc_n cfg = 3 \<and> kv_partition [0, 2] [1] cfg = Inr cfg' \<and>
     kv_linked cfg' 0 2 \<and> \<not> kv_linked cfg' 0 1 \<and> \<not> kv_linked cfg' 1 2"
proof -
  obtain cfg :: "(nat, nat, nat) kv_config" where cfg: "kc_n cfg = 3" "kv_started cfg" using sample_kv_runs by blast
  obtain cfg' where c: "kv_partition [0, 2] [1] cfg = Inr cfg'" "\<forall>i\<in>kv_ids cfg. \<forall>j\<in>kv_ids cfg. kv_linked cfg' i j \<longleftrightarrow>
       {i, j} \<subseteq> set [0, 2] \<or> {i, j} \<subseteq> set [1] \<or> \<not> {i, j} \<subseteq> set [0, 2] \<union> set [1] \<and> kv_linked cfg i j"
    using kv_partition_splits [OF cfg(2), of "[0, 2]" "[1]"] cfg(1) by auto
  have ids: "0 \<in> kv_ids cfg" "1 \<in> kv_ids cfg" "2 \<in> kv_ids cfg" using cfg(1) by auto
  have "kv_linked cfg' 0 2" "\<not> kv_linked cfg' 0 1" "\<not> kv_linked cfg' 1 2" using c(2) ids by auto
  then show ?thesis using cfg c(1) by blast
qed

theorem make_partition_minority_witness:
  "\<exists>cfg :: (nat, nat, nat) kv_config. kv_started cfg \<and> kv_running cfg \<and> kc_n cfg = 3 \<and> kv_is_leader cfg 1 \<and>
     (\<exists>m p1 p2 cfg'. kv_is_leader cfg m \<and> make_partition cfg = Inr (p1, p2) \<and> m \<in> set p2 \<and> length p1 = 2 \<and>
        kv_partition p1 p2 cfg = Inr cfg' \<and> (\<forall>i\<in>kv_ids cfg. \<forall>j\<in>kv_ids cfg.
          kv_linked cfg' i j \<longleftrightarrow> i \<in> set p1 \<and> j \<in> set p1 \<or> i \<in> set p2 \<and> j \<in> set p2))"
proof -
  obtain c :: "(nat, nat, nat) kv_config" where c: "kc_n c = 3" "kv_started c" "kv_running c" using sample_kv_runs by blast
  let ?c = "elect 1 c"
  have 1: "kv_started ?c" "kv_running ?c" "kv_is_leader ?c 1" using elect_keeps [OF c(2,3), of 1] c(1) by simp_all
  have n: "kc_n ?c = 3" using c(1) by (simp add: elect_def)
  obtain m p1 p2 cfg' where "kv_is_leader ?c m" "make_partition ?c = Inr (p1, p2)" "m \<in> set p2" "length p1 = kc_n ?c div 2 + 1"
      "kv_partition p1 p2 ?c = Inr cfg'" "\<forall>i\<in>kv_ids ?c. \<forall>j\<in>kv_ids ?c.
        kv_linked cfg' i j \<longleftrightarrow> i \<in> set p1 \<and> j \<in> set p1 \<or> i \<in> set p2 \<and> j \<in> set p2"
    using make_partition_minority [OF 1(1,2) _ _ _ 1(3)] n by auto
  then show ?thesis using 1 n by (intro exI [of _ ?c] conjI exI [of _ m] exI [of _ p1] exI [of _ p2] exI [of _ cfg']) simp_all
qed

theorem make_partition_even_witness:
  "\<exists>cfg :: (nat, nat, nat) kv_config. kc_n cfg = 2 \<and> kv_Leader cfg = Inr (False, 0) \<and>
     (\<exists>p1 p2. make_partition cfg = Inr (p1, p2) \<and> count (mset (p1 @ p2)) 0 = 2)"
proof -
  let ?c = "(kv_new_config 2 0 0 :: (nat, nat, nat) kv_config)\<lparr>kc_kvservers := replicate 2 (Some (StartKVServer 2 0 MakePersister 0 0))\<rparr>"
  have l: "kv_Leader ?c = Inr (False, 0)" by code_simp
  have n: "kc_n ?c = 2" by (simp add: kv_new_config_def)
  have "\<exists>p1 p2. make_partition ?c = Inr (p1, p2) \<and> count (mset (p1 @ p2)) 0 = 2"
    using make_partition_even [OF l] n by simp
  then show ?thesis using l n by blast
qed

theorem kv_restart_keeps_state_witness:
  "\<exists>cfg cfg1 cfg2 :: (nat, nat, nat) kv_config. kv_started cfg \<and> ShutdownServer 1 cfg = Inr cfg1 \<and> kc_kvservers cfg1 ! 1 = None \<and>
     StartServer 1 new_name [] [] 7 cfg1 = Inr cfg2 \<and>
     kc_kvservers cfg2 = (kc_kvservers cfg)[1 := Some (StartKVServer 3 1 MakePersister (kc_maxraftstate cfg) 7)]"
proof -
  obtain cfg where cfg: "sample_kv = Inr cfg" "kc_n cfg = 3" "kv_started cfg" "kv_shaped cfg"
      "\<forall>i<3. kc_kvservers cfg ! i = Some (StartKVServer 3 (int i) MakePersister (- 1) 0)"
    using sample_kv_runs by blast
  have kv: "kc_kvservers cfg ! nat 1 = Some (StartKVServer 3 1 MakePersister (- 1) 0)" using cfg(5) [rule_format, of 1] by simp
  have 1: "1 \<in> kv_ids cfg" "\<not> mu (kv_rf (StartKVServer 3 1 MakePersister (- 1) 0))" "distinct (map new_name (kv_all cfg))"
    using cfg(2) by (simp_all add: StartKVServer_def Make_unlocked) code_simp
  have fr: "gm_get (nw_ends (kc_net cfg)) (Str (new_name j)) = None" if "j \<in> kv_ids cfg" for j
  proof -
    have "j = 0 \<or> j = 1 \<or> j = 2" using that cfg(2) by auto
    then show ?thesis using sample_kv_fresh unfolding cfg(1) by auto
  qed
  show ?thesis
    using kv_restart_keeps_state [OF cfg(3,4) 1(1) kv 1(2,3) fr, of "[]" "[]" 7] cfg(2,3)
    by (auto simp: StartKVServer_def Make_persister)
qed

end
