(* ===== verification/MR_Coordinator.thy ===== *)
theory MR_Coordinator
  imports Go_Prelude
begin

text \<open>
  The coordinator of a MapReduce job, \<open>mr/coordinator.go\<close>: the task queues, the maps of running
  and completed tasks, the RPC handlers \<open>GetTask\<close> and \<open>Report\<close>, and the goroutine
  \<open>CheckExcept\<close> that puts a task back when its worker does not answer. Handlers run under
  \<open>c.Mu\<close>, one at a time. The second half is the job as a transition system: handlers in any
  order, reports that come late, twice or never, timers that fire at any time.
\<close>

section \<open>Tasks and queues\<close>

datatype Stage = NoneStage | MapStage | ReduceStage | IdleStage

datatype TaskStatus = InitTask | Running | Ending

datatype TaskType = MapTask | ReduceTask | SleepTask | ExitTask

record Task =
  tk_Status :: TaskStatus
  tk_Index :: int
  tk_RIndex :: int
  tk_NReduce :: int
  tk_NMap :: int
  tk_Filename :: string
  tk_BeginTime :: int
  tk_TaskType :: TaskType

text \<open>\<open>Task{}\<close>, all fields zero.\<close>

definition zeroTask :: Task where
  "zeroTask = \<lparr>tk_Status = InitTask, tk_Index = 0, tk_RIndex = 0, tk_NReduce = 0, tk_NMap = 0,
     tk_Filename = [], tk_BeginTime = 0, tk_TaskType = MapTask\<rparr>"

record TaskQue =
  que :: "Task list"

definition Push :: "Task \<Rightarrow> TaskQue \<Rightarrow> TaskQue" where
  "Push task t = t\<lparr>que := que t @ [task]\<rparr>"

definition Pop :: "TaskQue \<Rightarrow> (TaskQue \<times> Task) go" where
  "Pop t =
     go_bind (go_index (que t) 0) (\<lambda>ret.
     go_bind (go_slice_from (que t) 1) (\<lambda>q. Inr (t\<lparr>que := q\<rparr>, ret)))"

definition Len :: "TaskQue \<Rightarrow> int" where
  "Len t = int (length (que t))"

text \<open>The interface of the queue: first in, first out, and \<open>Pop\<close> panics on an empty queue only.\<close>

locale task_queue =
  fixes push :: "'t \<Rightarrow> 'q \<Rightarrow> 'q"
    and pop :: "'q \<Rightarrow> ('q \<times> 't) go"
    and len :: "'q \<Rightarrow> int"
    and items :: "'q \<Rightarrow> 't list"
  assumes items_push: "items (push x q) = items q @ [x]"
    and pop_items: "items q = x # xs \<Longrightarrow> \<exists>q'. pop q = Inr (q', x) \<and> items q' = xs"
    and len_items: "len q = int (length (items q))"
begin

lemma pop_nonempty:
  assumes "len q \<noteq> 0"
  obtains q' x where "pop q = Inr (q', x)" and "items q = x # items q'"
proof (cases "items q")
  case Nil
  then show thesis using assms by (simp add: len_items)
next
  case (Cons x xs)
  then show thesis using pop_items [OF Cons] that by auto
qed

lemma pop_Inr: "items q \<noteq> [] \<Longrightarrow> pop q = Inr (q', x) \<Longrightarrow> items q = x # items q'"
  using pop_nonempty [of q] by (auto simp: len_items)

end

lemma Push_que [simp]: "que (Push task t) = que t @ [task]"
  by (simp add: Push_def)

interpretation tq: task_queue Push Pop Len que
proof
  fix t :: TaskQue and x xs assume "que t = x # xs"
  then show "\<exists>q'. Pop t = Inr (q', x) \<and> que q' = xs"
    by (simp add: Pop_def go_index_def go_slice_from_def)
qed (simp_all add: Len_def)

section \<open>The coordinator\<close>

record Coordinator =
  c_Status :: Stage
  Filenames :: "string list"
  NMap :: int
  NReduce :: int
  InitMapQue :: TaskQue
  InitReduceQue :: TaskQue
  RunningMap :: "(int, Task) gomap"
  RunningReduce :: "(int, Task) gomap"
  CompletedMap :: "(int, Task) gomap"
  CompletedReduce :: "(int, Task) gomap"

text \<open>
  \<open>GetTask\<close> fills the fresh reply \<open>Task{}\<close>. The result is the coordinator, the reply, and the
  task passed to the new goroutine \<open>CheckExcept\<close>, if one is started. \<open>now\<close> is \<open>time.Now()\<close>.
\<close>

definition handOut :: "int \<Rightarrow> TaskType \<Rightarrow> Task \<Rightarrow> Task" where
  "handOut now ty reply = reply\<lparr>tk_Status := Running, tk_TaskType := ty, tk_BeginTime := now\<rparr>"

definition GetTask :: "int \<Rightarrow> Coordinator \<Rightarrow> (Coordinator \<times> Task \<times> Task option) go" where
  "GetTask now c =
     (let reply = zeroTask in
      if c_Status c = MapStage then
        if Len (InitMapQue c) = 0 then Inr (c, reply\<lparr>tk_TaskType := SleepTask\<rparr>, None)
        else go_bind (Pop (InitMapQue c)) (\<lambda>(q, reply).
          let c = c\<lparr>InitMapQue := q\<rparr>;
              c = c\<lparr>RunningMap := gm_put (tk_Index reply) reply (RunningMap c)\<rparr>;
              reply = handOut now MapTask reply
          in Inr (c, reply, Some reply))
      else if c_Status c = ReduceStage then
        if Len (InitReduceQue c) = 0 then Inr (c, reply\<lparr>tk_TaskType := SleepTask\<rparr>, None)
        else go_bind (Pop (InitReduceQue c)) (\<lambda>(q, reply).
          let c = c\<lparr>InitReduceQue := q\<rparr>;
              c = c\<lparr>RunningReduce := gm_put (tk_RIndex reply) reply (RunningReduce c)\<rparr>;
              reply = handOut now ReduceTask reply
          in Inr (c, reply, Some reply))
      else if c_Status c = IdleStage then
        let reply = reply\<lparr>tk_TaskType := ExitTask\<rparr> in Inr (c, reply, Some reply)
      else Inr (c, reply, Some reply))"

definition Report :: "Task \<Rightarrow> Coordinator \<Rightarrow> Coordinator" where
  "Report info c =
     (if tk_TaskType info = MapTask then
        if gm_get (RunningMap c) (tk_Index info) \<noteq> None then
          let c = c\<lparr>RunningMap := gm_delete (tk_Index info) (RunningMap c)\<rparr>;
              info = info\<lparr>tk_Status := Ending\<rparr>;
              c = c\<lparr>CompletedMap := gm_put (tk_Index info) info (CompletedMap c)\<rparr>
          in if int (length (CompletedMap c)) = NMap c then c\<lparr>c_Status := ReduceStage\<rparr> else c
        else c
      else if tk_TaskType info = ReduceTask then
        if gm_get (RunningReduce c) (tk_RIndex info) \<noteq> None then
          let c = c\<lparr>RunningReduce := gm_delete (tk_RIndex info) (RunningReduce c)\<rparr>;
              info = info\<lparr>tk_Status := Ending\<rparr>;
              c = c\<lparr>CompletedReduce := gm_put (tk_RIndex info) info (CompletedReduce c)\<rparr>
          in if int (length (CompletedReduce c)) = NReduce c then c\<lparr>c_Status := IdleStage\<rparr> else c
        else c
      else c)"

definition CheckExcept :: "Task \<Rightarrow> Coordinator \<Rightarrow> Coordinator" where
  "CheckExcept task c =
     (if tk_TaskType task = MapTask then
        if gm_get (RunningMap c) (tk_Index task) \<noteq> None then
          let c = c\<lparr>RunningMap := gm_delete (tk_Index task) (RunningMap c)\<rparr>
          in c\<lparr>InitMapQue := Push task (InitMapQue c)\<rparr>
        else c
      else if tk_TaskType task = ReduceTask then
        if gm_get (RunningReduce c) (tk_RIndex task) \<noteq> None then
          let c = c\<lparr>RunningReduce := gm_delete (tk_RIndex task) (RunningReduce c)\<rparr>
          in c\<lparr>InitReduceQue := Push task (InitReduceQue c)\<rparr>
        else c
      else c)"

definition Example :: "int \<Rightarrow> int" where
  "Example x = x + 1"

definition Done :: "Coordinator \<Rightarrow> bool" where
  "Done c \<longleftrightarrow> int (length (CompletedMap c)) = NMap c \<and> int (length (CompletedReduce c)) = NReduce c"

text \<open>The two loops of \<open>MakeCoordinator\<close>, and the function without the listening socket.\<close>

fun pushMaps :: "int \<Rightarrow> string list \<Rightarrow> Coordinator \<Rightarrow> Coordinator" where
  "pushMaps i [] c = c"
| "pushMaps i (v # vs) c =
     (let task = zeroTask;
          task = task\<lparr>tk_Status := InitTask\<rparr>;
          task = task\<lparr>tk_Filename := v\<rparr>;
          task = task\<lparr>tk_Index := i\<rparr>;
          task = task\<lparr>tk_TaskType := MapTask\<rparr>;
          task = task\<lparr>tk_NReduce := NReduce c\<rparr>;
          task = task\<lparr>tk_NMap := NMap c\<rparr>
      in pushMaps (i + 1) vs (c\<lparr>InitMapQue := Push task (InitMapQue c)\<rparr>))"

function pushReduces :: "int \<Rightarrow> int \<Rightarrow> Coordinator \<Rightarrow> Coordinator" where
  "pushReduces i nReduce c =
     (if i < nReduce then
        let task = zeroTask;
            task = task\<lparr>tk_Status := InitTask\<rparr>;
            task = task\<lparr>tk_Filename := []\<rparr>;
            task = task\<lparr>tk_RIndex := i\<rparr>;
            task = task\<lparr>tk_NMap := NMap c\<rparr>;
            task = task\<lparr>tk_TaskType := ReduceTask\<rparr>;
            task = task\<lparr>tk_NReduce := nReduce\<rparr>
        in pushReduces (i + 1) nReduce (c\<lparr>InitReduceQue := Push task (InitReduceQue c)\<rparr>)
      else c)"
  by pat_completeness auto
termination
  by (relation "measure (\<lambda>(i, n, _). nat (n - i))") auto

declare pushReduces.simps [simp del]

definition MakeCoordinator :: "string list \<Rightarrow> int \<Rightarrow> Coordinator" where
  "MakeCoordinator files nReduce =
     pushReduces 0 nReduce (pushMaps 0 files
       \<lparr>c_Status = MapStage, Filenames = files, NMap = int (length files), NReduce = nReduce,
        InitMapQue = \<lparr>que = []\<rparr>, InitReduceQue = \<lparr>que = []\<rparr>, RunningMap = [], RunningReduce = [],
        CompletedMap = [], CompletedReduce = []\<rparr>)"

section \<open>Phases\<close>

text \<open>
  One phase of a job, map or reduce: the indices waiting in the queue, the running and the
  completed ones. Each index below \<open>n\<close> is in exactly one of the three.
\<close>

definition phase_ok :: "int \<Rightarrow> int list \<Rightarrow> int set \<Rightarrow> int set \<Rightarrow> bool" where
  "phase_ok n q run cmp \<longleftrightarrow> distinct q \<and> set q \<union> run \<union> cmp = {0..<n} \<and>
     set q \<inter> run = {} \<and> set q \<inter> cmp = {} \<and> run \<inter> cmp = {}"

lemma phase_take: "phase_ok n (i # q) run cmp \<Longrightarrow> phase_ok n q (insert i run) cmp"
  by (auto simp: phase_ok_def)

lemma phase_finish: "phase_ok n q run cmp \<Longrightarrow> i \<in> run \<Longrightarrow> phase_ok n q (run - {i}) (insert i cmp)"
  by (auto simp: phase_ok_def)

lemma phase_expire: "phase_ok n q run cmp \<Longrightarrow> i \<in> run \<Longrightarrow> phase_ok n (q @ [i]) (run - {i}) cmp"
  by (auto simp: phase_ok_def)

lemma phase_subset: "phase_ok n q run cmp \<Longrightarrow> set q \<union> run \<union> cmp = {0..<n}"
  by (simp add: phase_ok_def)

lemma phase_init: "phase_ok n (map int [0..<nat n]) {} {}"
proof -
  have "int ` {0..<nat n} = {0..<n}"
    by (cases "0 \<le> n") (simp_all add: image_int_atLeastLessThan)
  then show ?thesis by (simp add: phase_ok_def distinct_map)
qed

text \<open>The phase is over when as many tasks are completed as there are.\<close>

lemma phase_all:
  assumes "phase_ok n q run cmp" and "0 \<le> n"
  shows "int (card cmp) = n \<longleftrightarrow> cmp = {0..<n}"
proof -
  have "cmp \<subseteq> {0..<n}" using assms(1) by (auto simp: phase_ok_def)
  then show ?thesis using card_subset_eq [of "{0..<n}" cmp] assms(2) by auto
qed

lemma phase_full: "phase_ok n q run {0..<n} \<Longrightarrow> q = [] \<and> run = {}"
  by (cases q) (auto simp: phase_ok_def)

lemma phase_running: "phase_ok n [] run cmp \<Longrightarrow> cmp \<noteq> {0..<n} \<Longrightarrow> \<exists>i. i \<in> run"
  by (auto simp: phase_ok_def)

section \<open>The job\<close>

text \<open>
  The coordinator with the goroutines that sleep in \<open>CheckExcept\<close> and the tasks that were handed
  to workers. A worker may report a task it was given at any time, also more than once and
  after its timer fired; it may also never do so.
\<close>

record job =
  coord :: Coordinator
  timers :: "Task multiset"
  issued :: "Task set"

definition init_job :: "string list \<Rightarrow> int \<Rightarrow> job" where
  "init_job files nReduce =
     \<lparr>coord = MakeCoordinator files nReduce, timers = {#}, issued = {}\<rparr>"

inductive jstep :: "job \<Rightarrow> job \<Rightarrow> bool" where
  get: "GetTask now (coord s) = Inr (c', t, spawned) \<Longrightarrow>
    jstep s (s\<lparr>coord := c', timers := timers s + (case spawned of None \<Rightarrow> {#} | Some u \<Rightarrow> {#u#}),
               issued := insert t (issued s)\<rparr>)"
| report: "t \<in> issued s \<Longrightarrow> jstep s (s\<lparr>coord := Report t (coord s)\<rparr>)"
| expire: "t \<in># timers s \<Longrightarrow>
    jstep s (s\<lparr>coord := CheckExcept t (coord s), timers := timers s - {#t#}\<rparr>)"

inductive job_reachable :: "string list \<Rightarrow> int \<Rightarrow> job \<Rightarrow> bool" for files nReduce where
  init: "job_reachable files nReduce (init_job files nReduce)"
| step: "job_reachable files nReduce s \<Longrightarrow> jstep s s' \<Longrightarrow> job_reachable files nReduce s'"

text \<open>The tasks of the job: what \<open>MakeCoordinator\<close> creates, up to status and time.\<close>

definition map_task :: "string list \<Rightarrow> int \<Rightarrow> Task \<Rightarrow> bool" where
  "map_task files nReduce t \<longleftrightarrow> tk_TaskType t = MapTask \<and> 0 \<le> tk_Index t \<and>
     tk_Index t < int (length files) \<and> tk_Filename t = files ! nat (tk_Index t) \<and>
     tk_NReduce t = nReduce \<and> tk_NMap t = int (length files)"

definition reduce_task :: "string list \<Rightarrow> int \<Rightarrow> Task \<Rightarrow> bool" where
  "reduce_task files nReduce t \<longleftrightarrow> tk_TaskType t = ReduceTask \<and> 0 \<le> tk_RIndex t \<and>
     tk_RIndex t < nReduce \<and> tk_NReduce t = nReduce \<and> tk_NMap t = int (length files)"

abbreviation mqueue :: "Coordinator \<Rightarrow> int list" where
  "mqueue c \<equiv> map tk_Index (que (InitMapQue c))"

abbreviation rqueue :: "Coordinator \<Rightarrow> int list" where
  "rqueue c \<equiv> map tk_RIndex (que (InitReduceQue c))"

abbreviation keys :: "(int, Task) gomap \<Rightarrow> int set" where
  "keys m \<equiv> dom (gm_get m)"

definition tasks_inv :: "string list \<Rightarrow> int \<Rightarrow> Coordinator \<Rightarrow> bool" where
  "tasks_inv files nReduce c \<longleftrightarrow>
     Filenames c = files \<and> NMap c = int (length files) \<and> NReduce c = nReduce \<and>
     gm_ok (RunningMap c) \<and> gm_ok (RunningReduce c) \<and> gm_ok (CompletedMap c) \<and> gm_ok (CompletedReduce c) \<and>
     (\<forall>t\<in>set (que (InitMapQue c)). map_task files nReduce t) \<and>
     (\<forall>t\<in>set (que (InitReduceQue c)). reduce_task files nReduce t) \<and>
     phase_ok (int (length files)) (mqueue c) (keys (RunningMap c)) (keys (CompletedMap c)) \<and>
     phase_ok nReduce (rqueue c) (keys (RunningReduce c)) (keys (CompletedReduce c))"

definition stage_inv :: "string list \<Rightarrow> int \<Rightarrow> Coordinator \<Rightarrow> bool" where
  "stage_inv files nReduce c \<longleftrightarrow>
     c_Status c = MapStage \<and> keys (CompletedMap c) \<noteq> {0..<int (length files)} \<and>
       keys (RunningReduce c) = {} \<and> keys (CompletedReduce c) = {} \<or>
     c_Status c = ReduceStage \<and> keys (CompletedMap c) = {0..<int (length files)} \<and>
       keys (CompletedReduce c) \<noteq> {0..<nReduce} \<or>
     c_Status c = IdleStage \<and> keys (CompletedMap c) = {0..<int (length files)} \<and>
       keys (CompletedReduce c) = {0..<nReduce}"

text \<open>The pending timers of one task.\<close>

definition map_timers :: "Task multiset \<Rightarrow> int \<Rightarrow> nat" where
  "map_timers M i = size (filter_mset (\<lambda>t. tk_TaskType t = MapTask \<and> tk_Index t = i) M)"

definition reduce_timers :: "Task multiset \<Rightarrow> int \<Rightarrow> nat" where
  "reduce_timers M i = size (filter_mset (\<lambda>t. tk_TaskType t = ReduceTask \<and> tk_RIndex t = i) M)"

definition timers_inv :: "Coordinator \<Rightarrow> Task multiset \<Rightarrow> bool" where
  "timers_inv c M \<longleftrightarrow>
     (\<forall>i\<in>keys (RunningMap c). map_timers M i = 1) \<and> (\<forall>i\<in>set (mqueue c). map_timers M i = 0) \<and>
     (\<forall>i\<in>keys (RunningReduce c). reduce_timers M i = 1) \<and> (\<forall>i\<in>set (rqueue c). reduce_timers M i = 0)"

definition handed_inv :: "string list \<Rightarrow> int \<Rightarrow> job \<Rightarrow> bool" where
  "handed_inv files nReduce s \<longleftrightarrow>
     (\<forall>t\<in>issued s \<union> set_mset (timers s).
        (tk_TaskType t = MapTask \<longrightarrow> map_task files nReduce t) \<and>
        (tk_TaskType t = ReduceTask \<longrightarrow> reduce_task files nReduce t \<and> c_Status (coord s) \<noteq> MapStage))"

definition job_inv :: "string list \<Rightarrow> int \<Rightarrow> job \<Rightarrow> bool" where
  "job_inv files nReduce s \<longleftrightarrow>
     tasks_inv files nReduce (coord s) \<and> stage_inv files nReduce (coord s) \<and> timers_inv (coord s) (timers s) \<and>
     handed_inv files nReduce s"

section \<open>The initial state\<close>

definition newMap :: "int \<Rightarrow> int \<Rightarrow> int \<Rightarrow> string \<Rightarrow> Task" where
  "newMap nReduce nMap i v = \<lparr>tk_Status = InitTask, tk_Index = i, tk_RIndex = 0, tk_NReduce = nReduce,
     tk_NMap = nMap, tk_Filename = v, tk_BeginTime = 0, tk_TaskType = MapTask\<rparr>"

definition newReduce :: "int \<Rightarrow> int \<Rightarrow> int \<Rightarrow> Task" where
  "newReduce nReduce nMap i = \<lparr>tk_Status = InitTask, tk_Index = 0, tk_RIndex = i, tk_NReduce = nReduce,
     tk_NMap = nMap, tk_Filename = [], tk_BeginTime = 0, tk_TaskType = ReduceTask\<rparr>"

lemma pushMaps_eq:
  "pushMaps i vs c = c\<lparr>InitMapQue := (InitMapQue c)\<lparr>que := que (InitMapQue c) @
     map (\<lambda>j. newMap (NReduce c) (NMap c) (i + int j) (vs ! j)) [0..<length vs]\<rparr>\<rparr>"
proof (induction vs arbitrary: i c)
  case Nil
  then show ?case by simp
next
  case (Cons v vs)
  have "map (\<lambda>j. newMap r n (i + int j) ((v # vs) ! j)) [0..<Suc (length vs)] =
      newMap r n i v # map (\<lambda>j. newMap r n (i + 1 + int j) (vs ! j)) [0..<length vs]" for r n
    by (simp add: upt_conv_Cons map_Suc_upt [symmetric] del: upt_Suc) (simp add: add.assoc)
  then show ?case
    by (simp add: Cons.IH zeroTask_def newMap_def Push_def del: upt_Suc)
qed

lemma pushReduces_eq:
  "pushReduces i n c = c\<lparr>InitReduceQue := (InitReduceQue c)\<lparr>que := que (InitReduceQue c) @
     map (newReduce n (NMap c)) [i..n - 1]\<rparr>\<rparr>"
proof (induction i n c rule: pushReduces.induct)
  case (1 i n c)
  show ?case
  proof (cases "i < n")
    case True
    then have "[i..n - 1] = i # [i + 1..n - 1]" by (simp add: upto_rec1)
    with True 1 show ?thesis
      by (simp add: pushReduces.simps [of i] zeroTask_def newReduce_def Push_def)
  qed (simp add: pushReduces.simps [of i])
qed

lemma MakeCoordinator_eq:
  "MakeCoordinator files nReduce =
     \<lparr>c_Status = MapStage, Filenames = files, NMap = int (length files), NReduce = nReduce,
      InitMapQue = \<lparr>que = map (\<lambda>j. newMap nReduce (int (length files)) (int j) (files ! j)) [0..<length files]\<rparr>,
      InitReduceQue = \<lparr>que = map (newReduce nReduce (int (length files))) [0..nReduce - 1]\<rparr>,
      RunningMap = [], RunningReduce = [], CompletedMap = [], CompletedReduce = []\<rparr>"
  by (simp add: MakeCoordinator_def pushMaps_eq pushReduces_eq)

lemma init_job_inv:
  assumes "files \<noteq> []" and "0 < nReduce"
  shows "job_inv files nReduce (init_job files nReduce)"
proof -
  have "map tk_RIndex (map (newReduce nReduce k) [0..nReduce - 1]) = [0..nReduce - 1]" for k
    by (simp add: newReduce_def comp_def)
  moreover have "phase_ok nReduce [0..nReduce - 1] {} {}"
    by (auto simp: phase_ok_def)
  moreover have "map tk_Index (map (\<lambda>j. newMap nReduce k (int j) (files ! j)) [0..<length files]) =
      map int [0..<nat (int (length files))]" for k
    by (simp add: newMap_def comp_def)
  ultimately show ?thesis
    using assms phase_init [of "int (length files)"]
    by (auto simp: job_inv_def init_job_def MakeCoordinator_eq tasks_inv_def stage_inv_def
        timers_inv_def handed_inv_def map_timers_def reduce_timers_def map_task_def reduce_task_def
        newMap_def newReduce_def comp_def)
qed

section \<open>Invariance\<close>

lemma GetTask_cases:
  assumes "GetTask now c = Inr (c', t, sp)"
  obtains (sleep) "c' = c" "tk_TaskType t = SleepTask" "sp = None" "c_Status c \<noteq> IdleStage"
      "c_Status c = MapStage \<Longrightarrow> que (InitMapQue c) = []"
      "c_Status c = ReduceStage \<Longrightarrow> que (InitReduceQue c) = []"
  | (map) q u where "c_Status c = MapStage" "que (InitMapQue c) = u # que q" "t = handOut now MapTask u"
      "sp = Some t" "c' = c\<lparr>InitMapQue := q, RunningMap := gm_put (tk_Index u) u (RunningMap c)\<rparr>"
  | (reduce) q u where "c_Status c = ReduceStage" "que (InitReduceQue c) = u # que q"
      "t = handOut now ReduceTask u" "sp = Some t"
      "c' = c\<lparr>InitReduceQue := q, RunningReduce := gm_put (tk_RIndex u) u (RunningReduce c)\<rparr>"
  | (exit) "c_Status c = IdleStage" "c' = c" "tk_TaskType t = ExitTask" "sp = Some t"
  | (none) "c_Status c = NoneStage"
proof (cases "c_Status c")
  case MapStage
  show thesis
  proof (cases "Len (InitMapQue c) = 0")
    case True
    with assms MapStage show thesis by (intro sleep) (auto simp: GetTask_def Len_def)
  next
    case False
    from tq.pop_nonempty [OF this] obtain q u where
      "Pop (InitMapQue c) = Inr (q, u)" "que (InitMapQue c) = u # que q" by blast
    with assms MapStage False show thesis by (intro map [of u q]) (auto simp: GetTask_def Let_def)
  qed
next
  case ReduceStage
  show thesis
  proof (cases "Len (InitReduceQue c) = 0")
    case True
    with assms ReduceStage show thesis by (intro sleep) (auto simp: GetTask_def Len_def)
  next
    case False
    from tq.pop_nonempty [OF this] obtain q u where
      "Pop (InitReduceQue c) = Inr (q, u)" "que (InitReduceQue c) = u # que q" by blast
    with assms ReduceStage False show thesis by (intro reduce [of u q]) (auto simp: GetTask_def Let_def)
  qed
next
  case IdleStage
  with assms show thesis by (intro exit) (auto simp: GetTask_def Let_def)
next
  case NoneStage
  then show thesis by (rule none)
qed

lemma GetTask_returns: "\<exists>c' t sp. GetTask now c = Inr (c', t, sp)"
proof -
  have "Len q \<noteq> 0 \<Longrightarrow> \<exists>q' u. Pop q = Inr (q', u)" for q using tq.pop_nonempty [of q] by metis
  then show ?thesis by (auto simp: GetTask_def Let_def split: if_splits) fastforce+
qed

lemma Report_cases:
  obtains (ignored) "Report t c = c"
  | (map) "tk_TaskType t = MapTask" "tk_Index t \<in> keys (RunningMap c)"
      "Report t c = (let c1 = c\<lparr>RunningMap := gm_delete (tk_Index t) (RunningMap c),
           CompletedMap := gm_put (tk_Index t) (t\<lparr>tk_Status := Ending\<rparr>) (CompletedMap c)\<rparr> in
         if int (length (CompletedMap c1)) = NMap c1 then c1\<lparr>c_Status := ReduceStage\<rparr> else c1)"
  | (reduce) "tk_TaskType t = ReduceTask" "tk_RIndex t \<in> keys (RunningReduce c)"
      "Report t c = (let c1 = c\<lparr>RunningReduce := gm_delete (tk_RIndex t) (RunningReduce c),
           CompletedReduce := gm_put (tk_RIndex t) (t\<lparr>tk_Status := Ending\<rparr>) (CompletedReduce c)\<rparr> in
         if int (length (CompletedReduce c1)) = NReduce c1 then c1\<lparr>c_Status := IdleStage\<rparr> else c1)"
proof -
  consider (m) "tk_TaskType t = MapTask" "tk_Index t \<in> keys (RunningMap c)"
    | (r) "tk_TaskType t = ReduceTask" "tk_RIndex t \<in> keys (RunningReduce c)"
    | (i) "tk_TaskType t = MapTask \<Longrightarrow> tk_Index t \<notin> keys (RunningMap c)"
        "tk_TaskType t = ReduceTask \<Longrightarrow> tk_RIndex t \<notin> keys (RunningReduce c)"
    by blast
  then show thesis
  proof cases
    case m
    then show thesis by (intro map) (simp_all add: Report_def Let_def domIff)
  next
    case r
    then show thesis by (intro reduce) (simp_all add: Report_def Let_def domIff)
  next
    case i
    then show thesis by (intro ignored) (simp_all add: Report_def domIff)
  qed
qed

lemma CheckExcept_cases:
  obtains (ignored) "CheckExcept t c = c"
      "tk_TaskType t = MapTask \<Longrightarrow> tk_Index t \<notin> keys (RunningMap c)"
      "tk_TaskType t = ReduceTask \<Longrightarrow> tk_RIndex t \<notin> keys (RunningReduce c)"
  | (map) "tk_TaskType t = MapTask" "tk_Index t \<in> keys (RunningMap c)"
      "CheckExcept t c = c\<lparr>RunningMap := gm_delete (tk_Index t) (RunningMap c),
         InitMapQue := Push t (InitMapQue c)\<rparr>"
  | (reduce) "tk_TaskType t = ReduceTask" "tk_RIndex t \<in> keys (RunningReduce c)"
      "CheckExcept t c = c\<lparr>RunningReduce := gm_delete (tk_RIndex t) (RunningReduce c),
         InitReduceQue := Push t (InitReduceQue c)\<rparr>"
proof -
  consider (m) "tk_TaskType t = MapTask" "tk_Index t \<in> keys (RunningMap c)"
    | (r) "tk_TaskType t = ReduceTask" "tk_RIndex t \<in> keys (RunningReduce c)"
    | (i) "tk_TaskType t = MapTask \<Longrightarrow> tk_Index t \<notin> keys (RunningMap c)"
        "tk_TaskType t = ReduceTask \<Longrightarrow> tk_RIndex t \<notin> keys (RunningReduce c)"
    by blast
  then show thesis
  proof cases
    case m
    then show thesis by (intro map) (simp_all add: CheckExcept_def Let_def domIff)
  next
    case r
    then show thesis by (intro reduce) (simp_all add: CheckExcept_def Let_def domIff)
  next
    case i
    then show thesis by (intro ignored) (simp_all add: CheckExcept_def domIff)
  qed
qed

text \<open>The laws of the Go maps, for the goals below.\<close>

lemmas map_laws = gm.dom_update gm.dom_delete gm.invar_update gm.invar_delete gm.len_card

lemma handOut_fields [simp]:
  "tk_TaskType (handOut now ty u) = ty" "tk_Index (handOut now ty u) = tk_Index u"
  "tk_RIndex (handOut now ty u) = tk_RIndex u" "tk_NReduce (handOut now ty u) = tk_NReduce u"
  "tk_NMap (handOut now ty u) = tk_NMap u" "tk_Filename (handOut now ty u) = tk_Filename u"
  by (simp_all add: handOut_def)

lemma stage_not_none: "stage_inv files nReduce c \<Longrightarrow> c_Status c \<noteq> NoneStage"
  by (auto simp: stage_inv_def Let_def)

lemma tasks_inv_GetTask:
  assumes "tasks_inv files nReduce c" and "GetTask now c = Inr (c', t, sp)" and "c_Status c \<noteq> NoneStage"
  shows "tasks_inv files nReduce c'"
  using assms(2)
proof (cases rule: GetTask_cases)
  case (map q u)
  with assms(1) have "phase_ok (int (length files)) (tk_Index u # map tk_Index (que q))
      (keys (RunningMap c)) (keys (CompletedMap c))"
    by (simp add: tasks_inv_def)
  from phase_take [OF this] show ?thesis
    using assms(1) map by (simp add: tasks_inv_def map_laws)
next
  case (reduce q u)
  with assms(1) have "phase_ok nReduce (tk_RIndex u # map tk_RIndex (que q))
      (keys (RunningReduce c)) (keys (CompletedReduce c))"
    by (simp add: tasks_inv_def)
  from phase_take [OF this] show ?thesis
    using assms(1) reduce by (simp add: tasks_inv_def map_laws)
qed (use assms in simp_all)

lemma tasks_inv_Report:
  assumes "tasks_inv files nReduce c"
  shows "tasks_inv files nReduce (Report t c)"
proof (cases rule: Report_cases [of t c])
  case map
  then show ?thesis using assms phase_finish
    by (auto simp: tasks_inv_def map_laws Let_def)
next
  case reduce
  then show ?thesis using assms phase_finish
    by (auto simp: tasks_inv_def map_laws Let_def)
qed (use assms in simp)

lemma tasks_inv_CheckExcept:
  assumes "tasks_inv files nReduce c" and "tk_TaskType t = MapTask \<Longrightarrow> map_task files nReduce t"
    and "tk_TaskType t = ReduceTask \<Longrightarrow> reduce_task files nReduce t"
  shows "tasks_inv files nReduce (CheckExcept t c)"
proof (cases rule: CheckExcept_cases [of t c])
  case map
  then show ?thesis using assms phase_expire by (auto simp: tasks_inv_def map_laws)
next
  case reduce
  then show ?thesis using assms phase_expire by (auto simp: tasks_inv_def map_laws)
qed (use assms in simp)

lemma stage_inv_GetTask:
  assumes "stage_inv files nReduce c" and "GetTask now c = Inr (c', t, sp)"
  shows "stage_inv files nReduce c' \<and> c_Status c' = c_Status c"
  using assms(2)
proof (cases rule: GetTask_cases)
  case none
  then show ?thesis using assms(1) stage_not_none by blast
qed (use assms in \<open>simp_all add: stage_inv_def Let_def\<close>)

lemma stage_inv_Report:
  assumes "tasks_inv files nReduce c" and "stage_inv files nReduce c" and "0 < nReduce"
  shows "stage_inv files nReduce (Report t c) \<and>
    (c_Status c \<noteq> MapStage \<longrightarrow> c_Status (Report t c) \<noteq> MapStage)"
proof (cases rule: Report_cases [of t c])
  case map
  then have "keys (CompletedMap c) \<noteq> {0..<int (length files)}"
    using assms(1) phase_full [of "int (length files)" "mqueue c" "keys (RunningMap c)"]
    by (auto simp: tasks_inv_def)
  then have "c_Status c = MapStage"
    using assms(2) by (auto simp: stage_inv_def Let_def)
  moreover have "phase_ok (int (length files)) (mqueue c) (keys (RunningMap c) - {tk_Index t})
      (insert (tk_Index t) (keys (CompletedMap c)))"
    using assms(1) map(2) phase_finish by (simp add: tasks_inv_def)
  from phase_all [OF this] have "int (card (insert (tk_Index t) (keys (CompletedMap c)))) = int (length files) \<longleftrightarrow>
      insert (tk_Index t) (keys (CompletedMap c)) = {0..<int (length files)}" by simp
  ultimately show ?thesis
    using assms map by (auto simp: stage_inv_def Let_def tasks_inv_def map_laws phase_ok_def)
next
  case reduce
  then have "keys (CompletedReduce c) \<noteq> {0..<nReduce}"
    using assms(1) phase_full [of nReduce "rqueue c" "keys (RunningReduce c)"]
    by (auto simp: tasks_inv_def)
  then have "c_Status c = ReduceStage"
    using assms(2) reduce(2) by (auto simp: stage_inv_def Let_def)
  moreover have "phase_ok nReduce (rqueue c) (keys (RunningReduce c) - {tk_RIndex t})
      (insert (tk_RIndex t) (keys (CompletedReduce c)))"
    using assms(1) reduce(2) phase_finish by (simp add: tasks_inv_def)
  from phase_all [OF this less_imp_le [OF assms(3)]] have "int (card (insert (tk_RIndex t) (keys (CompletedReduce c)))) = nReduce \<longleftrightarrow>
      insert (tk_RIndex t) (keys (CompletedReduce c)) = {0..<nReduce}" .
  ultimately show ?thesis
    using assms reduce by (simp add: stage_inv_def Let_def tasks_inv_def map_laws)
qed (use assms in simp)

lemma stage_inv_CheckExcept:
  assumes "tasks_inv files nReduce c" and "stage_inv files nReduce c"
  shows "stage_inv files nReduce (CheckExcept t c) \<and> c_Status (CheckExcept t c) = c_Status c"
proof (cases rule: CheckExcept_cases [of t c])
  case reduce
  then show ?thesis using assms
    by (auto simp: stage_inv_def Let_def tasks_inv_def map_laws)
qed (use assms in \<open>simp_all add: stage_inv_def Let_def\<close>)

text \<open>How the timers of a task change.\<close>

lemma timers_add [simp]:
  "map_timers (add_mset t M) i =
     map_timers M i + (if tk_TaskType t = MapTask \<and> tk_Index t = i then 1 else 0)"
  "reduce_timers (add_mset t M) i =
     reduce_timers M i + (if tk_TaskType t = ReduceTask \<and> tk_RIndex t = i then 1 else 0)"
  by (simp_all add: map_timers_def reduce_timers_def)

lemma timers_remove:
  assumes "t \<in># M"
  shows "map_timers (M - {#t#}) i =
      map_timers M i - (if tk_TaskType t = MapTask \<and> tk_Index t = i then 1 else 0)"
    and "reduce_timers (M - {#t#}) i =
      reduce_timers M i - (if tk_TaskType t = ReduceTask \<and> tk_RIndex t = i then 1 else 0)"
  using assms by (simp_all add: map_timers_def reduce_timers_def size_Diff_singleton)

lemma timers_inv_get:
  assumes "timers_inv c M" and "tasks_inv files nReduce c" and "GetTask now c = Inr (c', t, sp)"
    and "c_Status c \<noteq> NoneStage"
  shows "timers_inv c' (M + (case sp of None \<Rightarrow> {#} | Some u \<Rightarrow> {#u#}))"
  using assms(3)
proof (cases rule: GetTask_cases)
  case (map q u)
  then have "tk_Index u \<notin> keys (RunningMap c)" "tk_Index u \<notin> set (map tk_Index (que q))"
    using assms(2) by (simp_all add: tasks_inv_def phase_ok_def)
  then show ?thesis
    using assms(1,2) map by (auto simp: timers_inv_def map_laws tasks_inv_def)
next
  case (reduce q u)
  then have "tk_RIndex u \<notin> keys (RunningReduce c)" "tk_RIndex u \<notin> set (map tk_RIndex (que q))"
    using assms(2) by (simp_all add: tasks_inv_def phase_ok_def)
  then show ?thesis
    using assms(1,2) reduce by (auto simp: timers_inv_def map_laws tasks_inv_def)
next
  case sleep
  then show ?thesis using assms(1) by (simp add: timers_inv_def)
next
  case exit
  then show ?thesis using assms(1) by (simp add: timers_inv_def)
qed (use assms(4) in simp)

lemma timers_inv_report:
  assumes "timers_inv c M" and "tasks_inv files nReduce c"
  shows "timers_inv (Report t c) M"
proof (cases rule: Report_cases [of t c])
  case map
  then show ?thesis using assms by (simp add: timers_inv_def Let_def map_laws tasks_inv_def)
next
  case reduce
  then show ?thesis using assms by (simp add: timers_inv_def Let_def map_laws tasks_inv_def)
qed (use assms in simp)

lemma timers_inv_expire:
  assumes "timers_inv c M" and "tasks_inv files nReduce c" and "t \<in># M"
  shows "timers_inv (CheckExcept t c) (M - {#t#})"
proof (cases rule: CheckExcept_cases [of t c])
  case ignored
  then show ?thesis using assms(1) unfolding timers_inv_def timers_remove [OF assms(3)] ignored(1)
    by auto
next
  case map
  then show ?thesis using assms(1,2)
    by (auto simp: timers_inv_def timers_remove [OF assms(3)] map_laws tasks_inv_def)
next
  case reduce
  then show ?thesis using assms(1,2)
    by (auto simp: timers_inv_def timers_remove [OF assms(3)] map_laws tasks_inv_def)
qed

text \<open>Every step of the job keeps the invariant.\<close>

lemma jstep_inv:
  assumes "job_inv files nReduce s" and "jstep s s'" and "0 < nReduce"
  shows "job_inv files nReduce s'"
  using assms(2)
proof (cases rule: jstep.cases)
  case (get now c' t sp)
  have "c_Status (coord s) \<noteq> NoneStage" using assms(1) stage_not_none by (auto simp: job_inv_def)
  then have "tasks_inv files nReduce c'" "timers_inv c' (timers s + (case sp of None \<Rightarrow> {#} | Some u \<Rightarrow> {#u#}))"
      "stage_inv files nReduce c'" "c_Status c' = c_Status (coord s)"
    using assms(1) get tasks_inv_GetTask timers_inv_get stage_inv_GetTask by (auto simp: job_inv_def)
  moreover from get(2) have "(tk_TaskType u = MapTask \<longrightarrow> map_task files nReduce u) \<and>
      (tk_TaskType u = ReduceTask \<longrightarrow> reduce_task files nReduce u \<and> c_Status c' \<noteq> MapStage)"
    if "u = t \<or> sp = Some u" for u
    using that assms(1) \<open>c_Status (coord s) \<noteq> NoneStage\<close>
    by (cases rule: GetTask_cases)
      (auto simp: job_inv_def tasks_inv_def map_task_def reduce_task_def)
  ultimately show ?thesis
    using assms(1) unfolding get(1) by (auto simp: job_inv_def handed_inv_def split: option.splits)
next
  case (report t)
  then show ?thesis
    using assms(1,3) tasks_inv_Report timers_inv_report stage_inv_Report
    unfolding job_inv_def handed_inv_def by (auto; blast)
next
  case (expire t)
  then have "tasks_inv files nReduce (CheckExcept t (coord s))"
    using assms(1) by (intro tasks_inv_CheckExcept) (auto simp: job_inv_def handed_inv_def)
  then show ?thesis
    using assms(1) expire stage_inv_CheckExcept timers_inv_expire
    by (auto simp: job_inv_def handed_inv_def dest: in_diffD)
qed

lemma job_reachable_inv:
  assumes "job_reachable files nReduce s" and "files \<noteq> []" and "0 < nReduce"
  shows "job_inv files nReduce s"
  using assms(1)
  by induction (use assms(2,3) init_job_inv jstep_inv in auto)

lemma done_idle:
  assumes "job_inv files nReduce s" and "0 \<le> nReduce"
  shows "Done (coord s) \<longleftrightarrow> c_Status (coord s) = IdleStage"
proof -
  let ?c = "coord s"
  have t: "tasks_inv files nReduce ?c" and st: "stage_inv files nReduce ?c"
    using assms(1) by (simp_all add: job_inv_def)
  have "int (length (CompletedMap ?c)) = NMap ?c \<longleftrightarrow> keys (CompletedMap ?c) = {0..<int (length files)}"
    using t phase_all [of "int (length files)" "mqueue ?c" "keys (RunningMap ?c)"]
    by (simp add: tasks_inv_def gm.len_card)
  moreover have "int (length (CompletedReduce ?c)) = NReduce ?c \<longleftrightarrow> keys (CompletedReduce ?c) = {0..<nReduce}"
    using t phase_all [of nReduce "rqueue ?c" "keys (RunningReduce ?c)"] assms(2)
    by (simp add: tasks_inv_def gm.len_card)
  ultimately have "Done ?c \<longleftrightarrow> keys (CompletedMap ?c) = {0..<int (length files)} \<and>
      keys (CompletedReduce ?c) = {0..<nReduce}"
    unfolding Done_def by simp
  then show ?thesis using st by (auto simp: stage_inv_def)
qed

end
