(* ===== verification/MR_Worker.thy ===== *)
theory MR_Worker
  imports MR_Coordinator "HOL-Library.Word" "HOL-Library.Char_ord" "HOL-Library.List_Lexorder"
begin

text \<open>
  The workers of a MapReduce job, \<open>mr/worker.go\<close>, and the sequential program they replace,
  \<open>main/mrsequential.go\<close>: hashing of keys, partition of the intermediate pairs into files, and
  the loop that groups sorted pairs by key and calls \<open>reducef\<close>. \<open>mapf\<close> and \<open>reducef\<close> come from a
  plugin and \<open>sort.Sort\<close> is only known to sort: all three are arguments.
\<close>

unbundle bit_operations_syntax

section \<open>Keys and their hash\<close>

record KeyValue =
  Key :: string
  Value :: string

definition ByKey_Less :: "KeyValue list \<Rightarrow> int \<Rightarrow> int \<Rightarrow> bool go" where
  "ByKey_Less a i j =
     go_bind (go_index a i) (\<lambda>x. go_bind (go_index a j) (\<lambda>y. Inr (Key x < Key y)))"

definition ByKey_Swap :: "KeyValue list \<Rightarrow> int \<Rightarrow> int \<Rightarrow> KeyValue list go" where
  "ByKey_Swap a i j =
     go_bind (go_index a i) (\<lambda>x. go_bind (go_index a j) (\<lambda>y.
     go_bind (go_assign a i y) (\<lambda>a. go_assign a j x)))"

text \<open>\<open>hash/fnv\<close>: the 32 bit FNV-1a hash of a byte string.\<close>

definition fnv_step :: "32 word \<Rightarrow> char \<Rightarrow> 32 word" where
  "fnv_step h c = (h XOR of_char c) * 16777619"

definition fnv32a :: "string \<Rightarrow> 32 word" where
  "fnv32a key = foldl fnv_step 2166136261 key"

definition ihash :: "string \<Rightarrow> int" where
  "ihash key = uint (fnv32a key AND 0x7fffffff)"

lemma ihash_bounds: "0 \<le> ihash key" "ihash key < 2 ^ 31"
proof -
  have "uint (fnv32a key AND 0x7fffffff) = uint (fnv32a key) AND 0x7fffffff"
    by (simp add: uint_and)
  also have "\<dots> = take_bit 31 (uint (fnv32a key))"
    by (simp add: take_bit_eq_mask mask_eq_exp_minus_1)
  finally show "0 \<le> ihash key" "ihash key < 2 ^ 31" 
    using take_bit_int_less_exp [of 31 "uint (fnv32a key)"] by (simp_all add: ihash_def)
qed

text \<open>Go's \<open>%\<close>, which truncates towards zero.\<close>

definition go_rem :: "int \<Rightarrow> int \<Rightarrow> int go" where
  "go_rem a b = (if b = 0 then Inl DivideByZero else Inr (sgn a * (\<bar>a\<bar> mod \<bar>b\<bar>)))"

lemma go_rem_pos: "0 \<le> a \<Longrightarrow> 0 < b \<Longrightarrow> go_rem a b = Inr (a mod b)"
  by (cases "a = 0") (simp_all add: go_rem_def sgn_if)

section \<open>Files\<close>

text \<open>\<open>strconv.Itoa\<close> and the names of the intermediate and output files.\<close>

fun digits :: "nat \<Rightarrow> string" where
  "digits n = (if n < 10 then [char_of (48 + n)] else digits (n div 10) @ [char_of (48 + n mod 10)])"

declare digits.simps [simp del]

definition Itoa :: "int \<Rightarrow> string" where
  "Itoa i = (if i < 0 then ''-'' @ digits (nat (- i)) else digits (nat i))"

definition interName :: "int \<Rightarrow> int \<Rightarrow> string" where
  "interName i r = ''mr-'' @ Itoa i @ ''-'' @ Itoa r"

definition outName :: "int \<Rightarrow> string" where
  "outName r = ''mr-out-'' @ Itoa r"

text \<open>
  The directory of a job: the input files, the intermediate files, each a sequence of JSON
  values, and the output files, each a sequence of lines. Input files are not named like the
  files a job writes.
\<close>

record directory =
  inputs :: "string \<Rightarrow> string option"
  inter :: "string \<Rightarrow> KeyValue list option"
  outs :: "string \<Rightarrow> string list option"

text \<open>
  \<open>encoding/json\<close> writes a string so that it reads back unchanged, except that a byte which is not
  part of valid UTF-8 becomes the replacement character. \<open>utf8_len\<close> is the length of the valid
  sequence at the start of a string, 0 if there is none.
\<close>

definition cont :: "nat \<Rightarrow> nat \<Rightarrow> char list \<Rightarrow> bool" where
  "cont lo hi cs = (case cs of [] \<Rightarrow> False | c # _ \<Rightarrow> lo \<le> of_char c \<and> of_char c \<le> hi)"

definition utf8_len :: "char list \<Rightarrow> nat" where
  "utf8_len cs =
     (case cs of
        [] \<Rightarrow> 0
      | c # r \<Rightarrow>
          (let b = of_char c :: nat;
               t1 = cont 128 191 (drop 1 r); t2 = cont 128 191 (drop 2 r) in
           if b < 128 then 1
           else if 194 \<le> b \<and> b \<le> 223 \<and> cont 128 191 r then 2
           else if b = 224 \<and> cont 160 191 r \<and> t1 then 3
           else if b = 237 \<and> cont 128 159 r \<and> t1 then 3
           else if 225 \<le> b \<and> b \<le> 239 \<and> b \<noteq> 237 \<and> cont 128 191 r \<and> t1 then 3
           else if b = 240 \<and> cont 144 191 r \<and> t1 \<and> t2 then 4
           else if 241 \<le> b \<and> b \<le> 243 \<and> cont 128 191 r \<and> t1 \<and> t2 then 4
           else if b = 244 \<and> cont 128 143 r \<and> t1 \<and> t2 then 4
           else 0))"

function json_string :: "string \<Rightarrow> string" where
  "json_string [] = []"
| "json_string (c # cs) =
     (if utf8_len (c # cs) = 0
      then map char_of [239, 191, 189 :: nat] @ json_string cs
      else take (utf8_len (c # cs)) (c # cs) @ json_string (drop (utf8_len (c # cs)) (c # cs)))"
  by pat_completeness auto
termination
  by (relation "measure length") auto

definition json_kv :: "KeyValue \<Rightarrow> KeyValue" where
  "json_kv kv = \<lparr>Key = json_string (Key kv), Value = json_string (Value kv)\<rparr>"

lemma json_string_ascii: "\<forall>c\<in>set s. (of_char c :: nat) < 128 \<Longrightarrow> json_string s = s"
proof (induction s)
  case (Cons c cs)
  then have "utf8_len (c # cs) = 1" by (simp add: utf8_len_def Let_def)
  then show ?case using Cons by simp
qed simp

section \<open>MapWorker\<close>

text \<open>The loop that groups the pairs by the reduce task of their key.\<close>

fun partition_loop :: "int \<Rightarrow> KeyValue list \<Rightarrow> (int, KeyValue list) gomap \<Rightarrow> (int, KeyValue list) gomap go" where
  "partition_loop nReduce [] interFile = Inr interFile"
| "partition_loop nReduce (kv # kvs) interFile =
     go_bind (go_rem (ihash (Key kv)) nReduce) (\<lambda>idx.
       let old = (case gm_get interFile idx of None \<Rightarrow> [] | Some l \<Rightarrow> l)
       in partition_loop nReduce kvs (gm_put idx (old @ [kv]) interFile))"

text \<open>What a map task writes: for each part its temporary file, which is renamed at the end. The
  names differ, so the order in which Go walks through the map does not matter.\<close>

definition mapOutput :: "(string \<Rightarrow> string \<Rightarrow> KeyValue list) \<Rightarrow> Task \<Rightarrow> directory \<Rightarrow> (int, KeyValue list) gomap go" where
  "mapOutput mapf task d =
     (case inputs d (tk_Filename task) of
        None \<Rightarrow> Inl (LogFatal (''cannot open '' @ tk_Filename task))
      | Some content \<Rightarrow>
          let kva = mapf (tk_Filename task) content;
              intermediate = [] @ kva
          in go_bind (partition_loop (tk_NReduce task) intermediate []) (\<lambda>interFile.
               Inr (map (\<lambda>(idx, kvs). (idx, map json_kv kvs)) interFile)))"

text \<open>The errors of \<open>ioutil.TempFile\<close> and \<open>os.Rename\<close> are ignored by the code; the model has the case that they
  succeed, a worker may only crash between them.\<close>

fun renames :: "int \<Rightarrow> (int, KeyValue list) gomap \<Rightarrow> directory \<Rightarrow> directory" where
  "renames index [] d = d"
| "renames index ((i, kvs) # fs) d =
     renames index fs (d\<lparr>inter := (inter d)(interName index i \<mapsto> kvs)\<rparr>)"

definition MapWorker :: "(string \<Rightarrow> string \<Rightarrow> KeyValue list) \<Rightarrow> Task \<Rightarrow> directory \<Rightarrow> directory go" where
  "MapWorker mapf task d =
     go_bind (mapOutput mapf task d) (\<lambda>fs. Inr (renames (tk_Index task) fs d))"

section \<open>ReduceWorker\<close>

text \<open>A missing intermediate file reads like an empty one: \<open>Decode\<close> on a nil file is an error.\<close>

definition decodeFile :: "directory \<Rightarrow> string \<Rightarrow> KeyValue list" where
  "decodeFile d name = (case inter d name of None \<Rightarrow> [] | Some kvs \<Rightarrow> kvs)"

function readInter :: "int \<Rightarrow> Task \<Rightarrow> directory \<Rightarrow> KeyValue list" where
  "readInter i task d =
     (if i < tk_NMap task
      then decodeFile d (interName i (tk_RIndex task)) @ readInter (i + 1) task d
      else [])"
  by pat_completeness auto
termination
  by (relation "measure (\<lambda>(i, task, _). nat (tk_NMap task - i))") auto

declare readInter.simps [simp del]

text \<open>The loops over the sorted pairs, with the indices of the source.\<close>

function group_end :: "KeyValue list \<Rightarrow> nat \<Rightarrow> nat \<Rightarrow> nat" where
  "group_end xs i j =
     (if j < length xs \<and> Key (xs ! j) = Key (xs ! i) then group_end xs i (j + 1) else j)"
  by pat_completeness auto
termination
  by (relation "measure (\<lambda>(xs, i, j). length xs - j)") auto

declare group_end.simps [simp del]

lemma group_end_ge: "j \<le> group_end xs i j"
  by (induction xs i j rule: group_end.induct) (subst group_end.simps, auto)

definition outLine :: "string \<Rightarrow> string \<Rightarrow> string" where
  "outLine key output = key @ '' '' @ output @ [CHR 0x0A]"

function reduce_loop :: "(string \<Rightarrow> string list \<Rightarrow> string) \<Rightarrow> KeyValue list \<Rightarrow> nat \<Rightarrow> string list" where
  "reduce_loop reducef xs i =
     (if i < length xs then
        let j = group_end xs i (i + 1);
            values = map (\<lambda>k. Value (xs ! k)) [i..<j];
            output = reducef (Key (xs ! i)) values
        in outLine (Key (xs ! i)) output # reduce_loop reducef xs j
      else [])"
  by pat_completeness auto
termination
proof (relation "measure (\<lambda>(f, xs, i). length xs - i)", goal_cases)
  case (2 f xs i j v out)
  then show ?case using group_end_ge [of "i + 1" xs i] by simp
qed simp

declare reduce_loop.simps [simp del]

definition ReduceWorker :: "(KeyValue list \<Rightarrow> KeyValue list) \<Rightarrow> (string \<Rightarrow> string list \<Rightarrow> string) \<Rightarrow> Task \<Rightarrow>
    directory \<Rightarrow> directory" where
  "ReduceWorker srt reducef task d =
     (let intermediate = srt (readInter 0 task d)
      in d\<lparr>outs := (outs d)(outName (tk_RIndex task) \<mapsto> reduce_loop reducef intermediate 0)\<rparr>)"

section \<open>The worker's loop\<close>

text \<open>One turn of \<open>Worker\<close> for the task it was given: the directory, whether it reports, and
  whether it goes on.\<close>

definition Worker_turn :: "(KeyValue list \<Rightarrow> KeyValue list) \<Rightarrow> (string \<Rightarrow> string \<Rightarrow> KeyValue list) \<Rightarrow>
    (string \<Rightarrow> string list \<Rightarrow> string) \<Rightarrow> Task \<Rightarrow> directory \<Rightarrow> (directory \<times> Task option \<times> bool) go" where
  "Worker_turn srt mapf reducef task d =
     (if tk_TaskType task = MapTask then
        go_bind (MapWorker mapf task d) (\<lambda>d. Inr (d, Some task, True))
      else if tk_TaskType task = ReduceTask then
        Inr (ReduceWorker srt reducef task d, Some task, True)
      else if tk_TaskType task = SleepTask then Inr (d, None, True)
      else Inr (d, None, False))"

section \<open>The sequential program\<close>

fun seq_maps :: "(string \<Rightarrow> string \<Rightarrow> KeyValue list) \<Rightarrow> string list \<Rightarrow> directory \<Rightarrow> KeyValue list \<Rightarrow> KeyValue list go" where
  "seq_maps mapf [] d intermediate = Inr intermediate"
| "seq_maps mapf (f # fs) d intermediate =
     (case inputs d f of
        None \<Rightarrow> Inl (LogFatal (''cannot open '' @ f))
      | Some content \<Rightarrow> seq_maps mapf fs d (intermediate @ mapf f content))"

definition mrsequential :: "(KeyValue list \<Rightarrow> KeyValue list) \<Rightarrow> (string \<Rightarrow> string \<Rightarrow> KeyValue list) \<Rightarrow>
    (string \<Rightarrow> string list \<Rightarrow> string) \<Rightarrow> string list \<Rightarrow> directory \<Rightarrow> directory go" where
  "mrsequential srt mapf reducef files d =
     go_bind (seq_maps mapf files d []) (\<lambda>intermediate.
       let intermediate = srt intermediate
       in Inr (d\<lparr>outs := (outs d)(''mr-out-0'' \<mapsto> reduce_loop reducef intermediate 0)\<rparr>))"

end
