(* ===== verification/MR_Job.thy ===== *)
theory MR_Job
  imports MR_Coordinator
begin

text \<open>
  What a MapReduce job promises, whatever the workers do: every task is in exactly one place,
  no reduce task before the last map task, a lost worker's task comes back, the job can always
  be finished, and the coordinator implements a task board with three states per task.
\<close>

section \<open>Where a task is\<close>

lemma map_timer_exists:
  assumes "job_inv files nReduce s" and "i \<in> keys (RunningMap (coord s))"
  shows "\<exists>t\<in>#timers s. tk_TaskType t = MapTask \<and> tk_Index t = i"
proof -
  have "map_timers (timers s) i \<noteq> 0" using assms by (auto simp: job_inv_def timers_inv_def)
  then show ?thesis by (auto simp: map_timers_def filter_mset_eq_conv)
qed

lemma reduce_timer_exists:
  assumes "job_inv files nReduce s" and "i \<in> keys (RunningReduce (coord s))"
  shows "\<exists>t\<in>#timers s. tk_TaskType t = ReduceTask \<and> tk_RIndex t = i"
proof -
  have "reduce_timers (timers s) i \<noteq> 0" using assms by (auto simp: job_inv_def timers_inv_def)
  then show ?thesis by (auto simp: reduce_timers_def filter_mset_eq_conv)
qed

text \<open>
  C24: In every reachable state each map task and each reduce task is in exactly one of the
  queue (once), the running map and the completed map: no task is lost, duplicated or run after
  it was completed.
\<close>

theorem task_in_one_place:
  assumes "job_reachable files nReduce s" and "files \<noteq> []" and "0 < nReduce"
  shows "phase_ok (int (length files)) (mqueue (coord s)) (keys (RunningMap (coord s)))
      (keys (CompletedMap (coord s))) \<and>
    phase_ok nReduce (rqueue (coord s)) (keys (RunningReduce (coord s)))
      (keys (CompletedReduce (coord s)))"
  using job_reachable_inv [OF assms] by (simp add: job_inv_def tasks_inv_def)

definition sample_job :: job where
  "sample_job = init_job [''a'', ''b''] 2"

lemma sample_job_reachable: "job_reachable [''a'', ''b''] 2 sample_job"
  unfolding sample_job_def by (rule job_reachable.init)

lemma task_in_one_place_witness:
  "phase_ok 2 (mqueue (coord sample_job)) (keys (RunningMap (coord sample_job)))
     (keys (CompletedMap (coord sample_job)))"
  using task_in_one_place [OF sample_job_reachable] by simp

text \<open>
  A reduce task is handed out only when every map task has been reported, and then it is
  one of the tasks created at the start; a worker is told to exit exactly when the job is done.
\<close>

theorem reduce_after_maps:
  assumes "job_reachable files nReduce s" and "files \<noteq> []" and "0 < nReduce"
    and "GetTask now (coord s) = Inr (c', t, sp)"
  shows "(tk_TaskType t = ReduceTask \<longrightarrow> reduce_task files nReduce t \<and>
      keys (CompletedMap (coord s)) = {0..<int (length files)}) \<and>
    (tk_TaskType t = MapTask \<longrightarrow> map_task files nReduce t) \<and>
    (tk_TaskType t = ExitTask \<longleftrightarrow> Done (coord s))"
proof -
  have inv: "job_inv files nReduce s" by (rule job_reachable_inv [OF assms(1-3)])
  then have st: "c_Status (coord s) \<noteq> NoneStage" using stage_not_none by (auto simp: job_inv_def)
  have "Done (coord s) \<longleftrightarrow> c_Status (coord s) = IdleStage"
    by (rule done_idle [OF inv less_imp_le [OF assms(3)]])
  with assms(4) st inv show ?thesis
    by (cases rule: GetTask_cases)
      (auto simp: job_inv_def tasks_inv_def stage_inv_def map_task_def reduce_task_def)
qed

lemma reduce_after_maps_witness:
  "\<exists>c' t sp. GetTask 0 (coord sample_job) = Inr (c', t, sp) \<and> map_task [''a'', ''b''] 2 t \<and>
     tk_TaskType t = MapTask \<and> \<not> Done (coord sample_job)"
proof -
  obtain c' t sp where g: "GetTask 0 (coord sample_job) = Inr (c', t, sp)" "tk_TaskType t = MapTask"
    by (simp add: sample_job_def init_job_def MakeCoordinator_eq GetTask_def Len_def Pop_def
        go_index_def go_slice_from_def upt_conv_Cons handOut_def Let_def)
  from reduce_after_maps [OF sample_job_reachable _ _ g(1)] g show ?thesis by auto
qed

section \<open>Lost workers\<close>

text \<open>
  A task whose worker is lost is not lost: exactly one timer is pending for a running task,
  none for a queued one, and when that timer fires the task is back in the queue.
\<close>

theorem lost_task_returns:
  assumes "job_reachable files nReduce s" and "files \<noteq> []" and "0 < nReduce"
    and "i \<in> keys (RunningMap (coord s))"
  shows "map_timers (timers s) i = 1 \<and>
    (\<exists>t\<in>#timers s. tk_TaskType t = MapTask \<and> tk_Index t = i \<and>
       i \<in> set (mqueue (CheckExcept t (coord s))) \<and> i \<notin> keys (RunningMap (CheckExcept t (coord s))))"
proof -
  have inv: "job_inv files nReduce s" by (rule job_reachable_inv [OF assms(1-3)])
  from map_timer_exists [OF inv assms(4)] obtain t where
    t: "t \<in># timers s" "tk_TaskType t = MapTask" "tk_Index t = i" by blast
  have "i \<in> set (mqueue (CheckExcept t (coord s)))" "i \<notin> keys (RunningMap (CheckExcept t (coord s)))"
    using t assms(4) inv
    by (auto simp: CheckExcept_def Let_def job_inv_def tasks_inv_def map_laws)
  with t inv assms(4) show ?thesis by (auto simp: job_inv_def timers_inv_def)
qed

lemma lost_task_returns_witness:
  "\<exists>s. job_reachable [''a'', ''b''] 2 s \<and> 0 \<in> keys (RunningMap (coord s)) \<and>
     (\<exists>t\<in>#timers s. 0 \<in> set (mqueue (CheckExcept t (coord s))))"
proof -
  obtain c' t sp where g: "GetTask 0 (coord sample_job) = Inr (c', t, sp)" "0 \<in> keys (RunningMap c')"
    by (simp add: sample_job_def init_job_def MakeCoordinator_eq GetTask_def Len_def Pop_def newMap_def
        go_index_def go_slice_from_def upt_conv_Cons handOut_def Let_def gm.dom_update)
  from job_reachable.step [OF sample_job_reachable jstep.get [OF g(1)]] obtain s where
    s: "job_reachable [''a'', ''b''] 2 s" "coord s = c'" by force
  show ?thesis using lost_task_returns [OF s(1), of 0] s g(2) by fastforce
qed

section \<open>Progress\<close>

text \<open>How many tasks are still to be completed.\<close>

definition todo :: "Coordinator \<Rightarrow> int" where
  "todo c = NMap c - int (length (CompletedMap c)) + (NReduce c - int (length (CompletedReduce c)))"

lemma todo_nonneg:
  assumes "job_inv files nReduce s" and "0 < nReduce"
  shows "0 \<le> todo (coord s)"
proof -
  let ?c = "coord s"
  have "keys (CompletedMap ?c) \<subseteq> {0..<int (length files)}" "keys (CompletedReduce ?c) \<subseteq> {0..<nReduce}"
    using assms(1) by (auto simp: job_inv_def tasks_inv_def phase_ok_def)
  from card_mono [OF _ this(1)] card_mono [OF _ this(2)] show ?thesis
    using assms by (auto simp: todo_def job_inv_def tasks_inv_def gm.len_card)
qed

text \<open>Handing out a task and reporting it completes it.\<close>

lemma run_map_task:
  assumes "job_inv files nReduce s" and "c_Status (coord s) = MapStage" and "mqueue (coord s) \<noteq> []"
  shows "\<exists>s'. jstep\<^sup>*\<^sup>* s s' \<and> todo (coord s') = todo (coord s) - 1"
proof -
  obtain c' t sp where g: "GetTask 0 (coord s) = Inr (c', t, sp)" using GetTask_returns by blast
  from g assms(2,3) obtain q u where u: "que (InitMapQue (coord s)) = u # que q"
      "t = handOut 0 MapTask u"
      "c' = (coord s)\<lparr>InitMapQue := q, RunningMap := gm_put (tk_Index u) u (RunningMap (coord s))\<rparr>"
    by (cases rule: GetTask_cases) auto
  let ?s1 = "s\<lparr>coord := c', timers := timers s + (case sp of None \<Rightarrow> {#} | Some u \<Rightarrow> {#u#}),
    issued := insert t (issued s)\<rparr>"
  have ti: "tasks_inv files nReduce (coord s)" using assms(1) by (simp add: job_inv_def)
  then have "tk_Index u \<notin> keys (CompletedMap (coord s))"
    using u(1) by (auto simp: tasks_inv_def phase_ok_def)
  then have "gm_get (CompletedMap (coord s)) (tk_Index u) = None" by auto
  then have "length (gm_put (tk_Index u) v (CompletedMap (coord s))) = Suc (length (CompletedMap (coord s)))" for v
    using ti gm.len_update_fresh by (auto simp: tasks_inv_def)
  moreover have "gm_get (gm_put (tk_Index u) u (RunningMap (coord s))) (tk_Index u) \<noteq> None"
    using ti by (simp add: tasks_inv_def gm.lookup_update)
  ultimately have "todo (Report t c') = todo (coord s) - 1"
    by (simp add: Report_def u todo_def Let_def)
  moreover have "jstep s ?s1" by (rule jstep.get [OF g])
  moreover have "jstep ?s1 (?s1\<lparr>coord := Report t (coord ?s1)\<rparr>)" by (rule jstep.report) simp
  ultimately show ?thesis by (intro exI [of _ "?s1\<lparr>coord := Report t (coord ?s1)\<rparr>"]) auto
qed

lemma run_reduce_task:
  assumes "job_inv files nReduce s" and "c_Status (coord s) = ReduceStage" and "rqueue (coord s) \<noteq> []"
  shows "\<exists>s'. jstep\<^sup>*\<^sup>* s s' \<and> todo (coord s') = todo (coord s) - 1"
proof -
  obtain c' t sp where g: "GetTask 0 (coord s) = Inr (c', t, sp)" using GetTask_returns by blast
  from g assms(2,3) obtain q u where u: "que (InitReduceQue (coord s)) = u # que q"
      "t = handOut 0 ReduceTask u"
      "c' = (coord s)\<lparr>InitReduceQue := q, RunningReduce := gm_put (tk_RIndex u) u (RunningReduce (coord s))\<rparr>"
    by (cases rule: GetTask_cases) auto
  let ?s1 = "s\<lparr>coord := c', timers := timers s + (case sp of None \<Rightarrow> {#} | Some u \<Rightarrow> {#u#}),
    issued := insert t (issued s)\<rparr>"
  have ti: "tasks_inv files nReduce (coord s)" using assms(1) by (simp add: job_inv_def)
  then have "tk_RIndex u \<notin> keys (CompletedReduce (coord s))"
    using u(1) by (auto simp: tasks_inv_def phase_ok_def)
  then have "gm_get (CompletedReduce (coord s)) (tk_RIndex u) = None" by auto
  then have "length (gm_put (tk_RIndex u) v (CompletedReduce (coord s))) = Suc (length (CompletedReduce (coord s)))" for v
    using ti gm.len_update_fresh by (auto simp: tasks_inv_def)
  moreover have "gm_get (gm_put (tk_RIndex u) u (RunningReduce (coord s))) (tk_RIndex u) \<noteq> None"
    using ti by (simp add: tasks_inv_def gm.lookup_update)
  ultimately have "todo (Report t c') = todo (coord s) - 1"
    by (simp add: Report_def u todo_def Let_def)
  moreover have "jstep s ?s1" by (rule jstep.get [OF g])
  moreover have "jstep ?s1 (?s1\<lparr>coord := Report t (coord ?s1)\<rparr>)" by (rule jstep.report) simp
  ultimately show ?thesis by (intro exI [of _ "?s1\<lparr>coord := Report t (coord ?s1)\<rparr>"]) auto
qed

text \<open>While the job is not done, the queue of the current stage can be made non-empty.\<close>

lemma refill_map:
  assumes "job_inv files nReduce s" and "c_Status (coord s) = MapStage"
  shows "\<exists>s'. jstep\<^sup>*\<^sup>* s s' \<and> c_Status (coord s') = MapStage \<and> mqueue (coord s') \<noteq> [] \<and>
    todo (coord s') = todo (coord s)"
proof (cases "mqueue (coord s) = []")
  case True
  have "phase_ok (int (length files)) (mqueue (coord s)) (keys (RunningMap (coord s))) (keys (CompletedMap (coord s)))"
      "keys (CompletedMap (coord s)) \<noteq> {0..<int (length files)}"
    using assms by (simp_all add: job_inv_def tasks_inv_def stage_inv_def)
  from phase_running [OF this(1) [unfolded True] this(2)]
  obtain i where i: "i \<in> keys (RunningMap (coord s))" ..
  from map_timer_exists [OF assms(1) i] obtain t where
    t: "t \<in># timers s" "tk_TaskType t = MapTask" "tk_Index t = i" by blast
  let ?s' = "s\<lparr>coord := CheckExcept t (coord s), timers := timers s - {#t#}\<rparr>"
  have "jstep s ?s'" by (rule jstep.expire [OF t(1)])
  moreover have "mqueue (coord ?s') \<noteq> []" "c_Status (coord ?s') = MapStage"
      "todo (coord ?s') = todo (coord s)"
    using t i assms(2) by (auto simp: CheckExcept_def Let_def todo_def)
  ultimately show ?thesis by blast
qed (use assms in auto)

lemma refill_reduce:
  assumes "job_inv files nReduce s" and "c_Status (coord s) = ReduceStage"
  shows "\<exists>s'. jstep\<^sup>*\<^sup>* s s' \<and> c_Status (coord s') = ReduceStage \<and> rqueue (coord s') \<noteq> [] \<and>
    todo (coord s') = todo (coord s)"
proof (cases "rqueue (coord s) = []")
  case True
  have "phase_ok (nReduce) (rqueue (coord s)) (keys (RunningReduce (coord s))) (keys (CompletedReduce (coord s)))"
      "keys (CompletedReduce (coord s)) \<noteq> {0..<nReduce}"
    using assms by (simp_all add: job_inv_def tasks_inv_def stage_inv_def)
  from phase_running [OF this(1) [unfolded True] this(2)]
  obtain i where i: "i \<in> keys (RunningReduce (coord s))" ..
  from reduce_timer_exists [OF assms(1) i] obtain t where
    t: "t \<in># timers s" "tk_TaskType t = ReduceTask" "tk_RIndex t = i" by blast
  let ?s' = "s\<lparr>coord := CheckExcept t (coord s), timers := timers s - {#t#}\<rparr>"
  have "jstep s ?s'" by (rule jstep.expire [OF t(1)])
  moreover have "rqueue (coord ?s') \<noteq> []" "c_Status (coord ?s') = ReduceStage"
      "todo (coord ?s') = todo (coord s)"
    using t i assms(2) by (auto simp: CheckExcept_def Let_def todo_def)
  ultimately show ?thesis by blast
qed (use assms in auto)

lemma jsteps_inv:
  assumes "jstep\<^sup>*\<^sup>* s s'" and "job_inv files nReduce s" and "0 < nReduce"
  shows "job_inv files nReduce s'"
  using assms(1) by induction (use assms(2,3) jstep_inv in auto)

lemma job_progress:
  assumes "job_inv files nReduce s" and "0 < nReduce" and "\<not> Done (coord s)"
  shows "\<exists>s'. jstep\<^sup>*\<^sup>* s s' \<and> todo (coord s') = todo (coord s) - 1"
proof -
  have "c_Status (coord s) \<noteq> IdleStage" using done_idle assms by auto
  then consider (m) "c_Status (coord s) = MapStage" | (r) "c_Status (coord s) = ReduceStage"
    using assms(1) by (auto simp: job_inv_def stage_inv_def)
  then show ?thesis
  proof cases
    case m
    from refill_map [OF assms(1) m] obtain s1 where s1: "jstep\<^sup>*\<^sup>* s s1" "c_Status (coord s1) = MapStage"
      "mqueue (coord s1) \<noteq> []" "todo (coord s1) = todo (coord s)" by blast
    from run_map_task [OF jsteps_inv [OF s1(1) assms(1,2)] s1(2,3)] s1 show ?thesis
      by (metis rtranclp_trans)
  next
    case r
    from refill_reduce [OF assms(1) r] obtain s1 where s1: "jstep\<^sup>*\<^sup>* s s1" "c_Status (coord s1) = ReduceStage"
      "rqueue (coord s1) \<noteq> []" "todo (coord s1) = todo (coord s)" by blast
    from run_reduce_task [OF jsteps_inv [OF s1(1) assms(1,2)] s1(2,3)] s1 show ?thesis
      by (metis rtranclp_trans)
  qed
qed

lemma inv_can_finish:
  assumes "job_inv files nReduce s" and "0 < nReduce"
  shows "\<exists>s'. jstep\<^sup>*\<^sup>* s s' \<and> Done (coord s')"
  using assms(1)
proof (induction "nat (todo (coord s))" arbitrary: s rule: less_induct)
  case less
  show ?case
  proof (cases "Done (coord s)")
    case False
    from job_progress [OF less.prems assms(2) this] obtain s1 where
      s1: "jstep\<^sup>*\<^sup>* s s1" "todo (coord s1) = todo (coord s) - 1" by blast
    have inv1: "job_inv files nReduce s1" by (rule jsteps_inv [OF s1(1) less.prems assms(2)])
    have "nat (todo (coord s1)) < nat (todo (coord s))"
      using s1(2) todo_nonneg [OF inv1] assms(2) by simp
    from less.hyps [OF this inv1] s1(1) show ?thesis by (metis rtranclp_trans)
  qed auto
qed

text \<open>
  The job can always be finished: from every reachable state, whatever workers have crashed,
  some continuation with live workers reaches \<open>Done\<close>.
\<close>

theorem job_can_finish:
  assumes "job_reachable files nReduce s" and "files \<noteq> []" and "0 < nReduce"
  shows "\<exists>s'. jstep\<^sup>*\<^sup>* s s' \<and> Done (coord s')"
  by (rule inv_can_finish [OF job_reachable_inv [OF assms] assms(3)])

lemma job_can_finish_witness: "\<exists>s'. jstep\<^sup>*\<^sup>* sample_job s' \<and> Done (coord s')"
  using job_can_finish [OF sample_job_reachable] by simp

section \<open>The coordinator as a task board\<close>

text \<open>
  What the coordinator promises, without queues, maps and timers: each task is idle, in progress
  or completed; an idle task may be assigned, a task in progress may be completed or given up,
  a completed task stays completed, and no reduce task is assigned before all map tasks are
  completed.
\<close>

datatype progress = Idle | InProgress | Completed

record board =
  mapTasks :: "int \<Rightarrow> progress"
  reduceTasks :: "int \<Rightarrow> progress"

inductive board_step :: "int \<Rightarrow> int \<Rightarrow> board \<Rightarrow> board \<Rightarrow> bool" for nMap nReduce where
  assign_map: "i \<in> {0..<nMap} \<Longrightarrow> mapTasks b i = Idle \<Longrightarrow>
    board_step nMap nReduce b (b\<lparr>mapTasks := (mapTasks b)(i := InProgress)\<rparr>)"
| finish_map: "mapTasks b i = InProgress \<Longrightarrow>
    board_step nMap nReduce b (b\<lparr>mapTasks := (mapTasks b)(i := Completed)\<rparr>)"
| drop_map: "mapTasks b i = InProgress \<Longrightarrow>
    board_step nMap nReduce b (b\<lparr>mapTasks := (mapTasks b)(i := Idle)\<rparr>)"
| assign_reduce: "i \<in> {0..<nReduce} \<Longrightarrow> reduceTasks b i = Idle \<Longrightarrow>
    (\<And>j. j \<in> {0..<nMap} \<Longrightarrow> mapTasks b j = Completed) \<Longrightarrow>
    board_step nMap nReduce b (b\<lparr>reduceTasks := (reduceTasks b)(i := InProgress)\<rparr>)"
| finish_reduce: "reduceTasks b i = InProgress \<Longrightarrow>
    board_step nMap nReduce b (b\<lparr>reduceTasks := (reduceTasks b)(i := Completed)\<rparr>)"
| drop_reduce: "reduceTasks b i = InProgress \<Longrightarrow>
    board_step nMap nReduce b (b\<lparr>reduceTasks := (reduceTasks b)(i := Idle)\<rparr>)"
| idle: "board_step nMap nReduce b b"

definition progress_of :: "int set \<Rightarrow> int set \<Rightarrow> int \<Rightarrow> progress" where
  "progress_of run cmp i = (if i \<in> cmp then Completed else if i \<in> run then InProgress else Idle)"

definition board_of :: "Coordinator \<Rightarrow> board" where
  "board_of c =
     \<lparr>mapTasks = progress_of (keys (RunningMap c)) (keys (CompletedMap c)),
      reduceTasks = progress_of (keys (RunningReduce c)) (keys (CompletedReduce c))\<rparr>"

lemma progress_of_take:
  "i \<notin> cmp \<Longrightarrow> progress_of (insert i run) cmp = (progress_of run cmp)(i := InProgress)"
  "i \<in> run \<Longrightarrow> progress_of (run - {i}) (insert i cmp) = (progress_of run cmp)(i := Completed)"
  "i \<notin> cmp \<Longrightarrow> progress_of (run - {i}) cmp = (progress_of run cmp)(i := Idle)"
  by (auto simp: progress_of_def fun_eq_iff)

lemma board_GetTask:
  assumes "tasks_inv files nReduce c" and "stage_inv files nReduce c" and "GetTask now c = Inr (c', t, sp)"
  shows "board_step (int (length files)) nReduce (board_of c) (board_of c')"
  using assms(3)
proof (cases rule: GetTask_cases)
  case (map q u)
  then have i: "tk_Index u \<in> {0..<int (length files)}" "tk_Index u \<notin> keys (RunningMap c)"
      "tk_Index u \<notin> keys (CompletedMap c)"
    using assms(1) by (auto simp: tasks_inv_def phase_ok_def)
  then have "board_of c' = (board_of c)\<lparr>mapTasks := (mapTasks (board_of c))(tk_Index u := InProgress)\<rparr>"
    using assms(1) map by (simp add: board_of_def tasks_inv_def map_laws progress_of_take)
  moreover have "mapTasks (board_of c) (tk_Index u) = Idle"
    using i by (simp add: board_of_def progress_of_def)
  ultimately show ?thesis using i(1) board_step.assign_map by metis
next
  case (reduce q u)
  then have i: "tk_RIndex u \<in> {0..<nReduce}" "tk_RIndex u \<notin> keys (RunningReduce c)"
      "tk_RIndex u \<notin> keys (CompletedReduce c)"
    using assms(1) by (auto simp: tasks_inv_def phase_ok_def)
  then have eq: "board_of c' = (board_of c)\<lparr>reduceTasks := (reduceTasks (board_of c))(tk_RIndex u := InProgress)\<rparr>"
    using assms(1) reduce by (simp add: board_of_def tasks_inv_def map_laws progress_of_take)
  have "reduceTasks (board_of c) (tk_RIndex u) = Idle"
    using i by (simp add: board_of_def progress_of_def)
  moreover have "mapTasks (board_of c) j = Completed" if "j \<in> {0..<int (length files)}" for j
    using that assms(2) reduce(1) by (simp add: board_of_def progress_of_def stage_inv_def)
  ultimately show ?thesis unfolding eq using i(1) by (intro board_step.assign_reduce)
qed (use assms(2) stage_not_none in \<open>auto intro: board_step.idle\<close>)

lemma board_Report:
  assumes "tasks_inv files nReduce c"
  shows "board_step (int (length files)) nReduce (board_of c) (board_of (Report t c))"
proof (cases rule: Report_cases [of t c])
  case map
  then have "mapTasks (board_of c) (tk_Index t) = InProgress"
    using assms by (auto simp: board_of_def progress_of_def tasks_inv_def phase_ok_def)
  moreover have "board_of (Report t c) =
      (board_of c)\<lparr>mapTasks := (mapTasks (board_of c))(tk_Index t := Completed)\<rparr>"
    using assms map by (simp add: board_of_def tasks_inv_def map_laws progress_of_take Let_def)
  ultimately show ?thesis by (metis board_step.finish_map)
next
  case reduce
  then have "reduceTasks (board_of c) (tk_RIndex t) = InProgress"
    using assms by (auto simp: board_of_def progress_of_def tasks_inv_def phase_ok_def)
  moreover have "board_of (Report t c) =
      (board_of c)\<lparr>reduceTasks := (reduceTasks (board_of c))(tk_RIndex t := Completed)\<rparr>"
    using assms reduce by (simp add: board_of_def tasks_inv_def map_laws progress_of_take Let_def)
  ultimately show ?thesis by (metis board_step.finish_reduce)
qed (simp add: board_step.idle)

lemma board_CheckExcept:
  assumes "tasks_inv files nReduce c"
  shows "board_step (int (length files)) nReduce (board_of c) (board_of (CheckExcept t c))"
proof (cases rule: CheckExcept_cases [of t c])
  case map
  then have nc: "tk_Index t \<notin> keys (CompletedMap c)"
    using assms by (auto simp: tasks_inv_def phase_ok_def)
  then have "mapTasks (board_of c) (tk_Index t) = InProgress"
    using map(2) by (simp add: board_of_def progress_of_def)
  moreover have "board_of (CheckExcept t c) =
      (board_of c)\<lparr>mapTasks := (mapTasks (board_of c))(tk_Index t := Idle)\<rparr>"
    using assms map nc by (simp add: board_of_def tasks_inv_def map_laws progress_of_take)
  ultimately show ?thesis by (metis board_step.drop_map)
next
  case reduce
  then have nc: "tk_RIndex t \<notin> keys (CompletedReduce c)"
    using assms by (auto simp: tasks_inv_def phase_ok_def)
  then have "reduceTasks (board_of c) (tk_RIndex t) = InProgress"
    using reduce(2) by (simp add: board_of_def progress_of_def)
  moreover have "board_of (CheckExcept t c) =
      (board_of c)\<lparr>reduceTasks := (reduceTasks (board_of c))(tk_RIndex t := Idle)\<rparr>"
    using assms reduce nc by (simp add: board_of_def tasks_inv_def map_laws progress_of_take)
  ultimately show ?thesis by (metis board_step.drop_reduce)
qed (simp add: board_step.idle)

text \<open>
  C23: The coordinator implements the task board: every step of a reachable job, seen through
  \<open>board_of\<close>, is a step of the board.
\<close>

theorem coordinator_refines_board:
  assumes "job_reachable files nReduce s" and "files \<noteq> []" and "0 < nReduce" and "jstep s s'"
  shows "board_step (int (length files)) nReduce (board_of (coord s)) (board_of (coord s'))"
proof -
  have inv: "tasks_inv files nReduce (coord s)" "stage_inv files nReduce (coord s)"
    using job_reachable_inv [OF assms(1-3)] by (simp_all add: job_inv_def)
  from assms(4) show ?thesis
    by (cases rule: jstep.cases) (auto intro: board_GetTask board_Report board_CheckExcept inv)
qed

lemma coordinator_refines_board_witness:
  "\<exists>s'. jstep sample_job s' \<and> board_step 2 2 (board_of (coord sample_job)) (board_of (coord s'))"
proof -
  obtain c' t sp where "GetTask 0 (coord sample_job) = Inr (c', t, sp)" using GetTask_returns by blast
  from jstep.get [OF this] obtain s' where s': "jstep sample_job s'" by blast
  from coordinator_refines_board [OF sample_job_reachable _ _ s'] s' show ?thesis by auto
qed

end
