(* ===== verification/MR_Distributed.thy ===== *)
theory MR_Distributed
  imports MR_Worker MR_Job
begin

text \<open>
  The distributed job computes what the sequential program computes: the names of the files,
  the grouping loop against its specification, the partition of the pairs, and the job with
  workers that write files, crash half-way and repeat work.
\<close>

section \<open>File names\<close>

fun digits_val :: "nat \<Rightarrow> string \<Rightarrow> nat" where
  "digits_val v [] = v"
| "digits_val v (c # cs) = digits_val (10 * v + (of_char c - 48)) cs"

lemma digits_val_append: "digits_val v (xs @ ys) = digits_val (digits_val v xs) ys"
  by (induction xs arbitrary: v) auto

lemma digits_val_digits: "digits_val 0 (digits n) = n"
  by (induction n rule: digits.induct) (subst digits.simps, auto simp: digits_val_append)

lemma digits_chars: "c \<in> set (digits n) \<Longrightarrow> 48 \<le> (of_char c :: nat) \<and> (of_char c :: nat) \<le> 57"
proof (induction n rule: digits.induct)
  case (1 n)
  have d: "(of_char (char_of (48 + k) :: char) :: nat) = 48 + k" if "k < 10" for k
    using that by simp
  show ?case
  proof (cases "n < 10")
    case True
    then have "c = char_of (48 + n)" using 1(2) by (subst (asm) digits.simps) simp
    then show ?thesis using d [OF True] True by simp
  next
    case False
    then have "c \<in> set (digits (n div 10)) \<or> c = char_of (48 + n mod 10)"
      using 1(2) by (subst (asm) digits.simps) auto
    then show ?thesis using 1(1) [OF False] d [of "n mod 10"] by auto
  qed
qed

lemma Itoa_inj: "0 \<le> i \<Longrightarrow> 0 \<le> j \<Longrightarrow> Itoa i = Itoa j \<longleftrightarrow> i = j"
  using digits_val_digits by (metis Itoa_def linorder_not_le nat_eq_iff2 order_refl nat_0_le)

lemma Itoa_no_dash: "0 \<le> i \<Longrightarrow> CHR ''-'' \<notin> set (Itoa i)"
  using digits_chars [of "CHR ''-''" "nat i"] by (auto simp: Itoa_def)

lemma interName_inj:
  assumes "0 \<le> i" "0 \<le> j" "0 \<le> r" "0 \<le> q"
  shows "interName i r = interName j q \<longleftrightarrow> i = j \<and> r = q"
proof
  assume "interName i r = interName j q"
  then have e: "Itoa i @ CHR ''-'' # Itoa r = Itoa j @ CHR ''-'' # Itoa q" by (simp add: interName_def)
  have "takeWhile (\<lambda>c. c \<noteq> CHR ''-'') (Itoa k @ CHR ''-'' # zs) = Itoa k" if "0 \<le> k" for k zs
    using Itoa_no_dash [OF that] by (subst takeWhile_append2) auto
  with e assms(1,2) have "Itoa i = Itoa j" by metis
  then show "i = j \<and> r = q" using e Itoa_inj assms by simp
qed simp

lemma outName_inj: "0 \<le> r \<Longrightarrow> 0 \<le> q \<Longrightarrow> outName r = outName q \<longleftrightarrow> r = q"
  by (simp add: outName_def Itoa_inj)

section \<open>The grouping loop\<close>

lemma group_end_eq:
  "j \<le> length xs \<Longrightarrow>
   group_end xs i j = j + length (takeWhile (\<lambda>kv. Key kv = Key (xs ! i)) (drop j xs))"
proof (induction xs i j rule: group_end.induct)
  case (1 xs i j)
  show ?case
  proof (cases "j < length xs \<and> Key (xs ! j) = Key (xs ! i)")
    case True
    then have "drop j xs = xs ! j # drop (Suc j) xs" by (simp add: Cons_nth_drop_Suc)
    with True 1 show ?thesis by (simp add: group_end.simps [of xs i j])
  next
    case False
    then have "takeWhile (\<lambda>kv. Key kv = Key (xs ! i)) (drop j xs) = []"
      using 1(2) by (cases "j < length xs") (auto simp: Cons_nth_drop_Suc [symmetric])
    with False show ?thesis by (subst group_end.simps) auto
  qed
qed

lemma map_nth_slice:
  "j \<le> length xs \<Longrightarrow> map (\<lambda>k. f (xs ! k)) [i..<j] = map f (take (j - i) (drop i xs))"
proof (rule nth_equalityI)
  assume j: "j \<le> length xs"
  then show "length (map (\<lambda>k. f (xs ! k)) [i..<j]) = length (map f (take (j - i) (drop i xs)))" by simp
  fix k assume "k < length (map (\<lambda>k. f (xs ! k)) [i..<j])"
  then have "k < j - i" "k < length (take (j - i) (drop i xs))" using j by auto
  then show "map (\<lambda>k. f (xs ! k)) [i..<j] ! k = map f (take (j - i) (drop i xs)) ! k"
    using j by (simp add: nth_map [of k "take (j - i) (drop i xs)"])
qed

text \<open>The specification: one line per key, in order, with all the values of that key.\<close>

definition values_of :: "string \<Rightarrow> KeyValue list \<Rightarrow> string list" where
  "values_of k xs = map Value (filter (\<lambda>kv. Key kv = k) xs)"

definition reduce_spec :: "(string \<Rightarrow> string list \<Rightarrow> string) \<Rightarrow> KeyValue list \<Rightarrow> string list" where
  "reduce_spec reducef xs =
     map (\<lambda>k. outLine k (reducef k (values_of k xs))) (remdups_adj (map Key xs))"

lemma sorted_group:
  assumes "sorted (map Key (y # ys))"
  shows "filter (\<lambda>kv. Key kv = Key y) (y # ys) = y # takeWhile (\<lambda>kv. Key kv = Key y) ys"
    and "\<forall>kv\<in>set (dropWhile (\<lambda>kv. Key kv = Key y) ys). Key y < Key kv"
    and "remdups_adj (map Key (y # ys)) =
      Key y # remdups_adj (map Key (dropWhile (\<lambda>kv. Key kv = Key y) ys))"
  using assms
proof (induction ys)
  case (Cons z zs)
  {
    case 1
    show ?case
    proof (cases "Key z = Key y")
      case False
      with 1 have "Key y < Key z" by (simp add: order.strict_iff_order)
      with 1 have "\<forall>x\<in>set zs. Key x \<noteq> Key y" by fastforce
      with False show ?thesis by (simp add: filter_empty_conv)
    qed (use 1 Cons.IH(1) in simp)
  next
    case 2
    then show ?case using Cons.IH(2) by (cases "Key z = Key y") auto
  next
    case 3
    then show ?case using Cons.IH(3) by (cases "Key z = Key y") auto
  }
qed auto

lemma grouping:
  assumes "sorted (map Key xs)"
  shows "reduce_loop reducef xs 0 = reduce_spec reducef xs"
proof -
  have "reduce_loop reducef xs i = reduce_spec reducef (drop i xs)" if "i \<le> length xs" for i
    using that
  proof (induction "length xs - i" arbitrary: i rule: less_induct)
    case less
    show ?case
    proof (cases "i < length xs")
      case True
      let ?y = "xs ! i"
      let ?ys = "drop (Suc i) xs"
      let ?P = "\<lambda>kv. Key kv = Key ?y"
      let ?j = "group_end xs i (i + 1)"
      have d: "drop i xs = ?y # ?ys" using True by (simp add: Cons_nth_drop_Suc)
      have srt: "sorted (map Key (?y # ?ys))"
        unfolding d [symmetric] using sorted_wrt_drop [OF assms, of i] by (simp add: List.drop_map)
      have j: "?j = Suc i + length (takeWhile ?P ?ys)" using True by (simp add: group_end_eq)
      have jl: "?j \<le> length xs" using length_takeWhile_le [of ?P ?ys] j True by simp
      have "drop ?j xs = drop (length (takeWhile ?P ?ys)) ?ys" unfolding j by (simp add: add.commute)
      then have dj: "drop ?j xs = dropWhile ?P ?ys" by (simp add: dropWhile_eq_drop)
      have "map (\<lambda>k. Value (xs ! k)) [i..<?j] = map Value (take (?j - i) (drop i xs))"
        by (rule map_nth_slice [OF jl])
      also have "take (?j - i) (drop i xs) = filter ?P (drop i xs)"
        unfolding d sorted_group(1) [OF srt] j by (simp add: takeWhile_eq_take [symmetric])
      finally have vals: "map (\<lambda>k. Value (xs ! k)) [i..<?j] = values_of (Key ?y) (drop i xs)"
        by (simp add: values_of_def)
      have rest: "values_of k (drop i xs) = values_of k (drop ?j xs)"
        if "k \<in> set (map Key (drop ?j xs))" for k
      proof -
        have "Key ?y < k" using that sorted_group(2) [OF srt] unfolding dj by auto
        then have "filter (\<lambda>kv. Key kv = k) (takeWhile ?P ?ys) = []"
          by (auto simp: filter_empty_conv dest: set_takeWhileD)
        moreover have "drop i xs = ?y # takeWhile ?P ?ys @ drop ?j xs" unfolding d dj by simp
        ultimately show ?thesis using \<open>Key ?y < k\<close> by (simp add: values_of_def)
      qed
      have keys: "remdups_adj (map Key (drop i xs)) = Key ?y # remdups_adj (map Key (drop ?j xs))"
        unfolding d dj by (rule sorted_group(3) [OF srt])
      have "reduce_loop reducef xs ?j = reduce_spec reducef (drop ?j xs)"
        using jl j True by (intro less.hyps) auto
      then have "reduce_loop reducef xs i =
          outLine (Key ?y) (reducef (Key ?y) (values_of (Key ?y) (drop i xs))) # reduce_spec reducef (drop ?j xs)"
        using True vals by (subst reduce_loop.simps) (simp add: Let_def)
      then show ?thesis using rest by (simp add: reduce_spec_def keys)
    qed (simp add: reduce_loop.simps reduce_spec_def)
  qed
  from this [of 0] show ?thesis by simp
qed

text \<open>
  The grouping loop, with its two indices, calls \<open>reducef\<close> once per distinct key of a sorted
  list, with all the values of that key in order, and writes one line for it.
\<close>

theorem reduce_loop_spec:
  assumes "sorted (map Key xs)"
  shows "reduce_loop reducef xs 0 = reduce_spec reducef xs"
  by (rule grouping [OF assms])

lemma reduce_loop_spec_witness:
  "let xs = [\<lparr>Key = ''a'', Value = ''1''\<rparr>, \<lparr>Key = ''a'', Value = ''2''\<rparr>, \<lparr>Key = ''b'', Value = ''3''\<rparr>] in
   sorted (map Key xs) \<and> reduce_loop (\<lambda>k. concat) xs 0 = reduce_spec (\<lambda>k. concat) xs"
  using reduce_loop_spec [of "[\<lparr>Key = ''a'', Value = ''1''\<rparr>, \<lparr>Key = ''a'', Value = ''2''\<rparr>, \<lparr>Key = ''b'', Value = ''3''\<rparr>]"]
  by (simp add: less_eq_list_code less_list_code)

section \<open>Sorting and the order of the values\<close>

text \<open>What is known of \<open>sort.Sort(ByKey(xs))\<close>: it permutes and sorts by key. It need not be stable,
  so the order of the values of a key is open, and only a \<open>reducef\<close> that does not depend on it
  has a well-defined result.\<close>

locale key_sorter =
  fixes srt :: "KeyValue list \<Rightarrow> KeyValue list"
  assumes srt_perm: "mset (srt xs) = mset xs"
    and srt_sorted: "sorted (map Key (srt xs))"
begin

lemma srt_keys: "Key ` set (srt xs) = Key ` set xs"
  using srt_perm [of xs] by (metis set_mset_mset)

lemma srt_values: "mset (values_of k (srt xs)) = mset (values_of k xs)"
  by (simp add: values_of_def srt_perm mset_filter)

end

definition order_insensitive :: "(string \<Rightarrow> string list \<Rightarrow> string) \<Rightarrow> bool" where
  "order_insensitive reducef \<longleftrightarrow> (\<forall>k vs ws. mset vs = mset ws \<longrightarrow> reducef k vs = reducef k ws)"

lemma distinct_remdups_adj: "sorted xs \<Longrightarrow> distinct (remdups_adj xs)"
  for xs :: "'a :: linorder list"
proof (induction xs rule: remdups_adj.induct)
  case (3 x y xs)
  then show ?case by (auto simp: order.antisym)
qed auto

lemma reduce_spec_mset:
  assumes "sorted (map Key xs)"
  shows "mset (reduce_spec reducef xs) =
    image_mset (\<lambda>k. outLine k (reducef k (values_of k xs))) (mset_set (Key ` set xs))"
proof -
  have "mset (remdups_adj (map Key xs)) = mset_set (set (remdups_adj (map Key xs)))"
    by (rule mset_set_set [OF distinct_remdups_adj [OF assms], symmetric])
  then show ?thesis by (simp add: reduce_spec_def)
qed

lemma map_int_upt: "map int [0..<m] = [0..int m - 1]"
  by (induction m) (simp_all add: upto_rec2)

lemma mset_set_split:
  assumes "finite K" and "\<forall>k\<in>K. (0 :: int) \<le> h k \<and> h k < n"
  shows "mset_set K = (\<Sum>r\<leftarrow>[0..n - 1]. mset_set {k \<in> K. h k = r})"
proof -
  have "mset_set {k \<in> K. h k < int m} = (\<Sum>r\<leftarrow>map int [0..<m]. mset_set {k \<in> K. h k = r})" for m
  proof (induction m)
    case 0
    have "{k \<in> K. h k < int 0} = {}" using assms(2) by fastforce
    then show ?case by (simp only: mset_set.empty) simp
  next
    case (Suc m)
    have "{k \<in> K. h k < int (Suc m)} = {k \<in> K. h k < int m} \<union> {k \<in> K. h k = int m}" by auto
    then show ?case using Suc assms(1) by (simp add: mset_set_Union disjoint_iff)
  qed
  from this [of "nat n"] have "mset_set {k \<in> K. h k < int (nat n)} =
      (\<Sum>r\<leftarrow>map int [0..<nat n]. mset_set {k \<in> K. h k = r})" .
  moreover have "{k \<in> K. h k < int (nat n)} = K" using assms(2) by auto
  moreover have "map int [0..<nat n] = [0..n - 1]" using map_int_upt [of "nat n"] by (cases "0 \<le> n") simp_all
  ultimately show ?thesis by simp
qed

text \<open>The lines for a list of pairs, whatever the sorting algorithm.\<close>

definition lines_for :: "(string \<Rightarrow> string list \<Rightarrow> string) \<Rightarrow> KeyValue list \<Rightarrow> string multiset" where
  "lines_for reducef xs =
     image_mset (\<lambda>k. outLine k (reducef k (values_of k xs))) (mset_set (Key ` set xs))"

lemma image_mset_sum_list:
  "image_mset g (\<Sum>x\<leftarrow>xs. f x) = (\<Sum>x\<leftarrow>xs. image_mset g (f x))"
  by (induction xs) simp_all

lemma lines_for_part:
  assumes "order_insensitive reducef" and "\<forall>kv\<in>set xs. 0 \<le> h (Key kv) \<and> h (Key kv) < n"
  shows "(\<Sum>r\<leftarrow>[0..n - 1]. lines_for reducef (filter (\<lambda>kv. h (Key kv) = r) xs)) = lines_for reducef xs"
proof -
  let ?g = "\<lambda>k. outLine k (reducef k (values_of k xs))"
  have part: "lines_for reducef (filter (\<lambda>kv. h (Key kv) = r) xs) =
      image_mset ?g (mset_set {k \<in> Key ` set xs. h k = r})" for r
  proof -
    have "Key ` set (filter (\<lambda>kv. h (Key kv) = r) xs) = {k \<in> Key ` set xs. h k = r}" by auto
    moreover have "values_of k (filter (\<lambda>kv. h (Key kv) = r) xs) = values_of k xs" if "h k = r" for k
      using that unfolding values_of_def by (auto intro: arg_cong [where f = "map Value"] filter_cong)
    ultimately show ?thesis unfolding lines_for_def by (auto intro: image_mset_cong)
  qed
  have "lines_for reducef xs = image_mset ?g (\<Sum>r\<leftarrow>[0..n - 1]. mset_set {k \<in> Key ` set xs. h k = r})"
    unfolding lines_for_def using mset_set_split [of "Key ` set xs" h n] assms(2) by simp
  also have "\<dots> = (\<Sum>r\<leftarrow>[0..n - 1]. image_mset ?g (mset_set {k \<in> Key ` set xs. h k = r}))"
    by (rule image_mset_sum_list)
  finally show ?thesis by (simp add: part)
qed

context key_sorter
begin

lemma lines_sorted:
  assumes "order_insensitive reducef"
  shows "mset (reduce_loop reducef (srt xs) 0) = lines_for reducef xs"
proof -
  have "mset (reduce_loop reducef (srt xs) 0) = mset (reduce_spec reducef (srt xs))"
    by (simp only: grouping [OF srt_sorted])
  moreover have "reducef k (values_of k (srt xs)) = reducef k (values_of k xs)" for k
    using assms srt_values [of k xs] unfolding order_insensitive_def by blast
  ultimately show ?thesis by (simp add: reduce_spec_mset srt_sorted srt_keys lines_for_def)
qed

end

interpretation sk: key_sorter "sort_key Key"
  by unfold_locales simp_all

section \<open>What the workers write\<close>

lemma readInter_eq:
  "readInter i task d = concat (map (\<lambda>j. decodeFile d (interName j (tk_RIndex task))) [i..tk_NMap task - 1])"
proof (induction i task d rule: readInter.induct)
  case (1 i task d)
  show ?case
  proof (cases "i < tk_NMap task")
    case True
    then show ?thesis using 1 by (simp add: readInter.simps [of i] upto_rec1 [of i])
  qed (simp add: readInter.simps [of i])
qed

definition part :: "int \<Rightarrow> int \<Rightarrow> KeyValue list \<Rightarrow> KeyValue list" where
  "part nReduce r kvs = filter (\<lambda>kv. ihash (Key kv) mod nReduce = r) kvs"

definition nonempty :: "'a list \<Rightarrow> 'a list option" where
  "nonempty xs = (if xs = [] then None else Some xs)"

lemma partition_loop_eq:
  assumes "0 < nReduce" and "gm_ok m" and "\<And>r. gm_get m r = nonempty (part nReduce r ys)"
  shows "\<exists>m'. partition_loop nReduce xs m = Inr m' \<and> gm_ok m' \<and>
    (\<forall>r. gm_get m' r = nonempty (part nReduce r (ys @ xs)))"
  using assms(2,3)
proof (induction xs arbitrary: m ys)
  case (Cons kv kvs)
  let ?i = "ihash (Key kv) mod nReduce"
  let ?old = "case gm_get m ?i of None \<Rightarrow> [] | Some l \<Rightarrow> l"
  have "?old = part nReduce ?i ys" using Cons.prems(2) by (simp add: nonempty_def)
  then have "gm_get (gm_put ?i (?old @ [kv]) m) r = nonempty (part nReduce r (ys @ [kv]))" for r
    using Cons.prems by (auto simp: gm.lookup_update nonempty_def part_def)
  from Cons.IH [OF gm.invar_update [OF Cons.prems(1)] this]
  show ?case using assms(1) ihash_bounds(1) by (simp add: go_rem_pos Let_def)
qed simp

lemma renames_eq:
  assumes "gm_ok fs" and "\<forall>r\<in>fst ` set fs. 0 \<le> r" and "0 \<le> i" and "0 \<le> j" and "0 \<le> r"
  shows "inter (renames i fs d) (interName j r) =
    (if j = i \<and> gm_get fs r \<noteq> None then gm_get fs r else inter d (interName j r))"
    and "inputs (renames i fs d) = inputs d" and "outs (renames i fs d) = outs d"
  using assms
proof (induction fs arbitrary: d)
  case (Cons a fs)
  obtain q kvs where a: "a = (q, kvs)" by (cases a)
  {
    case 1
    have "gm_get fs q = None" using 1(1) by (auto simp: a gm_ok_def gm_get_def map_of_eq_None_iff)
    then show ?case using 1 Cons.IH(1)
      by (auto simp: a gm_ok_def gm_get_def interName_inj)
  next
    case 2
    then show ?case using Cons.IH(2) by (simp add: a gm_ok_def)
  next
    case 3
    then show ?case using Cons.IH(3) by (simp add: a gm_ok_def)
  }
qed simp_all

end
