(* ===== verification/Shard_Tester.thy ===== *)
theory Shard_Tester
  imports Tester_Wiring Shard_Services MR_Distributed
begin

text \<open>
  \<open>shardkv/config.go\<close>: the harness of the sharded store. It starts three controllers and three groups of
  servers under names of the network, makes clerks, shuts servers and groups down and starts them
  again, and tells the controller which groups join and leave. Ends have random names:
  \<open>fresh k\<close> is the result of the \<open>k\<close>-th call of \<open>randstring\<close>, and the state counts the calls.
\<close>

section \<open>The state of the harness\<close>

text \<open>The ends a server holds are the names of its ends.\<close>

record ('c, 'd) group =
  gp_gid :: int
  gp_servers :: "('c, 'd, string) ShardKV option list"
  gp_saved :: "'c gobval Persister option list"
  gp_endnames :: "string list option list"
  gp_mendnames :: "string list option list"

record ('c, 'd, 'v) skv_config =
  sg_net :: "name Network"
  sg_servers :: "(nat, 'v) Server list"
  sg_random :: nat
  sg_failed :: bool
  sg_start :: int
  sg_nctrlers :: nat
  sg_ctrlerservers :: "('c, 'd) ShardCtrler option list"
  sg_mck :: "string list"
  sg_ngroups :: nat
  sg_n :: nat
  sg_groups :: "('c, 'd) group option list"
  sg_clerks :: "(nat, string list) gomap"
  sg_nextClientId :: int
  sg_maxraftstate :: int

abbreviation sg_all :: "nat \<Rightarrow> int list" where
  "sg_all n \<equiv> [0..int n - 1]"

definition skv_checkTimeout :: "int \<Rightarrow> ('c, 'd, 'v) skv_config \<Rightarrow> unit go" where
  "skv_checkTimeout now cfg =
     (if \<not> sg_failed cfg \<and> now - sg_start cfg > 120 * 1000
      then Inl (TestFatal ''test took longer than 120 seconds'') else Inr ())"

text \<open>\<open>cfg.groups[gi]\<close>, a pointer; a change of the group it points to.\<close>

definition the_group :: "('c, 'd, 'v) skv_config \<Rightarrow> int \<Rightarrow> ('c, 'd) group go" where
  "the_group cfg gi =
     go_bind (go_index (sg_groups cfg) gi) (\<lambda>gg. case gg of None \<Rightarrow> Inl NilDereference | Some gg \<Rightarrow> Inr gg)"

definition put_group :: "int \<Rightarrow> ('c, 'd) group \<Rightarrow> ('c, 'd, 'v) skv_config \<Rightarrow> ('c, 'd, 'v) skv_config" where
  "put_group gi gg cfg = cfg\<lparr>sg_groups := (sg_groups cfg)[nat gi := Some gg]\<rparr>"

text \<open>\<open>gg.saved[i]\<close> is the persister the running server writes to.\<close>

definition gp_persister :: "('c, 'd) group \<Rightarrow> int \<Rightarrow> 'c gobval Persister option go" where
  "gp_persister gg i =
     go_bind (go_index (gp_saved gg) i) (\<lambda>ps.
     go_bind (go_index (gp_servers gg) i) (\<lambda>kv.
       Inr (case kv of Some kv \<Rightarrow> Some (persister (sk_rf kv)) | None \<Rightarrow> ps)))"

definition checklogs_server :: "int \<Rightarrow> ('c, 'd) group \<Rightarrow> int \<Rightarrow> unit go" where
  "checklogs_server maxraftstate gg i =
     go_bind (gp_persister gg i) (\<lambda>ps. case ps of None \<Rightarrow> Inl NilDereference
     | Some ps \<Rightarrow>
         let raft = RaftStateSize ps; snap = length (ReadSnapshot (GobInt 0) ps) in
         if maxraftstate \<ge> 0 \<and> int raft > 8 * maxraftstate then Inl (TestFatal ''persister.RaftStateSize() exceeds maxraftstate'')
         else if maxraftstate < 0 \<and> snap > 0 then Inl (TestFatal ''maxraftstate is -1, but snapshot is non-empty!'')
         else Inr ())"

definition skv_checklogs :: "('c, 'd, 'v) skv_config \<Rightarrow> unit go" where
  "skv_checklogs cfg =
     go_for (\<lambda>gi _. go_for (\<lambda>i _. go_bind (the_group cfg gi) (\<lambda>gg. checklogs_server (sg_maxraftstate cfg) gg i)) (sg_all (sg_n cfg)) ())
       (sg_all (sg_ngroups cfg)) ()"

section \<open>Names and ends\<close>

definition ctrlername :: "int \<Rightarrow> string" where
  "ctrlername i = ''ctrler'' @ Itoa i"

definition servername :: "int \<Rightarrow> int \<Rightarrow> string" where
  "servername gid i = ''server-'' @ Itoa gid @ ''-'' @ Itoa i"

text \<open>\<open>randstring(20)\<close>: the results of successive calls are a parameter. Theorems that need different names assume that
  no two calls return the same string.\<close>

definition skv_randstring :: "(nat \<Rightarrow> string) \<Rightarrow> ('c, 'd, 'v) skv_config \<Rightarrow> string \<times> ('c, 'd, 'v) skv_config" where
  "skv_randstring fresh cfg = (fresh (sg_random cfg), cfg\<lparr>sg_random := sg_random cfg + 1\<rparr>)"

text \<open>\<open>MakeEnd\<close>, \<open>Connect\<close> and \<open>Enable\<close> of one end.\<close>

definition open_end :: "string \<Rightarrow> string \<Rightarrow> ('c, 'd, 'v) skv_config \<Rightarrow> ('c, 'd, 'v) skv_config go" where
  "open_end e server cfg =
     go_bind (MakeEnd (Str e) (sg_net cfg)) (\<lambda>net.
     Inr (cfg\<lparr>sg_net := Enable (Str e) True (Connect (Str e) (Str server) net)\<rparr>))"

text \<open>The function the harness passes to clerks and servers, \<open>func(servername string) *labrpc.ClientEnd\<close>.\<close>

definition skv_make_end :: "(nat \<Rightarrow> string) \<Rightarrow> string \<Rightarrow> ('c, 'd, 'v) skv_config \<Rightarrow> (('c, 'd, 'v) skv_config \<times> string) go" where
  "skv_make_end fresh server cfg =
     (case skv_randstring fresh cfg of (name, cfg) \<Rightarrow> go_bind (open_end name server cfg) (\<lambda>cfg. Inr (cfg, name)))"

text \<open>The loop that opens one end to each controller.\<close>

definition ctrler_ends :: "(nat \<Rightarrow> string) \<Rightarrow> ('c, 'd, 'v) skv_config \<Rightarrow> (('c, 'd, 'v) skv_config \<times> string list) go" where
  "ctrler_ends fresh cfg =
     go_for (\<lambda>j (cfg, ends). go_bind (skv_make_end fresh (ctrlername j) cfg) (\<lambda>(cfg, name). Inr (cfg, ends @ [name])))
       (sg_all (sg_nctrlers cfg)) (cfg, [])"

section \<open>Clerks\<close>

text \<open>\<open>endnames\<close> has length \<open>cfg.n\<close> and is indexed by the controllers. \<open>ck\<close> is the address of the clerk, \<open>mk\<close> the
  function it gets for making ends.\<close>

definition skv_makeClient :: "(nat \<Rightarrow> string) \<Rightarrow> nat \<Rightarrow> (string \<Rightarrow> string) \<Rightarrow> ('c, 'd, 'v) skv_config \<Rightarrow>
    (('c, 'd, 'v) skv_config \<times> string Clerk) go" where
  "skv_makeClient fresh ck mk cfg =
     go_bind (go_for (\<lambda>j (cfg, ends, endnames).
         (case skv_randstring fresh cfg of (name, cfg) \<Rightarrow>
          go_bind (go_assign endnames j name) (\<lambda>endnames.
          go_bind (open_end name (ctrlername j) cfg) (\<lambda>cfg. Inr (cfg, ends @ [name], endnames)))))
       (sg_all (sg_nctrlers cfg)) (cfg, [], replicate (sg_n cfg) [])) (\<lambda>(cfg, ends, endnames).
     Inr (cfg\<lparr>sg_clerks := gm_put ck endnames (sg_clerks cfg), sg_nextClientId := sg_nextClientId cfg + 1\<rparr>, MakeClerk ends mk))"

definition skv_deleteClient :: "nat \<Rightarrow> ('c, 'd, 'v) skv_config \<Rightarrow> ('c, 'd, 'v) skv_config" where
  "skv_deleteClient ck cfg = cfg\<lparr>sg_clerks := gm_delete ck (sg_clerks cfg)\<rparr>"

section \<open>Servers\<close>

definition disable_ends :: "string list option \<Rightarrow> int list \<Rightarrow> ('c, 'd, 'v) skv_config \<Rightarrow> ('c, 'd, 'v) skv_config go" where
  "disable_ends es js cfg =
     go_for (\<lambda>j cfg. go_bind (go_index (case es of None \<Rightarrow> [] | Some es \<Rightarrow> es) j) (\<lambda>name.
         Inr (cfg\<lparr>sg_net := Enable (Str name) False (sg_net cfg)\<rparr>))) js cfg"

definition skv_ShutdownServer :: "int \<Rightarrow> int \<Rightarrow> ('c, 'd, 'v) skv_config \<Rightarrow> ('c, 'd, 'v) skv_config go" where
  "skv_ShutdownServer gi i cfg =
     go_bind (the_group cfg gi) (\<lambda>gg.
     go_bind (if gp_servers gg = [] then Inr None else go_index (gp_endnames gg) i) (\<lambda>es.
     go_bind (disable_ends es (sg_all (length (gp_servers gg))) cfg) (\<lambda>cfg.
     go_bind (go_index (gp_mendnames gg) i) (\<lambda>ms.
     go_bind (disable_ends ms (sg_all (length (case ms of None \<Rightarrow> [] | Some ms \<Rightarrow> ms))) cfg) (\<lambda>cfg.
     let cfg = cfg\<lparr>sg_net := DeleteServer (Str (servername (gp_gid gg) i)) (sg_net cfg)\<rparr> in
     go_bind (gp_persister gg i) (\<lambda>ps.
     let gg = (case ps of None \<Rightarrow> gg | Some ps \<Rightarrow> gg\<lparr>gp_saved := (gp_saved gg)[nat i := Some (Copy ps)]\<rparr>) in
     go_bind (go_index (gp_servers gg) i) (\<lambda>kv.
     case kv of None \<Rightarrow> Inr (put_group gi gg cfg)
     | Some kv \<Rightarrow> go_bind (ShardKV_Kill kv) (\<lambda>_.
         Inr (put_group gi (gg\<lparr>gp_servers := (gp_servers gg)[nat i := None]\<rparr>) cfg)))))))))"

definition skv_ShutdownGroup :: "int \<Rightarrow> ('c, 'd, 'v) skv_config \<Rightarrow> ('c, 'd, 'v) skv_config go" where
  "skv_ShutdownGroup gi cfg = go_for (\<lambda>i. skv_ShutdownServer gi i) (sg_all (sg_n cfg)) cfg"

definition skv_cleanup :: "int \<Rightarrow> ('c, 'd, 'v) skv_config \<Rightarrow> ('c, 'd, 'v) skv_config go" where
  "skv_cleanup now cfg =
     go_bind (go_for skv_ShutdownGroup (sg_all (sg_ngroups cfg)) cfg) (\<lambda>cfg.
     go_bind (go_for (\<lambda>i cfg. go_bind (go_index (sg_ctrlerservers cfg) i) (\<lambda>sc.
         case sc of None \<Rightarrow> Inl NilDereference
         | Some sc \<Rightarrow> go_bind (ShardCtrler_Kill sc) (\<lambda>sc.
             Inr (cfg\<lparr>sg_ctrlerservers := (sg_ctrlerservers cfg)[nat i := Some sc]\<rparr>)))) (sg_all (sg_nctrlers cfg)) cfg) (\<lambda>cfg.
     go_bind (Cleanup (sg_net cfg)) (\<lambda>net.
     go_bind (skv_checkTimeout now cfg) (\<lambda>_. Inr (cfg\<lparr>sg_net := net\<rparr>)))))"

text \<open>A server with two services under a name; the objects behind the services of the server at position
  \<open>p\<close> of \<open>sg_servers\<close> have the addresses \<open>2 * p\<close> and \<open>2 * p + 1\<close>.\<close>

definition register :: "string \<Rightarrow> string \<Rightarrow> (nat, 'v) Method list \<Rightarrow> (nat, 'v) Method list \<Rightarrow> ('c, 'd, 'v) skv_config \<Rightarrow>
    ('c, 'd, 'v) skv_config" where
  "register srvname svcname typ rftyp cfg =
     (let p = length (sg_servers cfg);
          server = AddService (MakeService ''Raft'' (2 * p + 1) rftyp) (AddService (MakeService svcname (2 * p) typ) MakeServer)
      in cfg\<lparr>sg_servers := sg_servers cfg @ [server], sg_net := AddServer (Str srvname) p (sg_net cfg)\<rparr>)"

definition skv_StartServer :: "(nat \<Rightarrow> string) \<Rightarrow> (string \<Rightarrow> string) \<Rightarrow> (nat, 'v) Method list \<Rightarrow> (nat, 'v) Method list \<Rightarrow> int \<Rightarrow>
    int \<Rightarrow> int \<Rightarrow> ('c, 'd, 'v) skv_config \<Rightarrow> ('c, 'd, 'v) skv_config go" where
  "skv_StartServer fresh mk kvtyp rftyp r gi i cfg =
     go_bind (the_group cfg gi) (\<lambda>gg.
     let ends = map (\<lambda>j. fresh (sg_random cfg + j)) [0..<sg_n cfg];
         cfg = cfg\<lparr>sg_random := sg_random cfg + sg_n cfg\<rparr> in
     go_bind (go_assign (gp_endnames gg) i (Some ends)) (\<lambda>ens.
     go_bind (go_for (\<lambda>j cfg. go_bind (go_index ends j) (\<lambda>e. open_end e (servername (gp_gid gg) j) cfg)) (sg_all (sg_n cfg)) cfg) (\<lambda>cfg.
     go_bind (go_index (gp_mendnames gg) i) (\<lambda>_.
     go_bind (ctrler_ends fresh cfg) (\<lambda>(cfg, mends).
     let gg = gg\<lparr>gp_endnames := ens, gp_mendnames := (gp_mendnames gg)[nat i := Some mends]\<rparr> in
     go_bind (gp_persister gg i) (\<lambda>ps.
     let ps = (case ps of Some ps \<Rightarrow> Copy ps | None \<Rightarrow> MakePersister);
         gg = gg\<lparr>gp_saved := (gp_saved gg)[nat i := Some ps]\<rparr> in
     go_bind (go_assign (gp_servers gg) i (Some (ShardKV_StartServer (sg_n cfg) i ps (sg_maxraftstate cfg) (gp_gid gg) mends mk r))) (\<lambda>kvs.
     Inr (register (servername (gp_gid gg) i) ''ShardKV'' kvtyp rftyp (put_group gi (gg\<lparr>gp_servers := kvs\<rparr>) cfg)))))))))"

definition skv_StartGroup :: "(nat \<Rightarrow> string) \<Rightarrow> (string \<Rightarrow> string) \<Rightarrow> (nat, 'v) Method list \<Rightarrow> (nat, 'v) Method list \<Rightarrow> (int \<Rightarrow> int) \<Rightarrow>
    int \<Rightarrow> ('c, 'd, 'v) skv_config \<Rightarrow> ('c, 'd, 'v) skv_config go" where
  "skv_StartGroup fresh mk kvtyp rftyp r gi cfg = go_for (\<lambda>i. skv_StartServer fresh mk kvtyp rftyp (r i) gi i) (sg_all (sg_n cfg)) cfg"

definition StartCtrlerserver :: "(nat \<Rightarrow> string) \<Rightarrow> (nat, 'v) Method list \<Rightarrow> (nat, 'v) Method list \<Rightarrow> int \<Rightarrow> int \<Rightarrow>
    ('c, 'd, 'v) skv_config \<Rightarrow> ('c, 'd, 'v) skv_config go" where
  "StartCtrlerserver fresh sctyp rftyp r i cfg =
     go_bind (ctrler_ends fresh cfg) (\<lambda>(cfg, ends).
     let p = MakePersister in
     go_bind (go_assign (sg_ctrlerservers cfg) i (Some (ShardCtrler_StartServer (sg_nctrlers cfg) i p r))) (\<lambda>scs.
     Inr (register (ctrlername i) ''ShardCtrler'' sctyp rftyp (cfg\<lparr>sg_ctrlerservers := scs\<rparr>))))"

definition shardclerk :: "(nat \<Rightarrow> string) \<Rightarrow> ('c, 'd, 'v) skv_config \<Rightarrow> (('c, 'd, 'v) skv_config \<times> string list) go" where
  "shardclerk fresh cfg = ctrler_ends fresh cfg"

section \<open>Groups that join and leave\<close>

definition joinm_args :: "int list \<Rightarrow> ('c, 'd, 'v) skv_config \<Rightarrow> (int, string list) gomap go" where
  "joinm_args gis cfg =
     go_for (\<lambda>g m. go_bind (the_group cfg g) (\<lambda>gg.
         let gid = gp_gid gg; servernames = map (servername gid) (sg_all (sg_n cfg)) in
         Inr (gm_put gid servernames m))) gis []"

text \<open>\<open>call\<close> is the network under the controller's clerk; a \<open>Join\<close> that no server accepts does not return.\<close>

definition joinm :: "(nat \<Rightarrow> string \<Rightarrow> JoinArgs \<Rightarrow> JoinReply option) \<Rightarrow> int list \<Rightarrow> ('c, 'd, 'v) skv_config \<Rightarrow> nat \<Rightarrow> nat option go" where
  "joinm call gis cfg t = go_bind (joinm_args gis cfg) (\<lambda>m. Inr (Clerk_Join call (sg_mck cfg) m t))"

definition join :: "(nat \<Rightarrow> string \<Rightarrow> JoinArgs \<Rightarrow> JoinReply option) \<Rightarrow> int \<Rightarrow> ('c, 'd, 'v) skv_config \<Rightarrow> nat \<Rightarrow> nat option go" where
  "join call gi cfg t = joinm call [gi] cfg t"

definition leavem :: "(nat \<Rightarrow> string \<Rightarrow> LeaveArgs \<Rightarrow> LeaveReply option) \<Rightarrow> int list \<Rightarrow> ('c, 'd, 'v) skv_config \<Rightarrow> nat \<Rightarrow> nat option go" where
  "leavem call gis cfg t =
     go_bind (go_for (\<lambda>g gids. go_bind (the_group cfg g) (\<lambda>gg. Inr (gids @ [gp_gid gg]))) gis []) (\<lambda>gids.
     Inr (Leave call (sg_mck cfg) gids t))"

definition leave :: "(nat \<Rightarrow> string \<Rightarrow> LeaveArgs \<Rightarrow> LeaveReply option) \<Rightarrow> int \<Rightarrow> ('c, 'd, 'v) skv_config \<Rightarrow> nat \<Rightarrow> nat option go" where
  "leave call gi cfg t = leavem call [gi] cfg t"

section \<open>A whole test\<close>

text \<open>The configuration before the controllers are started, and a group before its servers are. The random
  numbers of the peers come from \<open>r\<close>.\<close>

definition skv_new_config :: "int \<Rightarrow> int \<Rightarrow> ('c, 'd, 'v) skv_config" where
  "skv_new_config maxraftstate now = \<lparr>sg_net = MakeNetwork, sg_servers = [], sg_random = 0, sg_failed = False, sg_start = now,
     sg_nctrlers = 3, sg_ctrlerservers = replicate 3 None, sg_mck = [], sg_ngroups = 0, sg_n = 0, sg_groups = [],
     sg_clerks = [], sg_nextClientId = 0, sg_maxraftstate = maxraftstate\<rparr>"

definition new_group :: "nat \<Rightarrow> nat \<Rightarrow> int \<Rightarrow> ('c, 'd) group" where
  "new_group n nctrlers gi = \<lparr>gp_gid = 100 + gi, gp_servers = replicate n None, gp_saved = replicate n None,
     gp_endnames = replicate n None, gp_mendnames = replicate nctrlers None\<rparr>"

definition start_group :: "(nat \<Rightarrow> string) \<Rightarrow> (string \<Rightarrow> string) \<Rightarrow> (nat, 'v) Method list \<Rightarrow> (nat, 'v) Method list \<Rightarrow> (int \<Rightarrow> int) \<Rightarrow>
    int \<Rightarrow> ('c, 'd, 'v) skv_config \<Rightarrow> ('c, 'd, 'v) skv_config go" where
  "start_group fresh mk kvtyp rftyp r gi cfg =
     go_bind (go_assign (sg_groups cfg) gi (Some (new_group (sg_n cfg) (sg_nctrlers cfg) gi))) (\<lambda>gs.
     let cfg = cfg\<lparr>sg_groups := gs\<rparr> in
     go_for (\<lambda>i. skv_StartServer fresh mk kvtyp rftyp (r i) gi i) (sg_all (sg_n cfg)) cfg)"

definition skv_make_config :: "(nat \<Rightarrow> string) \<Rightarrow> (string \<Rightarrow> string) \<Rightarrow> (nat, 'v) Method list \<Rightarrow> (nat, 'v) Method list \<Rightarrow>
    (nat, 'v) Method list \<Rightarrow> (int \<Rightarrow> int) \<Rightarrow> nat \<Rightarrow> bool \<Rightarrow> int \<Rightarrow> int \<Rightarrow> ('c, 'd, 'v) skv_config go" where
  "skv_make_config fresh mk kvtyp sctyp rftyp r n unreliable maxraftstate now =
     (let cfg = skv_new_config maxraftstate now in
      go_bind (go_for (\<lambda>i. StartCtrlerserver fresh sctyp rftyp (r i) i) (sg_all (sg_nctrlers cfg)) cfg) (\<lambda>cfg.
      go_bind (shardclerk fresh cfg) (\<lambda>(cfg, mck).
      let cfg = cfg\<lparr>sg_mck := mck, sg_ngroups := 3, sg_groups := replicate 3 None, sg_n := n\<rparr> in
      go_bind (go_for (start_group fresh mk kvtyp rftyp r) (sg_all (sg_ngroups cfg)) cfg) (\<lambda>cfg.
      Inr (cfg\<lparr>sg_clerks := [], sg_nextClientId := int (sg_n cfg) + 1000, sg_net := Reliable (\<not> unreliable) (sg_net cfg)\<rparr>)))))"

end
