(* ===== verification/Shard_Tester_Props.thy ===== *)
theory Shard_Tester_Props
  imports Shard_Tester
begin

text \<open>
  What the harness of \<open>shardkv/config.go\<close> sets up: controllers and servers under pairwise different names,
  which are the names it tells the controller when a group joins. Two slices have the wrong length, so
  that the harness works for groups of exactly three servers.
\<close>

section \<open>Counting loops\<close>

lemma go_for_upto:
  assumes "P 0 s" and "\<And>k s. k < n \<Longrightarrow> P k s \<Longrightarrow> \<exists>s'. body (int k) s = Inr s' \<and> P (Suc k) s'"
  shows "\<exists>s'. go_for body [0..int n - 1] s = Inr s' \<and> P n s'"
proof -
  have "\<exists>s'. go_for body (map int [0..<m]) s = Inr s' \<and> P m s'" if "m \<le> n" for m
    using that
  proof (induction m)
    case (Suc m)
    then obtain s1 where s1: "go_for body (map int [0..<m]) s = Inr s1" "P m s1" by auto
    obtain s2 where "body (int m) s1 = Inr s2" "P (Suc m) s2" using assms(2) [OF _ s1(2)] Suc.prems by auto
    then show ?case using s1(1) by (simp add: go_for_append)
  qed (use assms(1) in simp)
  then show ?thesis unfolding upto_map_int by blast
qed

lemma go_for_upto_fails:
  assumes "P 0 s" and "\<And>k s. k < m \<Longrightarrow> P k s \<Longrightarrow> \<exists>s'. body (int k) s = Inr s' \<and> P (Suc k) s'"
    and "m < n" and "\<And>s. P m s \<Longrightarrow> body (int m) s = Inl e"
  shows "go_for body [0..int n - 1] s = Inl e"
proof -
  obtain s' where s': "go_for body [0..int m - 1] s = Inr s'" "P m s'" using go_for_upto [of P s m body] assms(1,2) by blast
  have "[0..<n] = [0..<m] @ m # [Suc m..<n]" using assms(3) upt_add_eq_append [of 0 m "n - m"] by (simp add: upt_conv_Cons)
  then have "[0..int n - 1] = [0..int m - 1] @ int m # map int [Suc m..<n]" unfolding upto_map_int by simp
  then show ?thesis using s' assms(4) by (simp add: go_for_append)
qed

section \<open>New ends\<close>

definition ends_below :: "(nat \<Rightarrow> string) \<Rightarrow> nat \<Rightarrow> ('c, 'd, 'v) skv_config \<Rightarrow> bool" where
  "ends_below fresh m cfg \<longleftrightarrow> (\<forall>e. gm_get (nw_ends (sg_net cfg)) e \<noteq> None \<longrightarrow> (\<exists>k<m. e = Str (fresh k)))"

text \<open>\<open>cfg'\<close> is \<open>cfg\<close> with more ends, whose names are among the first \<open>m\<close> random strings.\<close>

definition grown :: "(nat \<Rightarrow> string) \<Rightarrow> nat \<Rightarrow> ('c, 'd, 'v) skv_config \<Rightarrow> ('c, 'd, 'v) skv_config \<Rightarrow> bool" where
  "grown fresh m cfg cfg' \<longleftrightarrow> (\<exists>net r. cfg' = cfg\<lparr>sg_net := net, sg_random := r\<rparr> \<and> nw_servers net = nw_servers (sg_net cfg)) \<and>
     ends_below fresh m cfg'"

lemma grown_fields:
  assumes "grown fresh m cfg cfg'"
  shows "sg_servers cfg' = sg_servers cfg" "sg_nctrlers cfg' = sg_nctrlers cfg" "sg_ctrlerservers cfg' = sg_ctrlerservers cfg"
    "sg_n cfg' = sg_n cfg" "sg_ngroups cfg' = sg_ngroups cfg" "sg_groups cfg' = sg_groups cfg" "sg_maxraftstate cfg' = sg_maxraftstate cfg"
    "get_server (sg_net cfg') = get_server (sg_net cfg)" "ends_below fresh m cfg'"
  using assms by (auto simp: grown_def get_server_def fun_eq_iff)

lemma grown_trans:
  assumes "grown fresh m cfg cfg1" and "grown fresh m' cfg1 cfg2"
  shows "grown fresh m' cfg cfg2"
proof -
  obtain net r where "cfg1 = cfg\<lparr>sg_net := net, sg_random := r\<rparr>" "nw_servers net = nw_servers (sg_net cfg)"
    using assms(1) unfolding grown_def by blast
  moreover obtain net' r' where "cfg2 = cfg1\<lparr>sg_net := net', sg_random := r'\<rparr>" "nw_servers net' = nw_servers (sg_net cfg1)" "ends_below fresh m' cfg2"
    using assms(2) unfolding grown_def by blast
  ultimately show ?thesis unfolding grown_def by (intro conjI exI [of _ net'] exI [of _ r']) simp_all
qed

lemma open_end_grown:
  assumes "inj fresh" and "ends_below fresh m cfg"
  shows "\<exists>cfg'. open_end (fresh m) s cfg = Inr cfg' \<and> grown fresh (Suc m) cfg cfg' \<and> sg_random cfg' = sg_random cfg"
proof -
  have new: "gm_get (nw_ends (sg_net cfg)) (Str (fresh m)) = None"
  proof (rule ccontr)
    assume "gm_get (nw_ends (sg_net cfg)) (Str (fresh m)) \<noteq> None"
    then obtain k where "k < m" "fresh m = fresh k" using assms(2) unfolding ends_below_def by blast
    then show False using assms(1) by (auto dest: injD)
  qed
  obtain net where net: "open_end (fresh m) s cfg = Inr (cfg\<lparr>sg_net := net\<rparr>)" "nw_servers net = nw_servers (sg_net cfg)"
      "nw_ends net = gm_put (Str (fresh m)) (Str (fresh m)) (nw_ends (sg_net cfg))"
    using new by (simp add: open_end_def MakeEnd_def Connect_def Enable_def)
  have "ends_below fresh (Suc m) (cfg\<lparr>sg_net := net\<rparr>)"
    using assms(2) unfolding ends_below_def net(3) by (auto simp: net(3) less_Suc_eq split: if_splits)
  moreover have "cfg\<lparr>sg_net := net\<rparr> = cfg\<lparr>sg_net := net, sg_random := sg_random cfg\<rparr>" by simp
  ultimately have "grown fresh (Suc m) cfg (cfg\<lparr>sg_net := net\<rparr>)" unfolding grown_def using net(2) by blast
  then show ?thesis using net(1) by simp
qed

abbreviation ends_ok :: "(nat \<Rightarrow> string) \<Rightarrow> ('c, 'd, 'v) skv_config \<Rightarrow> bool" where
  "ends_ok fresh cfg \<equiv> ends_below fresh (sg_random cfg) cfg"

abbreviation grows :: "(nat \<Rightarrow> string) \<Rightarrow> ('c, 'd, 'v) skv_config \<Rightarrow> ('c, 'd, 'v) skv_config \<Rightarrow> bool" where
  "grows fresh cfg cfg' \<equiv> grown fresh (sg_random cfg') cfg cfg'"

lemma grows_refl: "ends_ok fresh cfg \<Longrightarrow> grows fresh cfg cfg"
  unfolding grown_def by (auto intro!: exI [of _ "sg_net cfg"] exI [of _ "sg_random cfg"])

lemma make_end_grows:
  assumes "inj fresh" and "ends_ok fresh cfg"
  shows "\<exists>cfg'. skv_make_end fresh s cfg = Inr (cfg', fresh (sg_random cfg)) \<and> grows fresh cfg cfg'"
proof -
  let ?c = "cfg\<lparr>sg_random := sg_random cfg + 1\<rparr>"
  have "ends_below fresh (sg_random cfg) ?c" using assms(2) by (simp add: ends_below_def)
  then obtain cfg' where c: "open_end (fresh (sg_random cfg)) s ?c = Inr cfg'" "grown fresh (Suc (sg_random cfg)) ?c cfg'" "sg_random cfg' = sg_random ?c"
    using open_end_grown [OF assms(1)] by blast
  have "grown fresh (Suc (sg_random cfg)) cfg cfg'" using c(2) unfolding grown_def by (auto intro!: exI)
  then show ?thesis using c(1,3) by (simp add: skv_make_end_def skv_randstring_def)
qed

lemma ctrler_ends_grows:
  assumes inj: "inj fresh" and ok: "ends_ok fresh cfg"
  shows "\<exists>cfg' names. ctrler_ends fresh cfg = Inr (cfg', names) \<and> grows fresh cfg cfg' \<and> length names = sg_nctrlers cfg"
proof -
  let ?P = "\<lambda>k (c, ends :: string list). grows fresh cfg c \<and> length ends = k"
  have "\<exists>s'. go_for (\<lambda>j (cfg, ends). go_bind (skv_make_end fresh (ctrlername j) cfg) (\<lambda>(cfg, name). Inr (cfg, ends @ [name])))
      [0..int (sg_nctrlers cfg) - 1] (cfg, []) = Inr s' \<and> ?P (sg_nctrlers cfg) s'"
  proof (rule go_for_upto)
    show "?P 0 (cfg, [])" using grows_refl [OF ok] by simp
  next
    fix k s assume P: "?P k s"
    obtain c ends where s: "s = (c, ends)" by (cases s)
    have g: "grows fresh cfg c" using P by (simp add: s)
    obtain c' where c': "skv_make_end fresh (ctrlername (int k)) c = Inr (c', fresh (sg_random c))" "grows fresh c c'"
      using make_end_grows [OF inj grown_fields(9) [OF g]] by blast
    then show "\<exists>s'. (case s of (cfg, ends) \<Rightarrow> go_bind (skv_make_end fresh (ctrlername (int k)) cfg) (\<lambda>(cfg, name). Inr (cfg, ends @ [name]))) = Inr s' \<and> ?P (Suc k) s'"
      using grown_trans [OF g c'(2)] P by (simp add: s)
  qed
  then show ?thesis unfolding ctrler_ends_def by auto
qed

section \<open>Names of servers\<close>

lemma servername_inj:
  assumes "0 \<le> g" "0 \<le> h" "0 \<le> i" "0 \<le> j"
  shows "servername g i = servername h j \<longleftrightarrow> g = h \<and> i = j"
  using interName_inj [of g h i j] assms by (auto simp: servername_def interName_def)

section \<open>Starting servers and groups\<close>

definition gp_shaped :: "nat \<Rightarrow> nat \<Rightarrow> ('c, 'd) group \<Rightarrow> bool" where
  "gp_shaped n nctrlers gg \<longleftrightarrow> length (gp_servers gg) = n \<and> length (gp_saved gg) = n \<and> length (gp_endnames gg) = n \<and>
     length (gp_mendnames gg) = nctrlers"

lemma server_ends_grow:
  assumes inj: "inj fresh" and ok: "ends_ok fresh cfg"
  defines "c \<equiv> cfg\<lparr>sg_random := sg_random cfg + sg_n cfg\<rparr>"
  shows "\<exists>cfg'. go_for (\<lambda>j c. go_bind (go_index (map (\<lambda>j. fresh (sg_random cfg + j)) [0..<sg_n cfg]) j) (\<lambda>e. open_end e (names j) c))
      [0..int (sg_n cfg) - 1] c = Inr cfg' \<and> grows fresh cfg cfg'"
proof -
  let ?P = "\<lambda>k c'. grown fresh (sg_random cfg + k) c c' \<and> sg_random c' = sg_random c"
  have "\<exists>s'. go_for (\<lambda>j c. go_bind (go_index (map (\<lambda>j. fresh (sg_random cfg + j)) [0..<sg_n cfg]) j) (\<lambda>e. open_end e (names j) c))
      [0..int (sg_n cfg) - 1] c = Inr s' \<and> ?P (sg_n cfg) s'"
  proof (rule go_for_upto)
    have "ends_below fresh (sg_random cfg) c" using ok by (simp add: ends_below_def c_def)
    then have "grown fresh (sg_random cfg) c c" unfolding grown_def
      by (intro conjI exI [of _ "sg_net c"] exI [of _ "sg_random c"]) simp_all
    then show "?P 0 c" by simp
  next
    fix k c1 assume k: "k < sg_n cfg" and P: "?P k c1"
    then obtain c2 where c2: "open_end (fresh (sg_random cfg + k)) (names (int k)) c1 = Inr c2"
        "grown fresh (Suc (sg_random cfg + k)) c1 c2" "sg_random c2 = sg_random c1"
      using open_end_grown [OF inj grown_fields(9), of "sg_random cfg + k" c c1] by blast
    have "go_index (map (\<lambda>j. fresh (sg_random cfg + j)) [0..<sg_n cfg]) (int k) = Inr (fresh (sg_random cfg + k))"
      using k by (simp add: go_index_def)
    then show "\<exists>s'. go_bind (go_index (map (\<lambda>j. fresh (sg_random cfg + j)) [0..<sg_n cfg]) (int k)) (\<lambda>e. open_end e (names (int k)) c1) = Inr s' \<and> ?P (Suc k) s'"
      using c2 P grown_trans [OF conjunct1 [OF P] c2(2)] by simp
  qed
  then obtain c' where c': "go_for (\<lambda>j c. go_bind (go_index (map (\<lambda>j. fresh (sg_random cfg + j)) [0..<sg_n cfg]) j) (\<lambda>e. open_end e (names j) c))
      [0..int (sg_n cfg) - 1] c = Inr c'" "grown fresh (sg_random c') c c'" by (auto simp: c_def)
  obtain net r where "c' = c\<lparr>sg_net := net, sg_random := r\<rparr>" "nw_servers net = nw_servers (sg_net c)" "ends_below fresh (sg_random c') c'"
    using c'(2) unfolding grown_def by blast
  then have "grows fresh cfg c'" unfolding grown_def by (intro conjI exI [of _ net] exI [of _ r]) (simp_all add: c_def)
  then show ?thesis using c'(1) by blast
qed

lemma the_group_Some:
  assumes "sg_groups cfg ! g = Some gg" and "g < length (sg_groups cfg)"
  shows "the_group cfg (int g) = Inr gg"
  using assms by (simp add: the_group_def go_index_def)

text \<open>One server: it works when \<open>mendnames\<close> has an entry for it, and panics otherwise.\<close>

lemma skv_StartServer_ok:
  assumes inj: "inj fresh" and ok: "ends_ok fresh cfg" and g: "g < length (sg_groups cfg)" "sg_groups cfg ! g = Some gg"
    and sh: "gp_shaped (sg_n cfg) (sg_nctrlers cfg) gg" and i: "i < sg_n cfg"
  shows "if i < sg_nctrlers cfg
    then \<exists>cfg' gg'. skv_StartServer fresh mk kvtyp rftyp r (int g) (int i) cfg = Inr cfg' \<and> ends_ok fresh cfg' \<and>
      sg_groups cfg' = (sg_groups cfg)[g := Some gg'] \<and> gp_shaped (sg_n cfg) (sg_nctrlers cfg) gg' \<and> gp_gid gg' = gp_gid gg \<and>
      sg_n cfg' = sg_n cfg \<and> sg_nctrlers cfg' = sg_nctrlers cfg \<and> sg_ngroups cfg' = sg_ngroups cfg \<and>
      length (sg_servers cfg') = Suc (length (sg_servers cfg)) \<and>
      get_server (sg_net cfg') = (get_server (sg_net cfg))(Str (servername (gp_gid gg) (int i)) := Some (length (sg_servers cfg)))
    else skv_StartServer fresh mk kvtyp rftyp r (int g) (int i) cfg = Inl (IndexOutOfRange (int i))"
proof -
  obtain c1 where c1: "go_for (\<lambda>j c. go_bind (go_index (map (\<lambda>j. fresh (sg_random cfg + j)) [0..<sg_n cfg]) j) (\<lambda>e. open_end e (servername (gp_gid gg) j) c))
      [0..int (sg_n cfg) - 1] (cfg\<lparr>sg_random := sg_random cfg + sg_n cfg\<rparr>) = Inr c1" "grows fresh cfg c1"
    using server_ends_grow [OF inj ok] by blast
  note f1 = grown_fields [OF c1(2)]
  obtain c2 mends where c2: "ctrler_ends fresh c1 = Inr (c2, mends)" "grows fresh c1 c2" using ctrler_ends_grows [OF inj f1(9)] by blast
  note f2 = grown_fields [OF c2(2)]
  let ?ends = "map (\<lambda>j. fresh (sg_random cfg + j)) [0..<sg_n cfg]"
  let ?g1 = "gg\<lparr>gp_endnames := (gp_endnames gg)[i := Some ?ends], gp_mendnames := (gp_mendnames gg)[i := Some mends]\<rparr>"
  have len: "length (gp_servers gg) = sg_n cfg" "length (gp_saved gg) = sg_n cfg" "length (gp_endnames gg) = sg_n cfg"
      "length (gp_mendnames gg) = sg_nctrlers cfg" using sh by (simp_all add: gp_shaped_def)
  obtain ps where ps: "gp_persister ?g1 (int i) = Inr ps" using i len by (auto simp: gp_persister_def go_index_def)
  let ?ps = "case ps of Some ps \<Rightarrow> Copy ps | None \<Rightarrow> MakePersister"
  let ?g2 = "?g1\<lparr>gp_saved := (gp_saved gg)[i := Some ?ps],
    gp_servers := (gp_servers gg)[i := Some (ShardKV_StartServer (sg_n c2) (int i) ?ps (sg_maxraftstate c2) (gp_gid gg) mends mk r)]\<rparr>"
  have run: "skv_StartServer fresh mk kvtyp rftyp r (int g) (int i) cfg =
      (if i < sg_nctrlers cfg then Inr (register (servername (gp_gid gg) (int i)) ''ShardKV'' kvtyp rftyp (put_group (int g) ?g2 c2))
       else Inl (IndexOutOfRange (int i)))"
    using the_group_Some [OF g(2,1)] c1(1) c2(1) ps i len
    by (simp add: skv_StartServer_def Let_def go_assign_def go_index_def)
  have "ends_ok fresh (register (servername (gp_gid gg) (int i)) ''ShardKV'' kvtyp rftyp (put_group (int g) ?g2 c2))"
    using f2(9) by (simp add: ends_below_def register_def put_group_def AddServer_def Let_def)
  moreover have "get_server (sg_net (register (servername (gp_gid gg) (int i)) ''ShardKV'' kvtyp rftyp (put_group (int g) ?g2 c2))) =
      (get_server (sg_net cfg))(Str (servername (gp_gid gg) (int i)) := Some (length (sg_servers cfg)))"
    using f1(1,8) f2(1,8) by (auto simp: register_def put_group_def Let_def get_server_def AddServer_def fun_eq_iff)
  ultimately show ?thesis unfolding run using f1 f2 len
    by (auto simp: register_def put_group_def Let_def gp_shaped_def intro!: exI [of _ ?g2])
qed

text \<open>The first \<open>m\<close> servers of the groups, in the order they are started, are known under their names.\<close>

definition placed :: "nat \<Rightarrow> nat \<Rightarrow> ('c, 'd, 'v) skv_config \<Rightarrow> bool" where
  "placed n m cfg \<longleftrightarrow> length (sg_servers cfg) = 3 + m \<and>
     (\<forall>g i. i < n \<longrightarrow> n * g + i < m \<longrightarrow> get_server (sg_net cfg) (Str (servername (100 + int g) (int i))) = Some (3 + n * g + i))"

lemma row_unique:
  fixes n :: nat
  assumes "i < n" and "j < n" and "n * g + i = n * h + j"
  shows "g = h \<and> i = j"
proof -
  have "(n * g + i) div n = (n * h + j) div n" "(n * g + i) mod n = (n * h + j) mod n" using assms(3) by simp_all
  then show ?thesis using assms(1,2) by simp
qed

lemma placed_step:
  assumes "placed n (n * g + i) cfg" and "i < n" and "length (sg_servers cfg') = Suc (length (sg_servers cfg))"
    and "get_server (sg_net cfg') = (get_server (sg_net cfg))(Str (servername (100 + int g) (int i)) := Some (length (sg_servers cfg)))"
  shows "placed n (n * g + Suc i) cfg'"
proof -
  have "get_server (sg_net cfg') (Str (servername (100 + int h) (int j))) = Some (3 + n * h + j)"
    if j: "j < n" "n * h + j < n * g + Suc i" for h j
  proof (cases "n * h + j = n * g + i")
    case True
    then have "h = g \<and> j = i" using row_unique [OF j(1) assms(2)] by blast
    then show ?thesis using assms(1,4) by (simp add: placed_def)
  next
    case False
    then have "servername (100 + int h) (int j) \<noteq> servername (100 + int g) (int i)" by (subst servername_inj) auto
    then show ?thesis using assms(1,4) j False by (simp add: placed_def)
  qed
  then show ?thesis using assms(1,3) by (simp add: placed_def)
qed

text \<open>The groups before \<open>g\<close> are complete.\<close>

definition groups_up :: "(nat \<Rightarrow> string) \<Rightarrow> nat \<Rightarrow> nat \<Rightarrow> ('c, 'd, 'v) skv_config \<Rightarrow> bool" where
  "groups_up fresh n g cfg \<longleftrightarrow> ends_ok fresh cfg \<and> sg_n cfg = n \<and> sg_nctrlers cfg = 3 \<and> sg_ngroups cfg = 3 \<and> length (sg_groups cfg) = 3 \<and>
     placed n (n * g) cfg \<and> (\<forall>h<g. \<exists>gg. sg_groups cfg ! h = Some gg \<and> gp_gid gg = 100 + int h)"

definition group_started :: "(nat \<Rightarrow> string) \<Rightarrow> nat \<Rightarrow> nat \<Rightarrow> nat \<Rightarrow> ('c, 'd, 'v) skv_config \<Rightarrow> bool" where
  "group_started fresh n g i cfg \<longleftrightarrow> ends_ok fresh cfg \<and> sg_n cfg = n \<and> sg_nctrlers cfg = 3 \<and> sg_ngroups cfg = 3 \<and> length (sg_groups cfg) = 3 \<and>
     placed n (n * g + i) cfg \<and> (\<forall>h<g. \<exists>gg. sg_groups cfg ! h = Some gg \<and> gp_gid gg = 100 + int h) \<and>
     (\<exists>gg. sg_groups cfg ! g = Some gg \<and> gp_gid gg = 100 + int g \<and> gp_shaped n 3 gg)"

lemma group_started_step:
  assumes inj: "inj fresh" and g: "g < 3" and i: "i < n" and I: "group_started fresh n g i cfg"
  shows "if i < 3 then \<exists>cfg'. skv_StartServer fresh mk kvtyp rftyp r (int g) (int i) cfg = Inr cfg' \<and> group_started fresh n g (Suc i) cfg'
    else skv_StartServer fresh mk kvtyp rftyp r (int g) (int i) cfg = Inl (IndexOutOfRange (int i))"
proof -
  obtain gg where gg: "sg_groups cfg ! g = Some gg" "gp_gid gg = 100 + int g" "gp_shaped n 3 gg" using I by (auto simp: group_started_def)
  have c: "ends_ok fresh cfg" "sg_n cfg = n" "sg_nctrlers cfg = 3" "length (sg_groups cfg) = 3" "placed n (n * g + i) cfg"
    using I by (simp_all add: group_started_def)
  have S: "if i < sg_nctrlers cfg
    then \<exists>cfg' gg'. skv_StartServer fresh mk kvtyp rftyp r (int g) (int i) cfg = Inr cfg' \<and> ends_ok fresh cfg' \<and>
      sg_groups cfg' = (sg_groups cfg)[g := Some gg'] \<and> gp_shaped (sg_n cfg) (sg_nctrlers cfg) gg' \<and> gp_gid gg' = gp_gid gg \<and>
      sg_n cfg' = sg_n cfg \<and> sg_nctrlers cfg' = sg_nctrlers cfg \<and> sg_ngroups cfg' = sg_ngroups cfg \<and>
      length (sg_servers cfg') = Suc (length (sg_servers cfg)) \<and>
      get_server (sg_net cfg') = (get_server (sg_net cfg))(Str (servername (gp_gid gg) (int i)) := Some (length (sg_servers cfg)))
    else skv_StartServer fresh mk kvtyp rftyp r (int g) (int i) cfg = Inl (IndexOutOfRange (int i))"
    by (rule skv_StartServer_ok [OF inj c(1) _ gg(1)]) (use g i c gg(3) in simp_all)
  show ?thesis
  proof (cases "i < 3")
    case True
    then obtain cfg' gg' where s: "skv_StartServer fresh mk kvtyp rftyp r (int g) (int i) cfg = Inr cfg'" "ends_ok fresh cfg'"
      "sg_groups cfg' = (sg_groups cfg)[g := Some gg']" "gp_shaped n 3 gg'" "gp_gid gg' = gp_gid gg"
      "sg_n cfg' = sg_n cfg" "sg_nctrlers cfg' = sg_nctrlers cfg" "sg_ngroups cfg' = sg_ngroups cfg"
      "length (sg_servers cfg') = Suc (length (sg_servers cfg))"
      "get_server (sg_net cfg') = (get_server (sg_net cfg))(Str (servername (100 + int g) (int i)) := Some (length (sg_servers cfg)))"
      using S unfolding c gg(2) by auto
    have "placed n (n * g + Suc i) cfg'" by (rule placed_step [OF c(5) i s(9,10)])
    then have "group_started fresh n g (Suc i) cfg'" using I s(2-8) gg(2) g c(4) by (simp add: group_started_def)
    then show ?thesis using s(1) True by auto
  qed (use S in \<open>simp add: c(3)\<close>)
qed

lemma group_begins:
  assumes I: "groups_up fresh n g cfg" and g: "g < 3"
  shows "group_started fresh n g 0 (cfg\<lparr>sg_groups := (sg_groups cfg)[g := Some (new_group n 3 (int g))]\<rparr>)"
  using assms by (auto simp: group_started_def groups_up_def placed_def ends_below_def new_group_def gp_shaped_def)

lemma start_group_ok:
  assumes inj: "inj fresh" and g: "g < 3" and I: "groups_up fresh n g cfg"
  shows "if n \<le> 3 then \<exists>cfg'. start_group fresh mk kvtyp rftyp r (int g) cfg = Inr cfg' \<and> groups_up fresh n (Suc g) cfg'
    else start_group fresh mk kvtyp rftyp r (int g) cfg = Inl (IndexOutOfRange 3)"
proof -
  let ?c = "cfg\<lparr>sg_groups := (sg_groups cfg)[g := Some (new_group n 3 (int g))]\<rparr>"
  let ?body = "\<lambda>i. skv_StartServer fresh mk kvtyp rftyp (r i) (int g) i"
  have run: "start_group fresh mk kvtyp rftyp r (int g) cfg = go_for ?body [0..int n - 1] ?c"
    using I g by (simp add: start_group_def groups_up_def go_assign_def Let_def)
  have 0: "group_started fresh n g 0 ?c" by (rule group_begins [OF I g])
  have step: "\<exists>s'. ?body (int k) s = Inr s' \<and> group_started fresh n g (Suc k) s'"
    if "k < n" "k < 3" "group_started fresh n g k s" for k and s :: "('a, 'b, 'c) skv_config"
    using group_started_step [OF inj g that(1,3), of mk kvtyp rftyp "r (int k)"] that(2) by simp
  show ?thesis
  proof (cases "n \<le> 3")
    case True
    have "\<exists>s'. go_for ?body [0..int n - 1] ?c = Inr s' \<and> group_started fresh n g n s'"
      by (rule go_for_upto [where P = "group_started fresh n g"]) (use 0 step True in auto)
    then obtain s' where "go_for ?body [0..int n - 1] ?c = Inr s'" "group_started fresh n g n s'" by blast
    moreover from this have "groups_up fresh n (Suc g) s'" by (auto simp: group_started_def groups_up_def less_Suc_eq algebra_simps)
    ultimately show ?thesis using run True by simp
  next
    case False
    have "go_for ?body [0..int n - 1] ?c = Inl (IndexOutOfRange 3)"
    proof (rule go_for_upto_fails [where P = "group_started fresh n g" and m = 3])
      fix s :: "('a, 'b, 'c) skv_config" assume "group_started fresh n g 3 s"
      then show "?body (int 3) s = Inl (IndexOutOfRange 3)" using group_started_step [OF inj g, of 3 n s mk kvtyp rftyp "r 3"] False by simp
    qed (use 0 step False in auto)
    then show ?thesis using run False by simp
  qed
qed

section \<open>A whole test\<close>

definition ctrlers_up :: "(nat \<Rightarrow> string) \<Rightarrow> nat \<Rightarrow> ('c, 'd, 'v) skv_config \<Rightarrow> bool" where
  "ctrlers_up fresh k cfg \<longleftrightarrow> ends_ok fresh cfg \<and> sg_nctrlers cfg = 3 \<and> length (sg_ctrlerservers cfg) = 3 \<and> length (sg_servers cfg) = k"

lemma StartCtrlerserver_ok:
  assumes inj: "inj fresh" and I: "ctrlers_up fresh k cfg" and k: "k < 3"
  shows "\<exists>cfg'. StartCtrlerserver fresh sctyp rftyp r (int k) cfg = Inr cfg' \<and> ctrlers_up fresh (Suc k) cfg'"
proof -
  obtain c1 ends where c1: "ctrler_ends fresh cfg = Inr (c1, ends)" "grows fresh cfg c1"
    using ctrler_ends_grows [OF inj, of cfg] I by (auto simp: ctrlers_up_def)
  note f = grown_fields [OF c1(2)]
  show ?thesis using c1(1) f I k
    by (simp add: StartCtrlerserver_def go_assign_def Let_def register_def ctrlers_up_def ends_below_def AddServer_def)
qed

lemma skv_make_config_ok:
  assumes inj: "inj fresh"
  shows "if n \<le> 3 then \<exists>cfg :: ('c, 'd, 'v) skv_config. skv_make_config fresh mk kvtyp sctyp rftyp r n unreliable ms now = Inr cfg \<and> groups_up fresh n 3 cfg
    else (skv_make_config fresh mk kvtyp sctyp rftyp r n unreliable ms now :: ('c, 'd, 'v) skv_config go) = Inl (IndexOutOfRange 3)"
proof -
  let ?c0 = "skv_new_config ms now :: ('c, 'd, 'v) skv_config"
  have "\<exists>s'. go_for (\<lambda>i. StartCtrlerserver fresh sctyp rftyp (r i) i) [0..int 3 - 1] ?c0 = Inr s' \<and> ctrlers_up fresh 3 s'"
  proof (rule go_for_upto)
    show "ctrlers_up fresh 0 ?c0" by (simp add: ctrlers_up_def skv_new_config_def ends_below_def MakeNetwork_def)
  qed (rule StartCtrlerserver_ok [OF inj])
  then obtain c1 where c1: "go_for (\<lambda>i. StartCtrlerserver fresh sctyp rftyp (r i) i) [0..int 3 - 1] ?c0 = Inr c1" "ctrlers_up fresh 3 c1" by blast
  obtain c2 mck where c2: "ctrler_ends fresh c1 = Inr (c2, mck)" "grows fresh c1 c2" using ctrler_ends_grows [OF inj, of c1] c1(2) by (auto simp: ctrlers_up_def)
  note f = grown_fields [OF c2(2)]
  let ?c3 = "c2\<lparr>sg_mck := mck, sg_ngroups := 3, sg_groups := replicate 3 None, sg_n := n\<rparr>"
  have 0: "groups_up fresh n 0 ?c3" using f c1(2) by (simp add: groups_up_def ctrlers_up_def placed_def ends_below_def)
  have run: "skv_make_config fresh mk kvtyp sctyp rftyp r n unreliable ms now =
      go_bind (go_for (start_group fresh mk kvtyp rftyp r) [0..int 3 - 1] ?c3) (\<lambda>cfg.
      Inr (cfg\<lparr>sg_clerks := [], sg_nextClientId := int (sg_n cfg) + 1000, sg_net := Reliable (\<not> unreliable) (sg_net cfg)\<rparr>))"
    using c1(1) c2(1) by (simp add: skv_make_config_def shardclerk_def Let_def) (simp add: skv_new_config_def)
  show ?thesis
  proof (cases "n \<le> 3")
    case True
    have "\<exists>s'. go_for (start_group fresh mk kvtyp rftyp r) [0..int 3 - 1] ?c3 = Inr s' \<and> groups_up fresh n 3 s'"
    proof (rule go_for_upto [where P = "groups_up fresh n", OF 0])
      fix k and s :: "('c, 'd, 'v) skv_config" assume "k < 3" "groups_up fresh n k s"
      from start_group_ok [OF inj this, of mk kvtyp rftyp r] True
      show "\<exists>s'. start_group fresh mk kvtyp rftyp r (int k) s = Inr s' \<and> groups_up fresh n (Suc k) s'" by simp
    qed
    then obtain s' where s': "go_for (start_group fresh mk kvtyp rftyp r) [0..int 3 - 1] ?c3 = Inr s'" "groups_up fresh n 3 s'" by blast
    have "groups_up fresh n 3 (s'\<lparr>sg_clerks := [], sg_nextClientId := int (sg_n s') + 1000, sg_net := Reliable (\<not> unreliable) (sg_net s')\<rparr>)"
      using s'(2) by (simp add: groups_up_def placed_def ends_below_def Reliable_def get_server_def)
    then show ?thesis using run s'(1) True by simp
  next
    case False
    have "go_for (start_group fresh mk kvtyp rftyp r) [0..int 3 - 1] ?c3 = Inl (IndexOutOfRange 3)"
      by (rule go_for_upto_fails [where P = "groups_up fresh n" and m = 0, OF 0])
        (use start_group_ok [OF inj, of 0 n _ mk kvtyp rftyp r] False in auto)
    then show ?thesis using run False by simp
  qed
qed

text \<open>The clerk's list of end names has one entry per server of a group, but is filled with one per controller.\<close>

lemma skv_makeClient_ok:
  assumes inj: "inj fresh" and ok: "ends_ok fresh cfg" and n: "sg_nctrlers cfg = 3" "sg_n cfg = n" "n \<le> 3"
  shows "if n = 3 then \<exists>cfg' clerk. skv_makeClient fresh ck mk cfg = Inr (cfg', clerk) \<and> length (ck_sm clerk) = 3
    else skv_makeClient fresh ck mk cfg = Inl (IndexOutOfRange (int n))"
proof -
  let ?P = "\<lambda>k (c, ends :: string list, names :: string list). grows fresh cfg c \<and> length ends = k \<and> length names = n"
  let ?body = "\<lambda>j (cfg, ends, endnames). (case skv_randstring fresh cfg of (name, cfg) \<Rightarrow>
      go_bind (go_assign endnames j name) (\<lambda>endnames.
      go_bind (open_end name (ctrlername j) cfg) (\<lambda>cfg. Inr (cfg, ends @ [name], endnames))))"
  let ?s = "(cfg, [], replicate n [])"
  have run: "skv_makeClient fresh ck mk cfg = go_bind (go_for ?body [0..int 3 - 1] ?s) (\<lambda>(cfg, ends, endnames).
      Inr (cfg\<lparr>sg_clerks := gm_put ck endnames (sg_clerks cfg), sg_nextClientId := sg_nextClientId cfg + 1\<rparr>, MakeClerk ends mk))"
    using n by (simp add: skv_makeClient_def)
  have 0: "?P 0 ?s" using grows_refl [OF ok] by simp
  have step: "\<exists>s'. ?body (int k) s = Inr s' \<and> ?P (Suc k) s'" if "k < n" "?P k s" for k s
  proof -
    obtain c ends names where s: "s = (c, ends, names)" by (cases s)
    have g: "grows fresh cfg c" using that(2) by (simp add: s)
    obtain c' where "skv_make_end fresh (ctrlername (int k)) c = Inr (c', fresh (sg_random c))" "grows fresh c c'"
      using make_end_grows [OF inj grown_fields(9) [OF g]] by blast
    then show ?thesis using grown_trans [OF g] that
      by (auto simp: s skv_make_end_def skv_randstring_def go_assign_def)
  qed
  show ?thesis
  proof (cases "n = 3")
    case True
    have "\<exists>s'. go_for ?body [0..int 3 - 1] ?s = Inr s' \<and> ?P 3 s'"
    proof (rule go_for_upto [where P = ?P, OF 0])
      show "\<exists>s'. ?body (int k) s = Inr s' \<and> ?P (Suc k) s'" if "k < 3" "?P k s" for k s
        by (rule step [OF _ that(2)]) (use that(1) True in simp)
    qed
    then obtain c ends names where "go_for ?body [0..int 3 - 1] ?s = Inr (c, ends, names)" "length ends = 3" by auto
    then show ?thesis using run True by (simp add: MakeClerk_def)
  next
    case False
    have "go_for ?body [0..int 3 - 1] ?s = Inl (IndexOutOfRange (int n))"
    proof (rule go_for_upto_fails [where P = ?P and m = n, OF 0])
      show "\<exists>s'. ?body (int k) s = Inr s' \<and> ?P (Suc k) s'" if "k < n" "?P k s" for k s by (rule step [OF that])
      show "n < 3" using n(3) False by simp
      show "?body (int n) s = Inl (IndexOutOfRange (int n))" if "?P n s" for s
        using that by (auto simp: skv_randstring_def go_assign_def split: prod.splits)
    qed
    then show ?thesis using run False by simp
  qed
qed

text \<open>
  C37: The harness of the sharded store works for groups of three servers only, because \<open>mendnames\<close> has
  one entry per controller where it is indexed by servers, and the end names of a clerk have one
  entry per server where they are indexed by controllers: with more than three servers
  \<open>make_config\<close> panics, with fewer \<open>makeClient\<close> does.
\<close>

theorem shard_harness_three:
  assumes "inj fresh"
  shows "if n \<le> 3
    then \<exists>cfg :: ('c, 'd, 'v) skv_config. skv_make_config fresh mk kvtyp sctyp rftyp r n unreliable ms now = Inr cfg \<and>
      (if n = 3 then \<exists>cfg' clerk. skv_makeClient fresh ck mk cfg = Inr (cfg', clerk) \<and> length (ck_sm clerk) = 3
       else skv_makeClient fresh ck mk cfg = Inl (IndexOutOfRange (int n)))
    else (skv_make_config fresh mk kvtyp sctyp rftyp r n unreliable ms now :: ('c, 'd, 'v) skv_config go) = Inl (IndexOutOfRange 3)"
proof (cases "n \<le> 3")
  case True
  then obtain cfg :: "('c, 'd, 'v) skv_config" where cfg: "skv_make_config fresh mk kvtyp sctyp rftyp r n unreliable ms now = Inr cfg" "groups_up fresh n 3 cfg"
    using skv_make_config_ok [OF assms, where ?'c = 'c and ?'d = 'd and ?'v = 'v, of n mk kvtyp sctyp rftyp r unreliable ms now] by auto
  then show ?thesis using True skv_makeClient_ok [OF assms, of cfg n ck mk] by (auto simp: groups_up_def)
next
  case False
  then show ?thesis using skv_make_config_ok [OF assms, where ?'c = 'c and ?'d = 'd and ?'v = 'v, of n mk kvtyp sctyp rftyp r unreliable ms now] by simp
qed

text \<open>
  C36: What the controller learns when groups join is what the network knows: on the configuration
  that \<open>make_config\<close> returns, \<open>joinm\<close> sends for each group, under its id, one name per server, and the
  network has, under each of these names, that server and no other.
\<close>

theorem joined_servers_known:
  assumes "inj fresh" and "n \<le> 3" and "set gis \<subseteq> {0..<3}"
  shows "\<exists>(cfg :: ('c, 'd, 'v) skv_config) m. skv_make_config fresh mk kvtyp sctyp rftyp r n unreliable ms now = Inr cfg \<and>
    joinm call gis cfg t = Inr (Clerk_Join call (sg_mck cfg) m t) \<and>
    (\<forall>gid. gm_get m gid = (if gid - 100 \<in> set gis then Some (map (servername gid) [0..int n - 1]) else None)) \<and>
    (\<forall>g<3. \<forall>i<n. get_server (sg_net cfg) (Str (servername (100 + int g) (int i))) = Some (3 + n * g + i))"
proof -
  obtain cfg :: "('c, 'd, 'v) skv_config" where cfg: "skv_make_config fresh mk kvtyp sctyp rftyp r n unreliable ms now = Inr cfg" "groups_up fresh n 3 cfg"
    using skv_make_config_ok [OF assms(1), where ?'c = 'c and ?'d = 'd and ?'v = 'v, of n mk kvtyp sctyp rftyp r unreliable ms now] assms(2) by auto
  let ?body = "\<lambda>g m. go_bind (the_group cfg g) (\<lambda>gg. let gid = gp_gid gg; servernames = map (servername gid) (sg_all (sg_n cfg)) in
    Inr (gm_put gid servernames m))"
  have body: "?body g m = Inr (gm_put (100 + g) (map (servername (100 + g)) [0..int n - 1]) m)" if "g \<in> {0..<3}" for g m
  proof -
    have "nat g < 3" using that by auto
    then obtain gg where "sg_groups cfg ! nat g = Some gg" "gp_gid gg = 100 + int (nat g)" using cfg(2) unfolding groups_up_def by blast
    then have "the_group cfg g = Inr gg" using the_group_Some [of cfg "nat g" gg] \<open>nat g < 3\<close> that cfg(2) by (simp add: groups_up_def)
    then show ?thesis using \<open>gp_gid gg = _\<close> cfg(2) that by (simp add: groups_up_def Let_def)
  qed
  have "\<exists>m. go_for ?body gis m0 = Inr m \<and>
      (\<forall>gid. gm_get m gid = (if gid - 100 \<in> set gis then Some (map (servername gid) [0..int n - 1]) else gm_get m0 gid))" for m0
    using assms(3)
  proof (induction gis arbitrary: m0)
    case (Cons g gis)
    let ?m1 = "gm_put (100 + g) (map (servername (100 + g)) [0..int n - 1]) m0"
    obtain m where m: "go_for ?body gis ?m1 = Inr m"
        "\<forall>gid. gm_get m gid = (if gid - 100 \<in> set gis then Some (map (servername gid) [0..int n - 1]) else gm_get ?m1 gid)"
      using Cons.IH [of ?m1] Cons.prems by auto
    have "gm_get m gid = (if gid - 100 \<in> set (g # gis) then Some (map (servername gid) [0..int n - 1]) else gm_get m0 gid)" for gid
      using m(2) by (cases "gid = 100 + g") simp_all
    then show ?case using m(1) body [of g m0] Cons.prems by auto
  qed simp
  then obtain m where m: "joinm_args gis cfg = Inr m"
      "\<forall>gid. gm_get m gid = (if gid - 100 \<in> set gis then Some (map (servername gid) [0..int n - 1]) else None)"
    unfolding joinm_args_def by (metis gm_get_Nil)
  have "get_server (sg_net cfg) (Str (servername (100 + int g) (int i))) = Some (3 + n * g + i)" if "g < 3" "i < n" for g i
  proof -
    have "n * g + i < n * 3" using that by (metis add.commute add_less_cancel_right less_le_trans mult_Suc_right mult_le_mono2 Suc_leI)
    then show ?thesis using cfg(2) that by (simp add: groups_up_def placed_def)
  qed
  then show ?thesis using cfg(1) m by (intro exI [of _ cfg] exI [of _ m]) (simp add: joinm_def)
qed

section \<open>Concrete names\<close>

definition sample_random :: "nat \<Rightarrow> string" where
  "sample_random k = replicate k (CHR ''x'')"

lemma sample_random_inj: "inj sample_random"
  by (rule injI) (metis length_replicate sample_random_def)

theorem shard_harness_three_witness:
  "inj sample_random \<and>
   (skv_make_config sample_random (\<lambda>s. s) [] [] [] (\<lambda>_. 0) 4 False 0 0 :: (nat, nat, nat) skv_config go) = Inl (IndexOutOfRange 3) \<and>
   (\<exists>cfg :: (nat, nat, nat) skv_config. skv_make_config sample_random (\<lambda>s. s) [] [] [] (\<lambda>_. 0) 2 False 0 0 = Inr cfg \<and>
      skv_makeClient sample_random 0 (\<lambda>s. s) cfg = Inl (IndexOutOfRange 2))"
proof -
  note h = shard_harness_three [OF sample_random_inj, where ?'c = nat and ?'d = nat and ?'v = nat and mk = "\<lambda>s. s" and kvtyp = "[]" and sctyp = "[]"
    and rftyp = "[]" and r = "\<lambda>_. 0" and unreliable = False and ms = 0 and now = 0 and ck = 0]
  show ?thesis using h [of 4] h [of 2] sample_random_inj by simp
qed

theorem joined_servers_known_witness:
  "\<exists>(cfg :: (nat, nat, nat) skv_config) m. skv_make_config sample_random (\<lambda>s. s) [] [] [] (\<lambda>_. 0) 3 False 0 0 = Inr cfg \<and>
     joinm (\<lambda>_ _ _. None) [1, 2] cfg 0 = Inr (Clerk_Join (\<lambda>_ _ _. None) (sg_mck cfg) m 0) \<and>
     gm_get m 101 = Some (map (servername 101) [0..2]) \<and> gm_get m 100 = None \<and>
     get_server (sg_net cfg) (Str (servername 101 2)) = Some 8"
proof -
  obtain cfg :: "(nat, nat, nat) skv_config" and m where c: "skv_make_config sample_random (\<lambda>s. s) [] [] [] (\<lambda>_. 0) 3 False 0 0 = Inr cfg"
      "joinm (\<lambda>_ _ _. None) [1, 2] cfg 0 = Inr (Clerk_Join (\<lambda>_ _ _. None) (sg_mck cfg) m 0)"
      "\<forall>gid. gm_get m gid = (if gid - 100 \<in> set [1, 2] then Some (map (servername gid) [0..int 3 - 1]) else None)"
      "\<forall>g<3. \<forall>i<3. get_server (sg_net cfg) (Str (servername (100 + int g) (int i))) = Some (3 + 3 * g + i)"
    using joined_servers_known [OF sample_random_inj, of 3 "[1, 2]" "\<lambda>s. s" "[]" "[]" "[]" "\<lambda>_. 0" False 0 0 "\<lambda>_ _ _. None" 0] by auto
  have "get_server (sg_net cfg) (Str (servername (100 + int 1) (int 2))) = Some (3 + 3 * 1 + 2)" using c(4) by (metis one_less_numeral_iff numeral_less_iff semiring_norm(76,77,78) lessI numeral_2_eq_2 numeral_3_eq_3)
  then show ?thesis using c by auto
qed

end
