(* ===== verification/MR_System.thy ===== *)
theory MR_System
  imports MR_Distributed
begin

text \<open>
  The whole job: coordinator, workers and the directory they share. Workers take tasks, write
  their files, crash after any of their renames, finish and report, late, twice or never; timers
  fire at any time. The theorem: when \<open>Done\<close> says so, the output files hold the lines that the
  sequential program writes.
\<close>

section \<open>The transition system\<close>

text \<open>\<open>finished\<close> holds the tasks some worker has executed to the end; it may report them.\<close>

record mrsys =
  mj :: job
  dir :: directory
  finished :: "Task set"

definition init_mr :: "string list \<Rightarrow> int \<Rightarrow> directory \<Rightarrow> mrsys" where
  "init_mr files nReduce d = \<lparr>mj = init_job files nReduce, dir = d, finished = {}\<rparr>"

inductive mrstep :: "(KeyValue list \<Rightarrow> KeyValue list) \<Rightarrow> (string \<Rightarrow> string \<Rightarrow> KeyValue list) \<Rightarrow>
    (string \<Rightarrow> string list \<Rightarrow> string) \<Rightarrow> mrsys \<Rightarrow> mrsys \<Rightarrow> bool" for srt mapf reducef where
  get: "GetTask now (coord (mj s)) = Inr (c', t, spawned) \<Longrightarrow>
    mrstep srt mapf reducef s (s\<lparr>mj := (mj s)\<lparr>coord := c',
      timers := timers (mj s) + (case spawned of None \<Rightarrow> {#} | Some u \<Rightarrow> {#u#}),
      issued := insert t (issued (mj s))\<rparr>\<rparr>)"
| expire: "t \<in># timers (mj s) \<Longrightarrow>
    mrstep srt mapf reducef s (s\<lparr>mj := (mj s)\<lparr>coord := CheckExcept t (coord (mj s)),
      timers := timers (mj s) - {#t#}\<rparr>\<rparr>)"
| work: "t \<in> issued (mj s) \<Longrightarrow> Worker_turn srt mapf reducef t (dir s) = Inr (d', Some t', goon) \<Longrightarrow>
    mrstep srt mapf reducef s (s\<lparr>dir := d', finished := insert t' (finished s)\<rparr>)"
| crash: "t \<in> issued (mj s) \<Longrightarrow> tk_TaskType t = MapTask \<Longrightarrow> mapOutput mapf t (dir s) = Inr fs \<Longrightarrow>
    mrstep srt mapf reducef s (s\<lparr>dir := renames (tk_Index t) (filter P fs) (dir s)\<rparr>)"
| report: "t \<in> finished s \<Longrightarrow>
    mrstep srt mapf reducef s (s\<lparr>mj := (mj s)\<lparr>coord := Report t (coord (mj s))\<rparr>\<rparr>)"

inductive mr_reachable :: "(KeyValue list \<Rightarrow> KeyValue list) \<Rightarrow> (string \<Rightarrow> string \<Rightarrow> KeyValue list) \<Rightarrow>
    (string \<Rightarrow> string list \<Rightarrow> string) \<Rightarrow> string list \<Rightarrow> int \<Rightarrow> directory \<Rightarrow> mrsys \<Rightarrow> bool"
  for srt mapf reducef files nReduce d where
  init: "mr_reachable srt mapf reducef files nReduce d (init_mr files nReduce d)"
| step: "mr_reachable srt mapf reducef files nReduce d s \<Longrightarrow> mrstep srt mapf reducef s s' \<Longrightarrow>
    mr_reachable srt mapf reducef files nReduce d s'"

section \<open>The invariant\<close>

text \<open>What \<open>mapf\<close> emits for the file number \<open>i\<close>, and the part of it for reduce task \<open>r\<close>.\<close>

definition emitted :: "(string \<Rightarrow> string \<Rightarrow> KeyValue list) \<Rightarrow> string list \<Rightarrow> directory \<Rightarrow> int \<Rightarrow> KeyValue list" where
  "emitted mapf files d i = mapf (files ! nat i) (the (inputs d (files ! nat i)))"

definition emitted_for :: "(string \<Rightarrow> string \<Rightarrow> KeyValue list) \<Rightarrow> string list \<Rightarrow> int \<Rightarrow> directory \<Rightarrow> int \<Rightarrow> int \<Rightarrow>
    KeyValue list" where
  "emitted_for mapf files nReduce d i r = part nReduce r (emitted mapf files d i)"

text \<open>
  The conditions on a job: at least one file and one reduce task, the files exist, the directory
  has no intermediate files of an earlier job, and JSON keeps the strings that \<open>mapf\<close> emits.
\<close>

definition job_ok :: "(string \<Rightarrow> string \<Rightarrow> KeyValue list) \<Rightarrow> string list \<Rightarrow> int \<Rightarrow> directory \<Rightarrow> bool" where
  "job_ok mapf files nReduce d \<longleftrightarrow> files \<noteq> [] \<and> 0 < nReduce \<and> (\<forall>f\<in>set files. inputs d f \<noteq> None) \<and>
     inter d = Map.empty \<and>
     (\<forall>f\<in>set files. \<forall>kv\<in>set (mapf f (the (inputs d f))). json_kv kv = kv)"

text \<open>A map task's files are there, or may be there with the right content only.\<close>

definition map_written :: "(string \<Rightarrow> string \<Rightarrow> KeyValue list) \<Rightarrow> string list \<Rightarrow> int \<Rightarrow> directory \<Rightarrow> int \<Rightarrow> directory \<Rightarrow> bool" where
  "map_written mapf files nReduce d0 i d \<longleftrightarrow>
     (\<forall>r\<in>{0..<nReduce}. inter d (interName i r) = nonempty (emitted_for mapf files nReduce d0 i r))"

definition map_partial :: "(string \<Rightarrow> string \<Rightarrow> KeyValue list) \<Rightarrow> string list \<Rightarrow> int \<Rightarrow> directory \<Rightarrow> int \<Rightarrow> directory \<Rightarrow> bool" where
  "map_partial mapf files nReduce d0 i d \<longleftrightarrow>
     (\<forall>r\<in>{0..<nReduce}. inter d (interName i r) = None \<or>
        inter d (interName i r) = nonempty (emitted_for mapf files nReduce d0 i r))"

definition reduce_lines :: "(KeyValue list \<Rightarrow> KeyValue list) \<Rightarrow> (string \<Rightarrow> string \<Rightarrow> KeyValue list) \<Rightarrow>
    (string \<Rightarrow> string list \<Rightarrow> string) \<Rightarrow> string list \<Rightarrow> int \<Rightarrow> directory \<Rightarrow> int \<Rightarrow> string list" where
  "reduce_lines srt mapf reducef files nReduce d0 r = reduce_loop reducef
     (srt (concat (map (\<lambda>i. emitted_for mapf files nReduce d0 i r) [0..int (length files) - 1]))) 0"

definition files_inv :: "(KeyValue list \<Rightarrow> KeyValue list) \<Rightarrow> (string \<Rightarrow> string \<Rightarrow> KeyValue list) \<Rightarrow>
    (string \<Rightarrow> string list \<Rightarrow> string) \<Rightarrow> string list \<Rightarrow> int \<Rightarrow> directory \<Rightarrow> mrsys \<Rightarrow> bool" where
  "files_inv srt mapf reducef files nReduce d0 s \<longleftrightarrow>
     inputs (dir s) = inputs d0 \<and> finished s \<subseteq> issued (mj s) \<and>
     (\<forall>i\<in>{0..<int (length files)}. map_partial mapf files nReduce d0 i (dir s)) \<and>
     (\<forall>i\<in>{0..<int (length files)}.
        i \<in> keys (CompletedMap (coord (mj s))) \<or> (\<exists>t\<in>finished s. tk_TaskType t = MapTask \<and> tk_Index t = i)
        \<longrightarrow> map_written mapf files nReduce d0 i (dir s)) \<and>
     (\<forall>r\<in>{0..<nReduce}.
        r \<in> keys (CompletedReduce (coord (mj s))) \<or> (\<exists>t\<in>finished s. tk_TaskType t = ReduceTask \<and> tk_RIndex t = r)
        \<longrightarrow> outs (dir s) (outName r) = Some (reduce_lines srt mapf reducef files nReduce d0 r))"

section \<open>Executing one task\<close>

lemma mapOutput_eq:
  assumes "job_ok mapf files nReduce d0" and "map_task files nReduce t" and "inputs d = inputs d0"
  shows "\<exists>fs. mapOutput mapf t d = Inr fs \<and> gm_ok fs \<and>
    (\<forall>r. gm_get fs r = nonempty (emitted_for mapf files nReduce d0 (tk_Index t) r))"
proof -
  let ?f = "files ! nat (tk_Index t)"
  have f: "tk_Filename t = ?f" "?f \<in> set files" "tk_NReduce t = nReduce" "0 < nReduce"
    using assms(1,2) by (auto simp: map_task_def job_ok_def)
  then obtain content where c: "inputs d ?f = Some content"
    using assms(1,3) by (auto simp: job_ok_def)
  have em: "emitted mapf files d0 (tk_Index t) = mapf ?f content"
    using c assms(3) by (simp add: emitted_def)
  obtain m where m: "partition_loop nReduce (mapf ?f content) [] = Inr m" "gm_ok m"
      "\<And>r. gm_get m r = nonempty (part nReduce r (mapf ?f content))"
    using partition_loop_eq [OF f(4), of "[]" "[]" "mapf ?f content"]
    by (auto simp: nonempty_def part_def)
  have "map json_kv l = l" if "(r, l) \<in> set m" for r l
  proof -
    have "gm_get m r = Some l" using that m(2) by (simp add: gm_get_def gm_ok_def)
    then have "set l \<subseteq> set (mapf ?f content)"
      using m(3) [of r] by (auto simp: nonempty_def part_def split: if_splits)
    moreover have "\<forall>kv\<in>set (mapf ?f content). json_kv kv = kv"
      using assms(1,3) f(2) c by (auto simp: job_ok_def)
    ultimately show ?thesis by (intro map_idI) auto
  qed
  then have "map (\<lambda>(idx, kvs). (idx, map json_kv kvs)) m = m" by (intro map_idI) auto
  then show ?thesis
    using f c m by (auto simp: mapOutput_def emitted_for_def em)
qed

lemma readInter_complete:
  assumes "reduce_task files nReduce t"
    and "\<forall>i\<in>{0..<int (length files)}. map_written mapf files nReduce d0 i d"
  shows "readInter 0 t d =
    concat (map (\<lambda>i. emitted_for mapf files nReduce d0 i (tk_RIndex t)) [0..int (length files) - 1])"
proof -
  have "decodeFile d (interName i (tk_RIndex t)) = emitted_for mapf files nReduce d0 i (tk_RIndex t)"
    if "i \<in> set [0..int (length files) - 1]" for i
    using that assms by (auto simp: map_written_def decodeFile_def nonempty_def reduce_task_def)
  then have "map (\<lambda>i. decodeFile d (interName i (tk_RIndex t))) [0..int (length files) - 1] =
      map (\<lambda>i. emitted_for mapf files nReduce d0 i (tk_RIndex t)) [0..int (length files) - 1]"
    by (intro map_cong) auto
  moreover have "tk_NMap t = int (length files)" using assms(1) by (simp add: reduce_task_def)
  ultimately show ?thesis unfolding readInter_eq by (simp only:)
qed

text \<open>Renaming some of the files of a map task keeps every other file, and all of them complete it.\<close>

lemma emitted_for_neg:
  assumes "0 < nReduce" and "r < 0"
  shows "emitted_for mapf files nReduce d i r = []"
proof -
  have "0 \<le> ihash k mod nReduce" for k using assms(1) by simp
  then have "ihash k mod nReduce \<noteq> r" for k using assms(2) by (metis linorder_not_le)
  then show ?thesis by (simp add: emitted_for_def part_def)
qed

lemma gm_get_filter:
  "gm_ok fs \<Longrightarrow> gm_ok (filter P fs) \<and> (gm_get (filter P fs) r = None \<or> gm_get (filter P fs) r = gm_get fs r)"
proof (induction fs)
  case (Cons a fs)
  then show ?case
    by (cases a) (auto simp: gm_ok_def gm_get_def map_of_eq_None_iff)
qed simp

lemma rename_some:
  assumes ok: "job_ok mapf files nReduce d0" and t: "map_task files nReduce t"
    and inp: "inputs d = inputs d0" and out: "mapOutput mapf t d = Inr fs"
    and i: "i \<in> {0..<int (length files)}" and p: "map_partial mapf files nReduce d0 i d"
  shows "map_partial mapf files nReduce d0 i (renames (tk_Index t) (filter P fs) d)"
    and "map_written mapf files nReduce d0 i d \<Longrightarrow>
      map_written mapf files nReduce d0 i (renames (tk_Index t) (filter P fs) d)"
    and "tk_Index t = i \<Longrightarrow> map_written mapf files nReduce d0 i (renames (tk_Index t) fs d)"
proof -
  have fs: "gm_ok fs" "\<And>r. gm_get fs r = nonempty (emitted_for mapf files nReduce d0 (tk_Index t) r)"
    using mapOutput_eq [OF ok t inp] out by auto
  have "0 \<le> r" if "r \<in> fst ` set fs" for r
  proof (rule ccontr)
    assume "\<not> 0 \<le> r"
    then have "gm_get fs r = None"
      using fs(2) emitted_for_neg ok by (simp add: nonempty_def job_ok_def)
    then show False using that by (auto simp: gm_get_def map_of_eq_None_iff)
  qed
  then have pos0: "\<forall>r\<in>fst ` set fs. 0 \<le> r" by blast
  then have pos: "\<forall>r\<in>fst ` set (filter Q fs). 0 \<le> r" for Q by auto
  have nn: "0 \<le> tk_Index t" "0 \<le> i" using t i by (auto simp: map_task_def)
  note eq = renames_eq(1) [OF gm_get_filter [OF fs(1), THEN conjunct1] pos nn]
  have get: "gm_get (filter P fs) r = None \<or> gm_get (filter P fs) r = gm_get fs r" for r
    using gm_get_filter [OF fs(1)] by blast
  show "map_partial mapf files nReduce d0 i (renames (tk_Index t) (filter P fs) d)"
    unfolding map_partial_def
  proof
    fix r assume "r \<in> {0..<nReduce}"
    then show "inter (renames (tk_Index t) (filter P fs) d) (interName i r) = None \<or>
        inter (renames (tk_Index t) (filter P fs) d) (interName i r) =
          nonempty (emitted_for mapf files nReduce d0 i r)"
      using p get [of r] eq [of r] fs(2) [of r] by (auto simp: map_partial_def)
  qed
  show "map_written mapf files nReduce d0 i (renames (tk_Index t) (filter P fs) d)"
    if w: "map_written mapf files nReduce d0 i d"
    unfolding map_written_def
  proof
    fix r assume "r \<in> {0..<nReduce}"
    then show "inter (renames (tk_Index t) (filter P fs) d) (interName i r) =
        nonempty (emitted_for mapf files nReduce d0 i r)"
      using w get [of r] eq [of r] fs(2) [of r] by (auto simp: map_written_def)
  qed
  show "map_written mapf files nReduce d0 i (renames (tk_Index t) fs d)" if "tk_Index t = i"
    using that p renames_eq(1) [OF fs(1) pos0 nn] fs(2)
    unfolding map_written_def map_partial_def by (auto split: if_splits)
qed

lemma renames_frame:
  "inputs (renames i fs d) = inputs d" "outs (renames i fs d) = outs d"
  by (induction i fs d rule: renames.induct) simp_all

section \<open>Invariance\<close>

text \<open>The coordinator's part of a step is a step of the job.\<close>

lemma mrstep_job:
  assumes "mrstep srt mapf reducef s s'" and "finished s \<subseteq> issued (mj s)"
  shows "mj s' = mj s \<or> jstep (mj s) (mj s')"
  using assms(1)
proof (cases rule: mrstep.cases)
  case (get now c' t spawned)
  then show ?thesis using jstep.get by simp
next
  case (expire t)
  then show ?thesis using jstep.expire by simp
next
  case (report t)
  then show ?thesis using jstep.report [of t "mj s"] assms(2) by auto
qed simp_all

lemma Report_completed:
  "keys (CompletedMap (Report t c)) \<subseteq> keys (CompletedMap c) \<union> (if tk_TaskType t = MapTask then {tk_Index t} else {})"
  "keys (CompletedReduce (Report t c)) \<subseteq> keys (CompletedReduce c) \<union> (if tk_TaskType t = ReduceTask then {tk_RIndex t} else {})"
  if "tasks_inv files nReduce c"
  using that by (cases rule: Report_cases [of t c]; auto simp: Let_def tasks_inv_def map_laws)+

lemma GetTask_completed:
  assumes "GetTask now c = Inr (c', t, sp)" and "c_Status c \<noteq> NoneStage"
  shows "CompletedMap c' = CompletedMap c" and "CompletedReduce c' = CompletedReduce c"
  using assms by (cases rule: GetTask_cases; simp)+

lemma CheckExcept_completed:
  "CompletedMap (CheckExcept t c) = CompletedMap c" "CompletedReduce (CheckExcept t c) = CompletedReduce c"
  by (simp_all add: CheckExcept_def Let_def)

lemma files_inv_work:
  assumes ok: "job_ok mapf files nReduce d0" and inv: "job_inv files nReduce (mj s)"
    and fi: "files_inv srt mapf reducef files nReduce d0 s" and t: "t \<in> issued (mj s)"
    and w: "Worker_turn srt mapf reducef t (dir s) = Inr (d', Some t', goon)"
  shows "files_inv srt mapf reducef files nReduce d0 (s\<lparr>dir := d', finished := insert t' (finished s)\<rparr>)"
proof (cases "tk_TaskType t = MapTask")
  case True
  then have mt: "map_task files nReduce t" using inv t by (auto simp: job_inv_def handed_inv_def)
  from w True obtain fs where fs: "mapOutput mapf t (dir s) = Inr fs" "d' = renames (tk_Index t) fs (dir s)"
      "t' = t"
    by (auto simp: Worker_turn_def MapWorker_def)
  have inp: "inputs (dir s) = inputs d0" using fi by (simp add: files_inv_def)
  note rs = rename_some [OF ok mt inp fs(1)]
  have "map_partial mapf files nReduce d0 i d'" if "i \<in> {0..<int (length files)}" for i
    using rs(1) [OF that, of "\<lambda>_. True"] fi that by (simp add: files_inv_def fs(2))
  moreover have "map_written mapf files nReduce d0 i d'"
    if "i \<in> {0..<int (length files)}" "map_written mapf files nReduce d0 i (dir s) \<or> tk_Index t = i" for i
    using that rs(2) [OF that(1), of "\<lambda>_. True"] rs(3) [OF that(1)] fi by (auto simp: files_inv_def fs(2))
  ultimately show ?thesis
    using fi t True by (auto simp: files_inv_def fs(2,3) renames_frame)
next
  case False
  with w have rt: "tk_TaskType t = ReduceTask" "t' = t" "d' = ReduceWorker srt reducef t (dir s)"
    by (auto simp: Worker_turn_def split: if_splits)
  then have task: "reduce_task files nReduce t" and "c_Status (coord (mj s)) \<noteq> MapStage"
    using inv t by (auto simp: job_inv_def handed_inv_def)
  then have "keys (CompletedMap (coord (mj s))) = {0..<int (length files)}"
    using inv by (auto simp: job_inv_def stage_inv_def)
  then have all: "\<forall>i\<in>{0..<int (length files)}. map_written mapf files nReduce d0 i (dir s)"
    using fi by (simp add: files_inv_def)
  have d': "d' = (dir s)\<lparr>outs := (outs (dir s))(outName (tk_RIndex t) \<mapsto>
      reduce_lines srt mapf reducef files nReduce d0 (tk_RIndex t))\<rparr>"
    unfolding rt(3) ReduceWorker_def Let_def readInter_complete [OF task all] reduce_lines_def ..
  have "outs d' (outName r) = Some (reduce_lines srt mapf reducef files nReduce d0 r)"
    if "r \<in> {0..<nReduce}" "outs (dir s) (outName r) = Some (reduce_lines srt mapf reducef files nReduce d0 r) \<or>
      tk_RIndex t = r" for r
    using that task by (auto simp: d' outName_inj reduce_task_def)
  then show ?thesis
    using fi t rt(1) unfolding rt(2) by (auto simp: files_inv_def d' map_partial_def map_written_def)
qed

lemma files_inv_crash:
  assumes ok: "job_ok mapf files nReduce d0" and inv: "job_inv files nReduce (mj s)"
    and fi: "files_inv srt mapf reducef files nReduce d0 s" and t: "t \<in> issued (mj s)"
    and m: "tk_TaskType t = MapTask" "mapOutput mapf t (dir s) = Inr fs"
  shows "files_inv srt mapf reducef files nReduce d0 (s\<lparr>dir := renames (tk_Index t) (filter P fs) (dir s)\<rparr>)"
proof -
  have mt: "map_task files nReduce t" using inv t m(1) by (auto simp: job_inv_def handed_inv_def)
  have inp: "inputs (dir s) = inputs d0" using fi by (simp add: files_inv_def)
  note rs = rename_some(1,2) [OF ok mt inp m(2), of _ P]
  show ?thesis using fi rs by (simp add: files_inv_def renames_frame)
qed

lemma files_inv_report:
  assumes inv: "job_inv files nReduce (mj s)" and fi: "files_inv srt mapf reducef files nReduce d0 s"
    and t: "t \<in> finished s"
  shows "files_inv srt mapf reducef files nReduce d0 (s\<lparr>mj := (mj s)\<lparr>coord := Report t (coord (mj s))\<rparr>\<rparr>)"
proof -
  have "tasks_inv files nReduce (coord (mj s))" using inv by (simp add: job_inv_def)
  note c = Report_completed [OF this, of t]
  have "i \<in> keys (CompletedMap (coord (mj s))) \<or> (\<exists>t\<in>finished s. tk_TaskType t = MapTask \<and> tk_Index t = i)"
    if "i \<in> keys (CompletedMap (Report t (coord (mj s))))" for i
    using that c(1) t by (auto split: if_splits)
  moreover have "r \<in> keys (CompletedReduce (coord (mj s))) \<or> (\<exists>t\<in>finished s. tk_TaskType t = ReduceTask \<and> tk_RIndex t = r)"
    if "r \<in> keys (CompletedReduce (Report t (coord (mj s))))" for r
    using that c(2) t by (auto split: if_splits)
  ultimately show ?thesis using fi by (simp add: files_inv_def) meson
qed

lemma mrstep_inv:
  assumes ok: "job_ok mapf files nReduce d0" and inv: "job_inv files nReduce (mj s)"
    and fi: "files_inv srt mapf reducef files nReduce d0 s" and st: "mrstep srt mapf reducef s s'"
  shows "job_inv files nReduce (mj s') \<and> files_inv srt mapf reducef files nReduce d0 s'"
proof
  have "0 < nReduce" using ok by (simp add: job_ok_def)
  then show "job_inv files nReduce (mj s')"
    using mrstep_job [OF st] fi inv jstep_inv by (auto simp: files_inv_def)
  from st show "files_inv srt mapf reducef files nReduce d0 s'"
  proof (cases rule: mrstep.cases)
    case (get now c' t spawned)
    have "c_Status (coord (mj s)) \<noteq> NoneStage" using inv stage_not_none by (auto simp: job_inv_def)
    from GetTask_completed [OF get(2) this] show ?thesis using fi unfolding get(1)
      by (auto simp: files_inv_def)
  next
    case (expire t)
    then show ?thesis using fi by (simp add: files_inv_def CheckExcept_completed)
  next
    case (work t d' t' goon)
    then show ?thesis using files_inv_work [OF ok inv fi] by simp
  next
    case (crash t fs P)
    then show ?thesis using files_inv_crash [OF ok inv fi] by simp
  next
    case (report t)
    then show ?thesis using files_inv_report [OF inv fi] by simp
  qed
qed

lemma mr_reachable_inv:
  assumes "mr_reachable srt mapf reducef files nReduce d0 s" and "job_ok mapf files nReduce d0"
  shows "job_inv files nReduce (mj s) \<and> files_inv srt mapf reducef files nReduce d0 s"
  using assms(1)
proof induction
  case init
  have "job_inv files nReduce (init_job files nReduce)"
    using assms(2) init_job_inv by (simp add: job_ok_def)
  moreover have "files_inv srt mapf reducef files nReduce d0 (init_mr files nReduce d0)"
    using assms(2) by (simp add: files_inv_def init_mr_def init_job_def MakeCoordinator_eq map_partial_def job_ok_def)
  ultimately show ?case by (simp add: init_mr_def)
next
  case (step s s')
  then show ?case using mrstep_inv [OF assms(2)] by blast
qed

section \<open>The result\<close>

lemma seq_maps_eq:
  assumes "\<forall>f\<in>set files. inputs d f \<noteq> None"
  shows "seq_maps mapf files d acc = Inr (acc @ concat (map (\<lambda>f. mapf f (the (inputs d f))) files))"
  using assms by (induction files arbitrary: acc) auto

lemma concat_emitted:
  "concat (map (emitted mapf files d) [0..int (length files) - 1]) =
     concat (map (\<lambda>f. mapf f (the (inputs d f))) files)"
proof -
  have "map (emitted mapf files d) (map int [0..<length files]) =
      map (\<lambda>f. mapf f (the (inputs d f))) (map ((!) files) [0..<length files])"
    by (simp add: emitted_def comp_def)
  then show ?thesis by (simp only: map_nth map_int_upt)
qed

lemma mset_concat_lines:
  "mset (concat (map f xs)) = (\<Sum>x\<leftarrow>xs. mset (f x))"
  by (induction xs) auto

lemma mr_result:
  assumes "key_sorter srt" and "key_sorter srt'" and "order_insensitive reducef"
    and "job_ok mapf files nReduce d"
    and "mr_reachable srt mapf reducef files nReduce d s" and "Done (coord (mj s))"
  shows "\<exists>d'. mrsequential srt' mapf reducef files d = Inr d' \<and>
    (\<forall>r\<in>{0..<nReduce}. outs (dir s) (outName r) \<noteq> None) \<and>
    mset (concat (map (\<lambda>r. the (outs (dir s) (outName r))) [0..nReduce - 1])) =
      mset (the (outs d' ''mr-out-0''))"
proof -
  have inv: "job_inv files nReduce (mj s)" and fi: "files_inv srt mapf reducef files nReduce d s"
    using mr_reachable_inv [OF assms(5,4)] by auto
  have n: "0 < nReduce" using assms(4) by (simp add: job_ok_def)
  let ?all = "concat (map (\<lambda>f. mapf f (the (inputs d f))) files)"
  have "keys (CompletedReduce (coord (mj s))) = {0..<nReduce}"
    using inv done_idle [OF inv less_imp_le [OF n]] assms(6) by (auto simp: job_inv_def stage_inv_def)
  then have out: "outs (dir s) (outName r) = Some (reduce_lines srt mapf reducef files nReduce d r)"
    if "r \<in> {0..<nReduce}" for r using fi that by (simp add: files_inv_def)
  have part: "concat (map (\<lambda>i. emitted_for mapf files nReduce d i r) [0..int (length files) - 1]) =
      filter (\<lambda>kv. ihash (Key kv) mod nReduce = r) ?all" for r
    unfolding concat_emitted [symmetric] filter_concat emitted_for_def part_def by (simp add: comp_def)
  have "mset (concat (map (\<lambda>r. the (outs (dir s) (outName r))) [0..nReduce - 1])) =
      (\<Sum>r\<leftarrow>[0..nReduce - 1]. mset (reduce_lines srt mapf reducef files nReduce d r))"
    unfolding mset_concat_lines using out by (intro arg_cong [where f = sum_list] map_cong) auto
  also have "\<dots> = (\<Sum>r\<leftarrow>[0..nReduce - 1]. lines_for reducef (filter (\<lambda>kv. ihash (Key kv) mod nReduce = r) ?all))"
    unfolding reduce_lines_def part key_sorter.lines_sorted [OF assms(1,3)] ..
  also have "\<dots> = lines_for reducef ?all"
    using n by (intro lines_for_part [OF assms(3)]) simp
  also have "\<dots> = mset (reduce_loop reducef (srt' ?all) 0)"
    by (rule key_sorter.lines_sorted [OF assms(2,3), symmetric])
  finally show ?thesis
    using out assms(4) by (auto simp: mrsequential_def seq_maps_eq job_ok_def)
qed

text \<open>
  C21: The distributed job computes what the sequential program computes. For every sorting
  algorithm and every \<open>reducef\<close> that does not depend on the order of its values: whatever the
  interleaving, the crashes and the repeated executions, once the coordinator is done each
  output file \<open>mr-out-r\<close> exists, and the lines of all of them together are, as a multiset, the
  lines of the file \<open>mr-out-0\<close> that \<open>mrsequential\<close> writes.
\<close>

theorem mapreduce_correct:
  assumes "key_sorter srt" and "key_sorter srt'" and "order_insensitive reducef"
    and "job_ok mapf files nReduce d"
    and "mr_reachable srt mapf reducef files nReduce d s" and "Done (coord (mj s))"
  shows "\<exists>d'. mrsequential srt' mapf reducef files d = Inr d' \<and>
    (\<forall>r\<in>{0..<nReduce}. outs (dir s) (outName r) \<noteq> None) \<and>
    mset (concat (map (\<lambda>r. the (outs (dir s) (outName r))) [0..nReduce - 1])) =
      mset (the (outs d' ''mr-out-0''))"
  by (rule mr_result [OF assms])

section \<open>The job can be finished\<close>

text \<open>Every step of the coordinator's job can be made by the whole system, a report after doing the
  work.\<close>

lemma job_step_lifts:
  assumes ok: "job_ok mapf files nReduce d" and r: "mr_reachable srt mapf reducef files nReduce d s"
    and "jstep (mj s) j"
  shows "\<exists>s'. (mrstep srt mapf reducef)\<^sup>*\<^sup>* s s' \<and> mj s' = j"
  using assms(3)
proof (cases rule: jstep.cases)
  case (get now c' t spawned)
  then show ?thesis using mrstep.get [OF get(2)] by (metis mrsys.select_convs(1) mrsys.surjective mrsys.update_convs(1) r_into_rtranclp)
next
  case (expire t)
  then show ?thesis using mrstep.expire [OF expire(2)] by (metis mrsys.select_convs(1) mrsys.surjective mrsys.update_convs(1) r_into_rtranclp)
next
  case (report t)
  show ?thesis
  proof (cases "tk_TaskType t = MapTask \<or> tk_TaskType t = ReduceTask")
    case True
    have inv: "job_inv files nReduce (mj s)" "inputs (dir s) = inputs d"
      using mr_reachable_inv [OF r ok] by (auto simp: files_inv_def)
    have "tk_TaskType t = MapTask \<Longrightarrow> map_task files nReduce t"
      using inv(1) report(2) by (auto simp: job_inv_def handed_inv_def)
    then have "tk_TaskType t = MapTask \<Longrightarrow> \<exists>fs. mapOutput mapf t (dir s) = Inr fs"
      using mapOutput_eq [OF ok _ inv(2)] by blast
    then obtain d' where "Worker_turn srt mapf reducef t (dir s) = Inr (d', Some t, True)"
      using True by (auto simp: Worker_turn_def MapWorker_def)
    note w = mrstep.work [OF report(2) this]
    let ?s1 = "s\<lparr>dir := d', finished := insert t (finished s)\<rparr>"
    let ?s2 = "?s1\<lparr>mj := (mj ?s1)\<lparr>coord := Report t (coord (mj ?s1))\<rparr>\<rparr>"
    have "mrstep srt mapf reducef ?s1 ?s2" by (rule mrstep.report) simp
    with w have "(mrstep srt mapf reducef)\<^sup>*\<^sup>* s ?s2"
      by (meson converse_rtranclp_into_rtranclp r_into_rtranclp)
    moreover have "mj ?s2 = j" by (simp add: report(1))
    ultimately show ?thesis by blast
  next
    case False
    then have "Report t (coord (mj s)) = coord (mj s)" by (simp add: Report_def)
    then show ?thesis using report(1) by auto
  qed
qed

lemma mrsteps_reachable:
  "(mrstep srt mapf reducef)\<^sup>*\<^sup>* s s' \<Longrightarrow> mr_reachable srt mapf reducef files nReduce d s \<Longrightarrow>
   mr_reachable srt mapf reducef files nReduce d s'"
  by (induction rule: rtranclp_induct) (auto intro: mr_reachable.step)

lemma job_steps_lift:
  assumes "jstep\<^sup>*\<^sup>* j j'" and ok: "job_ok mapf files nReduce d"
    and "mr_reachable srt mapf reducef files nReduce d s" and "mj s = j"
  shows "\<exists>s'. (mrstep srt mapf reducef)\<^sup>*\<^sup>* s s' \<and> mj s' = j'"
  using assms(1)
proof induction
  case base
  then show ?case using assms(4) by blast
next
  case (step j1 j2)
  then obtain s1 where s1: "(mrstep srt mapf reducef)\<^sup>*\<^sup>* s s1" "mj s1 = j1" by blast
  from job_step_lifts [OF ok mrsteps_reachable [OF s1(1) assms(3)], of j2] step(2) s1
  show ?case by (metis rtranclp_trans)
qed

lemma mr_finish:
  assumes "job_ok mapf files nReduce d" and "mr_reachable srt mapf reducef files nReduce d s"
  shows "\<exists>s'. (mrstep srt mapf reducef)\<^sup>*\<^sup>* s s' \<and> Done (coord (mj s'))"
proof -
  have "job_inv files nReduce (mj s)" "0 < nReduce"
    using mr_reachable_inv [OF assms(2,1)] assms(1) by (auto simp: job_ok_def)
  from inv_can_finish [OF this] obtain j where "jstep\<^sup>*\<^sup>* (mj s) j" "Done (coord j)" by blast
  with job_steps_lift [OF this(1) assms refl] show ?thesis by blast
qed

text \<open>
  C22: From every reachable state, whatever crashed and whatever was lost, the whole system can
  reach a state in which the coordinator is done.
\<close>

theorem mapreduce_can_finish:
  assumes "job_ok mapf files nReduce d" and "mr_reachable srt mapf reducef files nReduce d s"
  shows "\<exists>s'. (mrstep srt mapf reducef)\<^sup>*\<^sup>* s s' \<and> Done (coord (mj s')) \<and>
    mr_reachable srt mapf reducef files nReduce d s'"
  using mr_finish [OF assms] mrsteps_reachable assms(2) by blast

text \<open>A small job: two files of one word each, counted.\<close>

definition tiny_map :: "string \<Rightarrow> string \<Rightarrow> KeyValue list" where
  "tiny_map f content = [\<lparr>Key = content, Value = ''1''\<rparr>]"

definition tiny_reduce :: "string \<Rightarrow> string list \<Rightarrow> string" where
  "tiny_reduce k vs = Itoa (int (length vs))"

definition tiny_dir :: directory where
  "tiny_dir = \<lparr>inputs = [''f'' \<mapsto> ''x'', ''g'' \<mapsto> ''x''], inter = Map.empty, outs = Map.empty\<rparr>"

lemma tiny_ok: "job_ok tiny_map [''f'', ''g''] 2 tiny_dir" "order_insensitive tiny_reduce"
proof -
  have "json_string ''x'' = ''x''" "json_string ''1'' = ''1''" 
    by (rule json_string_ascii, simp add: of_char_def)+
  then show "job_ok tiny_map [''f'', ''g''] 2 tiny_dir"
    by (simp add: job_ok_def tiny_dir_def tiny_map_def json_kv_def)
  have "length vs = length ws" if "mset vs = mset ws" for vs ws :: "string list"
    using that by (metis size_mset)
  then show "order_insensitive tiny_reduce"
    unfolding order_insensitive_def tiny_reduce_def by metis
qed

lemma mapreduce_can_finish_witness:
  "\<exists>s. mr_reachable (sort_key Key) tiny_map tiny_reduce [''f'', ''g''] 2 tiny_dir s \<and> Done (coord (mj s))"
  using mapreduce_can_finish [OF tiny_ok(1) mr_reachable.init] by blast

lemma mapreduce_correct_witness:
  "\<exists>s d'. mr_reachable (sort_key Key) tiny_map tiny_reduce [''f'', ''g''] 2 tiny_dir s \<and>
     Done (coord (mj s)) \<and> mrsequential (sort_key Key) tiny_map tiny_reduce [''f'', ''g''] tiny_dir = Inr d' \<and>
     mset (concat (map (\<lambda>r. the (outs (dir s) (outName r))) [0..1])) = mset (the (outs d' ''mr-out-0''))"
proof -
  obtain s where s: "mr_reachable (sort_key Key) tiny_map tiny_reduce [''f'', ''g''] 2 tiny_dir s"
      "Done (coord (mj s))"
    using mr_finish [OF tiny_ok(1) mr_reachable.init] mrsteps_reachable mr_reachable.init by blast
  from mapreduce_correct [OF sk.key_sorter_axioms sk.key_sorter_axioms tiny_ok(2,1) s] s
  show ?thesis by auto
qed

end
