(* ===== verification/MR_Apps.thy ===== *)
theory MR_Apps
  imports MR_System
begin

text \<open>
  The MapReduce applications of \<open>mrapps/\<close> that are functions of their input: word count
  (\<open>wc.go\<close>), the text indexer (\<open>indexer.go\<close>), the two crash-test applications without their
  crashes (\<open>crash.go\<close>, \<open>nocrash.go\<close>; a crash is a step of the job) and \<open>early_exit.go\<close>.
  Whether a code point is a letter is the table of the \<open>unicode\<close> package, an argument
  \<open>isLetter\<close> on the UTF-8 sequence of the code point.
\<close>

section \<open>Splitting text into words\<close>

text \<open>A string as the sequence of runes Go sees: the UTF-8 sequences, \<open>None\<close> for a byte that is not
  part of one.\<close>

function runes :: "string \<Rightarrow> string option list" where
  "runes [] = []"
| "runes (c # cs) =
     (if utf8_len (c # cs) = 0 then None # runes cs
      else Some (take (utf8_len (c # cs)) (c # cs)) # runes (drop (utf8_len (c # cs)) (c # cs)))"
  by pat_completeness auto
termination
  by (relation "measure length") auto

text \<open>\<open>strings.FieldsFunc\<close> with \<open>!unicode.IsLetter(r)\<close>: the maximal runs of letters; \<open>w\<close> is the run
  read so far.\<close>

fun fields :: "(string \<Rightarrow> bool) \<Rightarrow> string \<Rightarrow> string option list \<Rightarrow> string list" where
  "fields isLetter w [] = (if w = [] then [] else [w])"
| "fields isLetter w (None # rs) = (if w = [] then [] else [w]) @ fields isLetter [] rs"
| "fields isLetter w (Some r # rs) =
     (if isLetter r then fields isLetter (w @ r) rs
      else (if w = [] then [] else [w]) @ fields isLetter [] rs)"

definition FieldsFunc :: "(string \<Rightarrow> bool) \<Rightarrow> string \<Rightarrow> string list" where
  "FieldsFunc isLetter s = fields isLetter [] (runes s)"

section \<open>The applications\<close>

definition wc_Map :: "(string \<Rightarrow> bool) \<Rightarrow> string \<Rightarrow> string \<Rightarrow> KeyValue list" where
  "wc_Map isLetter filename contents =
     (let words = FieldsFunc isLetter contents
      in map (\<lambda>w. \<lparr>Key = w, Value = ''1''\<rparr>) words)"

definition wc_Reduce :: "string \<Rightarrow> string list \<Rightarrow> string" where
  "wc_Reduce key values = Itoa (int (length values))"

text \<open>\<open>strings.Join\<close>.\<close>

fun Join :: "string \<Rightarrow> string list \<Rightarrow> string" where
  "Join sep [] = []"
| "Join sep [x] = x"
| "Join sep (x # y # xs) = x @ sep @ Join sep (y # xs)"

text \<open>The indexer: \<open>m\<close> is the set of words as a Go map; \<open>rangeOrder\<close> is the order in which Go walks
  through it.\<close>

definition indexer_Map :: "(string \<Rightarrow> bool) \<Rightarrow> (string list \<Rightarrow> string list) \<Rightarrow> string \<Rightarrow> string \<Rightarrow> KeyValue list" where
  "indexer_Map isLetter rangeOrder document v =
     (let words = FieldsFunc isLetter v;
          m = foldl (\<lambda>m w. gm_put w True m) [] words
      in map (\<lambda>w. \<lparr>Key = w, Value = document\<rparr>) (rangeOrder (map fst m)))"

definition indexer_Reduce :: "string \<Rightarrow> string list \<Rightarrow> string" where
  "indexer_Reduce key values =
     (let values = sort values
      in Itoa (int (length values)) @ '' '' @ Join '','' values)"

definition crash_Map :: "string \<Rightarrow> string \<Rightarrow> KeyValue list" where
  "crash_Map filename contents =
     [\<lparr>Key = ''a'', Value = filename\<rparr>, \<lparr>Key = ''b'', Value = Itoa (int (length filename))\<rparr>,
      \<lparr>Key = ''c'', Value = Itoa (int (length contents))\<rparr>, \<lparr>Key = ''d'', Value = ''xyzzy''\<rparr>]"

definition crash_Reduce :: "string \<Rightarrow> string list \<Rightarrow> string" where
  "crash_Reduce key values = (let vv = sort values in Join '' '' vv)"

definition early_exit_Map :: "string \<Rightarrow> string \<Rightarrow> KeyValue list" where
  "early_exit_Map filename contents = [\<lparr>Key = filename, Value = ''1''\<rparr>]"

definition early_exit_Reduce :: "string \<Rightarrow> string list \<Rightarrow> string" where
  "early_exit_Reduce key values = Itoa (int (length values))"

section \<open>The reduce functions\<close>

text \<open>
  None of the applications depends on the order in which the values of a key arrive, which
  an unstable sort leaves open: word count and early exit count them, the others sort them.
\<close>

theorem apps_order_insensitive:
  "order_insensitive wc_Reduce \<and> order_insensitive indexer_Reduce \<and>
   order_insensitive crash_Reduce \<and> order_insensitive early_exit_Reduce"
proof (intro conjI)
  have len: "length vs = length ws" and srt: "sort vs = sort ws" if "mset vs = mset ws" for vs ws :: "string list"
  proof -
    show "length vs = length ws" using that by (metis size_mset)
    show "sort vs = sort ws" by (rule properties_for_sort) (simp_all add: that)
  qed
  show "order_insensitive wc_Reduce" "order_insensitive early_exit_Reduce"
    unfolding order_insensitive_def wc_Reduce_def early_exit_Reduce_def using len by metis+
  show "order_insensitive crash_Reduce" unfolding order_insensitive_def crash_Reduce_def Let_def using srt by metis
  show "order_insensitive indexer_Reduce"
    unfolding order_insensitive_def indexer_Reduce_def Let_def using srt by metis
qed

section \<open>Word count\<close>

text \<open>Words are valid UTF-8, so JSON keeps them.\<close>

lemma list_upto_four:
  assumes "length r \<le> 4" and "r \<noteq> []"
  obtains a where "r = [a]" | a b where "r = [a, b]" | a b c where "r = [a, b, c]"
    | a b c d where "r = [a, b, c, d]"
proof -
  from assms(2) have "0 < length r" by simp
  with assms(1) have "length r = 1 \<or> length r = 2 \<or> length r = 3 \<or> length r = 4" by arith
  then show thesis using that by (auto simp: length_Suc_conv numeral_eq_Suc)
qed

lemma utf8_len_append:
  assumes "utf8_len r = length r" and "r \<noteq> []"
  shows "utf8_len (r @ s) = length r"
proof -
  have "length r \<le> 4" unfolding assms(1) [symmetric] by (simp add: utf8_len_def Let_def split: list.splits)
  from list_upto_four [OF this assms(2)] show ?thesis
    by (rule; use assms(1) in \<open>auto simp: utf8_len_def Let_def cont_def split: if_splits\<close>)
qed

lemma utf8_len_take:
  assumes "utf8_len s \<noteq> 0"
  shows "utf8_len (take (utf8_len s) s) = utf8_len s" and "utf8_len s \<le> length s"
proof -
  obtain a r where s: "s = a # r" using assms by (cases s) (auto simp: utf8_len_def)
  show "utf8_len (take (utf8_len s) s) = utf8_len s" "utf8_len s \<le> length s"
    using assms unfolding s
    by (cases r; cases "tl r"; cases "tl (tl r)"; auto simp: utf8_len_def Let_def cont_def split: if_splits)+
qed

text \<open>A string made of valid sequences.\<close>

definition wellformed :: "string \<Rightarrow> bool" where
  "wellformed s \<longleftrightarrow> (\<exists>rs. s = concat rs \<and> (\<forall>r\<in>set rs. utf8_len r = length r \<and> r \<noteq> []))"

lemma json_string_wellformed: "wellformed s \<Longrightarrow> json_string s = s"
proof -
  have "json_string (concat rs) = concat rs" if "\<forall>r\<in>set rs. utf8_len r = length r \<and> r \<noteq> []" for rs
    using that
  proof (induction rs)
    case (Cons r rs)
    then obtain c cs where r: "r = c # cs" by (cases r) auto
    have "utf8_len (c # cs @ concat rs) = length r"
      using utf8_len_append [of r "concat rs"] Cons.prems by (simp add: r)
    then show ?case using Cons by (simp add: r)
  qed simp
  then show "wellformed s \<Longrightarrow> json_string s = s" by (auto simp: wellformed_def)
qed

lemma runes_wellformed: "Some r \<in> set (runes s) \<Longrightarrow> utf8_len r = length r \<and> r \<noteq> []"
proof (induction s rule: runes.induct)
  case (2 c cs)
  then show ?case using utf8_len_take [of "c # cs"] by (auto split: if_splits)
qed simp

lemma wellformed_append: "wellformed w \<Longrightarrow> utf8_len r = length r \<Longrightarrow> r \<noteq> [] \<Longrightarrow> wellformed (w @ r)"
  unfolding wellformed_def
proof -
  assume "\<exists>rs. w = concat rs \<and> (\<forall>r\<in>set rs. utf8_len r = length r \<and> r \<noteq> [])"
    and r: "utf8_len r = length r" "r \<noteq> []"
  then obtain rs where "w = concat rs" "\<forall>r\<in>set rs. utf8_len r = length r \<and> r \<noteq> []" by blast
  with r show "\<exists>rs. w @ r = concat rs \<and> (\<forall>r\<in>set rs. utf8_len r = length r \<and> r \<noteq> [])"
    by (intro exI [of _ "rs @ [r]"]) auto
qed

lemma wellformed_Nil: "wellformed []"
  unfolding wellformed_def by (rule exI [of _ "[]"]) simp

lemma fields_wellformed:
  assumes "\<forall>r. Some r \<in> set rs \<longrightarrow> utf8_len r = length r \<and> r \<noteq> []" and "wellformed w"
  shows "\<forall>x\<in>set (fields isLetter w rs). wellformed x"
  using assms
  by (induction isLetter w rs rule: fields.induct) (auto simp: wellformed_append wellformed_Nil)

lemma wc_Map_json: "kv \<in> set (wc_Map isLetter f c) \<Longrightarrow> json_kv kv = kv"
proof -
  assume "kv \<in> set (wc_Map isLetter f c)"
  then have "wellformed (Key kv)" "Value kv = ''1''"
    using fields_wellformed [of "runes c" "[]" isLetter] runes_wellformed wellformed_Nil
    by (auto simp: wc_Map_def FieldsFunc_def Let_def)
  moreover have "json_string ''1'' = ''1''" by (rule json_string_ascii) (simp add: of_char_def)
  ultimately show ?thesis by (simp add: json_kv_def json_string_wellformed)
qed

text \<open>
  Word count on the cluster counts what word count on one machine counts: for every set of
  letters, every existing input files, in any encoding, and any number of reduce tasks, once the
  coordinator is done the output files together hold the lines of the sequential run.
\<close>

theorem wordcount_correct:
  assumes "key_sorter srt" and "key_sorter srt'" and "files \<noteq> []" and "0 < nReduce"
    and "\<forall>f\<in>set files. inputs d f \<noteq> None" and "inter d = Map.empty"
    and "mr_reachable srt (wc_Map isLetter) wc_Reduce files nReduce d s" and "Done (coord (mj s))"
  shows "\<exists>d'. mrsequential srt' (wc_Map isLetter) wc_Reduce files d = Inr d' \<and>
    mset (concat (map (\<lambda>r. the (outs (dir s) (outName r))) [0..nReduce - 1])) =
      mset (the (outs d' ''mr-out-0''))"
proof -
  have "job_ok (wc_Map isLetter) files nReduce d"
    using assms(3-6) wc_Map_json by (auto simp: job_ok_def)
  moreover have "order_insensitive wc_Reduce"
    unfolding order_insensitive_def wc_Reduce_def by (metis size_mset)
  ultimately show ?thesis using mr_result [OF assms(1,2) _ _ assms(7,8)] by blast
qed

definition is_az :: "string \<Rightarrow> bool" where
  "is_az r \<longleftrightarrow> (case r of [c] \<Rightarrow> 97 \<le> (of_char c :: nat) \<and> (of_char c :: nat) \<le> 122 | _ \<Rightarrow> False)"

lemma wordcount_correct_witness:
  "\<exists>s d'. mr_reachable (sort_key Key) (wc_Map is_az) wc_Reduce [''f'', ''g''] 2 tiny_dir s \<and>
     Done (coord (mj s)) \<and> mrsequential (sort_key Key) (wc_Map is_az) wc_Reduce [''f'', ''g''] tiny_dir = Inr d' \<and>
     mset (concat (map (\<lambda>r. the (outs (dir s) (outName r))) [0..1])) = mset (the (outs d' ''mr-out-0''))"
proof -
  have ok: "job_ok (wc_Map is_az) [''f'', ''g''] 2 tiny_dir"
    using wc_Map_json by (simp add: job_ok_def tiny_dir_def)
  obtain s where s: "mr_reachable (sort_key Key) (wc_Map is_az) wc_Reduce [''f'', ''g''] 2 tiny_dir s"
      "Done (coord (mj s))"
    using mr_finish [OF ok mr_reachable.init] mrsteps_reachable mr_reachable.init by blast
  from wordcount_correct [OF sk.key_sorter_axioms sk.key_sorter_axioms _ _ _ _ s] s
  show ?thesis by (auto simp: tiny_dir_def)
qed

end
