(* ===== verification/Porcupine_Bitset.thy ===== *)
theory Porcupine_Bitset
  imports Go_Prelude "HOL-Library.Word"
begin

text \<open>
  The bit sets of the linearizability checker, \<open>porcupine/bitset.go\<close>: sets of small numbers in
  an array of 64 bit words. Positions are \<open>uint\<close>; their conversion to the index of a word cannot
  overflow, so they are natural numbers here, while the words keep their width. The contract of
  the bit sets, that they represent sets of positions, is the locale \<open>nat_set\<close>.
\<close>

unbundle bit_operations_syntax

section \<open>The operations\<close>

type_synonym bitset = "64 word list"

definition newBitset :: "nat \<Rightarrow> bitset" where
  "newBitset bits =
     (let extra = (if bits mod 64 \<noteq> 0 then 1 else 0);
          chunks = bits div 64 + extra
      in replicate chunks 0)"

definition bitset_clone :: "bitset \<Rightarrow> bitset" where
  "bitset_clone b = go_copy (replicate (length b) 0) b"

definition bitsetIndex :: "nat \<Rightarrow> nat \<times> nat" where
  "bitsetIndex pos = (pos div 64, pos mod 64)"

definition bitset_set :: "nat \<Rightarrow> bitset \<Rightarrow> bitset go" where
  "bitset_set pos b =
     (case bitsetIndex pos of (major, minor) \<Rightarrow>
        go_bind (go_index b (int major)) (\<lambda>w. go_assign b (int major) (w OR push_bit minor 1)))"

definition bitset_clear :: "nat \<Rightarrow> bitset \<Rightarrow> bitset go" where
  "bitset_clear pos b =
     (case bitsetIndex pos of (major, minor) \<Rightarrow>
        go_bind (go_index b (int major)) (\<lambda>w. go_assign b (int major) (w AND NOT (push_bit minor 1))))"

definition bitset_get :: "nat \<Rightarrow> bitset \<Rightarrow> bool go" where
  "bitset_get pos b =
     (case bitsetIndex pos of (major, minor) \<Rightarrow>
        go_bind (go_index b (int major)) (\<lambda>w. Inr (w AND push_bit minor 1 \<noteq> 0)))"

text \<open>\<open>bits.OnesCount64\<close>.\<close>

definition OnesCount64 :: "64 word \<Rightarrow> nat" where
  "OnesCount64 v = length (filter (bit v) [0..<64])"

definition popcnt :: "bitset \<Rightarrow> nat" where
  "popcnt b = foldl (\<lambda>total v. total + OnesCount64 v) 0 b"

definition bitset_hash :: "bitset \<Rightarrow> 64 word" where
  "bitset_hash b = foldl (\<lambda>hash v. hash XOR v) (of_nat (popcnt b)) b"

definition bitset_equals :: "bitset \<Rightarrow> bitset \<Rightarrow> bool" where
  "bitset_equals b b2 = (length b = length b2 \<and> list_all (\<lambda>i. b ! i = b2 ! i) [0..<length b])"

section \<open>The sets they represent\<close>

definition bits_of :: "bitset \<Rightarrow> nat set" where
  "bits_of b = {pos. pos div 64 < length b \<and> bit (b ! (pos div 64)) (pos mod 64)}"

definition capacity :: "bitset \<Rightarrow> nat" where
  "capacity b = 64 * length b"

text \<open>The contract of a set of numbers below a bound, with a hash that equal sets share.\<close>

locale nat_set =
  fixes empty :: "nat \<Rightarrow> 's"
    and insert :: "nat \<Rightarrow> 's \<Rightarrow> 's go"
    and remove :: "nat \<Rightarrow> 's \<Rightarrow> 's go"
    and member :: "nat \<Rightarrow> 's \<Rightarrow> bool go"
    and same :: "'s \<Rightarrow> 's \<Rightarrow> bool"
    and elems :: "'s \<Rightarrow> nat set"
    and cap :: "'s \<Rightarrow> nat"
  assumes elems_empty: "elems (empty n) = {}" and cap_empty: "n \<le> cap (empty n)"
    and insert_ok: "i < cap s \<Longrightarrow> \<exists>s'. insert i s = Inr s' \<and> elems s' = Set.insert i (elems s) \<and> cap s' = cap s"
    and remove_ok: "i < cap s \<Longrightarrow> \<exists>s'. remove i s = Inr s' \<and> elems s' = elems s - {i} \<and> cap s' = cap s"
    and member_ok: "i < cap s \<Longrightarrow> member i s = Inr (i \<in> elems s)"
    and same_iff: "cap s = cap t \<Longrightarrow> same s t \<longleftrightarrow> elems s = elems t"
begin

lemma insert_remove:
  assumes "i < cap s" and "i \<notin> elems s"
  obtains s' s'' where "insert i s = Inr s'" and "remove i s' = Inr s''" and "same s'' s"
proof -
  from insert_ok [OF assms(1)] obtain s' where
    1: "insert i s = Inr s'" "elems s' = Set.insert i (elems s)" "cap s' = cap s" by blast
  with remove_ok [of i s'] assms(1) obtain s'' where
    2: "remove i s' = Inr s''" "elems s'' = elems s' - {i}" "cap s'' = cap s'" by auto
  show thesis by (rule that [OF 1(1) 2(1)]) (use 1 2 assms(2) in \<open>simp add: same_iff\<close>)
qed

end

lemma div_mod_64: "pos < 64 * n \<Longrightarrow> pos div 64 < n" for pos n :: nat
  by (simp add: less_mult_imp_div_less mult.commute)

lemma bits_of_update:
  assumes "pos div 64 < length b"
  shows "bits_of (b[pos div 64 := b ! (pos div 64) OR push_bit (pos mod 64) 1]) = insert pos (bits_of b)"
    and "bits_of (b[pos div 64 := b ! (pos div 64) AND NOT (push_bit (pos mod 64) 1)]) = bits_of b - {pos}"
proof -
  have eq: "q = pos" if "q div 64 = pos div 64" "q mod 64 = pos mod 64" for q :: nat
    using that by (metis div_mult_mod_eq)
  have m: "q mod 64 < 64" for q :: nat by simp
  show "bits_of (b[pos div 64 := b ! (pos div 64) OR push_bit (pos mod 64) 1]) = insert pos (bits_of b)"
    using assms eq m by (auto simp: bits_of_def nth_list_update bit_simps)
  show "bits_of (b[pos div 64 := b ! (pos div 64) AND NOT (push_bit (pos mod 64) 1)]) = bits_of b - {pos}"
    using assms eq m by (auto simp: bits_of_def nth_list_update bit_simps)
qed

lemma bits_of_inj:
  assumes "length b = length b2" and "bits_of b = bits_of b2"
  shows "b = b2"
proof (rule nth_equalityI [OF assms(1)])
  fix i assume i: "i < length b"
  show "b ! i = b2 ! i"
  proof (rule bit_word_eqI)
    fix n assume n: "n < LENGTH(64)"
    have "64 * i + n \<in> bits_of b \<longleftrightarrow> 64 * i + n \<in> bits_of b2" using assms(2) by simp
    then show "bit (b ! i) n \<longleftrightarrow> bit (b2 ! i) n" using i n assms(1) by (simp add: bits_of_def)
  qed
qed

interpretation bs: nat_set newBitset bitset_set bitset_clear bitset_get bitset_equals bits_of capacity
proof (unfold_locales, goal_cases)
  case (1 n)
  show ?case by (auto simp: newBitset_def bits_of_def Let_def)
next
  case (2 n)
  have "n \<le> 64 * (n div 64 + (if n mod 64 \<noteq> 0 then 1 else 0))"
    using div_mult_mod_eq [of n 64] mod_less_divisor [of 64 n] by (auto simp del: div_mult_mod_eq)
  then show ?case by (simp add: newBitset_def capacity_def Let_def)
next
  case (3 i s)
  then show ?case using bits_of_update(1) [OF div_mod_64]
    by (simp add: bitset_set_def bitsetIndex_def go_index_def go_assign_def capacity_def div_mod_64)
next
  case (4 i s)
  then show ?case using bits_of_update(2) [OF div_mod_64]
    by (simp add: bitset_clear_def bitsetIndex_def go_index_def go_assign_def capacity_def div_mod_64)
next
  case (5 i s)
  then show ?case
    by (simp add: bitset_get_def bitsetIndex_def go_index_def capacity_def div_mod_64 and_exp_eq_0_iff_not_bit bits_of_def)
next
  case (6 s t)
  then have l: "length s = length t" by (simp add: capacity_def)
  have "bitset_equals s t \<longleftrightarrow> s = t"
    using l by (auto simp: bitset_equals_def list_all_iff intro: nth_equalityI)
  then show ?case using bits_of_inj [OF l] by auto
qed

end
