(* ===== verification/Porcupine_Types.thy ===== *)
theory Porcupine_Types
  imports Porcupine_Bitset "HOL-Library.Char_ord" "HOL-Library.List_Lexorder"
begin

text \<open>
  The histories and models of the linearizability checker: \<open>porcupine/model.go\<close>, the conversion of
  histories to time-ordered entries in \<open>porcupine/checker.go\<close>, and the key/value model of
  \<open>models/kv.go\<close>. Inputs, outputs and states are \<open>interface{}\<close>; they have types \<open>'v\<close> and \<open>'s\<close>.
\<close>

section \<open>Histories and models\<close>

record 'v Operation =
  op_ClientId :: int
  op_Input :: 'v
  op_Call :: int
  op_Output :: 'v
  op_Return :: int

datatype EventKind = CallEvent | ReturnEvent

record 'v Event =
  ev_ClientId :: int
  ev_Kind :: EventKind
  ev_Value :: 'v
  ev_Id :: int

text \<open>A model; the functions a user may leave nil are options. \<open>DescribeOperation\<close> and \<open>DescribeState\<close> only
  feed the visualization and are not part of the record.\<close>

record ('s, 'v) Model =
  m_Partition :: "('v Operation list \<Rightarrow> 'v Operation list list) option"
  m_PartitionEvent :: "('v Event list \<Rightarrow> 'v Event list list) option"
  m_Init :: 's
  m_Step :: "'s \<Rightarrow> 'v \<Rightarrow> 'v \<Rightarrow> bool \<times> 's"
  m_Equal :: "('s \<Rightarrow> 's \<Rightarrow> bool) option"

definition NoPartition :: "'v Operation list \<Rightarrow> 'v Operation list list" where
  "NoPartition history = [history]"

definition NoPartitionEvent :: "'v Event list \<Rightarrow> 'v Event list list" where
  "NoPartitionEvent history = [history]"

text \<open>\<open>==\<close> on the states, which are of a comparable type; for other dynamic types Go panics.\<close>

definition ShallowEqual :: "'s \<Rightarrow> 's \<Rightarrow> bool" where
  "ShallowEqual state1 state2 = (state1 = state2)"

datatype CheckResult = Unknown | Ok | Illegal

definition fillDefault :: "('s, 'v) Model \<Rightarrow> ('s, 'v) Model" where
  "fillDefault model =
     (let model = (if m_Partition model = None then model\<lparr>m_Partition := Some NoPartition\<rparr> else model);
          model = (if m_PartitionEvent model = None then model\<lparr>m_PartitionEvent := Some NoPartitionEvent\<rparr> else model);
          model = (if m_Equal model = None then model\<lparr>m_Equal := Some ShallowEqual\<rparr> else model)
      in model)"

section \<open>Entries\<close>

datatype entryKind = callEntry | returnEntry

record 'v entry =
  en_kind :: entryKind
  en_value :: 'v
  en_id :: int
  en_time :: int
  en_clientId :: int

definition byTime_Less :: "'v entry \<Rightarrow> 'v entry \<Rightarrow> bool" where
  "byTime_Less x y =
     (if en_time x \<noteq> en_time y then en_time x < en_time y
      else en_kind x = callEntry \<and> en_kind y = returnEntry)"

fun entries_loop :: "int \<Rightarrow> 'v Operation list \<Rightarrow> 'v entry list" where
  "entries_loop i [] = []"
| "entries_loop i (elem # history) =
     \<lparr>en_kind = callEntry, en_value = op_Input elem, en_id = i, en_time = op_Call elem,
      en_clientId = op_ClientId elem\<rparr> #
     \<lparr>en_kind = returnEntry, en_value = op_Output elem, en_id = i, en_time = op_Return elem,
      en_clientId = op_ClientId elem\<rparr> # entries_loop (i + 1) history"

text \<open>\<open>srt\<close> is \<open>sort.Sort(byTime(entries))\<close>.\<close>

definition makeEntries :: "('v entry list \<Rightarrow> 'v entry list) \<Rightarrow> 'v Operation list \<Rightarrow> 'v entry list" where
  "makeEntries srt history = srt (entries_loop 0 history)"

fun renumber_loop :: "(int, int) gomap \<Rightarrow> int \<Rightarrow> 'v Event list \<Rightarrow> 'v Event list" where
  "renumber_loop m i [] = []"
| "renumber_loop m i (v # events) =
     (case gm_get m (ev_Id v) of
        Some r \<Rightarrow> v\<lparr>ev_Id := r\<rparr> # renumber_loop m i events
      | None \<Rightarrow> v\<lparr>ev_Id := i\<rparr> # renumber_loop (gm_put (ev_Id v) i m) (i + 1) events)"

definition renumber :: "'v Event list \<Rightarrow> 'v Event list" where
  "renumber events = renumber_loop [] 0 events"

fun convert_loop :: "int \<Rightarrow> 'v Event list \<Rightarrow> 'v entry list" where
  "convert_loop i [] = []"
| "convert_loop i (elem # events) =
     \<lparr>en_kind = (if ev_Kind elem = ReturnEvent then returnEntry else callEntry),
      en_value = ev_Value elem, en_id = ev_Id elem, en_time = i, en_clientId = ev_ClientId elem\<rparr> #
     convert_loop (i + 1) events"

definition convertEntries :: "'v Event list \<Rightarrow> 'v entry list" where
  "convertEntries events = convert_loop 0 events"

section \<open>The key/value model\<close>

text \<open>\<open>interface{}\<close> values of this model are inputs and outputs; a failed type assertion panics, and
  no history the testers build has one. Where it would panic \<open>kv_input\<close> and \<open>kv_output\<close> return the zero value.\<close>

record KvInput =
  kv_Op :: "8 word"
  kv_Key :: string
  kv_Value :: string

datatype KvVal = KvIn KvInput | KvOut string

definition kv_input :: "KvVal \<Rightarrow> KvInput" where
  "kv_input v = (case v of KvIn i \<Rightarrow> i | KvOut _ \<Rightarrow> \<lparr>kv_Op = 0, kv_Key = [], kv_Value = []\<rparr>)"

definition kv_output :: "KvVal \<Rightarrow> string" where
  "kv_output v = (case v of KvOut s \<Rightarrow> s | KvIn _ \<Rightarrow> [])"

fun kv_group :: "KvVal Operation list \<Rightarrow> (string, KvVal Operation list) gomap \<Rightarrow>
    (string, KvVal Operation list) gomap" where
  "kv_group [] m = m"
| "kv_group (v # history) m =
     (let key = kv_Key (kv_input (op_Input v));
          old = (case gm_get m key of None \<Rightarrow> [] | Some l \<Rightarrow> l)
      in kv_group history (gm_put key (old @ [v]) m))"

definition kv_Partition :: "KvVal Operation list \<Rightarrow> KvVal Operation list list" where
  "kv_Partition history =
     (let m = kv_group history [];
          keys = sort (map fst m)
      in map (\<lambda>k. case gm_get m k of None \<Rightarrow> [] | Some l \<Rightarrow> l) keys)"

definition kv_Step :: "string \<Rightarrow> KvVal \<Rightarrow> KvVal \<Rightarrow> bool \<times> string" where
  "kv_Step st input output =
     (let inp = kv_input input; out = kv_output output in
      if kv_Op inp = 0 then (out = st, st)
      else if kv_Op inp = 1 then (True, kv_Value inp)
      else (True, st @ kv_Value inp))"

definition KvModel :: "(string, KvVal) Model" where
  "KvModel = \<lparr>m_Partition = Some kv_Partition, m_PartitionEvent = None, m_Init = [],
     m_Step = kv_Step, m_Equal = None\<rparr>"

definition kv_DescribeOperation :: "KvVal \<Rightarrow> KvVal \<Rightarrow> string" where
  "kv_DescribeOperation input output =
     (let inp = kv_input input; out = kv_output output; q = [CHR 0x27] in
      if kv_Op inp = 0 then ''get('' @ q @ kv_Key inp @ q @ '') -> '' @ q @ out @ q
      else if kv_Op inp = 1 then ''put('' @ q @ kv_Key inp @ q @ '', '' @ q @ kv_Value inp @ q @ '')''
      else if kv_Op inp = 2 then ''append('' @ q @ kv_Key inp @ q @ '', '' @ q @ kv_Value inp @ q @ '')''
      else ''<invalid>'')"

end
