(* ===== verification/Porcupine_List.thy ===== *)
theory Porcupine_List
  imports Porcupine_Types
begin

text \<open>
  The doubly linked list of the checker, \<open>node\<close>, \<open>insertBefore\<close>, \<open>length\<close>, \<open>makeLinkedEntries\<close>,
  \<open>lift\<close> and \<open>unlift\<close> of \<open>porcupine/checker.go\<close>, on an explicit heap. A node is addressed by the
  number of its entry, the head node of \<open>checkSingle\<close> by the number of entries; a heap maps
  addresses to nodes. The central facts: \<open>lift\<close> takes a call and its return out of the list,
  and \<open>unlift\<close> restores the heap exactly.
\<close>

section \<open>Nodes and pointers\<close>

record 'v node =
  nd_value :: 'v
  nd_match :: "nat option"
  nd_id :: int
  nd_next :: "nat option"
  nd_prev :: "nat option"

type_synonym 'v heap = "nat \<Rightarrow> 'v node option"

text \<open>\<open>p.f\<close> and \<open>p.f = v\<close>, which panic on a nil pointer.\<close>

definition deref :: "'v heap \<Rightarrow> nat option \<Rightarrow> 'v node go" where
  "deref h p = (case p of None \<Rightarrow> Inl NilDereference
     | Some a \<Rightarrow> (case h a of None \<Rightarrow> Inl NilDereference | Some n \<Rightarrow> Inr n))"

definition put_next :: "nat option \<Rightarrow> nat option \<Rightarrow> 'v heap \<Rightarrow> 'v heap go" where
  "put_next p v h = go_bind (deref h p) (\<lambda>n. Inr (h(the p \<mapsto> n\<lparr>nd_next := v\<rparr>)))"

definition put_prev :: "nat option \<Rightarrow> nat option \<Rightarrow> 'v heap \<Rightarrow> 'v heap go" where
  "put_prev p v h = go_bind (deref h p) (\<lambda>n. Inr (h(the p \<mapsto> n\<lparr>nd_prev := v\<rparr>)))"

section \<open>Building the list\<close>

definition insertBefore :: "nat option \<Rightarrow> nat option \<Rightarrow> 'v heap \<Rightarrow> 'v heap go" where
  "insertBefore n mark h =
     (if mark \<noteq> None then
        go_bind (deref h mark) (\<lambda>m.
        let beforeMark = nd_prev m in
        go_bind (put_prev mark n h) (\<lambda>h.
        go_bind (put_next n mark h) (\<lambda>h.
        if beforeMark \<noteq> None then
          go_bind (put_prev n beforeMark h) (\<lambda>h. put_next beforeMark n h)
        else Inr h)))
      else Inr h)"

text \<open>\<open>length\<close>: the loop over \<open>next\<close> ends on the lists the checker builds; in general it may not.\<close>

partial_function (option) node_length :: "'v heap \<Rightarrow> nat option \<Rightarrow> nat \<Rightarrow> nat option" where
  "node_length h n l =
     (case n of None \<Rightarrow> Some l
      | Some a \<Rightarrow> (case h a of None \<Rightarrow> None | Some nd \<Rightarrow> node_length h (nd_next nd) (l + 1)))"

declare node_length.simps [code]

text \<open>The loop of \<open>makeLinkedEntries\<close> from the last entry to the first; \<open>match[elem.id]\<close> of a
  missing key is nil.\<close>

fun linked_loop :: "'v entry list \<Rightarrow> nat \<Rightarrow> nat option \<Rightarrow> (int, nat) gomap \<Rightarrow> 'v heap \<Rightarrow>
    ('v heap \<times> nat option) go" where
  "linked_loop entries 0 root mat h = Inr (h, root)"
| "linked_loop entries (Suc i) root mat h =
     (let elem = entries ! i in
      if en_kind elem = returnEntry then
        let h = h(i \<mapsto> \<lparr>nd_value = en_value elem, nd_match = None, nd_id = en_id elem,
                         nd_next = None, nd_prev = None\<rparr>);
            mat = gm_put (en_id elem) i mat
        in go_bind (insertBefore (Some i) root h) (\<lambda>h. linked_loop entries i (Some i) mat h)
      else
        let h = h(i \<mapsto> \<lparr>nd_value = en_value elem, nd_match = gm_get mat (en_id elem),
                         nd_id = en_id elem, nd_next = None, nd_prev = None\<rparr>)
        in go_bind (insertBefore (Some i) root h) (\<lambda>h. linked_loop entries i (Some i) mat h))"

definition makeLinkedEntries :: "'v entry list \<Rightarrow> ('v heap \<times> nat option) go" where
  "makeLinkedEntries entries = linked_loop entries (length entries) None [] Map.empty"

section \<open>Lifting operations out of the list\<close>

definition lift :: "nat option \<Rightarrow> 'v heap \<Rightarrow> 'v heap go" where
  "lift entry h =
     go_bind (deref h entry) (\<lambda>e.
     go_bind (put_next (nd_prev e) (nd_next e) h) (\<lambda>h.
     go_bind (deref h entry) (\<lambda>e.
     go_bind (put_prev (nd_next e) (nd_prev e) h) (\<lambda>h.
     go_bind (deref h entry) (\<lambda>e.
     let mat = nd_match e in
     go_bind (deref h mat) (\<lambda>m.
     go_bind (put_next (nd_prev m) (nd_next m) h) (\<lambda>h.
     go_bind (deref h mat) (\<lambda>m.
     if nd_next m \<noteq> None then put_prev (nd_next m) (nd_prev m) h else Inr h))))))))"

definition unlift :: "nat option \<Rightarrow> 'v heap \<Rightarrow> 'v heap go" where
  "unlift entry h =
     go_bind (deref h entry) (\<lambda>e.
     let mat = nd_match e in
     go_bind (deref h mat) (\<lambda>m.
     go_bind (put_next (nd_prev m) mat h) (\<lambda>h.
     go_bind (deref h mat) (\<lambda>m.
     go_bind (if nd_next m \<noteq> None then put_prev (nd_next m) mat h else Inr h) (\<lambda>h.
     go_bind (deref h entry) (\<lambda>e.
     go_bind (put_next (nd_prev e) entry h) (\<lambda>h.
     go_bind (deref h entry) (\<lambda>e. put_prev (nd_next e) entry h))))))))"

section \<open>Well-formed lists\<close>

text \<open>The nodes \<open>xs\<close> are linked in both directions, \<open>a\<close> is before the first and \<open>b\<close> after the last.\<close>

fun seg :: "'v heap \<Rightarrow> nat option \<Rightarrow> nat list \<Rightarrow> nat option \<Rightarrow> bool" where
  "seg h a [] b = True"
| "seg h a (x # xs) b =
     (\<exists>n. h x = Some n \<and> nd_prev n = a \<and> nd_next n = (case xs of [] \<Rightarrow> b | y # _ \<Rightarrow> Some y) \<and>
        seg h (Some x) xs b)"

definition linked :: "'v heap \<Rightarrow> nat list \<Rightarrow> bool" where
  "linked h ys \<longleftrightarrow> distinct ys \<and> seg h None ys None"

lemma seg_cong: "(\<And>x. x \<in> set xs \<Longrightarrow> h' x = h x) \<Longrightarrow> seg h' a xs b = seg h a xs b"
  by (induction xs arbitrary: a) auto

lemma seg_append:
  "seg h a (xs @ ys) b \<longleftrightarrow>
     seg h a xs (case ys of [] \<Rightarrow> b | y # _ \<Rightarrow> Some y) \<and>
     seg h (if xs = [] then a else Some (last xs)) ys b"
proof (induction xs arbitrary: a)
  case (Cons x xs)
  have "seg h (Some x) (xs @ ys) b \<longleftrightarrow> seg h (Some x) xs (case ys of [] \<Rightarrow> b | y # _ \<Rightarrow> Some y) \<and>
      seg h (Some (last (x # xs))) ys b"
    unfolding Cons.IH [of "Some x"] by simp
  then show ?case by (cases xs) (simp; blast)+
qed simp

lemma seg_alloc: "seg h a xs b \<Longrightarrow> x \<in> set xs \<Longrightarrow> \<exists>n. h x = Some n"
  by (induction xs arbitrary: a) auto

text \<open>Taking one node out, and putting it back, as the four assignments of \<open>lift\<close> and \<open>unlift\<close> do.\<close>

definition set_next :: "nat option \<Rightarrow> nat option \<Rightarrow> 'v heap \<Rightarrow> 'v heap" where
  "set_next p v h = (case p of None \<Rightarrow> h | Some a \<Rightarrow> h(a := map_option (nd_next_update (\<lambda>_. v)) (h a)))"

definition set_prev :: "nat option \<Rightarrow> nat option \<Rightarrow> 'v heap \<Rightarrow> 'v heap" where
  "set_prev p v h = (case p of None \<Rightarrow> h | Some a \<Rightarrow> h(a := map_option (nd_prev_update (\<lambda>_. v)) (h a)))"

definition unlink :: "nat \<Rightarrow> 'v heap \<Rightarrow> 'v heap" where
  "unlink x h = set_prev (nd_next (the (h x))) (nd_prev (the (h x)))
     (set_next (nd_prev (the (h x))) (nd_next (the (h x))) h)"

definition relink :: "nat \<Rightarrow> 'v heap \<Rightarrow> 'v heap" where
  "relink x h = set_prev (nd_next (the (h x))) (Some x) (set_next (nd_prev (the (h x))) (Some x) h)"

text \<open>What the assignments do not touch.\<close>

definition data :: "'v heap \<Rightarrow> nat \<Rightarrow> ('v \<times> nat option \<times> int) option" where
  "data h z = map_option (\<lambda>n. (nd_value n, nd_match n, nd_id n)) (h z)"

lemma data_set [simp]: "data (set_next p v h) = data h" "data (set_prev p v h) = data h"
  by (auto simp: data_def set_next_def set_prev_def fun_eq_iff option.map_comp comp_def split: option.splits)

lemma data_unlink [simp]: "data (unlink x h) = data h" "data (relink x h) = data h"
  by (simp_all add: unlink_def relink_def)

lemma set_next_simps [simp]:
  "set_next None v h = h" "a \<noteq> z \<Longrightarrow> set_next (Some a) v h z = h z"
  "h a = Some n \<Longrightarrow> set_next (Some a) v h a = Some (n\<lparr>nd_next := v\<rparr>)"
  by (simp_all add: set_next_def)

lemma set_prev_simps [simp]:
  "set_prev None v h = h" "a \<noteq> z \<Longrightarrow> set_prev (Some a) v h z = h z"
  "h a = Some n \<Longrightarrow> set_prev (Some a) v h a = Some (n\<lparr>nd_prev := v\<rparr>)"
  by (simp_all add: set_prev_def)

text \<open>A node with its neighbours: \<open>l\<close> before it, \<open>B\<close> after it.\<close>

lemma linked_split:
  assumes "linked h (A @ l # x # B)"
  obtains nl nx where "h l = Some nl" and "nd_prev nl = (if A = [] then None else Some (last A))"
    and "nd_next nl = Some x" and "h x = Some nx" and "nd_prev nx = Some l"
    and "nd_next nx = (case B of [] \<Rightarrow> None | y # _ \<Rightarrow> Some y)" and "seg h None A (Some l)"
    and "seg h (Some x) B None"
proof -
  have "seg h None A (Some l)" "seg h (if A = [] then None else Some (last A)) (l # x # B) None"
    using assms by (simp_all add: linked_def seg_append)
  then show thesis using that unfolding seg.simps by fastforce
qed

lemma linked_distinct: "linked h ys \<Longrightarrow> distinct ys"
  by (simp add: linked_def)

lemma linked_unlink:
  assumes "linked h (A @ l # x # B)"
  shows "linked (unlink x h) (A @ l # B)"
proof -
  obtain nl nx where n: "h l = Some nl" "nd_prev nl = (if A = [] then None else Some (last A))"
      "h x = Some nx" "nd_prev nx = Some l" "nd_next nx = (case B of [] \<Rightarrow> None | y # _ \<Rightarrow> Some y)"
      "seg h None A (Some l)" "seg h (Some x) B None"
    using linked_split [OF assms] by metis
  have d: "distinct (A @ l # x # B)" by (rule linked_distinct [OF assms])
  show ?thesis
  proof (cases B)
    case Nil
    then have u: "unlink x h = set_next (Some l) None h" using n by (simp add: unlink_def)
    have "seg (set_next (Some l) None h) None A (Some l)"
      using n(6) d by (subst seg_cong) (auto simp: set_next_def)
    with n d show ?thesis by (simp add: linked_def seg_append Nil u)
  next
    case (Cons f B')
    then have u: "unlink x h = set_prev (Some f) (Some l) (set_next (Some l) (Some f) h)"
      using n by (simp add: unlink_def)
    obtain nf where f: "h f = Some nf" "nd_next nf = (case B' of [] \<Rightarrow> None | y # _ \<Rightarrow> Some y)"
        "seg h (Some f) B' None" using n(7) by (auto simp: Cons)
    have ne: "l \<noteq> f" "f \<noteq> l" using d by (auto simp: Cons)
    have "seg (unlink x h) None A (Some l)" "seg (unlink x h) (Some f) B' None"
      using n(6) f(3) d by (subst seg_cong; auto simp: u Cons set_next_def set_prev_def)+
    moreover have "unlink x h l = Some (nl\<lparr>nd_next := Some f\<rparr>)"
        "unlink x h f = Some (nf\<lparr>nd_prev := Some l\<rparr>)"
      using n f ne by (simp_all add: u)
    ultimately show ?thesis using n f d by (simp add: linked_def seg_append Cons)
  qed
qed

lemma unlink_self:
  assumes "linked h (A @ l # x # B)"
  shows "unlink x h x = h x"
proof -
  obtain nx where "h x = Some nx" "nd_prev nx = Some l"
      "nd_next nx = (case B of [] \<Rightarrow> None | y # _ \<Rightarrow> Some y)"
    using linked_split [OF assms] by metis
  then show ?thesis using linked_distinct [OF assms] by (cases B) (simp_all add: unlink_def)
qed

lemma relink_unlink:
  assumes "linked h (A @ l # x # B)"
  shows "relink x (unlink x h) = h"
proof -
  have self: "unlink x h x = h x" by (rule unlink_self [OF assms])
  obtain nl nx where n: "h l = Some nl" "nd_next nl = Some x" "h x = Some nx" "nd_prev nx = Some l"
      "nd_next nx = (case B of [] \<Rightarrow> None | y # _ \<Rightarrow> Some y)" "seg h (Some x) B None"
    using linked_split [OF assms] by metis
  have l: "nl\<lparr>nd_next := Some x\<rparr> = nl" using n(2) by simp
  show ?thesis
  proof (cases B)
    case Nil
    then show ?thesis using n l self by (auto simp: relink_def unlink_def set_next_def fun_eq_iff)
  next
    case (Cons f B')
    with n(6) obtain nf where f: "h f = Some nf" "nd_prev nf = Some x" by auto
    have "f \<noteq> l" "f \<noteq> x" "l \<noteq> x" using linked_distinct [OF assms] by (auto simp: Cons)
    moreover have "nf\<lparr>nd_prev := Some x\<rparr> = nf" using f(2) by simp
    ultimately show ?thesis using n l f self
      by (auto simp: relink_def unlink_def set_next_def set_prev_def fun_eq_iff Cons)
  qed
qed

lemma unlink_outside:
  assumes "linked h (A @ l # x # B)" and "z \<notin> set (A @ l # x # B)"
  shows "unlink x h z = h z"
proof -
  obtain nx where "h x = Some nx" "nd_prev nx = Some l"
      "nd_next nx = (case B of [] \<Rightarrow> None | y # _ \<Rightarrow> Some y)"
    using linked_split [OF assms(1)] by metis
  then show ?thesis using assms(2) by (cases B) (simp_all add: unlink_def)
qed

text \<open>The checked assignments on a linked list do what the unchecked ones do.\<close>

lemma deref_Some: "h a = Some n \<Longrightarrow> deref h (Some a) = Inr n"
  by (simp add: deref_def)

lemma put_alloc:
  "h a = Some n \<Longrightarrow> put_next (Some a) v h = Inr (set_next (Some a) v h)"
  "h a = Some n \<Longrightarrow> put_prev (Some a) v h = Inr (set_prev (Some a) v h)"
  by (simp_all add: put_next_def put_prev_def deref_def set_next_def set_prev_def)

lemma unlink_code:
  assumes "linked h (A @ l # x # B)"
  obtains n h1 where "deref h (Some x) = Inr n" and "put_next (nd_prev n) (nd_next n) h = Inr h1"
    and "deref h1 (Some x) = Inr n" and "nd_next n = None \<longleftrightarrow> B = []"
    and "B \<noteq> [] \<Longrightarrow> put_prev (nd_next n) (nd_prev n) h1 = Inr (unlink x h)"
    and "B = [] \<Longrightarrow> h1 = unlink x h" and "h x = Some n"
proof -
  obtain nl n where n: "h l = Some nl" "h x = Some n" "nd_prev n = Some l"
      "nd_next n = (case B of [] \<Rightarrow> None | y # _ \<Rightarrow> Some y)" "seg h (Some x) B None"
    using linked_split [OF assms] by metis
  let ?h1 = "set_next (nd_prev n) (nd_next n) h"
  have "l \<noteq> x" using linked_distinct [OF assms] by simp
  then have x: "?h1 x = Some n" using n by simp
  have b: "put_prev (nd_next n) (nd_prev n) ?h1 = Inr (unlink x h)" if B: "B \<noteq> []"
  proof -
    obtain f B' where f: "B = f # B'" using B by (cases B) auto
    then obtain nf where "h f = Some nf" using n(5) by auto
    moreover have "f \<noteq> l" using linked_distinct [OF assms] f by auto
    ultimately have "?h1 f = Some nf" using n by simp
    then show ?thesis using n(2,4) f put_alloc(2) by (simp add: unlink_def)
  qed
  show thesis
  proof (rule that [of n ?h1])
    show "put_next (nd_prev n) (nd_next n) h = Inr ?h1" using n put_alloc(1) by simp
    show "B = [] \<Longrightarrow> ?h1 = unlink x h" using n by (simp add: unlink_def)
    show "nd_next n = None \<longleftrightarrow> B = []" using n(4) by (cases B) auto
  qed (use n x b in \<open>simp_all add: deref_Some\<close>)
qed

lemma relink_code:
  assumes "linked h (A @ l # x # B)"
  obtains n h1 where "deref (unlink x h) (Some x) = Inr n"
    and "put_next (nd_prev n) (Some x) (unlink x h) = Inr h1" and "deref h1 (Some x) = Inr n"
    and "(if nd_next n \<noteq> None then put_prev (nd_next n) (Some x) h1 else Inr h1) = Inr h"
    and "nd_next n = None \<longleftrightarrow> B = []" and "h x = Some n"
proof -
  let ?u = "unlink x h"
  obtain nl n where n: "h l = Some nl" "h x = Some n" "nd_prev n = Some l"
      "nd_next n = (case B of [] \<Rightarrow> None | y # _ \<Rightarrow> Some y)" "seg h (Some x) B None"
    using linked_split [OF assms] by metis
  have x: "?u x = Some n" using unlink_self [OF assms] n(2) by simp
  have alloc: "?u z \<noteq> None \<longleftrightarrow> h z \<noteq> None" for z
  proof -
    have "data ?u z = data h z" by simp
    then show ?thesis unfolding data_def by (cases "?u z"; cases "h z") simp_all
  qed
  then obtain ul where l: "?u l = Some ul" using n(1) by fastforce
  have lx: "l \<noteq> x" using linked_distinct [OF assms] by simp
  let ?h1 = "set_next (nd_prev n) (Some x) ?u"
  have re: "relink x ?u = h" by (rule relink_unlink [OF assms])
  have fin: "(if nd_next n \<noteq> None then put_prev (nd_next n) (Some x) ?h1 else Inr ?h1) = Inr h"
  proof (cases B)
    case Nil
    then show ?thesis using re x n(4) by (simp add: relink_def)
  next
    case (Cons f B')
    then have f: "nd_next n = Some f" "f \<noteq> l" using n(4) linked_distinct [OF assms] by auto
    have "h f \<noteq> None" using n(5) Cons by auto
    then obtain uf where "?u f = Some uf" using alloc by blast
    then have "?h1 f = Some uf" using f(2) n(3) by simp
    from put_alloc(2) [of ?h1 f, OF this] show ?thesis using f re x by (simp add: relink_def)
  qed
  show thesis
  proof (rule that [of n ?h1])
    show "put_next (nd_prev n) (Some x) ?u = Inr ?h1" using n(3) l put_alloc(1) by simp
    show "deref ?h1 (Some x) = Inr n" using n(3) lx x by (simp add: deref_Some)
    show "nd_next n = None \<longleftrightarrow> B = []" using n(4) by (cases B) auto
  qed (use x n fin in \<open>simp_all add: deref_Some\<close>)
qed

text \<open>A call and its return in a list.\<close>

lemma lift_eq:
  assumes "linked h (A @ l # e # B @ m # D)" and "data h e = Some (v, Some m, i)"
  shows "lift (Some e) h = Inr (unlink m (unlink e h))"
    and "linked (unlink m (unlink e h)) (A @ l # B @ D)"
    and "unlift (Some e) (unlink m (unlink e h)) = Inr h"
proof -
  let ?h1 = "unlink e h"
  let ?h2 = "unlink m ?h1"
  have L1: "linked ?h1 (A @ l # B @ m # D)" by (rule linked_unlink [OF assms(1)])
  obtain A' l' where A': "A @ l # B = A' @ [l']" by (cases "A @ l # B" rule: rev_cases) auto
  then have eq: "A @ l # B @ m # D = A' @ l' # m # D" by (metis append.assoc append_Cons append_Nil)
  have L1': "linked ?h1 (A' @ l' # m # D)" by (rule L1 [unfolded eq])
  have "linked ?h2 (A' @ l' # D)" by (rule linked_unlink [OF L1'])
  moreover have "A' @ l' # D = A @ l # B @ D" using A' by (metis append.assoc append_Cons append_Nil)
  ultimately show "linked ?h2 (A @ l # B @ D)" by simp
  have d: "distinct (A @ l # e # B @ m # D)" by (rule linked_distinct [OF assms(1)])
  have self: "?h1 e = h e" "?h2 m = ?h1 m" by (rule unlink_self [OF assms(1)], rule unlink_self [OF L1'])
  have out: "?h2 e = ?h1 e"
    using d by (intro unlink_outside [OF L1']) (simp only: eq [symmetric], auto)
  obtain n h1 where u: "deref h (Some e) = Inr n" "put_next (nd_prev n) (nd_next n) h = Inr h1"
      "deref h1 (Some e) = Inr n" "put_prev (nd_next n) (nd_prev n) h1 = Inr ?h1" "h e = Some n"
      "nd_next n \<noteq> None"
    using unlink_code [OF assms(1)] by (metis append_is_Nil_conv list.distinct(1))
  have mat: "nd_match n = Some m" using assms(2) u(5) by (simp add: data_def)
  have e1: "deref ?h1 (Some e) = Inr n" using self(1) u(5) by (simp add: deref_Some)
  obtain nm h3 where w: "deref ?h1 (Some m) = Inr nm" "put_next (nd_prev nm) (nd_next nm) ?h1 = Inr h3"
      "deref h3 (Some m) = Inr nm" "?h1 m = Some nm"
      "(if nd_next nm \<noteq> None then put_prev (nd_next nm) (nd_prev nm) h3 else Inr h3) = Inr ?h2"
    using unlink_code [OF L1'] by (smt (verit))
  show "lift (Some e) h = Inr ?h2"
    unfolding lift_def using u w e1 mat by (simp add: Let_def)
  obtain rm h4 where r: "deref ?h2 (Some m) = Inr rm" "put_next (nd_prev rm) (Some m) ?h2 = Inr h4"
      "deref h4 (Some m) = Inr rm"
      "(if nd_next rm \<noteq> None then put_prev (nd_next rm) (Some m) h4 else Inr h4) = Inr ?h1"
    using relink_code [OF L1'] by metis
  obtain re h5 where q: "deref ?h1 (Some e) = Inr re" "put_next (nd_prev re) (Some e) ?h1 = Inr h5"
      "deref h5 (Some e) = Inr re" "put_prev (nd_next re) (Some e) h5 = Inr h"
    using relink_code [OF assms(1)] by (metis append_is_Nil_conv list.distinct(1))
  have "deref ?h2 (Some e) = Inr n" using out self(1) u(5) by (simp add: deref_Some)
  then show "unlift (Some e) ?h2 = Inr h"
    unfolding unlift_def using mat r q by (cases "nd_next rm") (simp_all add: Let_def)
qed

section \<open>The list of a history\<close>

lemma insertBefore_first:
  assumes "linked h (r # xs)" and "h n = Some nd" and "nd_prev nd = None" and "n \<notin> set (r # xs)"
  shows "\<exists>h'. insertBefore (Some n) (Some r) h = Inr h' \<and> linked h' (n # r # xs) \<and> data h' = data h"
proof -
  obtain nr where r: "h r = Some nr" "nd_prev nr = None" "seg h (Some r) xs None"
      "nd_next nr = (case xs of [] \<Rightarrow> None | y # _ \<Rightarrow> Some y)"
    using assms(1) by (auto simp: linked_def)
  let ?h1 = "set_prev (Some r) (Some n) h"
  let ?h2 = "set_next (Some n) (Some r) ?h1"
  have ne: "n \<noteq> r" "r \<noteq> n" using assms(4) by auto
  have h1n: "?h1 n = Some nd" using ne assms(2) by simp
  have "insertBefore (Some n) (Some r) h = Inr ?h2"
    using r(1,2) put_alloc(2) [of h r nr "Some n"] put_alloc(1) [of ?h1 n nd "Some r"] h1n
    by (simp add: insertBefore_def deref_Some)
  moreover have "seg ?h2 (Some r) xs None"
    using r(3) assms(1,4) by (subst seg_cong) (auto simp: set_next_def set_prev_def linked_def)
  moreover have "?h2 n = Some (nd\<lparr>nd_next := Some r\<rparr>)" "?h2 r = Some (nr\<lparr>nd_prev := Some n\<rparr>)"
    using h1n ne r(1) by simp_all
  ultimately show ?thesis using assms r by (auto simp: linked_def)
qed

text \<open>The return that belongs to a call: the next one with the same id.\<close>

definition find_ret :: "'v entry list \<Rightarrow> nat \<Rightarrow> int \<Rightarrow> nat option" where
  "find_ret es i k =
     (case filter (\<lambda>j. en_kind (es ! j) = returnEntry \<and> en_id (es ! j) = k) [i..<length es] of
        [] \<Rightarrow> None | j # _ \<Rightarrow> Some j)"

definition entry_data :: "'v entry list \<Rightarrow> nat \<Rightarrow> 'v \<times> nat option \<times> int" where
  "entry_data es i = (en_value (es ! i),
     if en_kind (es ! i) = returnEntry then None else find_ret es (Suc i) (en_id (es ! i)), en_id (es ! i))"

lemma find_ret_step:
  "i < length es \<Longrightarrow> find_ret es i k =
     (if en_kind (es ! i) = returnEntry \<and> en_id (es ! i) = k then Some i else find_ret es (Suc i) k)"
  by (simp add: find_ret_def upt_conv_Cons)

lemma insert_node:
  assumes "linked h [Suc i..<n]" and "i < n" and "nd_prev nd = None" and "nd_next nd = None"
    and "\<forall>j\<in>set [Suc i..<n]. data h j = Some (f j)" and "(nd_value nd, nd_match nd, nd_id nd) = f i"
    and "root = (if Suc i < n then Some (Suc i) else None)"
  shows "\<exists>h'. insertBefore (Some i) root (h(i \<mapsto> nd)) = Inr h' \<and> linked h' [i..<n] \<and>
    (\<forall>j\<in>set [i..<n]. data h' j = Some (f j))"
proof -
  let ?h = "h(i \<mapsto> nd)"
  have upd: "\<forall>j\<in>set [i..<n]. data ?h j = Some (f j)"
    using assms(5,6) by (auto simp: data_def Suc_le_eq less_le_not_le)
  have l: "linked ?h [Suc i..<n]"
    using assms(1) seg_cong [of "[Suc i..<n]" ?h h] by (simp add: linked_def)
  show ?thesis
  proof (cases "Suc i < n")
    case True
    then have split: "[i..<n] = i # Suc i # [Suc (Suc i)..<n]" "[Suc i..<n] = Suc i # [Suc (Suc i)..<n]"
      by (simp_all add: upt_conv_Cons)
    from insertBefore_first [OF l [unfolded split(2)], of i nd] assms(3)
    obtain h' where "insertBefore (Some i) (Some (Suc i)) ?h = Inr h'" "linked h' [i..<n]" "data h' = data ?h"
      unfolding split(1) by auto
    then show ?thesis using upd assms(7) True by auto
  next
    case False
    then have "[i..<n] = [i]" using assms(2) by (simp add: upt_conv_Cons)
    then show ?thesis using upd assms(3,4,7) False by (auto simp: insertBefore_def linked_def)
  qed
qed

lemma linked_loop_eq:
  assumes "i \<le> length es" and "linked h [i..<length es]" and "gm_ok mat"
    and "\<And>k. gm_get mat k = find_ret es i k"
    and "\<forall>j\<in>set [i..<length es]. data h j = Some (entry_data es j)"
    and "root = (if i < length es then Some i else None)"
  shows "\<exists>h'. linked_loop es i root mat h = Inr (h', if es = [] then None else Some 0) \<and>
    linked h' [0..<length es] \<and> (\<forall>j<length es. data h' j = Some (entry_data es j))"
  using assms
proof (induction i arbitrary: h mat root)
  case 0
  then show ?case by auto
next
  case (Suc i)
  let ?elem = "es ! i"
  let ?nd = "\<lparr>nd_value = en_value ?elem, nd_match = (if en_kind ?elem = returnEntry then None else gm_get mat (en_id ?elem)),
    nd_id = en_id ?elem, nd_next = None, nd_prev = None\<rparr>"
  let ?mat = "if en_kind ?elem = returnEntry then gm_put (en_id ?elem) i mat else mat"
  have i: "i < length es" using Suc.prems(1) by simp
  have nd: "(nd_value ?nd, nd_match ?nd, nd_id ?nd) = entry_data es i"
    using Suc.prems(4) by (simp add: entry_data_def)
  obtain h' where h': "insertBefore (Some i) root (h(i \<mapsto> ?nd)) = Inr h'" "linked h' [i..<length es]"
      "\<forall>j\<in>set [i..<length es]. data h' j = Some (entry_data es j)"
    using insert_node [OF Suc.prems(2) i _ _ Suc.prems(5) nd Suc.prems(6)] by fastforce
  have "gm_ok ?mat" using Suc.prems(3) by (simp add: gm.invar_update)
  moreover have "gm_get ?mat k = find_ret es i k" for k
    using Suc.prems(3,4) i by (simp add: gm.lookup_update find_ret_step)
  ultimately obtain h'' where "linked_loop es i (Some i) ?mat h' = Inr (h'', if es = [] then None else Some 0)"
      "linked h'' [0..<length es]" "\<forall>j<length es. data h'' j = Some (entry_data es j)"
    using Suc.IH [of h' ?mat "Some i"] h' i by auto
  then show ?case using h'(1) by (auto simp: Let_def split: if_splits)
qed

lemma makeLinkedEntries_eq:
  "\<exists>h. makeLinkedEntries es = Inr (h, if es = [] then None else Some 0) \<and>
     linked h [0..<length es] \<and> (\<forall>j<length es. data h j = Some (entry_data es j))"
  unfolding makeLinkedEntries_def
  by (rule linked_loop_eq) (auto simp: linked_def find_ret_def)

text \<open>The length of a linked list.\<close>

lemma node_length_seg: "seg h a xs None \<Longrightarrow> node_length h (case xs of [] \<Rightarrow> None | y # _ \<Rightarrow> Some y) l = Some (l + length xs)"
proof (induction xs arbitrary: a l)
  case Nil
  then show ?case by (simp add: node_length.simps)
next
  case (Cons x xs)
  then show ?case by (auto simp: node_length.simps [of h "Some x"])
qed

end
