(* ===== verification/Porcupine_Check.thy ===== *)
theory Porcupine_Check
  imports Porcupine_List
begin

text \<open>
  The search for a linearization, \<open>checkSingle\<close> of \<open>porcupine/checker.go\<close>, with its cache of
  explored configurations, its stack of calls and the linked list it takes operations out of.
  The loop is a partial function on the variables of the Go function; \<open>Porcupine_Search\<close> shows that it
  ends and what it returns.
\<close>

section \<open>The cache\<close>

type_synonym 's cache = "(64 word, (bitset \<times> 's) list) gomap"

definition bucket :: "'s cache \<Rightarrow> 64 word \<Rightarrow> (bitset \<times> 's) list" where
  "bucket cache k = (case gm_get cache k of None \<Rightarrow> [] | Some l \<Rightarrow> l)"

definition cacheContains :: "('s \<Rightarrow> 's \<Rightarrow> bool) \<Rightarrow> 's cache \<Rightarrow> bitset \<times> 's \<Rightarrow> bool" where
  "cacheContains equal cache entry =
     list_ex (\<lambda>elem. bitset_equals (fst entry) (fst elem) \<and> equal (snd entry) (snd elem))
       (bucket cache (bitset_hash (fst entry)))"

definition cacheAdd :: "bitset \<times> 's \<Rightarrow> 's cache \<Rightarrow> 's cache" where
  "cacheAdd entry cache =
     (let hash = bitset_hash (fst entry) in gm_put hash (bucket cache hash @ [entry]) cache)"

section \<open>The loop\<close>

text \<open>
  The variables of \<open>checkSingle\<close>. \<open>longest\<close> holds pointers to sequences; a sequence carries a stamp
  that tells it apart from others with the same content.
\<close>

type_synonym partials = "(nat \<times> int list) option list"

record ('s, 'v) search =
  sr_heap :: "'v heap"
  sr_entry :: "nat option"
  sr_linearized :: bitset
  sr_cache :: "'s cache"
  sr_calls :: "(nat \<times> 's) list"
  sr_longest :: partials
  sr_stamp :: nat
  sr_state :: 's

text \<open>\<open>uint(entry.id)\<close>: a negative id becomes a huge position, out of range of every bit set.\<close>

definition to_uint :: "int \<Rightarrow> nat" where
  "to_uint i = (if 0 \<le> i then nat i else nat (i + 2 ^ 64))"

text \<open>The loop over \<open>calls\<close> that records the longest linearization containing each operation. The
  sequence is created at most once; \<open>seq\<close> is its address once it exists.\<close>

fun longest_loop :: "'v heap \<Rightarrow> int list \<Rightarrow> nat \<Rightarrow> (nat \<times> 's) list \<Rightarrow> partials \<Rightarrow> partials go" where
  "longest_loop h ids stamp [] longest = Inr longest"
| "longest_loop h ids stamp (v # vs) longest =
     go_bind (deref h (Some (fst v))) (\<lambda>e.
     go_bind (go_index longest (nd_id e)) (\<lambda>old.
     go_bind (if (case old of None \<Rightarrow> True | Some (_, s) \<Rightarrow> length ids > length s)
              then go_assign longest (nd_id e) (Some (stamp, ids)) else Inr longest) (\<lambda>longest.
     longest_loop h ids stamp vs longest)))"

definition call_ids :: "'v heap \<Rightarrow> (nat \<times> 's) list \<Rightarrow> int list" where
  "call_ids h calls = map (\<lambda>v. case h (fst v) of None \<Rightarrow> 0 | Some e \<Rightarrow> nd_id e) calls"

text \<open>One iteration: \<open>Inl\<close> is the next configuration, \<open>Inr\<close> the result of \<open>return\<close>.\<close>

definition try_call :: "('s \<Rightarrow> 'v \<Rightarrow> 'v \<Rightarrow> bool \<times> 's) \<Rightarrow> ('s \<Rightarrow> 's \<Rightarrow> bool) \<Rightarrow> nat \<Rightarrow> 'v node \<Rightarrow> 'v node \<Rightarrow>
    ('s, 'v) search \<Rightarrow> ('s, 'v) search go" where
  "try_call step equal head e matching s =
     (case step (sr_state s) (nd_value e) (nd_value matching) of (ok, newState) \<Rightarrow>
      if ok then
        go_bind (bitset_set (to_uint (nd_id e)) (bitset_clone (sr_linearized s))) (\<lambda>newLinearized.
        if \<not> cacheContains equal (sr_cache s) (newLinearized, newState) then
          let s' = s\<lparr>sr_cache := cacheAdd (newLinearized, newState) (sr_cache s),
                     sr_calls := sr_calls s @ [(the (sr_entry s), sr_state s)],
                     sr_state := newState\<rparr> in
          go_bind (bitset_set (to_uint (nd_id e)) (sr_linearized s')) (\<lambda>lin.
          go_bind (lift (sr_entry s') (sr_heap s')) (\<lambda>h.
          go_bind (deref h (Some head)) (\<lambda>headEntry.
            Inr (s'\<lparr>sr_linearized := lin, sr_heap := h, sr_entry := nd_next headEntry\<rparr>))))
        else Inr (s\<lparr>sr_entry := nd_next e\<rparr>))
      else Inr (s\<lparr>sr_entry := nd_next e\<rparr>))"

definition backtrack :: "bool \<Rightarrow> ('s, 'v) search \<Rightarrow> ('s, 'v) search go" where
  "backtrack computePartial s =
     go_bind (if computePartial
              then longest_loop (sr_heap s) (call_ids (sr_heap s) (sr_calls s)) (sr_stamp s)
                     (sr_calls s) (sr_longest s)
              else Inr (sr_longest s)) (\<lambda>longest.
     let s = s\<lparr>sr_longest := longest, sr_stamp := sr_stamp s + 1\<rparr> in
     go_bind (go_index (sr_calls s) (int (length (sr_calls s)) - 1)) (\<lambda>callsTop.
     let s = s\<lparr>sr_entry := Some (fst callsTop), sr_state := snd callsTop\<rparr> in
     go_bind (deref (sr_heap s) (sr_entry s)) (\<lambda>e.
     go_bind (bitset_clear (to_uint (nd_id e)) (sr_linearized s)) (\<lambda>lin.
     go_bind (go_slice_to (sr_calls s) (int (length (sr_calls s)) - 1)) (\<lambda>calls.
     let s = s\<lparr>sr_linearized := lin, sr_calls := calls\<rparr> in
     go_bind (unlift (sr_entry s) (sr_heap s)) (\<lambda>h.
     let s = s\<lparr>sr_heap := h\<rparr> in
     go_bind (deref h (sr_entry s)) (\<lambda>e. Inr (s\<lparr>sr_entry := nd_next e\<rparr>))))))))"

definition check_iter :: "('s \<Rightarrow> 'v \<Rightarrow> 'v \<Rightarrow> bool \<times> 's) \<Rightarrow> ('s \<Rightarrow> 's \<Rightarrow> bool) \<Rightarrow> bool \<Rightarrow> nat \<Rightarrow>
    ('s, 'v) search \<Rightarrow> (('s, 'v) search + bool \<times> partials) go" where
  "check_iter step equal computePartial head s =
     go_bind (deref (sr_heap s) (sr_entry s)) (\<lambda>e.
     if nd_match e \<noteq> None then
       go_bind (deref (sr_heap s) (nd_match e)) (\<lambda>matching.
       go_bind (try_call step equal head e matching s) (\<lambda>s. Inr (Inl s)))
     else if sr_calls s = [] then Inr (Inr (False, sr_longest s))
     else go_bind (backtrack computePartial s) (\<lambda>s. Inr (Inl s)))"

text \<open>\<open>for headEntry.next != nil\<close>; \<open>kill k\<close> is the value of the kill flag in iteration \<open>k\<close>.\<close>

partial_function (option) check_loop :: "('s \<Rightarrow> 'v \<Rightarrow> 'v \<Rightarrow> bool \<times> 's) \<Rightarrow> ('s \<Rightarrow> 's \<Rightarrow> bool) \<Rightarrow> bool \<Rightarrow>
    (nat \<Rightarrow> bool) \<Rightarrow> nat \<Rightarrow> nat \<Rightarrow> ('s, 'v) search \<Rightarrow> (bool \<times> partials) go option" where
  "check_loop step equal computePartial kill head k s =
     (case deref (sr_heap s) (Some head) of
        Inl stop \<Rightarrow> Some (Inl stop)
      | Inr headEntry \<Rightarrow>
          if nd_next headEntry = None then
            Some (Inr (True, replicate (length (sr_longest s))
              (Some (sr_stamp s, call_ids (sr_heap s) (sr_calls s)))))
          else if kill k then Some (Inr (False, sr_longest s))
          else (case check_iter step equal computePartial head s of
              Inl stop \<Rightarrow> Some (Inl stop)
            | Inr (Inr res) \<Rightarrow> Some (Inr res)
            | Inr (Inl s') \<Rightarrow> check_loop step equal computePartial kill head (k + 1) s'))"

declare check_loop.simps [code]

text \<open>The head node; \<open>nil\<close> is the nil value of \<open>interface{}\<close>, which the search never reads.\<close>

definition head_node :: "'v \<Rightarrow> 'v node" where
  "head_node nil = \<lparr>nd_value = nil, nd_match = None, nd_id = -1, nd_next = None, nd_prev = None\<rparr>"

text \<open>\<open>model.Equal\<close>, which \<open>fillDefault\<close> has set before any search starts.\<close>

definition equal_of :: "('s, 'v) Model \<Rightarrow> 's \<Rightarrow> 's \<Rightarrow> bool" where
  "equal_of model = the (m_Equal model)"

definition checkSingle :: "'v \<Rightarrow> ('s, 'v) Model \<Rightarrow> 'v entry list \<Rightarrow> bool \<Rightarrow> (nat \<Rightarrow> bool) \<Rightarrow>
    (bool \<times> partials) go option" where
  "checkSingle nil model history computePartial kill =
     (case makeLinkedEntries history of
        Inl stop \<Rightarrow> Some (Inl stop)
      | Inr (h, entry) \<Rightarrow>
          (case node_length h entry 0 of
             None \<Rightarrow> None
           | Some len \<Rightarrow>
               let n = len div 2;
                   head = length history;
                   h = h(head \<mapsto> head_node nil)
               in (case insertBefore (Some head) entry h of
                     Inl stop \<Rightarrow> Some (Inl stop)
                   | Inr h \<Rightarrow>
                       check_loop (m_Step model) (equal_of model) computePartial kill head 0
                         \<lparr>sr_heap = h, sr_entry = entry, sr_linearized = newBitset n, sr_cache = [],
                          sr_calls = [], sr_longest = replicate n None, sr_stamp = 0,
                          sr_state = m_Init model\<rparr>)))"

end
