(* ===== verification/Porcupine_Spec.thy ===== *)
theory Porcupine_Spec
  imports Porcupine_Check
begin

text \<open>
  Linearizability, the specification of the checker. A history of entries is well formed when
  the operations \<open>0, ..., n - 1\<close> have one call and one return each, the call first. A
  linearization is an order of the operations that the model accepts and in which an operation
  comes before every operation called after its return.
\<close>

section \<open>Well-formed histories\<close>

definition tag :: "'v entry \<Rightarrow> entryKind \<times> int" where
  "tag e = (en_kind e, en_id e)"

text \<open>The position of an entry of an operation.\<close>

definition pos :: "'v entry list \<Rightarrow> entryKind \<Rightarrow> nat \<Rightarrow> nat" where
  "pos es k i = length (takeWhile (\<lambda>e. tag e \<noteq> (k, int i)) es)"

definition wf_entries :: "nat \<Rightarrow> 'v entry list \<Rightarrow> bool" where
  "wf_entries n es \<longleftrightarrow> distinct (map tag es) \<and>
     set (map tag es) = {callEntry, returnEntry} \<times> int ` {0..<n} \<and>
     (\<forall>i<n. pos es callEntry i < pos es returnEntry i)"

lemma pos_correct:
  assumes "(k, int i) \<in> set (map tag es)"
  shows "pos es k i < length es" and "tag (es ! pos es k i) = (k, int i)"
proof -
  show l: "pos es k i < length es"
    using assms unfolding pos_def by (induction es) auto
  show "tag (es ! pos es k i) = (k, int i)"
    using nth_length_takeWhile [of "\<lambda>e. tag e \<noteq> (k, int i)" es] l by (simp add: pos_def)
qed

lemma wf_pos:
  assumes "wf_entries n es" and "i < n"
  shows "pos es k i < length es" and "en_kind (es ! pos es k i) = k" and "en_id (es ! pos es k i) = int i"
proof -
  have "(k, int i) \<in> set (map tag es)"
    using assms by (cases k) (auto simp: wf_entries_def simp del: set_map)
  from pos_correct [OF this] show "pos es k i < length es" "en_kind (es ! pos es k i) = k"
    "en_id (es ! pos es k i) = int i" by (simp_all add: tag_def)
qed

lemma wf_entry:
  assumes "wf_entries n es" and "j < length es"
  obtains i where "i < n" and "en_id (es ! j) = int i" and "pos es (en_kind (es ! j)) i = j"
proof -
  have "tag (es ! j) \<in> set (map tag es)" using assms(2) by simp
  then obtain i where i: "i < n" "tag (es ! j) = (en_kind (es ! j), int i)"
    using assms(1) by (auto simp: wf_entries_def tag_def simp del: set_map)
  have "(en_kind (es ! j), int i) \<in> set (map tag es)" using i(2) assms(2) nth_mem by force
  note p = pos_correct [OF this]
  have "map tag es ! pos es (en_kind (es ! j)) i = map tag es ! j" using p i assms(2) by simp
  then have "pos es (en_kind (es ! j)) i = j"
    using assms p(1) by (simp add: nth_eq_iff_index_eq wf_entries_def del: nth_map)
  then show thesis using that i by (simp add: tag_def)
qed

lemma wf_length:
  assumes "wf_entries n es"
  shows "length es = 2 * n"
proof -
  have "length es = card (set (map tag es))"
    using assms by (metis distinct_card length_map wf_entries_def)
  also have "\<dots> = card ({callEntry, returnEntry} \<times> int ` {0..<n})"
    using assms by (simp add: wf_entries_def del: set_map)
  also have "\<dots> = 2 * n" by (simp add: card_cartesian_product card_image)
  finally show ?thesis .
qed

section \<open>Linearizations\<close>

fun legal :: "('s \<Rightarrow> 'v \<Rightarrow> 'v \<Rightarrow> bool \<times> 's) \<Rightarrow> (nat \<Rightarrow> 'v) \<Rightarrow> (nat \<Rightarrow> 'v) \<Rightarrow> 's \<Rightarrow> nat list \<Rightarrow> bool" where
  "legal step inp out st [] = True"
| "legal step inp out st (a # p) =
     (case step st (inp a) (out a) of (ok, st') \<Rightarrow> ok \<and> legal step inp out st' p)"

definition val :: "'v entry list \<Rightarrow> entryKind \<Rightarrow> nat \<Rightarrow> 'v" where
  "val es k i = en_value (es ! pos es k i)"

definition before :: "'v entry list \<Rightarrow> nat \<Rightarrow> nat \<Rightarrow> bool" where
  "before es a b \<longleftrightarrow> pos es returnEntry a < pos es callEntry b"

text \<open>\<open>p\<close> orders the operations outside \<open>U\<close>, from state \<open>st\<close> on.\<close>

definition linearization :: "('s \<Rightarrow> 'v \<Rightarrow> 'v \<Rightarrow> bool \<times> 's) \<Rightarrow> 'v entry list \<Rightarrow> nat \<Rightarrow> nat set \<Rightarrow> 's \<Rightarrow> nat list \<Rightarrow> bool" where
  "linearization step es n U st p \<longleftrightarrow> distinct p \<and> set p = {0..<n} - U \<and>
     legal step (val es callEntry) (val es returnEntry) st p \<and> sorted_wrt (\<lambda>a b. \<not> before es b a) p"

definition linearizable :: "('s \<Rightarrow> 'v \<Rightarrow> 'v \<Rightarrow> bool \<times> 's) \<Rightarrow> 'v entry list \<Rightarrow> nat \<Rightarrow> nat set \<Rightarrow> 's \<Rightarrow> bool" where
  "linearizable step es n U st \<longleftrightarrow> (\<exists>p. linearization step es n U st p)"

lemma linearization_Cons:
  "linearization step es n U st (a # p) \<longleftrightarrow>
     a < n \<and> a \<notin> U \<and> (\<forall>b<n. b \<notin> U \<longrightarrow> b \<noteq> a \<longrightarrow> \<not> before es b a) \<and>
     (\<exists>st'. step st (val es callEntry a) (val es returnEntry a) = (True, st') \<and>
        linearization step es n (insert a U) st' p)"
  by (auto simp: linearization_def split: prod.splits)

lemma linearization_Nil: "linearization step es n U st [] \<longleftrightarrow> {0..<n} \<subseteq> U"
  by (auto simp: linearization_def)

text \<open>A linearization starts with an operation that no other one has to precede.\<close>

definition can_start :: "('s \<Rightarrow> 'v \<Rightarrow> 'v \<Rightarrow> bool \<times> 's) \<Rightarrow> 'v entry list \<Rightarrow> nat \<Rightarrow> nat set \<Rightarrow> 's \<Rightarrow> nat \<Rightarrow> bool" where
  "can_start step es n U st a \<longleftrightarrow>
     (case step st (val es callEntry a) (val es returnEntry a) of (ok, st') \<Rightarrow>
        ok \<and> linearizable step es n (insert a U) st')"

lemma linearizable_step:
  assumes "\<not> {0..<n} \<subseteq> U"
  shows "linearizable step es n U st \<longleftrightarrow>
    (\<exists>a<n. a \<notin> U \<and> (\<forall>b<n. b \<notin> U \<longrightarrow> b \<noteq> a \<longrightarrow> \<not> before es b a) \<and> can_start step es n U st a)"
proof
  assume "linearizable step es n U st"
  then obtain p where p: "linearization step es n U st p" by (auto simp: linearizable_def)
  with assms obtain a p' where "p = a # p'" by (cases p) (auto simp: linearization_Nil)
  with p show "\<exists>a<n. a \<notin> U \<and> (\<forall>b<n. b \<notin> U \<longrightarrow> b \<noteq> a \<longrightarrow> \<not> before es b a) \<and> can_start step es n U st a"
    by (intro exI [of _ a]) (auto simp: linearization_Cons can_start_def linearizable_def)
next
  assume "\<exists>a<n. a \<notin> U \<and> (\<forall>b<n. b \<notin> U \<longrightarrow> b \<noteq> a \<longrightarrow> \<not> before es b a) \<and> can_start step es n U st a"
  then obtain a where a: "a < n" "a \<notin> U" "\<forall>b<n. b \<notin> U \<longrightarrow> b \<noteq> a \<longrightarrow> \<not> before es b a"
      "can_start step es n U st a" by blast
  then obtain st' p where "step st (val es callEntry a) (val es returnEntry a) = (True, st')"
      "linearization step es n (insert a U) st' p"
    by (auto simp: can_start_def linearizable_def split: prod.splits)
  with a have "linearization step es n U st (a # p)" by (simp add: linearization_Cons)
  then show "linearizable step es n U st" by (auto simp: linearizable_def)
qed

section \<open>Equality of states\<close>

text \<open>The contract of \<open>model.Equal\<close>: what a state allows, a state equal to it allows too.\<close>

locale state_equality =
  fixes step :: "'s \<Rightarrow> 'v \<Rightarrow> 'v \<Rightarrow> bool \<times> 's"
    and equal :: "'s \<Rightarrow> 's \<Rightarrow> bool"
  assumes equal_step: "equal s t \<Longrightarrow> step s i o' = (True, s') \<Longrightarrow> \<exists>t'. step t i o' = (True, t') \<and> equal s' t'"
begin

lemma legal_equal: "equal s t \<Longrightarrow> legal step inp out s p \<Longrightarrow> legal step inp out t p"
proof (induction p arbitrary: s t)
  case (Cons a p)
  then obtain s' where "step s (inp a) (out a) = (True, s')" "legal step inp out s' p"
    by (auto split: prod.splits)
  with equal_step [OF Cons.prems(1)] Cons.IH show ?case by fastforce
qed simp

lemma linearizable_equal: "equal s t \<Longrightarrow> linearizable step es n U s \<Longrightarrow> linearizable step es n U t"
  using legal_equal by (fastforce simp: linearizable_def linearization_def)

end

text \<open>The equality that \<open>fillDefault\<close> supplies keeps the contract with every model.\<close>

interpretation shallow: state_equality step ShallowEqual for step
  by unfold_locales (simp add: ShallowEqual_def)

section \<open>The entries left to linearize\<close>

definition ident :: "'v entry list \<Rightarrow> nat \<Rightarrow> nat" where
  "ident es j = nat (en_id (es ! j))"

definition remaining :: "'v entry list \<Rightarrow> nat set \<Rightarrow> nat list" where
  "remaining es U = filter (\<lambda>j. ident es j \<notin> U) [0..<length es]"

lemma remaining_insert:
  "remaining es (insert i U) = filter (\<lambda>j. ident es j \<noteq> i) (remaining es U)"
  by (simp add: remaining_def conj_commute)

lemma set_remaining:
  assumes "wf_entries n es"
  shows "j \<in> set (remaining es U) \<longleftrightarrow> (\<exists>i<n. i \<notin> U \<and> (j = pos es callEntry i \<or> j = pos es returnEntry i))"
proof
  assume "j \<in> set (remaining es U)"
  then have j: "j < length es" "ident es j \<notin> U" by (auto simp: remaining_def)
  then obtain i where "i < n" "en_id (es ! j) = int i" "pos es (en_kind (es ! j)) i = j"
    using wf_entry [OF assms] by blast
  then show "\<exists>i<n. i \<notin> U \<and> (j = pos es callEntry i \<or> j = pos es returnEntry i)"
    using j by (cases "en_kind (es ! j)") (auto simp: ident_def intro!: exI [of _ i])
next
  assume "\<exists>i<n. i \<notin> U \<and> (j = pos es callEntry i \<or> j = pos es returnEntry i)"
  then show "j \<in> set (remaining es U)"
    using wf_pos [OF assms] by (auto simp: remaining_def ident_def)
qed

lemma entry_data_call:
  assumes "wf_entries n es" and "i < n"
  shows "entry_data es (pos es callEntry i) = (val es callEntry i, Some (pos es returnEntry i), int i)"
proof -
  let ?c = "pos es callEntry i" and ?r = "pos es returnEntry i"
  have r: "?r < length es" "en_kind (es ! ?r) = returnEntry" "en_id (es ! ?r) = int i"
    by (rule wf_pos [OF assms])+
  have c: "?c < ?r" using assms by (simp add: wf_entries_def)
  have "find_ret es (Suc ?c) (int i) \<noteq> None"
    using r c by (auto simp: find_ret_def filter_empty_conv split: list.splits)
  then obtain j where j: "find_ret es (Suc ?c) (int i) = Some j" by blast
  then have "j \<in> set (filter (\<lambda>j. en_kind (es ! j) = returnEntry \<and> en_id (es ! j) = int i) [Suc ?c..<length es])"
    unfolding find_ret_def by (metis (no_types, lifting) list.case_eq_if list.set_sel(1) option.distinct(1) option.inject)
  then have "j < length es" "en_kind (es ! j) = returnEntry" "en_id (es ! j) = int i" by auto
  then have "j = ?r" using wf_entry [OF assms(1)] by (metis of_nat_eq_iff)
  then show ?thesis using j wf_pos [OF assms] by (simp add: entry_data_def val_def)
qed

lemma entry_data_return:
  assumes "wf_entries n es" and "i < n"
  shows "entry_data es (pos es returnEntry i) = (val es returnEntry i, None, int i)"
  using wf_pos [OF assms] by (simp add: entry_data_def val_def)

end
