(* ===== verification/Porcupine_Search.thy ===== *)
theory Porcupine_Search
  imports Porcupine_Spec
begin

text \<open>
  Correctness of \<open>checkSingle\<close>: on a well-formed history the search ends whatever the kill flag
  does, it answers true only with a linearization, and false only when there is none or it was
  killed. The proof follows the search: a level is a set of linearized operations with the list
  of the remaining entries, and \<open>level\<close> describes the run from an entry of a level until the
  level is given up.
\<close>

section \<open>The cache\<close>

definition cached :: "'s cache \<Rightarrow> (bitset \<times> 's) set" where
  "cached C = {e. \<exists>k. e \<in> set (bucket C k)}"

lemma cached_add [simp]: "cached (cacheAdd e C) = insert e (cached C)"
proof -
  have "bucket (cacheAdd e C) k =
      (if k = bitset_hash (fst e) then bucket C k @ [e] else bucket C k)" for k
    by (simp add: bucket_def cacheAdd_def Let_def gm_get_def gm_put_def update_conv)
  then show ?thesis unfolding cached_def by (auto split: if_splits) metis+
qed

lemma cacheContains_D:
  assumes "cacheContains equal C (l, t)" and "\<forall>e\<in>cached C. length (fst e) = length l"
  shows "\<exists>t'. (l, t') \<in> cached C \<and> equal t t'"
proof -
  obtain l' t' where e: "(l', t') \<in> cached C" "bitset_equals l l'" "equal t t'"
    using assms(1) unfolding cacheContains_def list_ex_iff cached_def by fastforce
  then have "length l' = length l" using assms(2) by fastforce
  then have "bits_of l = bits_of l'" using e(2) bs.same_iff [of l l'] by (simp add: capacity_def)
  then show ?thesis using e \<open>length l' = length l\<close> bits_of_inj [of l l'] by auto
qed

text \<open>Every configuration of the cache is on the path \<open>Q\<close> to the current one or has no linearization.\<close>

definition cache_ok :: "('s \<Rightarrow> 'v \<Rightarrow> 'v \<Rightarrow> bool \<times> 's) \<Rightarrow> 'v entry list \<Rightarrow> nat \<Rightarrow> nat \<Rightarrow> (bitset \<times> 's) set \<Rightarrow>
    's cache \<Rightarrow> bool" where
  "cache_ok step es n len Q C \<longleftrightarrow> (\<forall>e\<in>cached C. length (fst e) = len \<and>
     (e \<in> Q \<or> \<not> linearizable step es n (bits_of (fst e)) (snd e)))"

section \<open>Configurations\<close>

text \<open>The search scans the entries left outside \<open>U\<close>; \<open>P\<close> are those it has passed.\<close>

definition config :: "'v entry list \<Rightarrow> nat \<Rightarrow> nat set \<Rightarrow> nat list \<Rightarrow> nat list \<Rightarrow> ('s, 'v) search \<Rightarrow> bool" where
  "config es n U P S s \<longleftrightarrow>
     linked (sr_heap s) (length es # P @ S) \<and>
     (\<forall>j<length es. data (sr_heap s) j = Some (entry_data es j)) \<and>
     P @ S = remaining es U \<and> bits_of (sr_linearized s) = U \<and> n \<le> capacity (sr_linearized s) \<and>
     length (sr_longest s) = n \<and> (\<forall>v\<in>set (sr_calls s). \<exists>i<n. fst v = pos es callEntry i) \<and>
     sr_entry s = (case S of [] \<Rightarrow> None | y # _ \<Rightarrow> Some y)"

lemma config_linked: "config es n U P S s \<Longrightarrow> linked (sr_heap s) (length es # P @ S)"
  unfolding config_def by (rule conjunct1)

lemma linked_node:
  assumes "linked h (A @ x # B)"
  obtains nx where "h x = Some nx" and "nd_next nx = (case B of [] \<Rightarrow> None | y # _ \<Rightarrow> Some y)"
  using assms by (auto simp: linked_def seg_append)

lemma data_D:
  assumes "data h x = Some (v, m, i)"
  obtains e where "h x = Some e" and "nd_id e = i"
  using assms by (auto simp: data_def)

lemma config_head:
  assumes "config es n U P S s"
  obtains nh where "deref (sr_heap s) (Some (length es)) = Inr nh"
    and "nd_next nh = (case P @ S of [] \<Rightarrow> None | y # _ \<Rightarrow> Some y)"
proof -
  have "linked (sr_heap s) ([] @ length es # P @ S)" using config_linked [OF assms] by simp
  then obtain nh where "sr_heap s (length es) = Some nh"
      "nd_next nh = (case P @ S of [] \<Rightarrow> None | y # _ \<Rightarrow> Some y)" by (rule linked_node)
  then show thesis using that by (simp add: deref_Some)
qed

lemma config_entry:
  assumes "config es n U P (x # S) s" and "wf_entries n es"
  obtains e where "deref (sr_heap s) (Some x) = Inr e" and "sr_heap s x = Some e"
    and "nd_next e = (case S of [] \<Rightarrow> None | y # _ \<Rightarrow> Some y)"
    and "(nd_value e, nd_match e, nd_id e) = entry_data es x"
proof -
  have "linked (sr_heap s) ((length es # P) @ x # S)" using config_linked [OF assms(1)] by simp
  then obtain e where e: "sr_heap s x = Some e" "nd_next e = (case S of [] \<Rightarrow> None | y # _ \<Rightarrow> Some y)"
    by (rule linked_node)
  have "x \<in> set (remaining es U)" using assms(1) unfolding config_def by (metis in_set_conv_decomp)
  then have "x < length es" by (simp add: remaining_def)
  then have "data (sr_heap s) x = Some (entry_data es x)" using assms(1) by (simp add: config_def)
  then have "(nd_value e, nd_match e, nd_id e) = entry_data es x" using e by (simp add: data_def)
  then show thesis using that e by (simp add: deref_Some)
qed

text \<open>Where the return of a call is.\<close>

lemma remaining_split:
  assumes "wf_entries n es" and "P @ x # S = remaining es U" and "x = pos es callEntry i" and "i < n"
  obtains B D where "S = B @ pos es returnEntry i # D" and "remaining es (insert i U) = P @ B @ D"
    and "i \<notin> U"
proof -
  let ?m = "pos es returnEntry i"
  have m: "?m < length es" "ident es ?m = i" "ident es x = i" "x < ?m"
    using wf_pos [OF assms(1,4)] assms by (simp_all add: ident_def wf_entries_def)
  have srt: "sorted_wrt (<) (P @ x # S)" unfolding assms(2) remaining_def by (simp add: sorted_wrt_filter)
  have "x \<in> set (remaining es U)" unfolding assms(2) [symmetric] by simp
  then have U: "i \<notin> U" using m by (auto simp: remaining_def)
  then have "?m \<in> set (P @ x # S)" unfolding assms(2) using m by (simp add: remaining_def)
  then have "?m \<in> set S" using srt m by (auto simp: sorted_wrt_append)
  then obtain B D where S: "S = B @ ?m # D" by (meson split_list)
  have "ident es j \<noteq> i" if j: "j \<in> set (P @ B @ D)" for j
  proof
    assume i: "ident es j = i"
    have "j \<in> set (remaining es U)" using j S unfolding assms(2) [symmetric] by auto
    then have "j < length es" by (simp add: remaining_def)
    then have "j = x \<or> j = ?m" using wf_entry [OF assms(1), of j] i assms(3)
      by (metis entryKind.exhaust ident_def nat_int)
    then show False using j srt S by (auto simp: sorted_wrt_append)
  qed
  then have "filter (\<lambda>j. ident es j \<noteq> i) (P @ x # S) = P @ B @ D"
    using S m by (simp add: filter_id_conv)
  then have "remaining es (insert i U) = P @ B @ D" by (simp add: remaining_insert assms(2))
  then show thesis using that S U by blast
qed

section \<open>One iteration\<close>

lemma loop_unfold:
  assumes "config es n U P S s" and "P @ S \<noteq> []"
  shows "check_loop step equal cp kill (length es) k s =
    (if kill k then Some (Inr (False, sr_longest s))
     else (case check_iter step equal cp (length es) s of
         Inl stop \<Rightarrow> Some (Inl stop) | Inr (Inr res) \<Rightarrow> Some (Inr res)
       | Inr (Inl s') \<Rightarrow> check_loop step equal cp kill (length es) (k + 1) s'))"
proof -
  obtain nh where "deref (sr_heap s) (Some (length es)) = Inr nh" "nd_next nh \<noteq> None"
    using config_head [OF assms(1)] assms(2) by (metis list.case_eq_if option.distinct(1))
  then show ?thesis by (subst check_loop.simps) auto
qed

lemma loop_done:
  assumes "config es n U [] [] s"
  shows "check_loop step equal cp kill (length es) k s =
    Some (Inr (True, replicate n (Some (sr_stamp s, call_ids (sr_heap s) (sr_calls s)))))"
proof -
  obtain nh where "deref (sr_heap s) (Some (length es)) = Inr nh" "nd_next nh = None"
    using config_head [OF assms(1)] by (metis append_Nil list.case_eq_if)
  then show ?thesis using assms by (subst check_loop.simps) (simp add: config_def)
qed

lemma iter_return:
  assumes "wf_entries n es" and "config es n U P (x # S) s" and "x = pos es returnEntry i" and "i < n"
  shows "check_iter step equal cp head s =
    (if sr_calls s = [] then Inr (Inr (False, sr_longest s))
     else go_bind (backtrack cp s) (\<lambda>s. Inr (Inl s)))"
proof -
  obtain e where "deref (sr_heap s) (Some x) = Inr e" "nd_match e = None"
    using config_entry [OF assms(2,1)] entry_data_return [OF assms(1,4)] assms(3) by (metis Pair_inject)
  then show ?thesis using assms(2) by (simp add: check_iter_def config_def)
qed

lemma iter_call:
  assumes "wf_entries n es" and "config es n U P (x # S) s" and "x = pos es callEntry i" and "i < n"
  obtains e m where "nd_value e = val es callEntry i" and "nd_value m = val es returnEntry i"
    and "nd_next e = (case S of [] \<Rightarrow> None | y # _ \<Rightarrow> Some y)" and "nd_id e = int i"
    and "check_iter step equal cp head s = go_bind (try_call step equal head e m s) (\<lambda>s. Inr (Inl s))"
proof -
  let ?m = "pos es returnEntry i"
  obtain e where e: "deref (sr_heap s) (Some x) = Inr e" "nd_next e = (case S of [] \<Rightarrow> None | y # _ \<Rightarrow> Some y)"
      "(nd_value e, nd_match e, nd_id e) = (val es callEntry i, Some ?m, int i)"
    using config_entry [OF assms(2,1)] entry_data_call [OF assms(1,4)] assms(3) by metis
  have "data (sr_heap s) ?m = Some (val es returnEntry i, None, int i)"
    using assms(2) wf_pos [OF assms(1,4)] entry_data_return [OF assms(1,4)] by (simp add: config_def)
  then obtain m where m: "sr_heap s ?m = Some m" "nd_value m = val es returnEntry i" by (auto simp: data_def)
  have "check_iter step equal cp head s = go_bind (try_call step equal head e m s) (\<lambda>s. Inr (Inl s))"
    using assms(2) e m by (simp add: check_iter_def config_def deref_Some)
  then show thesis using that [of e m] e m by simp
qed

text \<open>Passing an entry.\<close>

lemma config_pass:
  assumes "config es n U P (x # S) s"
  shows "config es n U (P @ [x]) S (s\<lparr>sr_entry := (case S of [] \<Rightarrow> None | y # _ \<Rightarrow> Some y)\<rparr>)"
  using assms unfolding config_def by (metis (no_types, lifting) append.assoc append_Cons append_Nil search.select_convs
    search.surjective search.update_convs(2))

text \<open>Descending to the level of a call.\<close>

definition descend :: "nat \<Rightarrow> nat \<Rightarrow> bitset \<Rightarrow> 's \<Rightarrow> nat list \<Rightarrow> ('s, 'v) search \<Rightarrow> ('s, 'v) search" where
  "descend x m lin st' xs s =
     s\<lparr>sr_cache := cacheAdd (lin, st') (sr_cache s), sr_calls := sr_calls s @ [(x, sr_state s)],
       sr_state := st', sr_linearized := lin, sr_heap := unlink m (unlink x (sr_heap s)),
       sr_entry := (case xs of [] \<Rightarrow> None | y # _ \<Rightarrow> Some y)\<rparr>"

lemma linked_lift:
  assumes "linked h (length es # P @ x # B @ m # D)" and "data h x = Some (v, Some m, i)"
  shows "lift (Some x) h = Inr (unlink m (unlink x h))"
    and "linked (unlink m (unlink x h)) (length es # P @ B @ D)"
    and "unlift (Some x) (unlink m (unlink x h)) = Inr h"
proof -
  obtain A l where A: "length es # P = A @ [l]" by (cases "length es # P" rule: rev_cases) auto
  have eq: "length es # P @ X = A @ l # X" for X using A by (metis append.assoc append_Cons append_Nil)
  note L = lift_eq [OF assms(1) [unfolded eq] assms(2)]
  show "lift (Some x) h = Inr (unlink m (unlink x h))" by (rule L(1))
  show "linked (unlink m (unlink x h)) (length es # P @ B @ D)" unfolding eq by (rule L(2))
  show "unlift (Some x) (unlink m (unlink x h)) = Inr h" by (rule L(3))
qed

lemma descend_config:
  assumes wf: "wf_entries n es" and c: "config es n U P (x # S) s" and x: "x = pos es callEntry i" and i: "i < n"
    and xs: "xs = remaining es (insert i U)"
    and lin: "bits_of lin = insert i U" "length lin = length (sr_linearized s)"
  shows "lift (Some x) (sr_heap s) = Inr (unlink (pos es returnEntry i) (unlink x (sr_heap s)))"
    and "config es n (insert i U) [] xs (descend x (pos es returnEntry i) lin st' xs s)"
    and "unlift (Some x) (unlink (pos es returnEntry i) (unlink x (sr_heap s))) = Inr (sr_heap s)"
proof -
  let ?m = "pos es returnEntry i"
  have "P @ x # S = remaining es U" using c unfolding config_def by blast
  from remaining_split [OF wf this x i] obtain B D where S: "S = B @ ?m # D"
      and r: "remaining es (insert i U) = P @ B @ D" by metis
  have "linked (sr_heap s) (length es # P @ x # B @ ?m # D)" using config_linked [OF c] S by simp
  moreover have "data (sr_heap s) x = Some (val es callEntry i, Some ?m, int i)"
    using c x wf_pos [OF wf i] entry_data_call [OF wf i] unfolding config_def by simp
  ultimately have L: "lift (Some x) (sr_heap s) = Inr (unlink ?m (unlink x (sr_heap s)))"
      "linked (unlink ?m (unlink x (sr_heap s))) (length es # P @ B @ D)"
      "unlift (Some x) (unlink ?m (unlink x (sr_heap s))) = Inr (sr_heap s)"
    by (rule linked_lift)+
  show "lift (Some x) (sr_heap s) = Inr (unlink ?m (unlink x (sr_heap s)))"
    "unlift (Some x) (unlink ?m (unlink x (sr_heap s))) = Inr (sr_heap s)" by (rule L(1), rule L(3))
  show "config es n (insert i U) [] xs (descend x ?m lin st' xs s)"
    using c L(2) lin x i unfolding config_def descend_def xs r by (auto simp: capacity_def)
qed

text \<open>What an iteration at a call does.\<close>

lemma iter_call_cases:
  assumes wf: "wf_entries n es" and c: "config es n U P (x # S) s" and x: "x = pos es callEntry i" and i: "i < n"
    and step: "step (sr_state s) (val es callEntry i) (val es returnEntry i) = (ok, st')"
    and ins: "bitset_set i (sr_linearized s) = Inr lin" "bits_of lin = insert i U"
      "length lin = length (sr_linearized s)"
  shows "check_iter step equal cp (length es) s =
    Inr (Inl (if ok \<and> \<not> cacheContains equal (sr_cache s) (lin, st')
              then descend x (pos es returnEntry i) lin st' (remaining es (insert i U)) s
              else s\<lparr>sr_entry := (case S of [] \<Rightarrow> None | y # _ \<Rightarrow> Some y)\<rparr>))"
proof -
  let ?xs = "remaining es (insert i U)"
  obtain e m where e: "nd_value e = val es callEntry i" "nd_value m = val es returnEntry i"
      "nd_next e = (case S of [] \<Rightarrow> None | y # _ \<Rightarrow> Some y)" "nd_id e = int i"
      "check_iter step equal cp (length es) s = go_bind (try_call step equal (length es) e m s) (\<lambda>s. Inr (Inl s))"
    using iter_call [OF wf c x i] by metis
  have entry: "sr_entry s = Some x" using c by (simp add: config_def)
  have clone: "bitset_clone (sr_linearized s) = sr_linearized s"
    by (simp add: bitset_clone_def go_copy_def)
  note d = descend_config [OF wf c x i refl ins(2,3)]
  obtain nh where nh: "deref (unlink (pos es returnEntry i) (unlink x (sr_heap s))) (Some (length es)) = Inr nh"
      "nd_next nh = (case ?xs of [] \<Rightarrow> None | y # _ \<Rightarrow> Some y)"
    using config_head [OF d(2) [of st']] by (auto simp: descend_def)
  have "try_call step equal (length es) e m s =
      Inr (if ok \<and> \<not> cacheContains equal (sr_cache s) (lin, st')
           then descend x (pos es returnEntry i) lin st' ?xs s else s\<lparr>sr_entry := nd_next e\<rparr>)"
    using e step ins(1) entry d(1) nh clone
    by (simp add: try_call_def to_uint_def Let_def descend_def)
  then show ?thesis using e by simp
qed

text \<open>Going back up: what \<open>backtrack\<close> leaves is the level above, at the entry after the call.\<close>

lemma longest_loop_ok:
  assumes "wf_entries n es" and "\<forall>j<length es. data h j = Some (entry_data es j)"
    and "\<forall>v\<in>set vs. \<exists>i<n. fst v = pos es callEntry i" and "length lg = n"
  shows "\<exists>lg'. longest_loop h ids t vs lg = Inr lg' \<and> length lg' = n"
  using assms(3,4)
proof (induction vs arbitrary: lg)
  case (Cons v vs)
  then obtain i where i: "i < n" "fst v = pos es callEntry i" by auto
  then have "data h (fst v) = Some (val es callEntry i, Some (pos es returnEntry i), int i)"
    using assms(1,2) wf_pos(1) entry_data_call by metis
  then obtain e where e: "h (fst v) = Some e" "nd_id e = int i" by (auto simp: data_def)
  let ?lg = "if (case lg ! i of None \<Rightarrow> True | Some (_, s) \<Rightarrow> length ids > length s) then lg[i := Some (t, ids)] else lg"
  have "longest_loop h ids t (v # vs) lg = longest_loop h ids t vs ?lg"
    using e i Cons.prems(2) by (simp add: deref_Some go_simps)
  then show ?case using Cons.IH [of ?lg] Cons.prems by simp
qed simp

lemma backtrack_descend:
  assumes wf: "wf_entries n es" and c: "config es n U P (x # S) s" and x: "x = pos es callEntry i" and i: "i < n"
    and U: "i \<notin> U"
    and lin: "bits_of lin = insert i U" "length lin = length (sr_linearized s)"
    and s': "s' = (descend x (pos es returnEntry i) lin st' xs s)\<lparr>sr_entry := r, sr_cache := C, sr_longest := lg, sr_stamp := t\<rparr>"
    and lg: "length lg = n" and xs: "xs = remaining es (insert i U)"
  shows "\<exists>lg' t'. length lg' = n \<and> backtrack cp s' =
    Inr (s\<lparr>sr_entry := (case S of [] \<Rightarrow> None | y # _ \<Rightarrow> Some y), sr_cache := C, sr_longest := lg', sr_stamp := t'\<rparr>)"
proof -
  let ?m = "pos es returnEntry i" and ?h = "unlink (pos es returnEntry i) (unlink x (sr_heap s))"
  note d = descend_config [OF wf c x i xs lin]
  have h': "sr_heap s' = ?h" "sr_calls s' = sr_calls s @ [(x, sr_state s)]" "sr_linearized s' = lin"
    by (simp_all add: s' descend_def)
  have slg: "sr_longest s' = lg" "sr_stamp s' = t" by (simp_all add: s')
  have dat: "\<forall>j<length es. data ?h j = Some (entry_data es j)" and calls: "\<forall>v\<in>set (sr_calls s'). \<exists>i<n. fst v = pos es callEntry i"
    using c i x h' by (auto simp: config_def)
  obtain lg' where lg': "length lg' = n" "(if cp then longest_loop (sr_heap s') (call_ids (sr_heap s') (sr_calls s')) (sr_stamp s')
      (sr_calls s') (sr_longest s') else Inr (sr_longest s')) = Inr lg'"
    using longest_loop_ok [OF wf dat calls lg, of "call_ids ?h (sr_calls s')" t] lg
    by (cases cp) (auto simp add: h'(1) slg)
  have "x < length es" using wf_pos [OF wf i] x by simp
  then have "data ?h x = Some (val es callEntry i, Some ?m, int i)"
    using dat entry_data_call [OF wf i] x by simp
  then obtain e where e: "?h x = Some e" "nd_id e = int i" by (rule data_D)
  have cap: "i < capacity lin" using c i lin(2) by (simp add: config_def capacity_def)
  from bs.remove_ok [OF cap] obtain lin2 where lin2: "bitset_clear i lin = Inr lin2"
      "bits_of lin2 = insert i U - {i}" "length lin2 = length lin" using lin by (auto simp: capacity_def)
  have "bits_of (sr_linearized s) = U" using c by (simp add: config_def)
  then have same: "lin2 = sr_linearized s" using lin2 lin(2) U by (intro bits_of_inj) auto
  obtain ex where ex: "deref (sr_heap s) (Some x) = Inr ex" "nd_next ex = (case S of [] \<Rightarrow> None | y # _ \<Rightarrow> Some y)"
    using config_entry [OF c wf] by metis
  have "backtrack cp s' =
    Inr (s\<lparr>sr_entry := (case S of [] \<Rightarrow> None | y # _ \<Rightarrow> Some y), sr_cache := C, sr_longest := lg', sr_stamp := t + 1\<rparr>)"
    unfolding backtrack_def lg'(2)
    using e lin2(1) same ex d(3)
    by (simp add: h' Let_def go_simps nth_append deref_Some to_uint_def) (simp add: s' descend_def)
  then show ?thesis using lg'(1) by blast
qed

section \<open>A level\<close>

text \<open>How the run from a configuration of a level ends: the whole search succeeds with a
  linearization, or it is killed, or it gives the level up at a return, with everything but the
  cache and the record of long sequences as it was.\<close>

definition outcome :: "('s \<Rightarrow> 'v \<Rightarrow> 'v \<Rightarrow> bool \<times> 's) \<Rightarrow> ('s \<Rightarrow> 's \<Rightarrow> bool) \<Rightarrow> bool \<Rightarrow> (nat \<Rightarrow> bool) \<Rightarrow>
    'v entry list \<Rightarrow> nat \<Rightarrow> nat set \<Rightarrow> (bitset \<times> 's) set \<Rightarrow> nat \<Rightarrow> ('s, 'v) search \<Rightarrow> bool" where
  "outcome step equal cp kill es n U Q k s \<longleftrightarrow>
     (\<exists>p t. check_loop step equal cp kill (length es) k s =
        Some (Inr (True, replicate n (Some (t, call_ids (sr_heap s) (sr_calls s) @ map int p)))) \<and>
        linearization step es n U (sr_state s) p) \<or>
     (\<exists>k' lg. kill k' \<and> check_loop step equal cp kill (length es) k s = Some (Inr (False, lg))) \<or>
     (\<not> linearizable step es n U (sr_state s) \<and>
      (\<exists>k' P r S i C lg t s'. s' = s\<lparr>sr_entry := Some r, sr_cache := C, sr_longest := lg, sr_stamp := t\<rparr> \<and>
        check_loop step equal cp kill (length es) k s = check_loop step equal cp kill (length es) k' s' \<and>
        config es n U P (r # S) s' \<and> r = pos es returnEntry i \<and> i < n \<and>
        cache_ok step es n (length (sr_linearized s)) Q C))"

lemma outcome_move:
  assumes "outcome step equal cp kill es n U Q k' s'"
    and "check_loop step equal cp kill (length es) k s = check_loop step equal cp kill (length es) k' s'"
    and "s' = s\<lparr>sr_entry := r, sr_cache := C, sr_longest := lg, sr_stamp := t\<rparr>"
  shows "outcome step equal cp kill es n U Q k s"
proof -
  have s': "sr_heap s' = sr_heap s" "sr_calls s' = sr_calls s" "sr_state s' = sr_state s"
    "sr_linearized s' = sr_linearized s"
    "\<And>r C lg t. s'\<lparr>sr_entry := r, sr_cache := C, sr_longest := lg, sr_stamp := t\<rparr> =
       s\<lparr>sr_entry := r, sr_cache := C, sr_longest := lg, sr_stamp := t\<rparr>"
    by (simp_all add: assms(3))
  show ?thesis using assms(1) unfolding outcome_def s' assms(2) .
qed

lemma call_ids_data: "call_ids h calls = map (\<lambda>v. case data h (fst v) of None \<Rightarrow> 0 | Some (_, _, i) \<Rightarrow> i) calls"
  by (auto simp: call_ids_def data_def split: option.splits)

lemma call_ids_unlink [simp]: "call_ids (unlink x h) calls = call_ids h calls"
  by (simp add: call_ids_data)

text \<open>While the passed entries are calls, no operation has to precede the current one.\<close>

lemma none_before:
  assumes wf: "wf_entries n es" and rem: "P @ x # S = remaining es U" and b: "b < n" "b \<notin> U"
    and P: "\<forall>y\<in>set P. \<exists>i<n. y = pos es callEntry i" and x: "x = pos es callEntry i"
  shows "\<not> before es b i"
proof
  let ?r = "pos es returnEntry b"
  assume "before es b i"
  then have less: "?r < x" by (simp add: before_def x)
  have srt: "sorted_wrt (<) (P @ x # S)" unfolding rem remaining_def by (simp add: sorted_wrt_filter)
  have "?r \<in> set (P @ x # S)" unfolding rem using set_remaining [OF wf] b by blast
  then have "?r \<in> set P" using less srt by (auto simp: sorted_wrt_append)
  with P obtain j where "j < n" "?r = pos es callEntry j" by blast
  then show False using wf_pos(2) [OF wf, of j callEntry] wf_pos(2) [OF wf b(1), of returnEntry] by simp
qed

text \<open>At a return, every call that may come first has been tried.\<close>

lemma level_given_up:
  assumes wf: "wf_entries n es" and rem: "P @ x # S = remaining es U" and x: "x = pos es returnEntry i" "i < n"
    and P: "\<forall>y\<in>set P. \<exists>j<n. y = pos es callEntry j \<and> \<not> can_start step es n U st j"
  shows "\<not> linearizable step es n U st"
proof -
  have srt: "sorted_wrt (<) (P @ x # S)" unfolding rem remaining_def by (simp add: sorted_wrt_filter)
  have "x \<in> set (remaining es U)" unfolding rem [symmetric] by simp
  then have i: "i \<notin> U" using wf_pos [OF wf x(2)] x by (auto simp: remaining_def ident_def)
  have "\<not> can_start step es n U st a" if a: "a < n" "a \<notin> U" "\<forall>b<n. b \<notin> U \<longrightarrow> b \<noteq> a \<longrightarrow> \<not> before es b a" for a
  proof -
    let ?c = "pos es callEntry a"
    have "\<not> x < ?c"
    proof (cases "a = i")
      case True
      then show ?thesis using wf x by (auto simp: wf_entries_def)
    next
      case False
      then show ?thesis using a(3) i x by (auto simp: before_def)
    qed
    moreover have "?c \<in> set (P @ x # S)" unfolding rem using set_remaining [OF wf] a by blast
    moreover have "?c \<noteq> x" using wf_pos(2) [OF wf a(1), of callEntry] wf_pos(2) [OF wf x(2), of returnEntry] x by auto
    ultimately have "?c \<in> set P" using srt by (auto simp: sorted_wrt_append)
    then obtain j where "j < n" "?c = pos es callEntry j" "\<not> can_start step es n U st j" using P by blast
    moreover from this have "j = a" using wf_pos(3) [OF wf, of j callEntry] wf_pos(3) [OF wf a(1), of callEntry] by simp
    ultimately show ?thesis by simp
  qed
  moreover have "\<not> {0..<n} \<subseteq> U" using x(2) i by auto
  ultimately show ?thesis by (auto simp: linearizable_step)
qed

text \<open>After a failed descent the scan goes on behind the call.\<close>

lemma level_return:
  assumes wf: "wf_entries n es" and c: "config es n U P (x # S) s" and x: "x = pos es callEntry i" and i: "i < n" "i \<notin> U"
    and lin: "bits_of lin = insert i U" "length lin = length (sr_linearized s)"
    and s2: "s2 = descend x (pos es returnEntry i) lin st' xs s" and xs: "xs = remaining es (insert i U)"
    and k: "check_loop step equal cp kill (length es) k s = check_loop step equal cp kill (length es) (k + 1) s2"
    and out: "outcome step equal cp kill es n (insert i U) Q' (k + 1) s2"
    and front: "\<forall>b<n. b \<notin> U \<longrightarrow> b \<noteq> i \<longrightarrow> \<not> before es b i"
    and step: "step (sr_state s) (val es callEntry i) (val es returnEntry i) = (True, st')"
    and IH: "\<And>s' k' C' lg t. s' = s\<lparr>sr_entry := (case S of [] \<Rightarrow> None | y # _ \<Rightarrow> Some y), sr_cache := C', sr_longest := lg, sr_stamp := t\<rparr> \<Longrightarrow>
      length lg = n \<Longrightarrow> cache_ok step es n (length lin) Q' C' \<Longrightarrow> \<not> linearizable step es n (insert i U) st' \<Longrightarrow>
      outcome step equal cp kill es n U Q k' s'"
  shows "outcome step equal cp kill es n U Q k s"
proof -
  have s2': "sr_state s2 = st'" "sr_linearized s2 = lin" "sr_calls s2 = sr_calls s @ [(x, sr_state s)]"
    "sr_heap s2 = unlink (pos es returnEntry i) (unlink x (sr_heap s))" by (simp_all add: s2 descend_def)
  have "data (sr_heap s) x = Some (val es callEntry i, Some (pos es returnEntry i), int i)"
    using c x wf_pos [OF wf i(1)] entry_data_call [OF wf i(1)] unfolding config_def by simp
  then have ids: "call_ids (sr_heap s2) (sr_calls s2) = call_ids (sr_heap s) (sr_calls s) @ [int i]"
    by (simp add: s2' call_ids_data)
  consider (found) p t where "check_loop step equal cp kill (length es) (k + 1) s2 =
        Some (Inr (True, replicate n (Some (t, call_ids (sr_heap s2) (sr_calls s2) @ map int p))))"
        "linearization step es n (insert i U) st' p"
    | (killed) k' lg where "kill k'" "check_loop step equal cp kill (length es) (k + 1) s2 = Some (Inr (False, lg))"
    | (up) k' P' r S' j C lg t s' where "\<not> linearizable step es n (insert i U) st'"
        "s' = s2\<lparr>sr_entry := Some r, sr_cache := C, sr_longest := lg, sr_stamp := t\<rparr>"
        "check_loop step equal cp kill (length es) (k + 1) s2 = check_loop step equal cp kill (length es) k' s'"
        "config es n (insert i U) P' (r # S') s'" "r = pos es returnEntry j" "j < n"
        "cache_ok step es n (length lin) Q' C"
    using out unfolding outcome_def s2'(1,2) by blast
  then show ?thesis
  proof cases
    case found
    then have "linearization step es n U (sr_state s) (i # p)" using front step i by (simp add: linearization_Cons)
    moreover have "check_loop step equal cp kill (length es) k s =
        Some (Inr (True, replicate n (Some (t, call_ids (sr_heap s) (sr_calls s) @ map int (i # p)))))"
      using found(1) k ids by simp
    ultimately show ?thesis unfolding outcome_def by blast
  next
    case killed
    then show ?thesis unfolding outcome_def k by blast
  next
    case up
    have lg: "length lg = n" using up(2,4) by (simp add: config_def)
    have calls: "sr_calls s' \<noteq> []" using up(2) s2' by simp
    from backtrack_descend [OF wf c x i lin up(2) [unfolded s2] lg xs, of cp] obtain lg' t' where b: "length lg' = n"
        "backtrack cp s' = Inr (s\<lparr>sr_entry := (case S of [] \<Rightarrow> None | y # _ \<Rightarrow> Some y), sr_cache := C, sr_longest := lg', sr_stamp := t'\<rparr>)"
        (is "_ = Inr ?s'") by blast
    have unf: "check_loop step equal cp kill (length es) k s =
        (if kill k' then Some (Inr (False, sr_longest s')) else check_loop step equal cp kill (length es) (k' + 1) ?s')"
      unfolding k up(3) by (subst loop_unfold [OF up(4)]) (simp_all add: iter_return [OF wf up(4,5,6)] calls b(2))
    show ?thesis
    proof (cases "kill k'")
      case True
      then show ?thesis using unf unfolding outcome_def by auto
    next
      case False
      have "outcome step equal cp kill es n U Q (k' + 1) ?s'" by (rule IH [OF refl b(1) up(7,1)])
      then show ?thesis by (rule outcome_move) (use unf False in simp_all)
    qed
  qed
qed

lemma level_call:
  assumes wf: "wf_entries n es" and eq: "state_equality step equal"
    and c: "config es n U P (x # S) s" and x: "x = pos es callEntry i" "i < n"
    and P: "\<forall>y\<in>set P. \<exists>j<n. y = pos es callEntry j"
    and C: "cache_ok step es n (length (sr_linearized s)) Q (sr_cache s)" and Q: "\<forall>e\<in>Q. bits_of (fst e) \<subseteq> U"
    and down: "\<And>s' Q'. config es n (insert i U) [] (remaining es (insert i U)) s' \<Longrightarrow> remaining es (insert i U) \<noteq> [] \<Longrightarrow>
      cache_ok step es n (length (sr_linearized s')) Q' (sr_cache s') \<Longrightarrow> \<forall>e\<in>Q'. bits_of (fst e) \<subseteq> insert i U \<Longrightarrow>
      outcome step equal cp kill es n (insert i U) Q' (k + 1) s'"
    and on: "\<And>s' k'. config es n U (P @ [x]) S s' \<Longrightarrow> sr_state s' = sr_state s \<Longrightarrow>
      cache_ok step es n (length (sr_linearized s')) Q (sr_cache s') \<Longrightarrow> \<not> can_start step es n U (sr_state s) i \<Longrightarrow>
      outcome step equal cp kill es n U Q k' s'"
  shows "outcome step equal cp kill es n U Q k s"
proof (cases "kill k")
  case True
  then show ?thesis unfolding outcome_def using loop_unfold [OF c] by auto
next
  case False
  let ?xs = "remaining es (insert i U)"
  have rem: "P @ x # S = remaining es U" and U: "bits_of (sr_linearized s) = U" and cap: "i < capacity (sr_linearized s)"
    using c x(2) by (simp_all add: config_def)
  obtain iU: "i \<notin> U" using remaining_split [OF wf rem x] by metis
  obtain lin where lin: "bitset_set i (sr_linearized s) = Inr lin" "bits_of lin = insert i U"
      "length lin = length (sr_linearized s)"
    using bs.insert_ok [OF cap] U by (auto simp: capacity_def)
  obtain ok st' where step: "step (sr_state s) (val es callEntry i) (val es returnEntry i) = (ok, st')" by fastforce
  have start: "can_start step es n U (sr_state s) i \<longleftrightarrow> ok \<and> linearizable step es n (insert i U) st'"
    by (simp add: can_start_def step)
  note iter = iter_call_cases [where step = step, OF wf c x step lin]
  let ?s2 = "descend x (pos es returnEntry i) lin st' ?xs s"
  show ?thesis
  proof (cases "ok \<and> \<not> cacheContains equal (sr_cache s) (lin, st')")
    case pass: False
    let ?s = "s\<lparr>sr_entry := (case S of [] \<Rightarrow> None | y # _ \<Rightarrow> Some y)\<rparr>"
    have no: "\<not> can_start step es n U (sr_state s) i"
    proof
      assume can: "can_start step es n U (sr_state s) i"
      with pass start have "cacheContains equal (sr_cache s) (lin, st')" by blast
      then obtain t' where t: "(lin, t') \<in> cached (sr_cache s)" "equal st' t'"
        using cacheContains_D C lin(3) unfolding cache_ok_def by metis
      have "(lin, t') \<notin> Q" using Q iU lin(2) by fastforce
      then have "\<not> linearizable step es n (insert i U) t'" using C t lin(2) unfolding cache_ok_def by fastforce
      with can start t(2) show False using state_equality.linearizable_equal [OF eq] by blast
    qed
    have "outcome step equal cp kill es n U Q (k + 1) ?s"
      by (rule on [OF config_pass [OF c]]) (use C no in simp_all)
    then show ?thesis
      by (rule outcome_move [where C = "sr_cache s" and lg = "sr_longest s" and t = "sr_stamp s"])
        (use loop_unfold [OF c] iter False pass in auto)
  next
    case desc: True
    have k: "check_loop step equal cp kill (length es) k s = check_loop step equal cp kill (length es) (k + 1) ?s2"
      using loop_unfold [OF c] iter False desc by simp
    have c2: "config es n (insert i U) [] ?xs ?s2" by (rule descend_config(2) [OF wf c x refl lin(2,3)])
    let ?Q = "insert (lin, st') Q"
    have CQ: "cache_ok step es n (length (sr_linearized ?s2)) ?Q (sr_cache ?s2)"
      using C lin(3) unfolding cache_ok_def by (auto simp: descend_def)
    have Q2: "\<forall>e\<in>?Q. bits_of (fst e) \<subseteq> insert i U" using Q lin(2) by auto
    have out: "outcome step equal cp kill es n (insert i U) ?Q (k + 1) ?s2"
    proof (cases "?xs = []")
      case True
      have "{0..<n} \<subseteq> insert i U" using set_remaining [OF wf, of _ "insert i U"] True by fastforce
      then have "linearization step es n (insert i U) (sr_state ?s2) []" by (simp add: linearization_Nil)
      then show ?thesis unfolding outcome_def using loop_done [of es n "insert i U" ?s2] c2 True
        by (metis append_Nil2 list.simps(8))
    qed (rule down [OF c2 _ CQ Q2])
    have front: "\<forall>b<n. b \<notin> U \<longrightarrow> b \<noteq> i \<longrightarrow> \<not> before es b i" using none_before [OF wf rem _ _ P x(1)] by blast
    show ?thesis
    proof (rule level_return [OF wf c x iU lin(2,3) refl refl k out front])
      show "step (sr_state s) (val es callEntry i) (val es returnEntry i) = (True, st')" using step desc by simp
    next
      fix s' k' C' lg t
      assume s': "s' = s\<lparr>sr_entry := (case S of [] \<Rightarrow> None | y # _ \<Rightarrow> Some y), sr_cache := C', sr_longest := lg, sr_stamp := t\<rparr>"
        and lg: "length lg = n" and C': "cache_ok step es n (length lin) ?Q C'"
        and dead: "\<not> linearizable step es n (insert i U) st'"
      have "config es n U (P @ [x]) S s'" using config_pass [OF c] lg unfolding s' config_def
        by (elim conjE) simp
      moreover have "cache_ok step es n (length (sr_linearized s')) Q (sr_cache s')"
        using C' dead lin(2,3) unfolding cache_ok_def s' by auto
      ultimately show "outcome step equal cp kill es n U Q k' s'"
        by (intro on) (simp_all add: s' start dead)
    qed
  qed
qed

lemma level_scan:
  assumes wf: "wf_entries n es" and eq: "state_equality step equal" and ne: "remaining es U \<noteq> []"
    and down: "\<And>i s' Q' k'. i < n \<Longrightarrow> i \<notin> U \<Longrightarrow> config es n (insert i U) [] (remaining es (insert i U)) s' \<Longrightarrow>
      remaining es (insert i U) \<noteq> [] \<Longrightarrow> cache_ok step es n (length (sr_linearized s')) Q' (sr_cache s') \<Longrightarrow>
      \<forall>e\<in>Q'. bits_of (fst e) \<subseteq> insert i U \<Longrightarrow> outcome step equal cp kill es n (insert i U) Q' k' s'"
    and Q: "\<forall>e\<in>Q. bits_of (fst e) \<subseteq> U"
  shows "config es n U P S s \<Longrightarrow> cache_ok step es n (length (sr_linearized s)) Q (sr_cache s) \<Longrightarrow>
    \<forall>y\<in>set P. \<exists>j<n. y = pos es callEntry j \<and> \<not> can_start step es n U (sr_state s) j \<Longrightarrow>
    outcome step equal cp kill es n U Q k s"
proof (induction S arbitrary: P s k)
  case Nil
  then have P: "P = remaining es U" by (simp add: config_def)
  then obtain y where "y \<in> set (remaining es U)" using ne by (cases "remaining es U") auto
  then obtain i where i: "i < n" "i \<notin> U" using set_remaining [OF wf] by blast
  then have "pos es returnEntry i \<in> set P" unfolding P using set_remaining [OF wf] by blast
  then obtain j where "j < n" "pos es returnEntry i = pos es callEntry j" using Nil.prems(3) by blast
  then show ?case using wf_pos(2) [OF wf, of j callEntry] wf_pos(2) [OF wf i(1), of returnEntry] by simp
next
  case (Cons x S)
  have rem: "P @ x # S = remaining es U" using Cons.prems(1) by (simp add: config_def)
  then have "x \<in> set (remaining es U)" by (metis in_set_conv_decomp)
  then obtain i where i: "i < n" "i \<notin> U" and x: "x = pos es callEntry i \<or> x = pos es returnEntry i"
    using set_remaining [OF wf] by blast
  show ?case
  proof (cases "x = pos es returnEntry i")
    case True
    have "s = s\<lparr>sr_entry := Some x, sr_cache := sr_cache s, sr_longest := sr_longest s, sr_stamp := sr_stamp s\<rparr>"
      using Cons.prems(1) by (simp add: config_def)
    then show ?thesis unfolding outcome_def
      using level_given_up [OF wf rem True i(1) Cons.prems(3)] Cons.prems(1,2) True i(1) by metis
  next
    case False
    with x have x: "x = pos es callEntry i" by simp
    have P: "\<forall>y\<in>set P. \<exists>j<n. y = pos es callEntry j" using Cons.prems(3) by blast
    show ?thesis
    proof (rule level_call [OF wf eq Cons.prems(1) x i(1) P Cons.prems(2) Q])
      fix s' Q'
      assume "config es n (insert i U) [] (remaining es (insert i U)) s'" "remaining es (insert i U) \<noteq> []"
        "cache_ok step es n (length (sr_linearized s')) Q' (sr_cache s')" "\<forall>e\<in>Q'. bits_of (fst e) \<subseteq> insert i U"
      then show "outcome step equal cp kill es n (insert i U) Q' (k + 1) s'" by (rule down [OF i])
    next
      fix s' k'
      assume a: "config es n U (P @ [x]) S s'" "sr_state s' = sr_state s"
        "cache_ok step es n (length (sr_linearized s')) Q (sr_cache s')" "\<not> can_start step es n U (sr_state s) i"
      show "outcome step equal cp kill es n U Q k' s'"
        by (rule Cons.IH [OF a(1,3)]) (use Cons.prems(3) x i a(2,4) in auto)
    qed
  qed
qed

lemma level:
  assumes wf: "wf_entries n es" and eq: "state_equality step equal"
  shows "config es n U [] (remaining es U) s \<Longrightarrow> remaining es U \<noteq> [] \<Longrightarrow>
    cache_ok step es n (length (sr_linearized s)) Q (sr_cache s) \<Longrightarrow> \<forall>e\<in>Q. bits_of (fst e) \<subseteq> U \<Longrightarrow>
    outcome step equal cp kill es n U Q k s"
proof (induction "card ({0..<n} - U)" arbitrary: U s Q k rule: less_induct)
  case less
  show ?case
  proof (rule level_scan [OF wf eq less.prems(2) _ less.prems(4,1,3)])
    fix i s' Q' k'
    assume i: "i < n" "i \<notin> U"
    have "{0..<n} - insert i U = ({0..<n} - U) - {i}" by blast
    then have "card ({0..<n} - insert i U) < card ({0..<n} - U)" using i by (metis DiffI atLeast0LessThan card_Diff1_less finite_Diff finite_atLeastLessThan lessThan_iff)
    note IH = less.hyps [OF this]
    assume "config es n (insert i U) [] (remaining es (insert i U)) s'" "remaining es (insert i U) \<noteq> []"
      "cache_ok step es n (length (sr_linearized s')) Q' (sr_cache s')" "\<forall>e\<in>Q'. bits_of (fst e) \<subseteq> insert i U"
    then show "outcome step equal cp kill es n (insert i U) Q' k' s'" by (rule IH)
  qed simp
qed

section \<open>The search\<close>

text \<open>The list \<open>checkSingle\<close> starts from.\<close>

lemma start_config:
  assumes wf: "wf_entries n es"
  obtains h h' where "makeLinkedEntries es = Inr (h, if es = [] then None else Some 0)"
    and "node_length h (if es = [] then None else Some 0) 0 = Some (2 * n)"
    and "insertBefore (Some (length es)) (if es = [] then None else Some 0) (h(length es \<mapsto> head_node nil)) = Inr h'"
    and "linked h' (length es # [0..<length es])" and "\<forall>j<length es. data h' j = Some (entry_data es j)"
proof -
  obtain h where h: "makeLinkedEntries es = Inr (h, if es = [] then None else Some 0)"
      "linked h [0..<length es]" "\<forall>j<length es. data h j = Some (entry_data es j)"
    using makeLinkedEntries_eq by blast
  let ?h = "h(length es \<mapsto> head_node nil)"
  have first: "(case [0..<length es] of [] \<Rightarrow> None | y # _ \<Rightarrow> Some y) = (if es = [] then None else Some 0)"
    by (cases es) (simp_all add: upt_conv_Cons del: upt_Suc)
  have len: "node_length h (if es = [] then None else Some 0) 0 = Some (2 * n)"
    using node_length_seg [of h None "[0..<length es]" 0] h(2) unfolding first linked_def
    by (simp add: wf_length [OF wf])
  have dat: "\<forall>j<length es. data ?h j = Some (entry_data es j)" using h(3) by (simp add: data_def)
  have lk: "linked ?h [0..<length es]" using h(2) seg_cong [of "[0..<length es]" ?h h] by (simp add: linked_def)
  show thesis
  proof (cases "es = []")
    case True
    then have "insertBefore (Some (length es)) (if es = [] then None else Some 0) ?h = Inr ?h" by (simp add: insertBefore_def)
    moreover have "linked ?h (length es # [0..<length es])" using True by (simp add: linked_def head_node_def)
    ultimately show thesis using that h(1) len dat by blast
  next
    case False
    then have up: "[0..<length es] = 0 # [1..<length es]" by (simp add: upt_conv_Cons)
    have "\<exists>h'. insertBefore (Some (length es)) (Some 0) ?h = Inr h' \<and> linked h' (length es # 0 # [1..<length es]) \<and> data h' = data ?h"
      by (rule insertBefore_first [OF lk [unfolded up]]) (use False in \<open>auto simp: head_node_def\<close>)
    then show thesis using that h(1) len dat False up by auto
  qed
qed

text \<open>When the first level is given up, the search is over.\<close>

lemma outcome_top:
  assumes wf: "wf_entries n es" and out: "outcome step equal cp kill es n U Q k s" and calls: "sr_calls s = []"
  shows "(\<exists>p t. check_loop step equal cp kill (length es) k s = Some (Inr (True, replicate n (Some (t, map int p)))) \<and>
       linearization step es n U (sr_state s) p) \<or>
    (\<exists>lg. check_loop step equal cp kill (length es) k s = Some (Inr (False, lg)) \<and>
       ((\<exists>k. kill k) \<or> \<not> linearizable step es n U (sr_state s)))"
  using out unfolding outcome_def
proof (elim disjE exE conjE, goal_cases)
  case (1 p t)
  then show ?case using calls by (auto simp: call_ids_def)
next
  case (2 k' lg)
  then show ?case by blast
next
  case (3 k' P r S i C lg t s')
  have "sr_calls s' = []" using 3(2) calls by simp
  then have "check_loop step equal cp kill (length es) k' s' = Some (Inr (False, sr_longest s'))"
    using iter_return [OF wf 3(4-6)] by (subst loop_unfold [OF 3(4)]) simp_all
  then show ?case using 3(1,3) by auto
qed

lemma checkSingle_result:
  assumes wf: "wf_entries n es" and eq: "state_equality (m_Step model) (equal_of model)"
  shows "(\<exists>p t. checkSingle nil model es cp kill = Some (Inr (True, replicate n (Some (t, map int p)))) \<and>
       linearization (m_Step model) es n {} (m_Init model) p) \<or>
    (\<exists>lg. checkSingle nil model es cp kill = Some (Inr (False, lg)) \<and>
       ((\<exists>k. kill k) \<or> \<not> linearizable (m_Step model) es n {} (m_Init model)))"
proof -
  obtain h h' where h: "makeLinkedEntries es = Inr (h, if es = [] then None else Some 0)"
      "node_length h (if es = [] then None else Some 0) 0 = Some (2 * n)"
      "insertBefore (Some (length es)) (if es = [] then None else Some 0) (h(length es \<mapsto> head_node nil)) = Inr h'"
      "linked h' (length es # [0..<length es])" "\<forall>j<length es. data h' j = Some (entry_data es j)"
    by (rule start_config [OF wf])
  let ?s = "\<lparr>sr_heap = h', sr_entry = if es = [] then None else Some 0, sr_linearized = newBitset n, sr_cache = [],
    sr_calls = [], sr_longest = replicate n None, sr_stamp = 0, sr_state = m_Init model\<rparr>"
  let ?L = "check_loop (m_Step model) (equal_of model) cp kill (length es)"
  have chk: "checkSingle nil model es cp kill = ?L 0 ?s" using h(1-3) by (simp add: checkSingle_def Let_def)
  have rem: "remaining es {} = [0..<length es]" by (simp add: remaining_def)
  have c: "config es n {} [] (remaining es {}) ?s"
    using h(4,5) bs.elems_empty bs.cap_empty unfolding config_def rem
    by (cases es) (simp_all add: upt_conv_Cons del: upt_Suc)
  have ids: "call_ids (sr_heap ?s) (sr_calls ?s) = []" by (simp add: call_ids_def)
  show ?thesis
  proof (cases "remaining es {} = []")
    case True
    then have "linearization (m_Step model) es n {} (m_Init model) []"
      using rem wf_length [OF wf] by (simp add: linearization_Nil)
    moreover have "?L 0 ?s = Some (Inr (True, replicate n (Some (0, map int []))))"
      using loop_done [of es n "{}" ?s] c True by (simp add: call_ids_def)
    ultimately show ?thesis unfolding chk by blast
  next
    case False
    have C: "cache_ok (m_Step model) es n (length (sr_linearized ?s)) {} (sr_cache ?s)"
      by (simp add: cache_ok_def cached_def bucket_def)
    have "outcome (m_Step model) (equal_of model) cp kill es n {} {} 0 ?s"
      by (rule level [OF wf eq c False C]) simp
    from outcome_top [OF wf this] show ?thesis unfolding chk by simp
  qed
qed

end
