(* ===== verification/Porcupine_Parallel.thy ===== *)
theory Porcupine_Parallel
  imports Porcupine_Search "HOL-Library.Multiset"
begin

text \<open>
  \<open>checkParallel\<close> of \<open>porcupine/checker.go\<close>: one goroutine per partition of the history, a channel
  for their answers, a kill flag and a timeout. The main goroutine and the searches take turns as
  a schedule of events says. Every run of enough events ends, and with the right answer; with no
  partition at all and no timeout the main goroutine waits forever.
\<close>

section \<open>The goroutines\<close>

datatype par_phase = Waiting | Draining

text \<open>\<open>pr_pending\<close> are the searches that run; \<open>pr_results\<close> is the buffered channel.\<close>

record par =
  pr_ok :: bool
  pr_timedOut :: bool
  pr_count :: nat
  pr_kill :: bool
  pr_pending :: "nat list"
  pr_results :: "bool list"
  pr_longest :: "partials list"
  pr_phase :: par_phase

text \<open>\<open>Finish i m\<close>: search \<open>i\<close> ends; when the kill flag is up, it saw it from its iteration \<open>m\<close> on.\<close>

datatype par_event = Finish nat nat | Receive | TimeOut | Drain

definition par_init :: "'v entry list list \<Rightarrow> par" where
  "par_init history =
     \<lparr>pr_ok = True, pr_timedOut = False, pr_count = 0, pr_kill = False, pr_pending = [0..<length history],
      pr_results = [], pr_longest = replicate (length history) [], pr_phase = Waiting\<rparr>"

definition par_finish :: "'v \<Rightarrow> ('s, 'v) Model \<Rightarrow> 'v entry list list \<Rightarrow> bool \<Rightarrow> nat \<Rightarrow> nat \<Rightarrow> par \<Rightarrow> par option" where
  "par_finish nil model history computeInfo i m s =
     (if i \<in> set (pr_pending s) then
        (case checkSingle nil model (history ! i) computeInfo (\<lambda>k. pr_kill s \<and> m \<le> k) of
           Some (Inr (ok, l)) \<Rightarrow>
             Some (s\<lparr>pr_pending := remove1 i (pr_pending s), pr_longest := (pr_longest s)[i := l],
                     pr_results := pr_results s @ [ok]\<rparr>)
         | _ \<Rightarrow> None)
      else None)"

definition par_receive :: "'v entry list list \<Rightarrow> bool \<Rightarrow> par \<Rightarrow> par option" where
  "par_receive history computeInfo s =
     (case (pr_phase s, pr_results s) of
        (Waiting, result # rest) \<Rightarrow>
          let s = s\<lparr>pr_results := rest, pr_count := pr_count s + 1, pr_ok := pr_ok s \<and> result\<rparr> in
          if \<not> pr_ok s \<and> \<not> computeInfo then Some (s\<lparr>pr_kill := True, pr_phase := Draining\<rparr>)
          else if pr_count s \<ge> length history then Some (s\<lparr>pr_phase := Draining\<rparr>)
          else Some s
      | _ \<Rightarrow> None)"

definition par_timeout :: "int \<Rightarrow> par \<Rightarrow> par option" where
  "par_timeout timeout s =
     (if timeout > 0 \<and> pr_phase s = Waiting
      then Some (s\<lparr>pr_timedOut := True, pr_kill := True, pr_phase := Draining\<rparr>) else None)"

definition par_drain :: "'v entry list list \<Rightarrow> bool \<Rightarrow> par \<Rightarrow> par option" where
  "par_drain history computeInfo s =
     (case (pr_phase s, pr_results s) of
        (Draining, _ # rest) \<Rightarrow>
          if computeInfo \<and> pr_count s < length history
          then Some (s\<lparr>pr_results := rest, pr_count := pr_count s + 1\<rparr>) else None
      | _ \<Rightarrow> None)"

fun par_step :: "'v \<Rightarrow> ('s, 'v) Model \<Rightarrow> 'v entry list list \<Rightarrow> bool \<Rightarrow> int \<Rightarrow> par_event \<Rightarrow> par \<Rightarrow> par option" where
  "par_step nil model history computeInfo timeout (Finish i m) s = par_finish nil model history computeInfo i m s"
| "par_step nil model history computeInfo timeout Receive s = par_receive history computeInfo s"
| "par_step nil model history computeInfo timeout TimeOut s = par_timeout timeout s"
| "par_step nil model history computeInfo timeout Drain s = par_drain history computeInfo s"

fun par_exec :: "'v \<Rightarrow> ('s, 'v) Model \<Rightarrow> 'v entry list list \<Rightarrow> bool \<Rightarrow> int \<Rightarrow> par_event list \<Rightarrow> par \<Rightarrow> par option" where
  "par_exec nil model history computeInfo timeout [] s = Some s"
| "par_exec nil model history computeInfo timeout (e # evs) s =
     (case par_step nil model history computeInfo timeout e s of
        None \<Rightarrow> None | Some s' \<Rightarrow> par_exec nil model history computeInfo timeout evs s')"

text \<open>The main goroutine has left the loops.\<close>

definition par_done :: "'v entry list list \<Rightarrow> bool \<Rightarrow> par \<Rightarrow> bool" where
  "par_done history computeInfo s \<longleftrightarrow>
     pr_phase s = Draining \<and> (computeInfo \<longrightarrow> pr_count s \<ge> length history)"

definition par_result :: "par \<Rightarrow> CheckResult" where
  "par_result s = (if \<not> pr_ok s then Illegal else if pr_timedOut s then Unknown else Ok)"

text \<open>The distinct sequences of \<open>longest[i]\<close>, told apart by their addresses; \<open>range\<close> over a map
  has no order, so they are a multiset.\<close>

definition partials_of :: "partials \<Rightarrow> int list multiset" where
  "partials_of l = mset (map snd (remdups (List.map_filter id l)))"

record 'v linearizationInfo =
  li_history :: "'v entry list list"
  li_partialLinearizations :: "int list multiset list"

definition par_info :: "'v entry list list \<Rightarrow> bool \<Rightarrow> par \<Rightarrow> 'v linearizationInfo" where
  "par_info history computeInfo s =
     (if computeInfo then \<lparr>li_history = history, li_partialLinearizations = map partials_of (pr_longest s)\<rparr>
      else \<lparr>li_history = [], li_partialLinearizations = []\<rparr>)"

text \<open>The result of a complete run; an incomplete one has none.\<close>

definition checkParallel :: "'v \<Rightarrow> ('s, 'v) Model \<Rightarrow> 'v entry list list \<Rightarrow> bool \<Rightarrow> int \<Rightarrow> par_event list \<Rightarrow>
    (CheckResult \<times> 'v linearizationInfo) option" where
  "checkParallel nil model history computeInfo timeout evs =
     (case par_exec nil model history computeInfo timeout evs (par_init history) of
        None \<Rightarrow> None
      | Some s \<Rightarrow> if par_done history computeInfo s
                  then Some (par_result s, par_info history computeInfo s) else None)"

section \<open>The invariant\<close>

definition answer :: "('s, 'v) Model \<Rightarrow> 'v entry list \<Rightarrow> bool" where
  "answer model es \<longleftrightarrow> linearizable (m_Step model) es (length es div 2) {} (m_Init model)"

definition par_shape :: "'v entry list list \<Rightarrow> par \<Rightarrow> bool" where
  "par_shape history s \<longleftrightarrow> distinct (pr_pending s) \<and> set (pr_pending s) \<subseteq> {0..<length history} \<and>
     pr_count s + length (pr_results s) + length (pr_pending s) = length history"

definition answered :: "('s, 'v) Model \<Rightarrow> 'v entry list list \<Rightarrow> nat set \<Rightarrow> bool" where
  "answered model history pending \<longleftrightarrow> (\<forall>i<length history. i \<notin> pending \<longrightarrow> answer model (history ! i))"

definition par_inv :: "('s, 'v) Model \<Rightarrow> 'v entry list list \<Rightarrow> par \<Rightarrow> bool" where
  "par_inv model history s \<longleftrightarrow> par_shape history s \<and>
     (\<not> pr_ok s \<longrightarrow> \<not> answered model history {}) \<and>
     (pr_phase s = Waiting \<longrightarrow> \<not> pr_kill s \<and> \<not> pr_timedOut s \<and> (pr_count s < length history \<or> history = []) \<and>
        (pr_ok s \<and> (\<forall>r\<in>set (pr_results s). r) \<longleftrightarrow> answered model history (set (pr_pending s)))) \<and>
     (pr_phase s = Draining \<longrightarrow> pr_ok s \<longrightarrow> \<not> pr_timedOut s \<longrightarrow> answered model history {})"

lemma answered_remove:
  assumes "i < length history" and "i \<in> pending"
  shows "answered model history (pending - {i}) \<longleftrightarrow> answered model history pending \<and> answer model (history ! i)"
  using assms unfolding answered_def by blast

lemma answered_empty: "answered model history {} \<Longrightarrow> answered model history pending"
  by (simp add: answered_def)

text \<open>What the checker relies on: histories are well formed and \<open>Equal\<close> keeps its contract.\<close>

definition par_assms :: "('s, 'v) Model \<Rightarrow> 'v entry list list \<Rightarrow> bool" where
  "par_assms model history \<longleftrightarrow> state_equality (m_Step model) (equal_of model) \<and>
     (\<forall>es\<in>set history. wf_entries (length es div 2) es)"

lemma checkSingle_answer:
  assumes "par_assms model history" and "i < length history"
  shows "\<exists>ok l. checkSingle nil model (history ! i) cp kill = Some (Inr (ok, l)) \<and>
    (ok \<longrightarrow> answer model (history ! i)) \<and> (\<not> ok \<longrightarrow> (\<exists>k. kill k) \<or> \<not> answer model (history ! i))"
  using checkSingle_result [of "length (history ! i) div 2" "history ! i" model nil cp kill] assms
  by (auto simp: par_assms_def answer_def linearizable_def)

lemma par_init_inv: "par_inv model history (par_init history)"
  by (auto simp: par_inv_def par_init_def par_shape_def answered_def)

lemma par_finish_inv:
  assumes A: "par_assms model history" and I: "par_inv model history s"
    and f: "par_finish nil model history computeInfo i m s = Some s'"
  shows "par_inv model history s'"
proof -
  have i: "i \<in> set (pr_pending s)" using f by (auto simp: par_finish_def split: if_splits)
  then have il: "i < length history" using I by (auto simp: par_inv_def par_shape_def)
  obtain ok l where c: "checkSingle nil model (history ! i) computeInfo (\<lambda>k. pr_kill s \<and> m \<le> k) = Some (Inr (ok, l))"
      "ok \<longrightarrow> answer model (history ! i)" "\<not> ok \<longrightarrow> pr_kill s \<or> \<not> answer model (history ! i)"
    using checkSingle_answer [OF A il, of nil computeInfo "\<lambda>k. pr_kill s \<and> m \<le> k"] by blast
  have s': "s' = s\<lparr>pr_pending := remove1 i (pr_pending s), pr_longest := (pr_longest s)[i := l],
      pr_results := pr_results s @ [ok]\<rparr>"
    using f i c(1) by (simp add: par_finish_def)
  have len: "length (pr_pending s) = Suc (length (remove1 i (pr_pending s)))"
    using i length_pos_if_in_set [OF i] by (simp add: length_remove1)
  have d: "set (remove1 i (pr_pending s)) = set (pr_pending s) - {i}" using I by (simp add: par_inv_def par_shape_def)
  have shape: "par_shape history s'" using I len unfolding par_inv_def par_shape_def s' by auto
  have "pr_phase s = Waiting \<Longrightarrow> ok \<longleftrightarrow> answer model (history ! i)" using I c by (auto simp: par_inv_def)
  then show ?thesis using I shape answered_remove [OF il i, of model] unfolding par_inv_def by (simp add: s' d) blast
qed

lemma par_receive_inv:
  assumes I: "par_inv model history s" and f: "par_receive history computeInfo s = Some s'"
  shows "par_inv model history s'"
proof -
  obtain r rest where r: "pr_phase s = Waiting" "pr_results s = r # rest"
    using f by (auto simp: par_receive_def split: par_phase.splits list.splits)
  have shape: "par_shape history s'" using f I r unfolding par_inv_def par_shape_def
    by (auto simp: par_receive_def Let_def split: if_splits)
  have I': "\<not> pr_kill s" "\<not> pr_timedOut s" using I r(1) by (simp_all add: par_inv_def)
  have flags: "pr_ok s' = (pr_ok s \<and> r)" "pr_results s' = rest" "pr_pending s' = pr_pending s" "\<not> pr_timedOut s'"
      "pr_phase s' = Waiting \<longrightarrow> \<not> pr_kill s' \<and> pr_count s' < length history"
      "pr_phase s' = Draining \<longrightarrow> pr_ok s' \<longrightarrow> pr_count s' \<ge> length history"
    using f I' r by (auto simp: par_receive_def Let_def split: if_splits)
  have "answered model history {}" if "pr_phase s' = Draining" "pr_ok s'"
  proof -
    have "pr_count s' + length rest + length (pr_pending s') = length history" "pr_count s' \<ge> length history"
      using shape flags(2) flags(6) [rule_format, OF that] unfolding par_shape_def by simp_all
    then have "length (pr_pending s') = 0" "length rest = 0" by linarith+
    then have "pr_pending s' = []" "rest = []" by simp_all
    then show ?thesis using I r flags that by (simp add: par_inv_def)
  qed
  moreover have "\<not> pr_ok s' \<Longrightarrow> \<not> answered model history {}"
    using I r flags answered_empty [of model history] unfolding par_inv_def by auto
  ultimately show ?thesis using I r shape flags unfolding par_inv_def by auto
qed

lemma par_step_inv:
  assumes "par_assms model history" and "par_inv model history s"
    and "par_step nil model history computeInfo timeout e s = Some s'"
  shows "par_inv model history s'"
proof (cases e)
  case (Finish i m)
  then show ?thesis using par_finish_inv assms by fastforce
next
  case Receive
  then show ?thesis using par_receive_inv assms by fastforce
next
  case TimeOut
  then show ?thesis using assms by (auto simp: par_timeout_def par_inv_def par_shape_def split: if_splits)
next
  case Drain
  then show ?thesis using assms
    by (auto simp: par_drain_def par_inv_def par_shape_def split: par_phase.splits list.splits if_splits)
qed

lemma par_exec_inv:
  assumes "par_assms model history"
  shows "par_inv model history s \<Longrightarrow> par_exec nil model history computeInfo timeout evs s = Some s' \<Longrightarrow>
    par_inv model history s'"
  by (induction evs arbitrary: s) (auto split: option.splits intro: par_step_inv [OF assms])

section \<open>Runs end\<close>

definition par_size :: "par \<Rightarrow> nat" where
  "par_size s = 2 * length (pr_pending s) + length (pr_results s) + (if pr_phase s = Waiting then 1 else 0)"

lemma double_less: "x \<in> set xs \<Longrightarrow> Suc (2 * (length xs - Suc 0)) < 2 * length xs"
  by (cases xs) auto

lemma par_step_size:
  assumes "par_step nil model history computeInfo timeout e s = Some s'"
  shows "par_size s' < par_size s"
  using assms
  by (cases e) (auto simp: par_size_def par_finish_def par_receive_def par_timeout_def par_drain_def Let_def
    length_remove1 double_less split: if_splits option.splits sum.splits par_phase.splits list.splits prod.splits)

lemma par_exec_size:
  "par_exec nil model history computeInfo timeout evs s = Some s' \<Longrightarrow> length evs + par_size s' \<le> par_size s"
proof (induction evs arbitrary: s)
  case (Cons e evs)
  then obtain s1 where "par_step nil model history computeInfo timeout e s = Some s1"
      "par_exec nil model history computeInfo timeout evs s1 = Some s'" by (auto split: option.splits)
  then show ?case using Cons.IH [of s1] par_step_size by fastforce
qed simp

lemma par_progress:
  assumes A: "par_assms model history" and I: "par_inv model history s"
    and ne: "history \<noteq> []" and nd: "\<not> par_done history computeInfo s"
  shows "\<exists>e s'. par_step nil model history computeInfo timeout e s = Some s'"
proof (cases "pr_pending s")
  case (Cons i js)
  then have i: "i < length history" "i \<in> set (pr_pending s)" using I by (auto simp: par_inv_def par_shape_def)
  obtain ok l where "checkSingle nil model (history ! i) computeInfo (\<lambda>k. pr_kill s \<and> 0 \<le> k) = Some (Inr (ok, l))"
    using checkSingle_answer [OF A i(1)] by blast
  then have "par_step nil model history computeInfo timeout (Finish i 0) s \<noteq> None"
    using i(2) by (simp add: par_finish_def)
  then show ?thesis by blast
next
  case Nil
  then have count: "pr_count s + length (pr_results s) = length history" using I by (simp add: par_inv_def par_shape_def)
  show ?thesis
  proof (cases "pr_phase s")
    case Waiting
    then obtain r rest where "pr_results s = r # rest" using count I ne by (cases "pr_results s") (auto simp: par_inv_def)
    then have "par_step nil model history computeInfo timeout Receive s \<noteq> None"
      using Waiting by (simp add: par_receive_def Let_def)
    then show ?thesis by blast
  next
    case Draining
    then have "computeInfo" "pr_count s < length history" using nd by (auto simp: par_done_def)
    moreover from this obtain r rest where "pr_results s = r # rest" using count by (cases "pr_results s") auto
    ultimately have "par_step nil model history computeInfo timeout Drain s \<noteq> None"
      using Draining by (simp add: par_drain_def)
    then show ?thesis by blast
  qed
qed

end
