(* ===== verification/Porcupine_API.thy ===== *)
theory Porcupine_API
  imports Porcupine_Parallel
begin

text \<open>
  The checker as its clients call it: \<open>checkOperations\<close> and \<open>checkEvents\<close> of \<open>porcupine/checker.go\<close>
  and the exported functions of \<open>porcupine/porcupine.go\<close>, with linearizability of operations with
  real-time intervals as their specification.
\<close>

section \<open>The exported functions\<close>

definition checkOperations :: "('v entry list \<Rightarrow> 'v entry list) \<Rightarrow> 'v \<Rightarrow> ('s, 'v) Model \<Rightarrow> 'v Operation list \<Rightarrow>
    bool \<Rightarrow> int \<Rightarrow> par_event list \<Rightarrow> (CheckResult \<times> 'v linearizationInfo) option" where
  "checkOperations srt nil model history verbose timeout evs =
     (let model = fillDefault model;
          partitions = the (m_Partition model) history;
          l = map (makeEntries srt) partitions
      in checkParallel nil model l verbose timeout evs)"

definition checkEvents :: "'v \<Rightarrow> ('s, 'v) Model \<Rightarrow> 'v Event list \<Rightarrow> bool \<Rightarrow> int \<Rightarrow> par_event list \<Rightarrow>
    (CheckResult \<times> 'v linearizationInfo) option" where
  "checkEvents nil model history verbose timeout evs =
     (let model = fillDefault model;
          partitions = the (m_PartitionEvent model) history;
          l = map (\<lambda>subhistory. convertEntries (renumber subhistory)) partitions
      in checkParallel nil model l verbose timeout evs)"

definition CheckOperations :: "('v entry list \<Rightarrow> 'v entry list) \<Rightarrow> 'v \<Rightarrow> ('s, 'v) Model \<Rightarrow> 'v Operation list \<Rightarrow>
    par_event list \<Rightarrow> bool option" where
  "CheckOperations srt nil model history evs =
     map_option (\<lambda>(res, _). res = Ok) (checkOperations srt nil model history False 0 evs)"

definition CheckOperationsTimeout :: "('v entry list \<Rightarrow> 'v entry list) \<Rightarrow> 'v \<Rightarrow> ('s, 'v) Model \<Rightarrow>
    'v Operation list \<Rightarrow> int \<Rightarrow> par_event list \<Rightarrow> CheckResult option" where
  "CheckOperationsTimeout srt nil model history timeout evs =
     map_option fst (checkOperations srt nil model history False timeout evs)"

definition CheckOperationsVerbose :: "('v entry list \<Rightarrow> 'v entry list) \<Rightarrow> 'v \<Rightarrow> ('s, 'v) Model \<Rightarrow>
    'v Operation list \<Rightarrow> int \<Rightarrow> par_event list \<Rightarrow> (CheckResult \<times> 'v linearizationInfo) option" where
  "CheckOperationsVerbose srt nil model history timeout evs = checkOperations srt nil model history True timeout evs"

definition CheckEvents :: "'v \<Rightarrow> ('s, 'v) Model \<Rightarrow> 'v Event list \<Rightarrow> par_event list \<Rightarrow> bool option" where
  "CheckEvents nil model history evs =
     map_option (\<lambda>(res, _). res = Ok) (checkEvents nil model history False 0 evs)"

definition CheckEventsTimeout :: "'v \<Rightarrow> ('s, 'v) Model \<Rightarrow> 'v Event list \<Rightarrow> int \<Rightarrow> par_event list \<Rightarrow>
    CheckResult option" where
  "CheckEventsTimeout nil model history timeout evs =
     map_option fst (checkEvents nil model history False timeout evs)"

definition CheckEventsVerbose :: "'v \<Rightarrow> ('s, 'v) Model \<Rightarrow> 'v Event list \<Rightarrow> int \<Rightarrow> par_event list \<Rightarrow>
    (CheckResult \<times> 'v linearizationInfo) option" where
  "CheckEventsVerbose nil model history timeout evs = checkEvents nil model history True timeout evs"

section \<open>Linearizability of operations\<close>

definition linearizable_ops :: "('s \<Rightarrow> 'v \<Rightarrow> 'v \<Rightarrow> bool \<times> 's) \<Rightarrow> 's \<Rightarrow> 'v Operation list \<Rightarrow> bool" where
  "linearizable_ops step init ops \<longleftrightarrow>
     (\<exists>p. distinct p \<and> set p = {0..<length ops} \<and>
        legal step (\<lambda>i. op_Input (ops ! i)) (\<lambda>i. op_Output (ops ! i)) init p \<and>
        sorted_wrt (\<lambda>a b. \<not> op_Return (ops ! b) < op_Call (ops ! a)) p)"

text \<open>The contract of \<open>sort.Sort(byTime(entries))\<close>, and an instance.\<close>

definition sorts_byTime :: "('v entry list \<Rightarrow> 'v entry list) \<Rightarrow> bool" where
  "sorts_byTime srt \<longleftrightarrow> (\<forall>es. mset (srt es) = mset es \<and> sorted_wrt (\<lambda>x y. \<not> byTime_Less y x) (srt es))"

fun insert_byTime :: "'v entry \<Rightarrow> 'v entry list \<Rightarrow> 'v entry list" where
  "insert_byTime e [] = [e]"
| "insert_byTime e (x # xs) = (if byTime_Less x e then x # insert_byTime e xs else e # x # xs)"

definition sort_byTime :: "'v entry list \<Rightarrow> 'v entry list" where
  "sort_byTime es = foldr insert_byTime es []"

lemma mset_insert_byTime: "mset (insert_byTime e xs) = add_mset e (mset xs)"
  by (induction xs) auto

lemma byTime_trans: "\<not> byTime_Less y x \<Longrightarrow> \<not> byTime_Less z y \<Longrightarrow> \<not> byTime_Less z x"
  by (auto simp: byTime_Less_def split: if_splits) (metis entryKind.exhaust)+

lemma byTime_asym: "byTime_Less x y \<Longrightarrow> \<not> byTime_Less y x"
  by (auto simp: byTime_Less_def split: if_splits)

lemma sorted_insert_byTime:
  "sorted_wrt (\<lambda>x y. \<not> byTime_Less y x) xs \<Longrightarrow> sorted_wrt (\<lambda>x y. \<not> byTime_Less y x) (insert_byTime e xs)"
proof (induction xs)
  case (Cons x xs)
  have s: "set (insert_byTime e xs) = insert e (set xs)"
    using mset_insert_byTime [of e xs] by (metis set_mset_add_mset_insert set_mset_mset)
  show ?case
  proof (cases "byTime_Less x e")
    case True
    then show ?thesis using Cons s byTime_asym [of x e] by auto
  next
    case False
    then show ?thesis using Cons.prems byTime_trans [of x e] by auto
  qed
qed simp

lemma sorts_sort_byTime: "sorts_byTime sort_byTime"
proof -
  have "mset (foldr insert_byTime es []) = mset es \<and> sorted_wrt (\<lambda>x y. \<not> byTime_Less y x) (foldr insert_byTime es [])"
    for es :: "'a entry list"
    by (induction es) (simp_all add: mset_insert_byTime sorted_insert_byTime)
  then show ?thesis by (simp add: sorts_byTime_def sort_byTime_def)
qed

text \<open>The entries of a history: a call and a return of each operation.\<close>

definition call_of :: "'v Operation list \<Rightarrow> nat \<Rightarrow> 'v entry" where
  "call_of ops i = \<lparr>en_kind = callEntry, en_value = op_Input (ops ! i), en_id = int i,
     en_time = op_Call (ops ! i), en_clientId = op_ClientId (ops ! i)\<rparr>"

definition return_of :: "'v Operation list \<Rightarrow> nat \<Rightarrow> 'v entry" where
  "return_of ops i = \<lparr>en_kind = returnEntry, en_value = op_Output (ops ! i), en_id = int i,
     en_time = op_Return (ops ! i), en_clientId = op_ClientId (ops ! i)\<rparr>"

lemma entries_loop_eq:
  "entries_loop (int k) (drop k ops) = concat (map (\<lambda>i. [call_of ops i, return_of ops i]) [k..<length ops])"
proof (induction "length ops - k" arbitrary: k)
  case 0
  then show ?case by simp
next
  case (Suc d)
  then have k: "k < length ops" by simp
  have "entries_loop (int k) (drop k ops) = call_of ops k # return_of ops k # entries_loop (int (Suc k)) (drop (Suc k) ops)"
    using k by (simp add: Cons_nth_drop_Suc [symmetric] call_of_def return_of_def add.commute)
  then show ?case using Suc.hyps(1) [of "Suc k"] Suc.hyps(2) k by (simp add: upt_conv_Cons)
qed

lemma makeEntries_mset:
  assumes "sorts_byTime srt"
  shows "mset (makeEntries srt ops) = mset (concat (map (\<lambda>i. [call_of ops i, return_of ops i]) [0..<length ops]))"
  using assms entries_loop_eq [of 0 ops] by (simp add: makeEntries_def sorts_byTime_def)

lemma tags_concat:
  "map tag (concat (map (\<lambda>i. [call_of ops i, return_of ops i]) xs)) =
     concat (map (\<lambda>i. [(callEntry, int i), (returnEntry, int i)]) xs)"
  by (induction xs) (simp_all add: tag_def call_of_def return_of_def)

lemma distinct_tags:
  "distinct xs \<Longrightarrow> distinct (concat (map (\<lambda>i. [(callEntry, int i), (returnEntry, int i)]) xs))"
  by (induction xs) auto

lemma makeEntries_entry:
  assumes srt: "sorts_byTime srt" and i: "i < length ops"
  shows "makeEntries srt ops ! pos (makeEntries srt ops) callEntry i = call_of ops i"
    and "makeEntries srt ops ! pos (makeEntries srt ops) returnEntry i = return_of ops i"
    and "pos (makeEntries srt ops) k i < length (makeEntries srt ops)"
proof -
  let ?es = "makeEntries srt ops"
  have set: "set ?es = (\<Union>i<length ops. {call_of ops i, return_of ops i})"
    using arg_cong [OF makeEntries_mset [OF srt, of ops], of set_mset] by auto
  have "(k, int i) \<in> set (map tag ?es)" for k
    using i by (cases k) (force simp: set tag_def call_of_def return_of_def)+
  note p = pos_correct [OF this]
  show "pos ?es k i < length ?es" by (rule p)
  have t: "tag (call_of ops j) = (callEntry, int j)" "tag (return_of ops j) = (returnEntry, int j)" for j
    by (simp_all add: tag_def call_of_def return_of_def)
  have "?es ! pos ?es k i = (if k = callEntry then call_of ops i else return_of ops i)" for k
  proof -
    have "?es ! pos ?es k i \<in> set ?es" using p(1) by simp
    then obtain j where "?es ! pos ?es k i = call_of ops j \<or> ?es ! pos ?es k i = return_of ops j"
      unfolding set by blast
    then show ?thesis using p(2) [of k] t [of j] by auto
  qed
  then show "?es ! pos ?es callEntry i = call_of ops i" "?es ! pos ?es returnEntry i = return_of ops i" by simp_all
qed

lemma sorted_by_pos:
  assumes srt: "sorts_byTime srt" and "a < length ops" and "b < length ops" and "op_Call (ops ! b) \<le> op_Return (ops ! b)"
  shows "before (makeEntries srt ops) a b \<longleftrightarrow> op_Return (ops ! a) < op_Call (ops ! b)"
    and "pos (makeEntries srt ops) callEntry b < pos (makeEntries srt ops) returnEntry b"
proof -
  let ?es = "makeEntries srt ops"
  let ?c = "pos ?es callEntry b" and ?r = "pos ?es returnEntry a" and ?q = "pos ?es returnEntry b"
  note ca = makeEntries_entry [OF srt assms(2)] and cb = makeEntries_entry [OF srt assms(3)]
  have srt': "\<not> byTime_Less (?es ! j) (?es ! i)" if "i < j" "j < length ?es" for i j
    using srt that unfolding sorts_byTime_def makeEntries_def sorted_wrt_iff_nth_less by blast
  have ne: "?c \<noteq> ?r" "?c \<noteq> ?q"
    using ca cb by (metis call_of_def entry.select_convs(1) entryKind.distinct(1) return_of_def)+
  show "?c < ?q"
  proof (rule ccontr)
    assume "\<not> ?c < ?q"
    then have "\<not> byTime_Less (call_of ops b) (return_of ops b)" using srt' [of ?q ?c] cb ne by auto
    then show False using assms(4) by (auto simp: byTime_Less_def call_of_def return_of_def split: if_splits)
  qed
  have "?r < ?c \<Longrightarrow> \<not> byTime_Less (call_of ops b) (return_of ops a)" using srt' [of ?r ?c] ca cb by simp
  moreover have "?c < ?r \<Longrightarrow> \<not> byTime_Less (return_of ops a) (call_of ops b)" using srt' [of ?c ?r] ca cb by simp
  moreover have "byTime_Less (return_of ops a) (call_of ops b) \<longleftrightarrow> op_Return (ops ! a) < op_Call (ops ! b)"
    "byTime_Less (call_of ops b) (return_of ops a) \<longleftrightarrow> \<not> op_Return (ops ! a) < op_Call (ops ! b)"
    by (auto simp: byTime_Less_def call_of_def return_of_def)
  ultimately show "before ?es a b \<longleftrightarrow> op_Return (ops ! a) < op_Call (ops ! b)"
    using ne(1) unfolding before_def by (metis linorder_neqE_nat)
qed

lemma makeEntries_wf:
  assumes srt: "sorts_byTime srt" and t: "\<forall>x\<in>set ops. op_Call x \<le> op_Return x"
  shows "wf_entries (length ops) (makeEntries srt ops)"
proof -
  let ?es = "makeEntries srt ops"
  let ?ts = "concat (map (\<lambda>i. [(callEntry, int i), (returnEntry, int i)]) [0..<length ops])"
  have m: "mset (map tag ?es) = mset ?ts"
    using arg_cong [OF makeEntries_mset [OF srt, of ops], of "image_mset tag"] tags_concat [of ops "[0..<length ops]"]
    by (metis mset_map)
  have "distinct (map tag ?es)" using mset_eq_imp_distinct_iff [OF m] distinct_tags [of "[0..<length ops]"] by simp
  moreover have "set (map tag ?es) = set ?ts" using mset_eq_setD [OF m] .
  moreover have "set ?ts = {callEntry, returnEntry} \<times> int ` {0..<length ops}" by auto
  moreover have "\<forall>i<length ops. pos ?es callEntry i < pos ?es returnEntry i"
    using sorted_by_pos(2) [OF srt] t by (meson nth_mem)
  ultimately show ?thesis by (simp add: wf_entries_def)
qed

lemma legal_cong:
  "(\<And>a. a \<in> set p \<Longrightarrow> inp a = inp' a \<and> out a = out' a) \<Longrightarrow> legal step inp out st p = legal step inp' out' st p"
  by (induction p arbitrary: st) (auto split: prod.splits)

lemma sorted_wrt_cong_set: "(\<And>a b. a \<in> set p \<Longrightarrow> b \<in> set p \<Longrightarrow> P a b = Q a b) \<Longrightarrow> sorted_wrt P p = sorted_wrt Q p"
  by (induction p) auto

lemma makeEntries_linearizable:
  assumes srt: "sorts_byTime srt" and t: "\<forall>x\<in>set ops. op_Call x \<le> op_Return x"
  shows "linearizable step (makeEntries srt ops) (length ops) {} init \<longleftrightarrow> linearizable_ops step init ops"
proof -
  let ?es = "makeEntries srt ops"
  have v: "val ?es callEntry i = op_Input (ops ! i) \<and> val ?es returnEntry i = op_Output (ops ! i)" if "i < length ops" for i
    using makeEntries_entry [OF srt that] by (simp add: val_def call_of_def return_of_def)
  have b: "before ?es a b \<longleftrightarrow> op_Return (ops ! a) < op_Call (ops ! b)" if "a < length ops" "b < length ops" for a b
    using sorted_by_pos(1) [OF srt that] t that(2) by simp
  have "linearization step ?es (length ops) {} init p \<longleftrightarrow> distinct p \<and> set p = {0..<length ops} \<and>
        legal step (\<lambda>i. op_Input (ops ! i)) (\<lambda>i. op_Output (ops ! i)) init p \<and>
        sorted_wrt (\<lambda>a b. \<not> op_Return (ops ! b) < op_Call (ops ! a)) p" for p
  proof (cases "set p = {0..<length ops}")
    case True
    have "legal step (val ?es callEntry) (val ?es returnEntry) init p =
        legal step (\<lambda>i. op_Input (ops ! i)) (\<lambda>i. op_Output (ops ! i)) init p"
      by (rule legal_cong) (use True v in auto)
    moreover have "sorted_wrt (\<lambda>a b. \<not> before ?es b a) p = sorted_wrt (\<lambda>a b. \<not> op_Return (ops ! b) < op_Call (ops ! a)) p"
      by (rule sorted_wrt_cong_set) (use True b in auto)
    ultimately show ?thesis using True by (simp add: linearization_def)
  qed (simp add: linearization_def)
  then show ?thesis by (simp add: linearizable_def linearizable_ops_def)
qed

section \<open>Runs of the checker\<close>

lemma fillDefault_eq:
  "fillDefault model = \<lparr>m_Partition = Some (case m_Partition model of None \<Rightarrow> NoPartition | Some f \<Rightarrow> f),
     m_PartitionEvent = Some (case m_PartitionEvent model of None \<Rightarrow> NoPartitionEvent | Some f \<Rightarrow> f),
     m_Init = m_Init model, m_Step = m_Step model,
     m_Equal = Some (case m_Equal model of None \<Rightarrow> ShallowEqual | Some f \<Rightarrow> f)\<rparr>"
  by (cases model) (auto simp: fillDefault_def Let_def split: option.splits)

text \<open>The partitions and the equality a model is used with.\<close>

definition parts :: "('s, 'v) Model \<Rightarrow> 'v Operation list \<Rightarrow> 'v Operation list list" where
  "parts model history = (case m_Partition model of None \<Rightarrow> NoPartition history | Some f \<Rightarrow> f history)"

definition good_equal :: "('s, 'v) Model \<Rightarrow> bool" where
  "good_equal model \<longleftrightarrow> state_equality (m_Step model) (case m_Equal model of None \<Rightarrow> ShallowEqual | Some f \<Rightarrow> f)"

lemma good_equal_default: "m_Equal model = None \<Longrightarrow> good_equal model"
  by (simp add: good_equal_def shallow.state_equality_axioms)

definition good_times :: "'v Operation list \<Rightarrow> bool" where
  "good_times ops \<longleftrightarrow> (\<forall>x\<in>set ops. op_Call x \<le> op_Return x)"

lemma operations_assms:
  assumes "sorts_byTime srt" and "good_equal model" and "\<forall>ops\<in>set (parts model history). good_times ops"
  shows "par_assms (fillDefault model) (map (makeEntries srt) (parts model history))"
proof -
  have "wf_entries (length (makeEntries srt ops) div 2) (makeEntries srt ops)"
    if "ops \<in> set (parts model history)" for ops
    using makeEntries_wf [OF assms(1), of ops] assms(3) that wf_length by (fastforce simp: good_times_def)
  then show ?thesis using assms(2) by (auto simp: par_assms_def good_equal_def equal_of_def fillDefault_eq)
qed

lemma operations_answered:
  assumes "sorts_byTime srt" and "\<forall>ops\<in>set (parts model history). good_times ops"
  shows "answered (fillDefault model) (map (makeEntries srt) (parts model history)) {} \<longleftrightarrow>
    (\<forall>ops\<in>set (parts model history). linearizable_ops (m_Step model) (m_Init model) ops)"
proof -
  have "answer (fillDefault model) (makeEntries srt ops) \<longleftrightarrow> linearizable_ops (m_Step model) (m_Init model) ops"
    if "ops \<in> set (parts model history)" for ops
  proof -
    have t: "\<forall>x\<in>set ops. op_Call x \<le> op_Return x" using assms(2) that by (simp add: good_times_def)
    have "length (makeEntries srt ops) = 2 * length ops" by (rule wf_length [OF makeEntries_wf [OF assms(1) t]])
    then show ?thesis using makeEntries_linearizable [OF assms(1) t] by (simp add: answer_def fillDefault_eq)
  qed
  then have "\<forall>ops\<in>set (parts model history). answer (fillDefault model) (makeEntries srt ops) \<longleftrightarrow>
      linearizable_ops (m_Step model) (m_Init model) ops" by blast
  then show ?thesis unfolding answered_def all_set_conv_all_nth by simp
qed

lemma par_exec_timeout:
  "par_exec nil model history computeInfo timeout evs s = Some s' \<Longrightarrow> timeout \<le> 0 \<Longrightarrow> \<not> pr_timedOut s \<Longrightarrow> \<not> pr_timedOut s'"
proof (induction evs arbitrary: s)
  case (Cons e evs)
  then obtain s1 where s1: "par_step nil model history computeInfo timeout e s = Some s1"
      "par_exec nil model history computeInfo timeout evs s1 = Some s'" by (auto split: option.splits)
  have "\<not> pr_timedOut s1" using s1(1) Cons.prems
    by (cases e) (auto simp: par_finish_def par_receive_def par_timeout_def par_drain_def Let_def
      split: if_splits option.splits sum.splits par_phase.splits list.splits prod.splits)
  then show ?case using Cons.IH [OF s1(2)] Cons.prems by blast
qed simp

lemma checkParallel_result:
  assumes A: "par_assms model history" and run: "checkParallel nil model history computeInfo timeout evs = Some (res, info)"
  shows "(res = Ok \<longrightarrow> answered model history {}) \<and> (res = Illegal \<longrightarrow> \<not> answered model history {}) \<and>
    (timeout \<le> 0 \<longrightarrow> res \<noteq> Unknown)"
proof -
  obtain s where s: "par_exec nil model history computeInfo timeout evs (par_init history) = Some s"
      "par_done history computeInfo s" "res = par_result s"
    using run by (auto simp: checkParallel_def split: option.splits if_splits)
  have I: "par_inv model history s" by (rule par_exec_inv [OF A par_init_inv s(1)])
  have "timeout \<le> 0 \<Longrightarrow> \<not> pr_timedOut s" using par_exec_timeout [OF s(1)] by (simp add: par_init_def)
  then show ?thesis using I s(2,3) by (auto simp: par_inv_def par_result_def par_done_def split: if_splits)
qed

lemma checkOperations_result:
  assumes srt: "sorts_byTime srt" and eq: "good_equal model" and t: "\<forall>ops\<in>set (parts model history). good_times ops"
    and run: "checkOperations srt nil model history verbose timeout evs = Some (res, info)"
  shows "(res = Ok \<longrightarrow> (\<forall>ops\<in>set (parts model history). linearizable_ops (m_Step model) (m_Init model) ops)) \<and>
    (res = Illegal \<longrightarrow> (\<exists>ops\<in>set (parts model history). \<not> linearizable_ops (m_Step model) (m_Init model) ops)) \<and>
    (timeout \<le> 0 \<longrightarrow> res \<noteq> Unknown)"
proof -
  have "the (m_Partition (fillDefault model)) history = parts model history"
    by (simp add: fillDefault_eq parts_def split: option.splits)
  then have "checkParallel nil (fillDefault model) (map (makeEntries srt) (parts model history)) verbose timeout evs = Some (res, info)"
    using run by (simp add: checkOperations_def Let_def)
  from checkParallel_result [OF operations_assms [OF srt eq t] this] show ?thesis
    using operations_answered [OF srt t] by blast
qed

section \<open>Events\<close>

text \<open>A well-formed list of events: every operation has one call and, later, one return.\<close>

definition wf_events :: "'v Event list \<Rightarrow> bool" where
  "wf_events evs \<longleftrightarrow> distinct (map (\<lambda>e. (ev_Kind e, ev_Id e)) evs) \<and>
     (\<forall>i<length evs. ev_Kind (evs ! i) = CallEvent \<longrightarrow>
        (\<exists>j<length evs. i < j \<and> ev_Kind (evs ! j) = ReturnEvent \<and> ev_Id (evs ! j) = ev_Id (evs ! i))) \<and>
     (\<forall>j<length evs. ev_Kind (evs ! j) = ReturnEvent \<longrightarrow>
        (\<exists>i<j. ev_Kind (evs ! i) = CallEvent \<and> ev_Id (evs ! i) = ev_Id (evs ! j)))"

lemma renumber_loop_eq:
  assumes "gm_ok m" and "inj_on (gm_get m) (dom (gm_get m))" and "ran (gm_get m) = int ` {0..<n}"
  shows "\<exists>f N. (\<forall>k\<in>dom (gm_get m). gm_get m k = Some (f k)) \<and>
    inj_on f (dom (gm_get m) \<union> ev_Id ` set evs) \<and> f ` (dom (gm_get m) \<union> ev_Id ` set evs) = int ` {0..<N} \<and>
    renumber_loop m (int n) evs = map (\<lambda>e. e\<lparr>ev_Id := f (ev_Id e)\<rparr>) evs"
  using assms
proof (induction evs arbitrary: m n)
  case Nil
  let ?f = "\<lambda>k. the (gm_get m k)"
  have "inj_on ?f (dom (gm_get m))" using Nil.prems(2) by (auto simp: inj_on_def dom_def)
  moreover have "?f ` dom (gm_get m) = int ` {0..<n}" unfolding Nil.prems(3) [symmetric] by (force simp: ran_def dom_def)
  ultimately show ?case by (intro exI [of _ ?f] exI [of _ n]) auto
next
  case (Cons e evs)
  show ?case
  proof (cases "gm_get m (ev_Id e)")
    case (Some r)
    obtain f N where f: "\<forall>k\<in>dom (gm_get m). gm_get m k = Some (f k)"
        "inj_on f (dom (gm_get m) \<union> ev_Id ` set evs)" "f ` (dom (gm_get m) \<union> ev_Id ` set evs) = int ` {0..<N}"
        "renumber_loop m (int n) evs = map (\<lambda>e. e\<lparr>ev_Id := f (ev_Id e)\<rparr>) evs"
      using Cons.IH [OF Cons.prems] by (elim exE conjE) (rule that)
    have d: "ev_Id e \<in> dom (gm_get m)" using Some by blast
    have r: "r = f (ev_Id e)" using bspec [OF f(1) d] Some by simp
    have ids: "dom (gm_get m) \<union> ev_Id ` set (e # evs) = dom (gm_get m) \<union> ev_Id ` set evs" using d by auto
    have "renumber_loop m (int n) (e # evs) = map (\<lambda>e. e\<lparr>ev_Id := f (ev_Id e)\<rparr>) (e # evs)"
      using Some r f(4) by simp
    then show ?thesis using f(1-3) unfolding ids by blast
  next
    case None
    let ?m = "gm_put (ev_Id e) (int n) m"
    have get: "gm_get ?m = (gm_get m)(ev_Id e \<mapsto> int n)" using Cons.prems(1) by (rule gm.lookup_update)
    have ok: "gm_ok ?m" using Cons.prems(1) by (rule gm.invar_update)
    have inj: "inj_on (gm_get ?m) (dom (gm_get ?m))"
    proof -
      have "gm_get m k \<noteq> Some (int n)" for k
      proof
        assume "gm_get m k = Some (int n)"
        then have "int n \<in> ran (gm_get m)" by (rule ranI)
        then show False unfolding Cons.prems(3) by auto
      qed
      then show ?thesis using Cons.prems(2) None unfolding get by (auto simp: inj_on_def dom_def)
    qed
    have rn: "ran (gm_get ?m) = int ` {0..<Suc n}"
      unfolding get using Cons.prems(3) None by (simp add: ran_map_upd atLeastLessThanSuc)
    obtain f N where f: "\<forall>k\<in>dom (gm_get ?m). gm_get ?m k = Some (f k)"
        "inj_on f (dom (gm_get ?m) \<union> ev_Id ` set evs)" "f ` (dom (gm_get ?m) \<union> ev_Id ` set evs) = int ` {0..<N}"
        "renumber_loop ?m (int (Suc n)) evs = map (\<lambda>e. e\<lparr>ev_Id := f (ev_Id e)\<rparr>) evs"
      using Cons.IH [OF ok inj rn] by (elim exE conjE) (rule that)
    have "f (ev_Id e) = int n" using f(1) by (simp add: get)
    then have r: "renumber_loop m (int n) (e # evs) = map (\<lambda>e. e\<lparr>ev_Id := f (ev_Id e)\<rparr>) (e # evs)"
      using None f(4) by (simp add: add.commute)
    have ids: "dom (gm_get ?m) \<union> ev_Id ` set evs = dom (gm_get m) \<union> ev_Id ` set (e # evs)" unfolding get by auto
    have "gm_get m k = Some (f k)" if k: "k \<in> dom (gm_get m)" for k
    proof -
      have "k \<noteq> ev_Id e" using k None by auto
      then show ?thesis using k f(1) unfolding get by (metis domIff fun_upd_apply)
    qed
    then show ?thesis using f(2,3) r unfolding ids by blast
  qed
qed

lemma renumber_eq:
  obtains f N where "inj_on f (ev_Id ` set evs)" and "f ` ev_Id ` set evs = int ` {0..<N}"
    and "renumber evs = map (\<lambda>e. e\<lparr>ev_Id := f (ev_Id e)\<rparr>) evs"
  using renumber_loop_eq [of "[]" 0 evs] by (auto simp: renumber_def)

lemma convert_loop_eq:
  "convert_loop k evs = map (\<lambda>i. \<lparr>en_kind = (if ev_Kind (evs ! i) = ReturnEvent then returnEntry else callEntry),
     en_value = ev_Value (evs ! i), en_id = ev_Id (evs ! i), en_time = k + int i,
     en_clientId = ev_ClientId (evs ! i)\<rparr>) [0..<length evs]"
proof (induction evs arbitrary: k)
  case (Cons e evs)
  show ?case unfolding convert_loop.simps Cons.IH length_Cons upt_conv_Cons [OF zero_less_Suc]
    by (simp add: map_Suc_upt [symmetric] del: upt_Suc)
qed simp

definition kind_of :: "EventKind \<Rightarrow> entryKind" where
  "kind_of k = (if k = ReturnEvent then returnEntry else callEntry)"

lemma kind_of_simps [simp]:
  "kind_of CallEvent = callEntry" "kind_of ReturnEvent = returnEntry" "kind_of a = kind_of b \<longleftrightarrow> a = b"
  by (cases a; cases b; simp add: kind_of_def)+

lemma convert_tag:
  assumes "evs' = map (\<lambda>e. e\<lparr>ev_Id := f (ev_Id e)\<rparr>) evs"
  shows "map tag (convertEntries evs') = map (\<lambda>e. (kind_of (ev_Kind e), f (ev_Id e))) evs"
  unfolding convertEntries_def convert_loop_eq assms
  by (rule nth_equalityI) (simp_all add: tag_def kind_of_def)

lemma wf_events_pairs:
  assumes "wf_events evs"
  shows "(\<lambda>e. (ev_Kind e, ev_Id e)) ` set evs = {CallEvent, ReturnEvent} \<times> ev_Id ` set evs"
proof -
  have "(k, ev_Id e) \<in> (\<lambda>e. (ev_Kind e, ev_Id e)) ` set evs" if "e \<in> set evs" for k e
  proof -
    from that obtain i where i: "i < length evs" "e = evs ! i" by (auto simp: in_set_conv_nth)
    have "\<exists>j<length evs. ev_Kind (evs ! j) = k \<and> ev_Id (evs ! j) = ev_Id e"
    proof (cases "ev_Kind e = k")
      case True
      then show ?thesis using i by blast
    next
      case other: False
      show ?thesis
      proof (cases k)
        case CallEvent
        then have "ev_Kind (evs ! i) = ReturnEvent" using other i by (cases "ev_Kind e") simp_all
        then obtain j where "j < i" "ev_Kind (evs ! j) = CallEvent" "ev_Id (evs ! j) = ev_Id e"
          using assms i unfolding wf_events_def by blast
        then show ?thesis using CallEvent i(1) by (intro exI [of _ j]) simp
      next
        case ReturnEvent
        then have "ev_Kind (evs ! i) = CallEvent" using other i by (cases "ev_Kind e") simp_all
        then show ?thesis using assms i ReturnEvent unfolding wf_events_def by blast
      qed
    qed
    then show ?thesis by force
  qed
  moreover have "k \<in> {CallEvent, ReturnEvent}" for k by (cases k) simp_all
  ultimately show ?thesis by auto
qed

lemma convert_wf:
  assumes "wf_events evs"
  shows "\<exists>N. wf_entries N (convertEntries (renumber evs))"
proof -
  obtain f N where f: "inj_on f (ev_Id ` set evs)" "f ` ev_Id ` set evs = int ` {0..<N}"
      "renumber evs = map (\<lambda>e. e\<lparr>ev_Id := f (ev_Id e)\<rparr>) evs" by (rule renumber_eq)
  let ?es = "convertEntries (renumber evs)" and ?pair = "\<lambda>e. (ev_Kind e, ev_Id e)"
  let ?g = "\<lambda>(k, i). (kind_of k, f i)"
  have t: "map tag ?es = map ?g (map ?pair evs)" using convert_tag [OF f(3)] by (simp add: comp_def)
  have len: "length ?es = length evs" using arg_cong [OF t, of length] by simp
  have inj: "inj_on ?g (set (map ?pair evs))" using f(1) by (auto simp: inj_on_def)
  have d: "distinct (map tag ?es)" unfolding t using assms inj by (simp only: distinct_map wf_events_def)
  have set: "set (map tag ?es) = {callEntry, returnEntry} \<times> int ` {0..<N}"
  proof -
    have "set (map tag ?es) = ?g ` (?pair ` set evs)" unfolding t set_map ..
    also have "\<dots> = {callEntry, returnEntry} \<times> int ` {0..<N}"
      unfolding wf_events_pairs [OF assms] f(2) [symmetric] by (auto simp: image_iff)
    finally show ?thesis .
  qed
  have "pos ?es callEntry i < pos ?es returnEntry i" if i: "i < N" for i
  proof -
    have "(k, int i) \<in> set (map tag ?es)" for k unfolding set using i by (cases k) auto
    note p = pos_correct [OF this]
    let ?c = "pos ?es callEntry i" and ?r = "pos ?es returnEntry i"
    have nth: "tag (?es ! j) = (kind_of (ev_Kind (evs ! j)), f (ev_Id (evs ! j)))" if "j < length evs" for j
      using arg_cong [OF t, of "\<lambda>l. l ! j"] that len by simp
    have r: "?r < length evs" "ev_Kind (evs ! ?r) = ReturnEvent" "f (ev_Id (evs ! ?r)) = int i"
      using p [of returnEntry] nth [of ?r] len by (auto simp: kind_of_def split: if_splits)
    then obtain j where j: "j < ?r" "ev_Kind (evs ! j) = CallEvent" "ev_Id (evs ! j) = ev_Id (evs ! ?r)"
      using assms unfolding wf_events_def by blast
    then have "map tag ?es ! j = map tag ?es ! ?c" using nth [of j] r p [of callEntry] len by simp
    then have "j = ?c" using d p(1) [of callEntry] j(1) r(1) len by (simp add: nth_eq_iff_index_eq del: nth_map)
    then show ?thesis using j(1) by simp
  qed
  then show ?thesis using d set by (auto simp: wf_entries_def simp del: set_map)
qed

definition event_parts :: "('s, 'v) Model \<Rightarrow> 'v Event list \<Rightarrow> 'v Event list list" where
  "event_parts model history = (case m_PartitionEvent model of None \<Rightarrow> NoPartitionEvent history | Some f \<Rightarrow> f history)"

lemma checkEvents_result:
  assumes eq: "good_equal model" and wf: "\<forall>sub\<in>set (event_parts model history). wf_events sub"
    and run: "checkEvents nil model history verbose timeout evs = Some (res, info)"
  shows "(res = Ok \<longrightarrow> (\<forall>sub\<in>set (event_parts model history).
        linearizable (m_Step model) (convertEntries (renumber sub)) (length sub div 2) {} (m_Init model))) \<and>
    (res = Illegal \<longrightarrow> (\<exists>sub\<in>set (event_parts model history).
        \<not> linearizable (m_Step model) (convertEntries (renumber sub)) (length sub div 2) {} (m_Init model))) \<and>
    (timeout \<le> 0 \<longrightarrow> res \<noteq> Unknown)"
proof -
  let ?h = "map (\<lambda>sub. convertEntries (renumber sub)) (event_parts model history)"
  have len: "length (convertEntries (renumber sub)) = length sub" for sub :: "'b Event list"
  proof -
    obtain f N where "renumber sub = map (\<lambda>e. e\<lparr>ev_Id := f (ev_Id e)\<rparr>) sub" by (rule renumber_eq)
    then show ?thesis by (simp add: convertEntries_def convert_loop_eq)
  qed
  have "the (m_PartitionEvent (fillDefault model)) history = event_parts model history"
    by (simp add: fillDefault_eq event_parts_def split: option.splits)
  then have run': "checkParallel nil (fillDefault model) ?h verbose timeout evs = Some (res, info)"
    using run by (simp add: checkEvents_def Let_def)
  have "wf_entries (length es div 2) es" if es: "es \<in> set ?h" for es
  proof -
    obtain sub where "sub \<in> set (event_parts model history)" "es = convertEntries (renumber sub)" using es by auto
    then obtain N where "wf_entries N es" using wf convert_wf by blast
    then show ?thesis using wf_length by fastforce
  qed
  then have A: "par_assms (fillDefault model) ?h"
    using eq by (simp add: par_assms_def good_equal_def equal_of_def fillDefault_eq)
  have "answered (fillDefault model) ?h {} \<longleftrightarrow> (\<forall>sub\<in>set (event_parts model history).
      linearizable (m_Step model) (convertEntries (renumber sub)) (length sub div 2) {} (m_Init model))"
    unfolding answered_def all_set_conv_all_nth answer_def by (simp add: fillDefault_eq len)
  then show ?thesis using checkParallel_result [OF A run'] by blast
qed

end
