(* ===== verification/Porcupine_Partials.thy ===== *)
theory Porcupine_Partials
  imports Porcupine_API
begin

text \<open>
  The partial linearizations that \<open>checkSingle\<close> reports next to its answer: each is a sequence of
  operations of the history that the model accepts one after the other from its initial state,
  whether the search succeeds, fails or is killed.
\<close>

section \<open>What the assignments of the search leave alone\<close>

lemma put_data:
  "put_next p v h = Inr h' \<Longrightarrow> data h' = data h" "put_prev p v h = Inr h' \<Longrightarrow> data h' = data h"
  by (auto simp: put_next_def put_prev_def deref_def data_def split: option.splits)

lemma lift_data: "lift x h = Inr h' \<Longrightarrow> data h' = data h"
  by (auto simp: lift_def Let_def dest!: put_data split: if_splits)

lemma unlift_data: "unlift x h = Inr h' \<Longrightarrow> data h' = data h"
  by (auto simp: unlift_def Let_def dest!: put_data split: if_splits)

lemma insertBefore_data: "insertBefore x m h = Inr h' \<Longrightarrow> data h' = data h"
  by (auto simp: insertBefore_def Let_def dest!: put_data split: if_splits)

lemma linked_loop_outside: "linked_loop es k root mat h = Inr (h', r) \<Longrightarrow> k \<le> z \<Longrightarrow> data h' z = data h z"
proof (induction k arbitrary: root mat h)
  case (Suc k)
  let ?nd = "\<lparr>nd_value = en_value (es ! k), nd_match = (if en_kind (es ! k) = returnEntry then None else gm_get mat (en_id (es ! k))),
    nd_id = en_id (es ! k), nd_next = None, nd_prev = None\<rparr>"
  obtain h1 mat1 where h1: "insertBefore (Some k) root (h(k \<mapsto> ?nd)) = Inr h1" "linked_loop es k (Some k) mat1 h1 = Inr (h', r)"
    using Suc.prems(1) by (auto simp: Let_def split: if_splits)
  have "data h' z = data h1 z" using Suc.IH [OF h1(2)] Suc.prems(2) by simp
  also have "\<dots> = data h z" using insertBefore_data [OF h1(1)] Suc.prems(2) by (simp add: data_def)
  finally show ?case .
qed simp

section \<open>Stacks of calls\<close>

text \<open>\<open>D\<close> gives value, matching return and id of each node; the stack leads from \<open>st\<close> to \<open>st'\<close>.\<close>

fun calls_run :: "(nat \<Rightarrow> ('v \<times> nat option \<times> int) option) \<Rightarrow> ('s \<Rightarrow> 'v \<Rightarrow> 'v \<Rightarrow> bool \<times> 's) \<Rightarrow> 's \<Rightarrow>
    (nat \<times> 's) list \<Rightarrow> 's \<Rightarrow> bool" where
  "calls_run D step st [] st' \<longleftrightarrow> st' = st"
| "calls_run D step st ((x, t) # calls) st' \<longleftrightarrow> t = st \<and>
     (\<exists>v m i w d t'. D x = Some (v, Some m, i) \<and> D m = Some (w, d) \<and> step st v w = (True, t') \<and> calls_run D step t' calls st')"

lemma calls_run_append:
  "calls_run D step st (calls @ [(x, t)]) st' \<longleftrightarrow> calls_run D step st calls t \<and>
     (\<exists>v m i w d. D x = Some (v, Some m, i) \<and> D m = Some (w, d) \<and> step t v w = (True, st'))"
proof (induction calls arbitrary: st)
  case (Cons c calls)
  obtain y u where c: "c = (y, u)" by (cases c)
  show ?case unfolding c append_Cons calls_run.simps Cons.IH by blast
qed auto

definition data_id :: "(nat \<Rightarrow> ('v \<times> nat option \<times> int) option) \<Rightarrow> nat \<Rightarrow> int" where
  "data_id D x = (case D x of None \<Rightarrow> 0 | Some (_, _, i) \<Rightarrow> i)"

definition ids_run :: "(nat \<Rightarrow> ('v \<times> nat option \<times> int) option) \<Rightarrow> ('s \<Rightarrow> 'v \<Rightarrow> 'v \<Rightarrow> bool \<times> 's) \<Rightarrow> 's \<Rightarrow> int list \<Rightarrow> bool" where
  "ids_run D step st ids \<longleftrightarrow> (\<exists>calls st'. calls_run D step st calls st' \<and> ids = map (\<lambda>v. data_id D (fst v)) calls)"

lemma call_ids_run:
  assumes "data h = D" and "calls_run D step st calls st'"
  shows "ids_run D step st (call_ids h calls)"
  using assms unfolding ids_run_def call_ids_data data_id_def by blast

definition partials_run :: "(nat \<Rightarrow> ('v \<times> nat option \<times> int) option) \<Rightarrow> ('s \<Rightarrow> 'v \<Rightarrow> 'v \<Rightarrow> bool \<times> 's) \<Rightarrow> 's \<Rightarrow> partials \<Rightarrow> bool" where
  "partials_run D step st l \<longleftrightarrow> (\<forall>k ids. Some (k, ids) \<in> set l \<longrightarrow> ids_run D step st ids)"

section \<open>The invariant of the search\<close>

definition search_run :: "(nat \<Rightarrow> ('v \<times> nat option \<times> int) option) \<Rightarrow> ('s \<Rightarrow> 'v \<Rightarrow> 'v \<Rightarrow> bool \<times> 's) \<Rightarrow> 's \<Rightarrow> ('s, 'v) search \<Rightarrow> bool" where
  "search_run D step st s \<longleftrightarrow> data (sr_heap s) = D \<and> calls_run D step st (sr_calls s) (sr_state s) \<and>
     partials_run D step st (sr_longest s)"

lemma longest_loop_run:
  assumes "longest_loop h ids t vs lg = Inr lg'" and "partials_run D step st lg" and "ids_run D step st ids"
  shows "partials_run D step st lg'"
  using assms
proof (induction vs arbitrary: lg)
  case (Cons v vs)
  obtain i :: int and old :: "(nat \<times> int list) option" and lg1 where lg1: "longest_loop h ids t vs lg1 = Inr lg'"
      "(if (case old of None \<Rightarrow> True | Some (_, s) \<Rightarrow> length ids > length s)
        then go_assign lg i (Some (t, ids)) else Inr lg) = Inr lg1"
    using Cons.prems(1) by auto
  have "lg1 = lg[nat i := Some (t, ids)] \<or> lg1 = lg" using lg1(2) by (auto simp: go_assign_def split: if_splits)
  then have "partials_run D step st lg1"
    using Cons.prems(2,3) set_update_subset_insert [of lg "nat i" "Some (t, ids)"] unfolding partials_run_def by blast
  then show ?case using Cons.IH [OF lg1(1)] Cons.prems(3) by blast
qed simp

lemma try_call_run:
  assumes I: "search_run D step st s" and e: "deref (sr_heap s) (sr_entry s) = Inr e"
    and m: "nd_match e \<noteq> None" "deref (sr_heap s) (nd_match e) = Inr mat"
    and t: "try_call step equal head e mat s = Inr s'"
  shows "search_run D step st s'"
proof -
  obtain x where x: "sr_entry s = Some x" "sr_heap s x = Some e" using e by (auto simp: deref_def split: option.splits)
  obtain y where y: "nd_match e = Some y" "sr_heap s y = Some mat" using m(2) by (auto simp: deref_def split: option.splits)
  have D: "D x = Some (nd_value e, Some y, nd_id e)" "D y = Some (nd_value mat, nd_match mat, nd_id mat)"
    using I x y by (auto simp: search_run_def data_def)
  obtain ok t' where st: "step (sr_state s) (nd_value e) (nd_value mat) = (ok, t')" by fastforce
  consider "s' = s\<lparr>sr_entry := nd_next e\<rparr>"
    | "ok" "sr_calls s' = sr_calls s @ [(x, sr_state s)]" "sr_state s' = t'" "sr_longest s' = sr_longest s" "data (sr_heap s') = data (sr_heap s)"
    using t x(1) by (auto simp: try_call_def st Let_def dest!: lift_data split: if_splits)
  then show ?thesis
  proof cases
    case 1
    then show ?thesis using I by (simp add: search_run_def)
  next
    case 2
    have "calls_run D step st (sr_calls s @ [(x, sr_state s)]) t'"
      unfolding calls_run_append using I D st 2(1) by (auto simp: search_run_def)
    then show ?thesis using I 2 by (simp add: search_run_def)
  qed
qed

lemma backtrack_run:
  assumes I: "search_run D step st s" and b: "backtrack cp s = Inr s'"
  shows "search_run D step st s'"
proof -
  obtain lg where lg: "(if cp then longest_loop (sr_heap s) (call_ids (sr_heap s) (sr_calls s)) (sr_stamp s) (sr_calls s) (sr_longest s)
      else Inr (sr_longest s)) = Inr lg" "sr_longest s' = lg"
    using b by (auto simp: backtrack_def Let_def elim!: go_bind_Inr_E)
  have ne: "sr_calls s \<noteq> []" using b by (auto simp: backtrack_def Let_def go_index_def elim!: go_bind_Inr_E split: if_splits)
  then obtain calls x t where c: "sr_calls s = calls @ [(x, t)]" by (metis rev_exhaust surj_pair)
  have s': "sr_calls s' = calls" "sr_state s' = t" "data (sr_heap s') = data (sr_heap s)"
    using b by (auto simp: backtrack_def Let_def go_index_def go_slice_to_def c nth_append elim!: go_bind_Inr_E dest!: unlift_data split: if_splits)
  have "ids_run D step st (call_ids (sr_heap s) (sr_calls s))" using I call_ids_run [of "sr_heap s" D step st "sr_calls s" "sr_state s"] unfolding search_run_def by blast
  then have "partials_run D step st lg" using lg(1) I longest_loop_run unfolding search_run_def by (cases cp) auto
  then show ?thesis using I s' lg(2) unfolding search_run_def c calls_run_append by simp
qed

lemma check_loop_run:
  fixes step :: "'s \<Rightarrow> 'v \<Rightarrow> 'v \<Rightarrow> bool \<times> 's" and equal :: "'s \<Rightarrow> 's \<Rightarrow> bool"
  assumes "check_loop step equal cp kill head k s = Some (Inr (b, l))" and "search_run D step st s"
  shows "partials_run D step st l"
proof -
  let ?P = "\<lambda>step (equal :: 's \<Rightarrow> 's \<Rightarrow> bool) (cp :: bool) (kill :: nat \<Rightarrow> bool) (head :: nat) (k :: nat) s (r :: (bool \<times> partials) go).
    search_run D step st s \<longrightarrow> (\<forall>b l. r = Inr (b, l) \<longrightarrow> partials_run D step st l)"
  have "?P step equal cp kill head k s (Inr (b, l))"
  proof (rule check_loop.raw_induct [where P = ?P, rotated, OF assms(1)])
    fix rec step equal cp kill head k s r
    assume IH: "\<And>step equal cp kill head k s r. rec step equal cp kill head k s = Some r \<Longrightarrow> ?P step equal cp kill head k s r"
      and eq: "(case deref (sr_heap s) (Some head) of Inl stop \<Rightarrow> Some (Inl stop)
      | Inr headEntry \<Rightarrow>
          if nd_next headEntry = None then
            Some (Inr (True, replicate (length (sr_longest s)) (Some (sr_stamp s, call_ids (sr_heap s) (sr_calls s)))))
          else if kill k then Some (Inr (False, sr_longest s))
          else (case check_iter step equal cp head s of
              Inl stop \<Rightarrow> Some (Inl stop)
            | Inr (Inl s') \<Rightarrow> rec step equal cp kill head (k + 1) s'
            | Inr (Inr res) \<Rightarrow> Some (Inr res))) = Some r"
    show "?P step equal cp kill head k s r"
    proof (intro impI allI)
      fix b l assume I: "search_run D step st s" and r: "r = Inr (b, l)"
      have ids: "ids_run D step st (call_ids (sr_heap s) (sr_calls s))"
        using I call_ids_run [of "sr_heap s" D step st "sr_calls s" "sr_state s"] unfolding search_run_def by blast
      consider "l = replicate (length (sr_longest s)) (Some (sr_stamp s, call_ids (sr_heap s) (sr_calls s)))" | "l = sr_longest s"
        | s' where "check_iter step equal cp head s = Inr (Inl s')" "rec step equal cp kill head (k + 1) s' = Some (Inr (b, l))"
        using eq r by (auto simp: check_iter_def split: sum.splits if_splits)
      then show "partials_run D step st l"
      proof cases
        case 1
        then show ?thesis using ids by (auto simp: partials_run_def)
      next
        case 2
        then show ?thesis using I by (simp add: search_run_def)
      next
        case 3
        have "search_run D step st s'"
          using 3(1) try_call_run [OF I] backtrack_run [OF I]
          by (auto simp: check_iter_def split: if_splits)
        then show ?thesis using IH [OF 3(2)] by blast
      qed
    qed
  qed
  then show ?thesis using assms(2) by blast
qed

section \<open>What is reported\<close>

text \<open>A sequence of operations of the history that the model accepts.\<close>

definition partial_ok :: "('s, 'v) Model \<Rightarrow> 'v entry list \<Rightarrow> int list \<Rightarrow> bool" where
  "partial_ok model es ids \<longleftrightarrow> (\<exists>p. ids = map int p \<and> set p \<subseteq> {0..<length es div 2} \<and>
     legal (m_Step model) (val es callEntry) (val es returnEntry) (m_Init model) p)"

lemma calls_run_legal:
  assumes wf: "wf_entries n es" and D: "\<And>z. z < length es \<Longrightarrow> D z = Some (entry_data es z)" "\<And>z v m i. length es \<le> z \<Longrightarrow> D z \<noteq> Some (v, Some m, i)"
    and run: "calls_run D step st calls st'"
  shows "\<exists>p. map (\<lambda>v. data_id D (fst v)) calls = map int p \<and> set p \<subseteq> {0..<n} \<and>
    legal step (val es callEntry) (val es returnEntry) st p"
  using run
proof (induction calls arbitrary: st)
  case Nil
  then show ?case by (intro exI [of _ "[]"]) simp
next
  case (Cons c calls)
  obtain x t where c: "c = (x, t)" by (cases c)
  obtain v m i w d t' where x: "D x = Some (v, Some m, i)" "D m = Some (w, d)" "step st v w = (True, t')" "calls_run D step t' calls st'"
    using Cons.prems unfolding c by auto
  have xl: "x < length es" using D(2) [of x v m i] x(1) by (meson not_less)
  have e: "entry_data es x = (v, Some m, i)" using D(1) [OF xl] x(1) by simp
  obtain a where a: "a < n" "pos es (en_kind (es ! x)) a = x" by (rule wf_entry [OF wf xl])
  have "en_kind (es ! x) \<noteq> returnEntry" using e by (auto simp: entry_data_def)
  then have pc: "pos es callEntry a = x" using a(2) by (cases "en_kind (es ! x)") simp_all
  have va: "v = val es callEntry a" "m = pos es returnEntry a" "i = int a" using entry_data_call [OF wf a(1)] e unfolding pc by simp_all
  have "D m = Some (entry_data es m)" using D(1) wf_pos(1) [OF wf a(1)] va(2) by simp
  then have w: "w = val es returnEntry a" using entry_data_return [OF wf a(1)] x(2) va(2) by simp
  obtain p where p: "map (\<lambda>v. data_id D (fst v)) calls = map int p" "set p \<subseteq> {0..<n}"
      "legal step (val es callEntry) (val es returnEntry) t' p" using Cons.IH [OF x(4)] by blast
  have "data_id D x = int a" using x(1) va(3) by (simp add: data_id_def)
  then show ?case using p x(3) a(1) va(1) w by (intro exI [of _ "a # p"]) (simp add: c)
qed

lemma checkSingle_partials:
  assumes wf: "wf_entries (length es div 2) es" and chk: "checkSingle nil model es cp kill = Some (Inr (b, l))"
    and l: "Some (k, ids) \<in> set l"
  shows "partial_ok model es ids"
proof -
  let ?n = "length es div 2" and ?r = "if es = [] then None else Some (0::nat)"
  obtain h h' where h: "makeLinkedEntries es = Inr (h, ?r)" "node_length h ?r 0 = Some (2 * ?n)"
      "insertBefore (Some (length es)) ?r (h(length es \<mapsto> head_node nil)) = Inr h'"
      "\<forall>j<length es. data h' j = Some (entry_data es j)"
    by (rule start_config [OF wf])
  let ?D = "data h'"
  have "?D z \<noteq> Some (v, Some m, i)" if "length es \<le> z" for z v m i
  proof -
    have "data h z = None" using linked_loop_outside [OF h(1) [unfolded makeLinkedEntries_def] that] by (simp add: data_def)
    moreover have "?D z = data (h(length es \<mapsto> head_node nil)) z" using insertBefore_data [OF h(3)] by simp
    ultimately show ?thesis by (cases "z = length es") (auto simp: data_def head_node_def)
  qed
  moreover have "partials_run ?D (m_Step model) (m_Init model) l"
  proof (rule check_loop_run)
    show "check_loop (m_Step model) (equal_of model) cp kill (length es) 0 \<lparr>sr_heap = h', sr_entry = ?r, sr_linearized = newBitset ?n, sr_cache = [],
      sr_calls = [], sr_longest = replicate ?n None, sr_stamp = 0, sr_state = m_Init model\<rparr> = Some (Inr (b, l))"
      using chk h(1-3) by (simp add: checkSingle_def Let_def)
  qed (simp add: search_run_def partials_run_def)
  then obtain calls st' where "calls_run ?D (m_Step model) (m_Init model) calls st'" "ids = map (\<lambda>v. data_id ?D (fst v)) calls"
    using l unfolding partials_run_def ids_run_def by blast
  ultimately show ?thesis using calls_run_legal [OF wf, of ?D] h(4) unfolding partial_ok_def by metis
qed

definition par_partials :: "('s, 'v) Model \<Rightarrow> 'v entry list list \<Rightarrow> par \<Rightarrow> bool" where
  "par_partials model history s \<longleftrightarrow> length (pr_longest s) = length history \<and>
     (\<forall>i<length history. \<forall>k ids. Some (k, ids) \<in> set (pr_longest s ! i) \<longrightarrow> partial_ok model (history ! i) ids)"

lemma par_step_partials:
  assumes A: "\<forall>es\<in>set history. wf_entries (length es div 2) es" and "par_shape history s" and I: "par_partials model history s"
    and "par_step nil model history computeInfo timeout e s = Some s'"
  shows "par_partials model history s'"
proof (cases e)
  case (Finish i m)
  then obtain ok l where c: "i \<in> set (pr_pending s)" "checkSingle nil model (history ! i) computeInfo (\<lambda>k. pr_kill s \<and> m \<le> k) = Some (Inr (ok, l))"
      "pr_longest s' = (pr_longest s)[i := l]"
    using assms(4) by (auto simp: par_finish_def split: if_splits option.splits sum.splits prod.splits)
  have i: "i < length history" using c(1) assms(2) by (auto simp: par_shape_def)
  then have "wf_entries (length (history ! i) div 2) (history ! i)" using A by simp
  from checkSingle_partials [OF this c(2)] show ?thesis
    using I c(3) i by (auto simp: par_partials_def nth_list_update split: if_splits)
next
  case Receive
  then show ?thesis using assms by (auto simp: par_receive_def par_partials_def Let_def split: par_phase.splits list.splits if_splits)
next
  case TimeOut
  then show ?thesis using assms by (auto simp: par_timeout_def par_partials_def split: if_splits)
next
  case Drain
  then show ?thesis using assms by (auto simp: par_drain_def par_partials_def split: par_phase.splits list.splits if_splits)
qed

lemma par_exec_partials:
  assumes A: "par_assms model history"
  shows "par_inv model history s \<Longrightarrow> par_partials model history s \<Longrightarrow>
    par_exec nil model history computeInfo timeout evs s = Some s' \<Longrightarrow> par_partials model history s'"
proof (induction evs arbitrary: s)
  case (Cons e evs)
  then obtain s1 where s1: "par_step nil model history computeInfo timeout e s = Some s1"
      "par_exec nil model history computeInfo timeout evs s1 = Some s'" by (auto split: option.splits)
  have "par_partials model history s1"
    by (rule par_step_partials [OF _ _ Cons.prems(2) s1(1)]) (use A Cons.prems(1) in \<open>simp_all add: par_assms_def par_inv_def\<close>)
  then show ?case using Cons.IH [OF par_step_inv [OF A Cons.prems(1) s1(1)] _ s1(2)] by blast
qed simp

lemma checkParallel_partials:
  assumes A: "par_assms model history" and run: "checkParallel nil model history True timeout evs = Some (res, info)"
  shows "li_history info = history" and "length (li_partialLinearizations info) = length history"
    and "i < length history \<Longrightarrow> ids \<in># li_partialLinearizations info ! i \<Longrightarrow> partial_ok model (history ! i) ids"
proof -
  obtain s where s: "par_exec nil model history True timeout evs (par_init history) = Some s" "info = par_info history True s"
    using run by (auto simp: checkParallel_def split: option.splits if_splits)
  have "par_partials model history (par_init history)" by (simp add: par_partials_def par_init_def)
  then have P: "par_partials model history s" using par_exec_partials [OF A par_init_inv _ s(1)] by blast
  show "li_history info = history" "length (li_partialLinearizations info) = length history"
    using P by (simp_all add: s(2) par_info_def par_partials_def)
  show "partial_ok model (history ! i) ids" if "i < length history" "ids \<in># li_partialLinearizations info ! i"
  proof -
    have "ids \<in># partials_of (pr_longest s ! i)" using that P by (simp add: s(2) par_info_def par_partials_def)
    then obtain k where "Some (k, ids) \<in> set (pr_longest s ! i)" by (auto simp: partials_of_def map_filter_def)
    then show ?thesis using P that(1) by (auto simp: par_partials_def)
  qed
qed

end
