(* ===== verification/Porcupine_KV.thy ===== *)
theory Porcupine_KV
  imports Porcupine_API
begin

text \<open>
  The checker on the key/value histories of the labs. \<open>KvModel\<close> of \<open>models/kv.go\<close> checks the
  operations of each key alone against one string; the reference is a store that maps keys to
  strings. A history is linearizable for the store exactly when each partition is linearizable
  for the string, so what \<open>CheckOperations\<close> answers is linearizability of the whole history.
\<close>

section \<open>Partitions\<close>

definition kv_key :: "KvVal Operation \<Rightarrow> string" where
  "kv_key v = kv_Key (kv_input (op_Input v))"

definition on_key :: "string \<Rightarrow> KvVal Operation list \<Rightarrow> KvVal Operation list" where
  "on_key k history = filter (\<lambda>v. kv_key v = k) history"

lemma kv_group_get:
  "gm_ok m \<Longrightarrow> gm_ok (kv_group history m) \<and> gm_get (kv_group history m) k =
     (if gm_get m k = None \<and> on_key k history = [] then None
      else Some ((case gm_get m k of None \<Rightarrow> [] | Some l \<Rightarrow> l) @ on_key k history))"
proof (induction history arbitrary: m)
  case Nil
  then show ?case by (cases "gm_get m k") (simp_all add: on_key_def)
next
  case (Cons v history)
  let ?m = "gm_put (kv_key v) ((case gm_get m (kv_key v) of None \<Rightarrow> [] | Some l \<Rightarrow> l) @ [v]) m"
  have step: "kv_group (v # history) m = kv_group history ?m" by (simp add: kv_key_def Let_def)
  have ok: "gm_ok ?m" and get: "gm_get ?m = (gm_get m)(kv_key v \<mapsto> (case gm_get m (kv_key v) of None \<Rightarrow> [] | Some l \<Rightarrow> l) @ [v])"
    using Cons.prems by (simp_all add: gm.invar_update gm.lookup_update)
  have "on_key k (v # history) = (if kv_key v = k then v # on_key k history else on_key k history)"
    by (simp add: on_key_def)
  then show ?case unfolding step using Cons.IH [OF ok, unfolded get] by (cases "kv_key v = k") simp_all
qed

lemma kv_Partition_eq:
  "kv_Partition history = map (\<lambda>k. on_key k history) (sorted_list_of_set (kv_key ` set history))"
proof -
  let ?m = "kv_group history []"
  have ok: "gm_ok ?m" and get: "gm_get ?m k = (if on_key k history = [] then None else Some (on_key k history))" for k
    using kv_group_get [of "[]" history] by simp_all
  have "gm_get ?m = map_of ?m" by (simp add: gm_get_def fun_eq_iff)
  then have "set (map fst ?m) = dom (gm_get ?m)" by (simp add: dom_map_of_conv_image_fst)
  also have "\<dots> = kv_key ` set history" by (auto simp: get on_key_def filter_empty_conv dom_def split: if_splits)
  finally have keys: "set (map fst ?m) = kv_key ` set history" .
  have "sort (map fst ?m) = sorted_list_of_set (kv_key ` set history)"
    using sorted_list_of_set_sort_remdups [of "map fst ?m"] ok unfolding keys gm_ok_def by (simp add: distinct_remdups_id)
  moreover have "(case gm_get ?m k of None \<Rightarrow> [] | Some l \<Rightarrow> l) = on_key k history" for k by (simp add: get)
  ultimately show ?thesis by (simp add: kv_Partition_def Let_def)
qed

section \<open>The store\<close>

definition store_Step :: "(string \<Rightarrow> string) \<Rightarrow> KvVal \<Rightarrow> KvVal \<Rightarrow> bool \<times> (string \<Rightarrow> string)" where
  "store_Step st input output =
     (let k = kv_Key (kv_input input) in
      case kv_Step (st k) input output of (ok, v) \<Rightarrow> (ok, st(k := v)))"

definition legal_ops :: "('s \<Rightarrow> 'v \<Rightarrow> 'v \<Rightarrow> bool \<times> 's) \<Rightarrow> 's \<Rightarrow> 'v Operation list \<Rightarrow> nat list \<Rightarrow> bool" where
  "legal_ops step st ops p = legal step (\<lambda>i. op_Input (ops ! i)) (\<lambda>i. op_Output (ops ! i)) st p"

text \<open>What the store accepts, its strings accept one by one.\<close>

lemma legal_store:
  "legal_ops store_Step st ops p \<longleftrightarrow>
     (\<forall>k. legal_ops kv_Step (st k) ops (filter (\<lambda>i. kv_key (ops ! i) = k) p))"
proof (induction p arbitrary: st)
  case Nil
  then show ?case by (simp add: legal_ops_def)
next
  case (Cons a p)
  let ?k = "kv_key (ops ! a)"
  obtain ok v where s: "kv_Step (st ?k) (op_Input (ops ! a)) (op_Output (ops ! a)) = (ok, v)" by fastforce
  have "legal_ops store_Step st ops (a # p) \<longleftrightarrow> ok \<and> legal_ops store_Step (st(?k := v)) ops p"
    using s by (simp add: legal_ops_def store_Step_def Let_def kv_key_def [symmetric])
  also have "\<dots> \<longleftrightarrow> ok \<and> (\<forall>k. legal_ops kv_Step ((st(?k := v)) k) ops (filter (\<lambda>i. kv_key (ops ! i) = k) p))"
    unfolding Cons.IH ..
  also have "\<dots> \<longleftrightarrow> (\<forall>k. legal_ops kv_Step (st k) ops (filter (\<lambda>i. kv_key (ops ! i) = k) (a # p)))"
    using s by (auto simp: legal_ops_def split: if_splits)
  finally show ?case .
qed

section \<open>Putting the linearizations of the keys together\<close>

text \<open>\<open>in_time ops p\<close>: an operation comes before those called after its return.\<close>

definition in_time :: "'v Operation list \<Rightarrow> nat list \<Rightarrow> bool" where
  "in_time ops p \<longleftrightarrow> sorted_wrt (\<lambda>a b. \<not> op_Return (ops ! b) < op_Call (ops ! a)) p"

text \<open>A point for each operation: the latest call up to it in the order of its key. It lies between
  the call and the return of the operation.\<close>

definition point :: "'v Operation list \<Rightarrow> nat list \<Rightarrow> nat \<Rightarrow> int" where
  "point ops p a = Max ((\<lambda>b. op_Call (ops ! b)) ` set (takeWhile (\<lambda>b. b \<noteq> a) p @ [a]))"

lemma takeWhile_nth:
  assumes "distinct p" and "i < length p"
  shows "takeWhile (\<lambda>b. b \<noteq> p ! i) p @ [p ! i] = take (Suc i) p"
proof -
  have "takeWhile (\<lambda>b. b \<noteq> p ! i) p = take i p"
    by (rule takeWhile_eq_take_P_nth) (use assms in \<open>auto simp: nth_eq_iff_index_eq\<close>)
  then show ?thesis using assms(2) by (simp add: take_Suc_conv_app_nth)
qed

lemma point_bounds:
  assumes "distinct p" and "in_time ops p" and "a \<in> set p" and "op_Call (ops ! a) \<le> op_Return (ops ! a)"
  shows "op_Call (ops ! a) \<le> point ops p a" and "point ops p a \<le> op_Return (ops ! a)"
proof -
  obtain i where i: "i < length p" "a = p ! i" using assms(3) by (metis in_set_conv_nth)
  have pt: "point ops p a = Max ((\<lambda>b. op_Call (ops ! b)) ` set (take (Suc i) p))"
    unfolding point_def i(2) takeWhile_nth [OF assms(1) i(1)] ..
  show "op_Call (ops ! a) \<le> point ops p a" unfolding point_def by (intro Max_ge) auto
  have "op_Call (ops ! b) \<le> op_Return (ops ! a)" if b: "b \<in> set (take (Suc i) p)" for b
  proof -
    obtain j where "j \<le> i" "b = p ! j" using b i(1) by (auto simp: in_set_conv_nth less_Suc_eq_le)
    then show ?thesis using assms(2,4) i unfolding in_time_def sorted_wrt_iff_nth_less
      by (metis le_neq_implies_less not_le)
  qed
  then show "point ops p a \<le> op_Return (ops ! a)" unfolding pt using i(1) by (intro Max.boundedI) auto
qed

lemma point_sorted:
  assumes "distinct p"
  shows "sorted (map (point ops p) p)"
  unfolding sorted_iff_nth_mono
proof (intro allI impI)
  fix i j
  assume ij: "i \<le> j" "j < length (map (point ops p) p)"
  have "Max ((\<lambda>b. op_Call (ops ! b)) ` set (take (Suc i) p)) \<le> Max ((\<lambda>b. op_Call (ops ! b)) ` set (take (Suc j) p))"
    using ij by (intro Max_mono image_mono set_take_subset_set_take) auto
  then show "map (point ops p) p ! i \<le> map (point ops p) p ! j"
    using ij assms by (simp add: point_def takeWhile_nth)
qed

text \<open>Sorting all operations by their points keeps the order of each key.\<close>

lemma filter_concat_key:
  assumes "distinct ks" and "\<And>k a. k \<in> set ks \<Longrightarrow> a \<in> set (lin k) \<Longrightarrow> key a = k"
  shows "filter (\<lambda>a. key a = k) (concat (map lin ks)) = (if k \<in> set ks then lin k else [])"
  using assms
proof (induction ks)
  case (Cons k' ks)
  have "filter (\<lambda>a. key a = k) (lin k') = (if k' = k then lin k' else [])"
    using Cons.prems(2) [of k'] by (auto simp: filter_empty_conv filter_id_conv)
  then show ?case using Cons by auto
qed simp

lemma merge_keys:
  fixes lin :: "string \<Rightarrow> nat list"
  assumes ks: "distinct ks" and key: "\<And>k a. k \<in> set ks \<Longrightarrow> a \<in> set (lin k) \<Longrightarrow> key a = k"
    and d: "\<And>k. k \<in> set ks \<Longrightarrow> distinct (lin k)" and r: "\<And>k. k \<in> set ks \<Longrightarrow> in_time ops (lin k)"
    and t: "\<And>k a. k \<in> set ks \<Longrightarrow> a \<in> set (lin k) \<Longrightarrow> op_Call (ops ! a) \<le> op_Return (ops ! a)"
  obtains p where "set p = (\<Union>k\<in>set ks. set (lin k))" and "distinct p" and "in_time ops p"
    and "\<And>k. k \<in> set ks \<Longrightarrow> filter (\<lambda>a. key a = k) p = lin k"
proof -
  let ?T = "\<lambda>a. point ops (lin (key a)) a" and ?all = "concat (map lin ks)"
  let ?p = "sort_key ?T ?all"
  have set: "set ?p = (\<Union>k\<in>set ks. set (lin k))" by simp
  have fil: "filter (\<lambda>a. key a = k) ?p = lin k" if k: "k \<in> set ks" for k
  proof -
    have "map ?T (lin k) = map (point ops (lin k)) (lin k)" using key [OF k] by simp
    then have "sorted (map ?T (lin k))" using point_sorted [OF d [OF k], of ops] by metis
    then have "sort_key ?T (lin k) = lin k" by (rule sort_key_id_if_sorted)
    moreover have "filter (\<lambda>a. key a = k) ?all = lin k" using filter_concat_key [of ks lin key k, OF ks key] k by simp
    ultimately show ?thesis by (simp add: filter_sort)
  qed
  have count: "count (mset ?p) a \<le> 1" for a
  proof (cases "a \<in> set ?p")
    case True
    then obtain k where k: "k \<in> set ks" "a \<in> set (lin k)" unfolding set by blast
    have "count (mset ?p) a = count (mset (filter (\<lambda>a. key a = k) ?p)) a" using key [OF k] by simp
    also have "\<dots> = 1" using fil [OF k(1)] d [OF k(1)] k(2) by (simp add: distinct_count_atmost_1)
    finally show ?thesis by simp
  next
    case False
    then have "count (mset ?p) a = 0" by (simp only: count_mset_0_iff) simp
    then show ?thesis by linarith
  qed
  have dist: "distinct ?p"
    unfolding distinct_count_atmost_1 using count by (metis (no_types, lifting) count_mset_0_iff le_eq_less_or_eq less_one)
  have bounds: "op_Call (ops ! a) \<le> ?T a \<and> ?T a \<le> op_Return (ops ! a)" if a: "a \<in> set ?p" for a
  proof -
    obtain k where k: "k \<in> set ks" "a \<in> set (lin k)" using a unfolding set by blast
    then show ?thesis using point_bounds [OF d [OF k(1)] r [OF k(1)] k(2) t [OF k]] key [OF k] by simp
  qed
  have "sorted (map ?T ?p)" by (rule sorted_sort_key)
  then have "sorted_wrt (\<lambda>a b. ?T a \<le> ?T b) ?p" by (simp add: sorted_wrt_map)
  then have "in_time ops ?p" unfolding in_time_def
  proof (rule sorted_wrt_mono_rel [rotated])
    fix a b
    assume "a \<in> set ?p" "b \<in> set ?p" and "?T a \<le> ?T b"
    then show "\<not> op_Return (ops ! b) < op_Call (ops ! a)" using bounds [of a] bounds [of b] by linarith
  qed
  then show thesis using that set dist fil by blast
qed

text \<open>A history of selected operations, by their positions in the whole history.\<close>

lemma legal_map: "legal step inp out st (map f q) = legal step (\<lambda>j. inp (f j)) (\<lambda>j. out (f j)) st q"
  by (induction q arbitrary: st) (auto split: prod.splits)

lemma nths_of:
  assumes "set p \<subseteq> set js"
  obtains q where "p = map ((!) js) q" and "set q \<subseteq> {0..<length js}"
proof -
  have "\<exists>q. p = map ((!) js) q \<and> set q \<subseteq> {0..<length js}" using assms
  proof (induction p)
    case (Cons a p)
    then obtain q j where "p = map ((!) js) q" "set q \<subseteq> {0..<length js}" "j < length js" "a = js ! j"
      by (auto simp: in_set_conv_nth)
    then show ?case by (intro exI [of _ "j # q"]) simp
  qed simp
  then show thesis using that by blast
qed

lemma linearizable_sub:
  assumes d: "distinct js"
  shows "linearizable_ops step init (map ((!) ops) js) \<longleftrightarrow>
    (\<exists>p. distinct p \<and> set p = set js \<and> legal_ops step init ops p \<and> in_time ops p)"
proof -
  have sub: "(distinct q \<and> set q = {0..<length js} \<and>
      legal step (\<lambda>i. op_Input (map ((!) ops) js ! i)) (\<lambda>i. op_Output (map ((!) ops) js ! i)) init q \<and>
      sorted_wrt (\<lambda>a b. \<not> op_Return (map ((!) ops) js ! b) < op_Call (map ((!) ops) js ! a)) q) \<longleftrightarrow>
    (distinct (map ((!) js) q) \<and> set (map ((!) js) q) = set js \<and> legal_ops step init ops (map ((!) js) q) \<and>
      in_time ops (map ((!) js) q))" (is "?L \<longleftrightarrow> ?R") if q: "set q \<subseteq> {0..<length js}" for q
  proof -
    have n: "map ((!) ops) js ! b = ops ! (js ! b)" if "b \<in> set q" for b using q that by (subst nth_map) auto
    have inj: "inj_on ((!) js) {0..<length js}" using d by (simp add: inj_on_nth)
    have all: "(!) js ` {0..<length js} = set js" by (auto simp: in_set_conv_nth)
    have "set (map ((!) js) q) = set js \<longleftrightarrow> set q = {0..<length js}"
      unfolding all [symmetric] set_map by (rule inj_on_image_eq_iff [OF inj q subset_refl])
    moreover have "distinct (map ((!) js) q) \<longleftrightarrow> distinct q"
      using inj q by (auto simp: distinct_map intro: inj_on_subset)
    moreover have "legal_ops step init ops (map ((!) js) q) =
        legal step (\<lambda>i. op_Input (map ((!) ops) js ! i)) (\<lambda>i. op_Output (map ((!) ops) js ! i)) init q"
      unfolding legal_ops_def legal_map by (rule legal_cong) (simp add: n)
    moreover have "in_time ops (map ((!) js) q) =
        sorted_wrt (\<lambda>a b. \<not> op_Return (map ((!) ops) js ! b) < op_Call (map ((!) ops) js ! a)) q"
      unfolding in_time_def sorted_wrt_map by (rule sorted_wrt_cong_set) (simp add: n)
    ultimately show ?thesis by blast
  qed
  show ?thesis
  proof
    assume "linearizable_ops step init (map ((!) ops) js)"
    then show "\<exists>p. distinct p \<and> set p = set js \<and> legal_ops step init ops p \<and> in_time ops p"
      unfolding linearizable_ops_def length_map using sub by (metis subset_refl)
  next
    assume "\<exists>p. distinct p \<and> set p = set js \<and> legal_ops step init ops p \<and> in_time ops p"
    then obtain p where p: "distinct p" "set p = set js" "legal_ops step init ops p" "in_time ops p" by blast
    obtain q where "p = map ((!) js) q" "set q \<subseteq> {0..<length js}" using nths_of [of p "js"] p(2) by blast
    then show "linearizable_ops step init (map ((!) ops) js)"
      unfolding linearizable_ops_def length_map using sub [of q] p by blast
  qed
qed

section \<open>Locality\<close>

definition idx :: "KvVal Operation list \<Rightarrow> string \<Rightarrow> nat list" where
  "idx ops k = filter (\<lambda>i. kv_key (ops ! i) = k) [0..<length ops]"

lemma on_key_idx: "on_key k ops = map ((!) ops) (idx ops k)"
proof -
  have "on_key k (map ((!) ops) [0..<length ops]) = map ((!) ops) (idx ops k)"
    unfolding on_key_def idx_def filter_map by (simp add: comp_def)
  then show ?thesis by (simp add: map_nth)
qed

lemma linearizable_whole:
  "linearizable_ops step init ops \<longleftrightarrow>
    (\<exists>p. distinct p \<and> set p = {0..<length ops} \<and> legal_ops step init ops p \<and> in_time ops p)"
  by (simp add: linearizable_ops_def legal_ops_def in_time_def)

lemma kv_local:
  assumes t: "good_times ops"
  shows "linearizable_ops store_Step (\<lambda>k. []) ops \<longleftrightarrow> (\<forall>k. linearizable_ops kv_Step [] (on_key k ops))"
proof
  assume "linearizable_ops store_Step (\<lambda>k. []) ops"
  then obtain p where p: "distinct p" "set p = {0..<length ops}" "legal_ops store_Step (\<lambda>k. []) ops p" "in_time ops p"
    unfolding linearizable_whole by blast
  have "linearizable_ops kv_Step [] (map ((!) ops) (idx ops k))" for k
  proof -
    let ?q = "filter (\<lambda>i. kv_key (ops ! i) = k) p"
    have "legal_ops kv_Step [] ops ?q" using p(3) legal_store [of "\<lambda>k. []"] by blast
    moreover have "distinct ?q" using p(1) by simp
    moreover have "set ?q = set (idx ops k)" using p(2) by (simp add: idx_def)
    moreover have "in_time ops ?q" using p(4) by (simp add: in_time_def sorted_wrt_filter)
    moreover have "distinct (idx ops k)" by (simp add: idx_def)
    ultimately show ?thesis using linearizable_sub [of "idx ops k" kv_Step "[]" ops] by blast
  qed
  then show "\<forall>k. linearizable_ops kv_Step [] (on_key k ops)" by (simp add: on_key_idx)
next
  assume all: "\<forall>k. linearizable_ops kv_Step [] (on_key k ops)"
  have "\<exists>p. distinct p \<and> set p = set (idx ops k) \<and> legal_ops kv_Step [] ops p \<and> in_time ops p" for k
    using all linearizable_sub [of "idx ops k" kv_Step "[]" ops] unfolding on_key_idx by (simp add: idx_def)
  then obtain lin where lin: "\<And>k. distinct (lin k)" "\<And>k. set (lin k) = set (idx ops k)"
      "\<And>k. legal_ops kv_Step [] ops (lin k)" "\<And>k. in_time ops (lin k)" by metis
  obtain ks where ks: "set ks = kv_key ` set ops" "distinct ks" using finite_distinct_list [of "kv_key ` set ops"] by blast
  have key: "kv_key (ops ! a) = k" "a < length ops" if "a \<in> set (lin k)" for a k
    using that lin(2) [of k] by (auto simp: idx_def)
  obtain p where p: "set p = (\<Union>k\<in>set ks. set (lin k))" "distinct p" "in_time ops p"
      "\<And>k. k \<in> set ks \<Longrightarrow> filter (\<lambda>a. kv_key (ops ! a) = k) p = lin k"
    using merge_keys [of ks lin "\<lambda>a. kv_key (ops ! a)" ops, OF ks(2) key(1) lin(1) lin(4)] t key(2)
    unfolding good_times_def by (metis nth_mem)
  have set: "set p = {0..<length ops}" unfolding p(1) ks(1) lin(2) by (force simp: idx_def)
  have "legal_ops kv_Step [] ops (filter (\<lambda>a. kv_key (ops ! a) = k) p)" for k
  proof (cases "k \<in> set ks")
    case True
    then show ?thesis using p(4) lin(3) by simp
  next
    case False
    then have "filter (\<lambda>a. kv_key (ops ! a) = k) p = []" using set ks(1) by (auto simp: filter_empty_conv)
    then show ?thesis by (simp add: legal_ops_def)
  qed
  then have "legal_ops store_Step (\<lambda>k. []) ops p" unfolding legal_store by blast
  then show "linearizable_ops store_Step (\<lambda>k. []) ops" unfolding linearizable_whole using p(2,3) set by blast
qed

lemma kv_parts:
  assumes "good_times ops"
  shows "(\<forall>sub\<in>set (parts KvModel ops). linearizable_ops (m_Step KvModel) (m_Init KvModel) sub) \<longleftrightarrow>
    linearizable_ops store_Step (\<lambda>k. []) ops"
proof -
  have "linearizable_ops kv_Step [] []" by (auto simp: linearizable_ops_def intro: exI [of _ "[]"])
  moreover have "on_key k ops = []" if "k \<notin> kv_key ` set ops" for k using that by (auto simp: on_key_def filter_empty_conv)
  ultimately have "(\<forall>k. linearizable_ops kv_Step [] (on_key k ops)) \<longleftrightarrow>
      (\<forall>k\<in>kv_key ` set ops. linearizable_ops kv_Step [] (on_key k ops))" by metis
  then show ?thesis unfolding kv_local [OF assms] by (simp add: parts_def KvModel_def kv_Partition_eq)
qed

lemma kv_parts_times: "good_times ops \<Longrightarrow> sub \<in> set (parts KvModel ops) \<Longrightarrow> good_times sub"
  by (auto simp: parts_def KvModel_def kv_Partition_eq good_times_def on_key_def)

end
