(* ===== verification/Porcupine_Props.thy ===== *)
theory Porcupine_Props
  imports Porcupine_KV
begin

text \<open>
  The properties of the linearizability checker, over the lemmas of the other theories, with
  instances on concrete histories.
\<close>

section \<open>The search\<close>

text \<open>A history and its entries for the instances: a put and a get that overlaps it.\<close>

definition op1 :: "KvVal Operation" where
  "op1 = \<lparr>op_ClientId = 0, op_Input = KvIn \<lparr>kv_Op = 1, kv_Key = ''k'', kv_Value = ''a''\<rparr>, op_Call = 0,
     op_Output = KvOut [], op_Return = 10\<rparr>"

definition op2 :: "KvVal Operation" where
  "op2 = \<lparr>op_ClientId = 1, op_Input = KvIn \<lparr>kv_Op = 0, kv_Key = ''k'', kv_Value = []\<rparr>, op_Call = 5,
     op_Output = KvOut ''a'', op_Return = 8\<rparr>"

lemma good_times_op: "good_times [op1, op2]"
  by (simp add: good_times_def op1_def op2_def)

lemma kv_state_equality: "state_equality (m_Step (fillDefault KvModel)) (equal_of (fillDefault KvModel))"
  by (simp add: fillDefault_eq equal_of_def KvModel_def shallow.state_equality_axioms)

text \<open>C25: \<open>checkSingle\<close> returns whatever the model and however the kill flag behaves. It answers true
  only with a linearization of the history, which it reports; it answers false only when it
  was killed or no linearization exists. So an unkilled search decides linearizability.\<close>

theorem checkSingle_decides:
  assumes "wf_entries n es" and "state_equality (m_Step model) (equal_of model)"
  shows "(\<exists>p t. checkSingle nil model es computePartial kill =
        Some (Inr (True, replicate n (Some (t, map int p)))) \<and>
        linearization (m_Step model) es n {} (m_Init model) p) \<or>
    (\<exists>longest. checkSingle nil model es computePartial kill = Some (Inr (False, longest)) \<and>
        ((\<exists>k. kill k) \<or> (\<nexists>p. linearization (m_Step model) es n {} (m_Init model) p)))"
  using checkSingle_result [OF assms] by (simp only: linearizable_def)

theorem checkSingle_decides_witness:
  "\<exists>p t. checkSingle (KvOut []) (fillDefault KvModel) (makeEntries sort_byTime [op1, op2]) False (\<lambda>_. False) =
        Some (Inr (True, replicate 2 (Some (t, map int p)))) \<and>
     linearization (m_Step (fillDefault KvModel)) (makeEntries sort_byTime [op1, op2]) 2 {}
       (m_Init (fillDefault KvModel)) p"
proof -
  have wf: "wf_entries 2 (makeEntries sort_byTime [op1, op2])"
    using makeEntries_wf [OF sorts_sort_byTime, of "[op1, op2]"] good_times_op
    by (simp add: good_times_def numeral_2_eq_2)
  have "checkSingle (KvOut []) (fillDefault KvModel) (makeEntries sort_byTime [op1, op2]) False (\<lambda>_. False) =
      Some (Inr (True, [Some (0, [0, 1]), Some (0, [0, 1])]))" by code_simp
  then show ?thesis
    using checkSingle_decides [OF wf kv_state_equality, of "KvOut []" False "\<lambda>_. False"] by simp
qed

section \<open>The clients of the checker\<close>

text \<open>C26: The answer of \<open>CheckOperations\<close> with \<open>KvModel\<close>, for any order in which the searches of the
  partitions end: true exactly when the whole history is linearizable for a store of strings
  by key, although the checker only looks at one key at a time.\<close>

theorem CheckOperations_KvModel:
  assumes "sorts_byTime srt" and "good_times history"
    and "CheckOperations srt nil KvModel history evs = Some ans"
  shows "ans \<longleftrightarrow> linearizable_ops store_Step (\<lambda>k. []) history"
proof -
  from assms(3) obtain res info where run: "checkOperations srt nil KvModel history False 0 evs = Some (res, info)"
      "ans = (res = Ok)" by (auto simp: CheckOperations_def)
  have "\<forall>ops\<in>set (parts KvModel history). good_times ops" using kv_parts_times [OF assms(2)] by blast
  moreover have "good_equal KvModel" by (rule good_equal_default) (simp add: KvModel_def)
  ultimately show ?thesis
    using checkOperations_result [OF assms(1) _ _ run(1)] run(2) kv_parts [OF assms(2)] by (cases res) auto
qed

theorem CheckOperations_KvModel_witness: "linearizable_ops store_Step (\<lambda>k. []) [op1, op2]"
proof -
  have "CheckOperations sort_byTime (KvOut []) KvModel [op1, op2] [Finish 0 0, Receive] = Some True" by code_simp
  from CheckOperations_KvModel [OF sorts_sort_byTime good_times_op this] show ?thesis by simp
qed

text \<open>C27: The verdicts of \<open>checkOperations\<close> for any model whose \<open>Equal\<close> keeps its contract, verbose or
  not, with or without a timeout: \<open>Ok\<close> means that every partition is linearizable, \<open>Illegal\<close> that some
  partition is not, and \<open>Unknown\<close> needs a timeout.\<close>

theorem checkOperations_verdict:
  assumes "sorts_byTime srt" and "good_equal model" and "\<forall>ops\<in>set (parts model history). good_times ops"
    and "checkOperations srt nil model history verbose timeout evs = Some (res, info)"
  shows "(res = Ok \<longrightarrow> (\<forall>ops\<in>set (parts model history). linearizable_ops (m_Step model) (m_Init model) ops)) \<and>
    (res = Illegal \<longrightarrow> (\<exists>ops\<in>set (parts model history). \<not> linearizable_ops (m_Step model) (m_Init model) ops)) \<and>
    (timeout \<le> 0 \<longrightarrow> res \<noteq> Unknown)"
  by (rule checkOperations_result [OF assms])

text \<open>The get returns after the put has returned, with an old value.\<close>

definition op3 :: "KvVal Operation" where
  "op3 = op2\<lparr>op_Output := KvOut [], op_Call := 20, op_Return := 30\<rparr>"

theorem checkOperations_verdict_witness:
  "\<exists>ops\<in>set (parts KvModel [op1, op3]). \<not> linearizable_ops (m_Step KvModel) (m_Init KvModel) ops"
proof -
  have t: "good_times [op1, op3]" by (simp add: good_times_def op1_def op2_def op3_def)
  have "map_option fst (checkOperations sort_byTime (KvOut []) KvModel [op1, op3] True 5 [Finish 0 0, Receive]) = Some Illegal"
    by code_simp
  then obtain info where run: "checkOperations sort_byTime (KvOut []) KvModel [op1, op3] True 5 [Finish 0 0, Receive] = Some (Illegal, info)"
    by auto
  show ?thesis
    using checkOperations_verdict [OF sorts_sort_byTime good_equal_default _ run] kv_parts_times [OF t]
    by (simp add: KvModel_def)
qed

text \<open>C29: Partitioning by key is sound and complete: a history is linearizable for the store exactly
  when the subhistory of every partition of \<open>KvModel\<close> is linearizable for a single string.\<close>

theorem kv_Partition_local:
  assumes "good_times history"
  shows "linearizable_ops store_Step (\<lambda>k. []) history \<longleftrightarrow>
    (\<forall>sub\<in>set (kv_Partition history). linearizable_ops kv_Step [] sub)"
  using kv_parts [OF assms] by (simp add: parts_def KvModel_def)

theorem kv_Partition_local_witness:
  "linearizable_ops store_Step (\<lambda>k. []) [op1, op2] \<longleftrightarrow> linearizable_ops kv_Step [] [op1, op2]"
proof -
  have "kv_Partition [op1, op2] = [[op1, op2]]" by code_simp
  then show ?thesis using kv_Partition_local [OF good_times_op] by simp
qed

text \<open>\<open>Partition\<close> of \<open>KvModel\<close>: one subhistory for each key that occurs, in the order of the keys, with the
  operations of the key in the order of the history.\<close>

lemma kv_Partition_groups:
  "kv_Partition history = map (\<lambda>k. filter (\<lambda>v. kv_Key (kv_input (op_Input v)) = k) history)
     (sorted_list_of_set ((\<lambda>v. kv_Key (kv_input (op_Input v))) ` set history))"
  unfolding kv_Partition_eq on_key_def kv_key_def ..

section \<open>Termination\<close>

text \<open>C30: \<open>checkParallel\<close> ends: no run has more than two events for each partition and one more, and
  while the main goroutine has not finished, something can happen.\<close>

theorem checkParallel_ends:
  assumes "par_assms model history" and "history \<noteq> []"
    and "par_exec nil model history computeInfo timeout evs (par_init history) = Some s"
  shows "length evs \<le> 2 * length history + 1 \<and>
    (par_done history computeInfo s \<or> (\<exists>e s'. par_step nil model history computeInfo timeout e s = Some s'))"
  using par_exec_size [OF assms(3)] par_progress [OF assms(1) par_exec_inv [OF assms(1) par_init_inv assms(3)] assms(2)]
  by (auto simp: par_size_def par_init_def)

theorem checkParallel_ends_witness:
  "\<exists>e s'. par_step (KvOut []) (fillDefault KvModel) [makeEntries sort_byTime [op1, op2]] False 0 e
     (par_init [makeEntries sort_byTime [op1, op2]]) = Some s'"
proof -
  have "par_assms (fillDefault KvModel) (map (makeEntries sort_byTime) (parts KvModel [op1, op2]))"
    by (rule operations_assms [OF sorts_sort_byTime good_equal_default]) (use kv_parts_times [OF good_times_op] in \<open>auto simp: KvModel_def\<close>)
  moreover have "parts KvModel [op1, op2] = [[op1, op2]]" by code_simp
  ultimately have "par_assms (fillDefault KvModel) [makeEntries sort_byTime [op1, op2]]" by simp
  from checkParallel_ends [OF this, of "KvOut []" False 0 "[]"] show ?thesis by (simp add: par_done_def par_init_def)
qed

text \<open>C31: On an empty history \<open>KvModel\<close> makes no partition, and then no run of \<open>CheckOperations\<close> ends: the main
  goroutine waits for a result although no search was started.\<close>

theorem CheckOperations_empty_hangs: "CheckOperations srt nil KvModel [] evs = None"
proof -
  let ?none = "[] :: KvVal entry list list"
  have "par_exec nil (fillDefault KvModel) ?none False 0 evs (par_init ?none) = (if evs = [] then Some (par_init ?none) else None)"
    by (cases evs; cases "hd evs")
      (auto simp: par_finish_def par_receive_def par_timeout_def par_drain_def par_init_def)
  moreover have "kv_Partition [] = []" by (simp add: kv_Partition_eq)
  moreover have "m_Partition (fillDefault KvModel) = Some kv_Partition" by (simp add: fillDefault_eq KvModel_def)
  moreover have "\<not> par_done ?none False (par_init ?none)" by (simp add: par_done_def par_init_def)
  ultimately show ?thesis by (simp add: CheckOperations_def checkOperations_def checkParallel_def Let_def)
qed

section \<open>The linked list and the bit sets\<close>

text \<open>\<open>lift\<close> takes a call and its return out of the list, wherever they are, and \<open>unlift\<close> puts both back:
  the heap is what it was, pointer for pointer.\<close>

theorem lift_unlift:
  assumes "linked h (A @ l # e # B @ m # D)" and "data h e = Some (v, Some m, i)"
  shows "\<exists>h'. lift (Some e) h = Inr h' \<and> linked h' (A @ l # B @ D) \<and> unlift (Some e) h' = Inr h"
  using lift_eq [OF assms] by blast

definition heap2 :: "KvVal heap" where
  "heap2 = [0 \<mapsto> \<lparr>nd_value = KvOut [], nd_match = None, nd_id = -1, nd_next = Some 1, nd_prev = None\<rparr>,
     1 \<mapsto> \<lparr>nd_value = KvOut [], nd_match = Some 2, nd_id = 0, nd_next = Some 2, nd_prev = Some 0\<rparr>,
     2 \<mapsto> \<lparr>nd_value = KvOut [], nd_match = None, nd_id = 0, nd_next = None, nd_prev = Some 1\<rparr>]"

theorem lift_unlift_witness: "\<exists>h'. lift (Some 1) heap2 = Inr h' \<and> linked h' [0] \<and> unlift (Some 1) h' = Inr heap2"
  using lift_unlift [of heap2 "[]" 0 1 "[]" 2 "[]" "KvOut []" 0] by (simp add: heap2_def linked_def data_def)

text \<open>C32: A bit set of words represents a set of positions: \<open>set\<close>, \<open>clear\<close> and \<open>get\<close> work on the positions below
  64 times the number of words and panic on every other, a new set has room for what was
  asked, and \<open>equals\<close> is equality of the sets.\<close>

theorem bitset_bounds:
  "(if q < 64 * length b
    then (\<exists>b'. bitset_set q b = Inr b' \<and> length b' = length b \<and> bits_of b' = insert q (bits_of b)) \<and>
         (\<exists>b'. bitset_clear q b = Inr b' \<and> length b' = length b \<and> bits_of b' = bits_of b - {q}) \<and>
         bitset_get q b = Inr (q \<in> bits_of b)
    else bitset_set q b = Inl (IndexOutOfRange (int (q div 64))) \<and> bitset_clear q b = Inl (IndexOutOfRange (int (q div 64))) \<and>
         bitset_get q b = Inl (IndexOutOfRange (int (q div 64)))) \<and>
   bits_of (newBitset n) = {} \<and> n \<le> 64 * length (newBitset n) \<and>
   (bitset_equals b c \<longleftrightarrow> length b = length c \<and> bits_of b = bits_of c)"
proof -
  have eq: "bitset_equals b c \<longleftrightarrow> length b = length c \<and> bits_of b = bits_of c"
    using bs.same_iff [of b c] by (auto simp: capacity_def bitset_equals_def)
  have new: "bits_of (newBitset n) = {} \<and> n \<le> 64 * length (newBitset n)"
    using bs.elems_empty bs.cap_empty [of n] by (simp add: capacity_def)
  show ?thesis
  proof (cases "q < 64 * length b")
    case True
    then have "q < capacity b" by (simp add: capacity_def)
    from bs.insert_ok [OF this] bs.remove_ok [OF this] bs.member_ok [OF this] True eq new show ?thesis
      by (auto simp: capacity_def)
  next
    case False
    then have "\<not> q div 64 < length b" by (simp add: less_eq_div_iff_mult_less_eq mult.commute not_less)
    then show ?thesis using False eq new
      by (simp add: bitset_set_def bitset_clear_def bitset_get_def bitsetIndex_def go_index_def)
  qed
qed

section \<open>Events\<close>

text \<open>\<open>renumber\<close> replaces the ids of the events by \<open>0, 1, ...\<close> one to one, and changes nothing else.\<close>

lemma renumber_bijection:
  "\<exists>f N. bij_betw f (ev_Id ` set evs) (int ` {0..<N}) \<and> renumber evs = map (\<lambda>e. e\<lparr>ev_Id := f (ev_Id e)\<rparr>) evs"
proof -
  obtain f N where "inj_on f (ev_Id ` set evs)" "f ` ev_Id ` set evs = int ` {0..<N}"
      "renumber evs = map (\<lambda>e. e\<lparr>ev_Id := f (ev_Id e)\<rparr>) evs" by (rule renumber_eq)
  then show ?thesis unfolding bij_betw_def by blast
qed

text \<open>The verdicts of \<open>checkEvents\<close>: on partitions in which every operation has one call and a later return,
  \<open>Ok\<close> and \<open>Illegal\<close> say whether the renumbered entries are linearizable, and \<open>Unknown\<close> needs a timeout.\<close>

theorem checkEvents_verdict:
  assumes "good_equal model" and "\<forall>sub\<in>set (event_parts model history). wf_events sub"
    and "checkEvents nil model history verbose timeout evs = Some (res, info)"
  shows "(res = Ok \<longrightarrow> (\<forall>sub\<in>set (event_parts model history).
        linearizable (m_Step model) (convertEntries (renumber sub)) (length sub div 2) {} (m_Init model))) \<and>
    (res = Illegal \<longrightarrow> (\<exists>sub\<in>set (event_parts model history).
        \<not> linearizable (m_Step model) (convertEntries (renumber sub)) (length sub div 2) {} (m_Init model))) \<and>
    (timeout \<le> 0 \<longrightarrow> res \<noteq> Unknown)"
  by (rule checkEvents_result [OF assms])

definition evs1 :: "KvVal Event list" where
  "evs1 = [\<lparr>ev_ClientId = 0, ev_Kind = CallEvent, ev_Value = op_Input op1, ev_Id = 7\<rparr>,
     \<lparr>ev_ClientId = 0, ev_Kind = ReturnEvent, ev_Value = op_Output op1, ev_Id = 7\<rparr>]"

theorem checkEvents_verdict_witness: "linearizable kv_Step (convertEntries (renumber evs1)) 1 {} []"
proof -
  have "map_option fst (checkEvents (KvOut []) KvModel evs1 False 0 [Finish 0 0, Receive]) = Some Ok" by code_simp
  then obtain info where run: "checkEvents (KvOut []) KvModel evs1 False 0 [Finish 0 0, Receive] = Some (Ok, info)" by auto
  have p: "event_parts KvModel evs1 = [evs1]" by (simp add: event_parts_def KvModel_def NoPartitionEvent_def)
  have "wf_events evs1" by (auto simp: wf_events_def evs1_def nth_Cons split: nat.splits)
  with p have "\<forall>sub\<in>set (event_parts KvModel evs1). wf_events sub" by simp
  from checkEvents_verdict [OF good_equal_default this run] p show ?thesis by (simp add: KvModel_def evs1_def)
qed

end
