(* ===== verification/Porcupine_Visual.thy ===== *)
theory Porcupine_Visual
  imports Porcupine_Partials Porcupine_Props
begin

text \<open>
  \<open>computeVisualizationData\<close> of \<open>porcupine/visualization.go\<close>: what the page with a history and its
  partial linearizations shows. It replays every partial linearization on the model and panics
  when the model refuses a step; on the results of the checker it does not, and the entry for an
  operation points to a longest linearization that contains it.
\<close>

section \<open>The data of the page\<close>

record historyElement =
  he_ClientId :: int
  he_Start :: int
  he_End :: int
  he_Description :: string

record linearizationStep =
  ls_Index :: int
  ls_StateDescription :: string

type_synonym partialLinearization = "linearizationStep list"

record partitionVisualizationData =
  pv_History :: "historyElement list"
  pv_PartialLinearizations :: "partialLinearization list"
  pv_Largest :: "(int, int) gomap"

definition zero_element :: historyElement where
  "zero_element = \<lparr>he_ClientId = 0, he_Start = 0, he_End = 0, he_Description = []\<rparr>"

text \<open>A map of interface values returns nil for a missing key, a map of numbers 0.\<close>

definition value_at :: "'v \<Rightarrow> (int, 'v) gomap \<Rightarrow> int \<Rightarrow> 'v" where
  "value_at nil m k = (case gm_get m k of None \<Rightarrow> nil | Some v \<Rightarrow> v)"

definition size_at :: "(int, int) gomap \<Rightarrow> int \<Rightarrow> int" where
  "size_at m k = (case gm_get m k of None \<Rightarrow> 0 | Some v \<Rightarrow> v)"

text \<open>One entry of the history; the state is \<open>history\<close>, \<open>callValue\<close> and \<open>returnValue\<close>.\<close>

definition history_entry :: "'v \<Rightarrow> ('v \<Rightarrow> 'v \<Rightarrow> string) \<Rightarrow> 'v entry \<Rightarrow>
    historyElement list \<times> (int, 'v) gomap \<times> (int, 'v) gomap \<Rightarrow> (historyElement list \<times> (int, 'v) gomap \<times> (int, 'v) gomap) go" where
  "history_entry nil describeOperation elem = (\<lambda>(history, callValue, returnValue).
     go_bind (go_index history (en_id elem)) (\<lambda>he.
     case en_kind elem of
       callEntry \<Rightarrow>
         go_bind (go_assign history (en_id elem) (he\<lparr>he_ClientId := en_clientId elem, he_Start := en_time elem\<rparr>)) (\<lambda>history.
         Inr (history, gm_put (en_id elem) (en_value elem) callValue, returnValue))
     | returnEntry \<Rightarrow>
         go_bind (go_assign history (en_id elem) (he\<lparr>he_End := en_time elem,
           he_Description := describeOperation (value_at nil callValue (en_id elem)) (en_value elem)\<rparr>)) (\<lambda>history.
         Inr (history, callValue, gm_put (en_id elem) (en_value elem) returnValue))))"

text \<open>One operation of a partial linearization of length \<open>len\<close> with number \<open>i\<close>.\<close>

definition replay_step :: "'v \<Rightarrow> ('s \<Rightarrow> string) \<Rightarrow> ('s, 'v) Model \<Rightarrow> (int, 'v) gomap \<Rightarrow> (int, 'v) gomap \<Rightarrow> int \<Rightarrow> int \<Rightarrow> int \<Rightarrow>
    's \<times> partialLinearization \<times> (int, int) gomap \<times> (int, int) gomap \<Rightarrow>
    ('s \<times> partialLinearization \<times> (int, int) gomap \<times> (int, int) gomap) go" where
  "replay_step nil describeState model callValue returnValue len i histId = (\<lambda>(state, linearization, largestSize, largestIndex).
     case m_Step model state (value_at nil callValue histId) (value_at nil returnValue histId) of (ok, state) \<Rightarrow>
     if ok \<noteq> True then Inl (Panic ''valid partial linearization returned non-ok result from model step'')
     else
       let stateDesc = describeState state;
           linearization = linearization @ [\<lparr>ls_Index = histId, ls_StateDescription = stateDesc\<rparr>]
       in if size_at largestSize histId < len
          then Inr (state, linearization, gm_put histId len largestSize, gm_put histId i largestIndex)
          else Inr (state, linearization, largestSize, largestIndex))"

definition replay :: "'v \<Rightarrow> ('s \<Rightarrow> string) \<Rightarrow> ('s, 'v) Model \<Rightarrow> (int, 'v) gomap \<Rightarrow> (int, 'v) gomap \<Rightarrow> int \<times> int list \<Rightarrow>
    partialLinearization list \<times> (int, int) gomap \<times> (int, int) gomap \<Rightarrow>
    (partialLinearization list \<times> (int, int) gomap \<times> (int, int) gomap) go" where
  "replay nil describeState model callValue returnValue = (\<lambda>(i, partial) (linearizations, largestSize, largestIndex).
     go_bind (go_for (replay_step nil describeState model callValue returnValue (int (length partial)) i) partial
         (m_Init model, [], largestSize, largestIndex)) (\<lambda>(state, linearization, largestSize, largestIndex).
     Inr (linearizations @ [linearization], largestSize, largestIndex)))"

text \<open>One partition; \<open>partials\<close> is the slice after \<open>sort.Slice\<close>.\<close>

definition partition_data :: "'v \<Rightarrow> ('v \<Rightarrow> 'v \<Rightarrow> string) \<Rightarrow> ('s \<Rightarrow> string) \<Rightarrow> ('s, 'v) Model \<Rightarrow> 'v entry list \<Rightarrow> int list list \<Rightarrow>
    partitionVisualizationData go" where
  "partition_data nil describeOperation describeState model history partials =
     (let n = length history div 2 in
      go_bind (go_for (history_entry nil describeOperation) history (replicate n zero_element, [], [])) (\<lambda>(elements, callValue, returnValue).
      go_bind (go_for (replay nil describeState model callValue returnValue) (zip [0..int (length partials) - 1] partials) ([], [], []))
        (\<lambda>(linearizations, largestSize, largestIndex).
      Inr \<lparr>pv_History = elements, pv_PartialLinearizations = linearizations, pv_Largest = largestIndex\<rparr>)))"

text \<open>
  The slice \<open>partials\<close> is built by a loop over a map, in no particular order, and \<open>sort.Slice\<close> is not
  stable: \<open>order\<close> is the result for the multiset of sequences.
\<close>

definition computeVisualizationData :: "'v \<Rightarrow> ('v \<Rightarrow> 'v \<Rightarrow> string) \<Rightarrow> ('s \<Rightarrow> string) \<Rightarrow> (int list multiset \<Rightarrow> int list list) \<Rightarrow>
    ('s, 'v) Model \<Rightarrow> 'v linearizationInfo \<Rightarrow> partitionVisualizationData list go" where
  "computeVisualizationData nil describeOperation describeState order model info =
     (let model = fillDefault model in
      go_for (\<lambda>k data. go_bind (go_index (li_history info) k) (\<lambda>history.
          go_bind (go_index (li_partialLinearizations info) k) (\<lambda>partials.
          go_bind (partition_data nil describeOperation describeState model history (order partials)) (\<lambda>d.
          Inr (data @ [d]))))) [0..int (length (li_history info)) - 1] [])"

section \<open>The history\<close>

text \<open>The element of operation \<open>i\<close> after the first \<open>k\<close> entries.\<close>

definition element_at :: "('v \<Rightarrow> 'v \<Rightarrow> string) \<Rightarrow> 'v entry list \<Rightarrow> nat \<Rightarrow> nat \<Rightarrow> historyElement" where
  "element_at describe es k i = (let c = pos es callEntry i; r = pos es returnEntry i in
     \<lparr>he_ClientId = if c < k then en_clientId (es ! c) else 0, he_Start = if c < k then en_time (es ! c) else 0,
      he_End = if r < k then en_time (es ! r) else 0,
      he_Description = if r < k then describe (val es callEntry i) (val es returnEntry i) else []\<rparr>)"

definition values_at :: "'v entry list \<Rightarrow> nat \<Rightarrow> entryKind \<Rightarrow> nat \<Rightarrow> (int, 'v) gomap \<Rightarrow> bool" where
  "values_at es n kind k m \<longleftrightarrow> (\<forall>i<n. gm_get m (int i) = (if pos es kind i < k then Some (val es kind i) else None))"

lemma values_at_put:
  assumes "wf_entries n es" and "a < n" and "k = pos es kind a" and "values_at es n kind k m"
  shows "values_at es n kind (Suc k) (gm_put (int a) (en_value (es ! k)) m)"
  unfolding values_at_def
proof (intro allI impI)
  fix i assume i: "i < n"
  have ka: "en_id (es ! k) = int a" unfolding assms(3) by (rule wf_pos(3) [OF assms(1,2)])
  have ki: "i = a" if "pos es kind i = k"
  proof -
    have "en_id (es ! k) = int i" using wf_pos(3) [OF assms(1) i, of kind] unfolding that .
    then show ?thesis using ka by simp
  qed
  then show "gm_get (gm_put (int a) (en_value (es ! k)) m) (int i) = (if pos es kind i < Suc k then Some (val es kind i) else None)"
  proof (cases "i = a")
    case True
    have "val es kind a = en_value (es ! k)" by (simp add: val_def assms(3))
    moreover have "pos es kind a < Suc k" by (simp add: assms(3))
    ultimately show ?thesis by (simp add: True gm_get_put)
  next
    case False
    then have "pos es kind i \<noteq> k" using ki by blast
    then show ?thesis using assms(4) i False by (simp add: gm_get_put values_at_def less_Suc_eq)
  qed
qed

lemma values_at_other:
  assumes "wf_entries n es" and "k < length es" and "en_kind (es ! k) \<noteq> kind" and "values_at es n kind k m"
  shows "values_at es n kind (Suc k) m"
  unfolding values_at_def
proof (intro allI impI)
  fix i assume i: "i < n"
  have "pos es kind i \<noteq> k" using wf_pos(2) [OF assms(1) i, of kind] assms(3) by metis
  then show "gm_get m (int i) = (if pos es kind i < Suc k then Some (val es kind i) else None)"
    using assms(4) i by (simp add: values_at_def less_Suc_eq)
qed

lemma element_at_step:
  assumes wf: "wf_entries n es" and a: "a < n" "pos es (en_kind (es ! k)) a = k" and i: "i < n" "i \<noteq> a"
  shows "element_at describe es (Suc k) i = element_at describe es k i"
proof -
  have "pos es kind i \<noteq> k" for kind
  proof
    assume p: "pos es kind i = k"
    then have "en_id (es ! k) = int i" using wf_pos(3) [OF wf i(1), of kind] by simp
    moreover have "en_id (es ! k) = int a" using wf_pos(3) [OF wf a(1), of "en_kind (es ! k)"] a(2) by simp
    ultimately show False using i(2) by simp
  qed
  then show ?thesis by (simp add: element_at_def less_Suc_eq)
qed

lemma history_loop:
  assumes wf: "wf_entries n es" and "k \<le> length es"
  shows "\<exists>cv rv. go_for (history_entry nil describe) (take k es) (replicate n zero_element, [], []) =
      Inr (map (element_at describe es k) [0..<n], cv, rv) \<and> values_at es n callEntry k cv \<and> values_at es n returnEntry k rv"
  using assms(2)
proof (induction k)
  case 0
  have "map (element_at describe es 0) [0..<n] = replicate n zero_element"
    by (rule nth_equalityI) (simp_all add: element_at_def zero_element_def)
  then show ?case by (auto simp: values_at_def gm_get_def)
next
  case (Suc k)
  then have k: "k < length es" by simp
  obtain cv rv where IH: "go_for (history_entry nil describe) (take k es) (replicate n zero_element, [], []) =
      Inr (map (element_at describe es k) [0..<n], cv, rv)" "values_at es n callEntry k cv" "values_at es n returnEntry k rv"
    using Suc by auto
  obtain a where a: "a < n" "en_id (es ! k) = int a" "pos es (en_kind (es ! k)) a = k" by (rule wf_entry [OF wf k])
  have upd: "(map (element_at describe es k) [0..<n])[a := element_at describe es (Suc k) a] = map (element_at describe es (Suc k)) [0..<n]"
  proof (rule nth_equalityI)
    fix i assume i: "i < length ((map (element_at describe es k) [0..<n])[a := element_at describe es (Suc k) a])"
    then show "(map (element_at describe es k) [0..<n])[a := element_at describe es (Suc k) a] ! i = map (element_at describe es (Suc k)) [0..<n] ! i"
      using element_at_step [OF wf a(1,3), of i describe] by (cases "i = a") simp_all
  qed simp
  have ca: "pos es callEntry a < pos es returnEntry a" using wf a(1) by (simp add: wf_entries_def)
  have "\<exists>cv' rv'. history_entry nil describe (es ! k) (map (element_at describe es k) [0..<n], cv, rv) =
      Inr (map (element_at describe es (Suc k)) [0..<n], cv', rv') \<and> values_at es n callEntry (Suc k) cv' \<and> values_at es n returnEntry (Suc k) rv'"
  proof (cases "en_kind (es ! k)")
    case callEntry
    then have p: "pos es callEntry a = k" using a(3) by simp
    have "(element_at describe es k a)\<lparr>he_ClientId := en_clientId (es ! k), he_Start := en_time (es ! k)\<rparr> = element_at describe es (Suc k) a"
      using p ca by (simp add: element_at_def)
    then have "history_entry nil describe (es ! k) (map (element_at describe es k) [0..<n], cv, rv) =
        Inr (map (element_at describe es (Suc k)) [0..<n], gm_put (int a) (en_value (es ! k)) cv, rv)"
      using a(1,2) callEntry upd by (simp add: history_entry_def go_index_def go_assign_def)
    then show ?thesis using values_at_put [OF wf a(1) p [symmetric] IH(2)] values_at_other [OF wf k _ IH(3)] callEntry by auto
  next
    case returnEntry
    then have p: "pos es returnEntry a = k" using a(3) by simp
    have "value_at nil cv (int a) = val es callEntry a" using IH(2) a(1) ca p by (simp add: values_at_def value_at_def)
    moreover have "(element_at describe es k a)\<lparr>he_End := en_time (es ! k),
        he_Description := describe (val es callEntry a) (en_value (es ! k))\<rparr> = element_at describe es (Suc k) a"
      using p ca by (simp add: element_at_def val_def Let_def)
    ultimately have "history_entry nil describe (es ! k) (map (element_at describe es k) [0..<n], cv, rv) =
        Inr (map (element_at describe es (Suc k)) [0..<n], cv, gm_put (int a) (en_value (es ! k)) rv)"
      using a(1,2) returnEntry upd by (simp add: history_entry_def go_index_def go_assign_def)
    then show ?thesis using values_at_put [OF wf a(1) p [symmetric] IH(3)] values_at_other [OF wf k _ IH(2)] returnEntry by auto
  qed
  then show ?case using IH(1) k by (auto simp: take_Suc_conv_app_nth go_for_append)
qed

section \<open>The partial linearizations\<close>

fun replayed :: "('s \<Rightarrow> string) \<Rightarrow> ('s \<Rightarrow> 'v \<Rightarrow> 'v \<Rightarrow> bool \<times> 's) \<Rightarrow> (nat \<Rightarrow> 'v) \<Rightarrow> (nat \<Rightarrow> 'v) \<Rightarrow> 's \<Rightarrow> nat list \<Rightarrow> partialLinearization" where
  "replayed describe step inp out st [] = []"
| "replayed describe step inp out st (a # p) = (let st' = snd (step st (inp a) (out a)) in
     \<lparr>ls_Index = int a, ls_StateDescription = describe st'\<rparr> # replayed describe step inp out st' p)"

lemma replay_loop:
  assumes "legal (m_Step model) inp out st p"
    and "\<And>a. a \<in> set p \<Longrightarrow> value_at nil cv (int a) = inp a \<and> value_at nil rv (int a) = out a"
  shows "\<exists>st' sz' ix'. go_for (replay_step nil describe model cv rv len i) (map int p) (st, lin, sz, ix) =
      Inr (st', lin @ replayed describe (m_Step model) inp out st p, sz', ix') \<and>
    (\<forall>k. size_at sz' k = (if k \<in> int ` set p \<and> size_at sz k < len then len else size_at sz k)) \<and>
    (\<forall>k. gm_get ix' k = (if k \<in> int ` set p \<and> size_at sz k < len then Some i else gm_get ix k))"
  using assms
proof (induction p arbitrary: st lin sz ix)
  case Nil
  then show ?case by auto
next
  case (Cons a p)
  obtain st1 where st1: "m_Step model st (inp a) (out a) = (True, st1)" "legal (m_Step model) inp out st1 p"
    using Cons.prems(1) by (auto split: prod.splits)
  let ?new = "size_at sz (int a) < len"
  define sz1 where "sz1 = (if ?new then gm_put (int a) len sz else sz)"
  define ix1 where "ix1 = (if ?new then gm_put (int a) i ix else ix)"
  define lin1 where "lin1 = lin @ [\<lparr>ls_Index = int a, ls_StateDescription = describe st1\<rparr>]"
  have step: "replay_step nil describe model cv rv len i (int a) (st, lin, sz, ix) = Inr (st1, lin1, sz1, ix1)"
    using Cons.prems(2) [of a] st1(1) by (simp add: replay_step_def sz1_def ix1_def lin1_def Let_def)
  have new: "size_at sz1 k = (if k = int a \<and> ?new then len else size_at sz k)" "gm_get ix1 k = (if k = int a \<and> ?new then Some i else gm_get ix k)" for k
    by (simp_all add: sz1_def ix1_def size_at_def gm_get_put)
  obtain st' sz' ix' where IH: "go_for (replay_step nil describe model cv rv len i) (map int p) (st1, lin1, sz1, ix1) =
      Inr (st', lin1 @ replayed describe (m_Step model) inp out st1 p, sz', ix')"
    "\<forall>k. size_at sz' k = (if k \<in> int ` set p \<and> size_at sz1 k < len then len else size_at sz1 k)"
    "\<forall>k. gm_get ix' k = (if k \<in> int ` set p \<and> size_at sz1 k < len then Some i else gm_get ix1 k)"
    using Cons.IH [OF st1(2), of lin1 sz1 ix1] Cons.prems(2) by auto
  have "size_at sz' k = (if k \<in> int ` set (a # p) \<and> size_at sz k < len then len else size_at sz k)" for k
    unfolding IH(2) [rule_format] new by auto
  moreover have "gm_get ix' k = (if k \<in> int ` set (a # p) \<and> size_at sz k < len then Some i else gm_get ix k)" for k
    unfolding IH(3) [rule_format] new by auto
  ultimately show ?case using step IH(1) st1(1) by (auto simp: lin1_def Let_def)
qed

text \<open>The number of a longest sequence with an operation, among the sequences so far.\<close>

definition largest_ok :: "int list list \<Rightarrow> (int, int) gomap \<Rightarrow> (int, int) gomap \<Rightarrow> bool" where
  "largest_ok ps sz ix \<longleftrightarrow> (\<forall>k. if \<exists>p\<in>set ps. k \<in> set p
     then \<exists>j<length ps. gm_get ix k = Some (int j) \<and> k \<in> set (ps ! j) \<and> size_at sz k = int (length (ps ! j)) \<and>
       (\<forall>p\<in>set ps. k \<in> set p \<longrightarrow> length p \<le> length (ps ! j))
     else gm_get ix k = None \<and> size_at sz k = 0)"

lemma largest_ok_snoc:
  assumes ok: "largest_ok ps sz ix" and dec: "\<forall>p\<in>set ps. length q \<le> length p"
    and sz: "\<forall>k. size_at sz' k = (if k \<in> set q \<and> size_at sz k < int (length q) then int (length q) else size_at sz k)"
    and ix: "\<forall>k. gm_get ix' k = (if k \<in> set q \<and> size_at sz k < int (length q) then Some (int (length ps)) else gm_get ix k)"
  shows "largest_ok (ps @ [q]) sz' ix'"
  unfolding largest_ok_def
proof
  fix k
  show "if \<exists>p\<in>set (ps @ [q]). k \<in> set p
     then \<exists>j<length (ps @ [q]). gm_get ix' k = Some (int j) \<and> k \<in> set ((ps @ [q]) ! j) \<and> size_at sz' k = int (length ((ps @ [q]) ! j)) \<and>
       (\<forall>p\<in>set (ps @ [q]). k \<in> set p \<longrightarrow> length p \<le> length ((ps @ [q]) ! j))
     else gm_get ix' k = None \<and> size_at sz' k = 0"
  proof (cases "\<exists>p\<in>set ps. k \<in> set p")
    case True
    then obtain j where j: "j < length ps" "gm_get ix k = Some (int j)" "k \<in> set (ps ! j)" "size_at sz k = int (length (ps ! j))"
        "\<forall>p\<in>set ps. k \<in> set p \<longrightarrow> length p \<le> length (ps ! j)" using ok unfolding largest_ok_def by metis
    have "length q \<le> length (ps ! j)" using dec j(1) by simp
    then show ?thesis using True j sz ix by (auto simp: nth_append intro!: exI [of _ j])
  next
    case False
    then have none: "gm_get ix k = None" "size_at sz k = 0" using ok unfolding largest_ok_def by metis+
    show ?thesis
    proof (cases "k \<in> set q")
      case True
      then have "0 < length q" by (cases q) auto
      then show ?thesis using True False none sz ix by (auto simp: nth_append intro!: exI [of _ "length ps"])
    next
      case False
      then show ?thesis using \<open>\<not> (\<exists>p\<in>set ps. k \<in> set p)\<close> none sz ix by simp
    qed
  qed
qed

lemma numbered_snoc: "zip [0..int (length (ps @ [q])) - 1] (ps @ [q]) = zip [0..int (length ps) - 1] ps @ [(int (length ps), q)]"
proof -
  have "[0..int (length (ps @ [q])) - 1] = [0..int (length ps) - 1] @ [int (length ps)]" by (simp add: upto_rec2)
  then show ?thesis by simp
qed

lemma replay_all:
  assumes "\<And>p. p \<in> set ps \<Longrightarrow> legal (m_Step model) inp out (m_Init model) p"
    and "\<And>p a. p \<in> set ps \<Longrightarrow> a \<in> set p \<Longrightarrow> value_at nil cv (int a) = inp a \<and> value_at nil rv (int a) = out a"
    and "sorted_wrt (\<lambda>p q. length q \<le> length p) ps"
  shows "\<exists>sz ix. go_for (replay nil describe model cv rv) (zip [0..int (length ps) - 1] (map (map int) ps)) ([], [], []) =
      Inr (map (replayed describe (m_Step model) inp out (m_Init model)) ps, sz, ix) \<and> largest_ok (map (map int) ps) sz ix"
  using assms
proof (induction ps rule: rev_induct)
  case Nil
  then show ?case by (simp add: largest_ok_def gm_get_def size_at_def)
next
  case (snoc p ps)
  have leg: "legal (m_Step model) inp out (m_Init model) p" if "p \<in> set ps" for p using snoc.prems(1) that by simp
  have vals: "value_at nil cv (int a) = inp a \<and> value_at nil rv (int a) = out a" if "p \<in> set ps" "a \<in> set p" for p a
    using snoc.prems(2) [of p a] that by simp
  have "sorted_wrt (\<lambda>p q. length q \<le> length p) ps" using snoc.prems(3) by (simp add: sorted_wrt_append)
  then have "\<exists>sz ix. go_for (replay nil describe model cv rv) (zip [0..int (length ps) - 1] (map (map int) ps)) ([], [], []) =
      Inr (map (replayed describe (m_Step model) inp out (m_Init model)) ps, sz, ix) \<and> largest_ok (map (map int) ps) sz ix"
    by (intro snoc.IH) (simp_all add: leg vals)
  then obtain sz ix where IH: "go_for (replay nil describe model cv rv) (zip [0..int (length ps) - 1] (map (map int) ps)) ([], [], []) =
      Inr (map (replayed describe (m_Step model) inp out (m_Init model)) ps, sz, ix)" "largest_ok (map (map int) ps) sz ix"
    by blast
  obtain st' sz' ix' where r: "go_for (replay_step nil describe model cv rv (int (length p)) (int (length ps))) (map int p) (m_Init model, [], sz, ix) =
      Inr (st', [] @ replayed describe (m_Step model) inp out (m_Init model) p, sz', ix')"
    "\<forall>k. size_at sz' k = (if k \<in> int ` set p \<and> size_at sz k < int (length p) then int (length p) else size_at sz k)"
    "\<forall>k. gm_get ix' k = (if k \<in> int ` set p \<and> size_at sz k < int (length p) then Some (int (length ps)) else gm_get ix k)"
    using replay_loop [of model inp out "m_Init model" p nil cv rv describe "int (length p)" "int (length ps)" "[]" sz ix]
      snoc.prems(1,2) [of p] by auto
  have "largest_ok (map (map int) ps @ [map int p]) sz' ix'"
    by (rule largest_ok_snoc [OF IH(2)]) (use r(2,3) snoc.prems(3) in \<open>auto simp: sorted_wrt_append\<close>)
  moreover have "zip [0..int (length (ps @ [p])) - 1] (map (map int) (ps @ [p])) =
      zip [0..int (length ps) - 1] (map (map int) ps) @ [(int (length ps), map int p)]"
    using numbered_snoc [of "map (map int) ps" "map int p"] by simp
  moreover have "replay nil describe model cv rv (int (length ps), map int p) (map (replayed describe (m_Step model) inp out (m_Init model)) ps, sz, ix) =
      Inr (map (replayed describe (m_Step model) inp out (m_Init model)) (ps @ [p]), sz', ix')"
    using r(1) by (simp add: replay_def)
  ultimately show ?case using IH(1) by (simp add: go_for_append)
qed

section \<open>The page of a checked history\<close>

text \<open>The contract of the loop over the set of sequences and of \<open>sort.Slice\<close> by decreasing length.\<close>

definition sorts_partials :: "(int list multiset \<Rightarrow> int list list) \<Rightarrow> bool" where
  "sorts_partials order \<longleftrightarrow> (\<forall>M. mset (order M) = M \<and> sorted_wrt (\<lambda>p q. length q \<le> length p) (order M))"

lemma partition_data_ok:
  assumes wf: "wf_entries (length es div 2) es" and ok: "\<And>ids. ids \<in> set partials \<Longrightarrow> partial_ok model es ids"
    and dec: "sorted_wrt (\<lambda>p q. length q \<le> length p) partials"
  shows "\<exists>ps d sz. partials = map (map int) ps \<and> partition_data nil describeOp describeState model es partials = Inr d \<and>
    pv_History d = map (element_at describeOp es (length es)) [0..<length es div 2] \<and>
    pv_PartialLinearizations d = map (replayed describeState (m_Step model) (val es callEntry) (val es returnEntry) (m_Init model)) ps \<and>
    (\<forall>p\<in>set ps. legal (m_Step model) (val es callEntry) (val es returnEntry) (m_Init model) p) \<and> largest_ok partials sz (pv_Largest d)"
proof -
  let ?n = "length es div 2"
  have "\<forall>ids\<in>set partials. \<exists>p. ids = map int p \<and> set p \<subseteq> {0..<?n} \<and>
      legal (m_Step model) (val es callEntry) (val es returnEntry) (m_Init model) p" using ok unfolding partial_ok_def by blast
  then obtain f where f: "\<forall>ids\<in>set partials. ids = map int (f ids) \<and> set (f ids) \<subseteq> {0..<?n} \<and>
      legal (m_Step model) (val es callEntry) (val es returnEntry) (m_Init model) (f ids)" by (rule bchoice [THEN exE])
  define ps where "ps = map f partials"
  have ps: "partials = map (map int) ps" unfolding ps_def map_map by (rule map_idI [symmetric]) (use f in auto)
  have p: "\<forall>p\<in>set ps. set p \<subseteq> {0..<?n} \<and> legal (m_Step model) (val es callEntry) (val es returnEntry) (m_Init model) p"
    unfolding ps_def using f by auto
  obtain cv rv where h: "go_for (history_entry nil describeOp) es (replicate ?n zero_element, [], []) =
      Inr (map (element_at describeOp es (length es)) [0..<?n], cv, rv)" "values_at es ?n callEntry (length es) cv" "values_at es ?n returnEntry (length es) rv"
    using history_loop [OF wf, of "length es" nil describeOp] by auto
  have v: "value_at nil cv (int a) = val es callEntry a \<and> value_at nil rv (int a) = val es returnEntry a" if "a < ?n" for a
    using h(2,3) that wf_pos(1) [OF wf that] by (simp add: values_at_def value_at_def)
  have "sorted_wrt (\<lambda>p q. length q \<le> length p) ps" using dec unfolding ps sorted_wrt_map by simp
  then obtain sz ix where r: "go_for (replay nil describeState model cv rv) (zip [0..int (length ps) - 1] (map (map int) ps)) ([], [], []) =
      Inr (map (replayed describeState (m_Step model) (val es callEntry) (val es returnEntry) (m_Init model)) ps, sz, ix)"
      "largest_ok (map (map int) ps) sz ix"
    using replay_all [of ps model "val es callEntry" "val es returnEntry" nil cv rv describeState] p v by fastforce
  have "partition_data nil describeOp describeState model es partials = Inr \<lparr>pv_History = map (element_at describeOp es (length es)) [0..<?n],
      pv_PartialLinearizations = map (replayed describeState (m_Step model) (val es callEntry) (val es returnEntry) (m_Init model)) ps, pv_Largest = ix\<rparr>"
    using h(1) r(1) by (simp add: partition_data_def Let_def ps)
  then show ?thesis using ps p r(2) by (intro exI [of _ ps] exI [of _ sz]) auto
qed

lemma replayed_cong:
  "(\<And>a. a \<in> set p \<Longrightarrow> inp a = inp' a \<and> out a = out' a) \<Longrightarrow> replayed describe step inp out st p = replayed describe step inp' out' st p"
  by (induction p arbitrary: st) (simp_all add: Let_def)

text \<open>What the page shows of a partition \<open>ops\<close> with the sequences \<open>partials\<close>.\<close>

definition shows_partition :: "('v \<Rightarrow> 'v \<Rightarrow> string) \<Rightarrow> ('s \<Rightarrow> string) \<Rightarrow> ('s, 'v) Model \<Rightarrow> 'v Operation list \<Rightarrow> int list list \<Rightarrow>
    partitionVisualizationData \<Rightarrow> bool" where
  "shows_partition describeOp describeState model ops partials d \<longleftrightarrow>
     pv_History d = map (\<lambda>x. \<lparr>he_ClientId = op_ClientId x, he_Start = op_Call x, he_End = op_Return x,
       he_Description = describeOp (op_Input x) (op_Output x)\<rparr>) ops \<and>
     (\<exists>ps. partials = map (map int) ps \<and>
        (\<forall>p\<in>set ps. set p \<subseteq> {0..<length ops} \<and> legal (m_Step model) (\<lambda>i. op_Input (ops ! i)) (\<lambda>i. op_Output (ops ! i)) (m_Init model) p) \<and>
        pv_PartialLinearizations d =
          map (replayed describeState (m_Step model) (\<lambda>i. op_Input (ops ! i)) (\<lambda>i. op_Output (ops ! i)) (m_Init model)) ps) \<and>
     (\<forall>k. gm_get (pv_Largest d) k = None \<longrightarrow> (\<forall>p\<in>set partials. k \<notin> set p)) \<and>
     (\<forall>k i. gm_get (pv_Largest d) k = Some i \<longrightarrow> 0 \<le> i \<and> i < int (length partials) \<and> k \<in> set (partials ! nat i) \<and>
        (\<forall>p\<in>set partials. k \<in> set p \<longrightarrow> length p \<le> length (partials ! nat i)))"

lemma partition_shown:
  assumes srt: "sorts_byTime srt" and t: "good_times ops" and ok: "\<And>ids. ids \<in> set partials \<Longrightarrow> partial_ok (fillDefault model) (makeEntries srt ops) ids"
    and dec: "sorted_wrt (\<lambda>p q. length q \<le> length p) partials"
  shows "\<exists>d. partition_data nil describeOp describeState (fillDefault model) (makeEntries srt ops) partials = Inr d \<and>
    shows_partition describeOp describeState model ops partials d"
proof -
  let ?es = "makeEntries srt ops"
  have wf: "wf_entries (length ops) ?es" using makeEntries_wf [OF srt] t by (simp add: good_times_def)
  have len: "length ?es div 2 = length ops" using wf_length [OF wf] by simp
  have val: "val ?es callEntry a = op_Input (ops ! a)" "val ?es returnEntry a = op_Output (ops ! a)" if "a < length ops" for a
    using makeEntries_entry [OF srt that] by (simp_all add: val_def call_of_def return_of_def)
  obtain ps d sz where d: "partials = map (map int) ps" "partition_data nil describeOp describeState (fillDefault model) ?es partials = Inr d"
    "pv_History d = map (element_at describeOp ?es (length ?es)) [0..<length ops]"
    "pv_PartialLinearizations d = map (replayed describeState (m_Step model) (val ?es callEntry) (val ?es returnEntry) (m_Init model)) ps"
    "\<forall>p\<in>set ps. legal (m_Step model) (val ?es callEntry) (val ?es returnEntry) (m_Init model) p" "largest_ok partials sz (pv_Largest d)"
    using partition_data_ok [OF wf [folded len] ok dec, of nil describeOp describeState] unfolding len by (auto simp: fillDefault_eq)
  have sub: "set p \<subseteq> {0..<length ops}" if "p \<in> set ps" for p
  proof -
    have "map int p \<in> set partials" using that by (simp add: d(1))
    then obtain q where "map int p = map int q" "set q \<subseteq> {0..<length ops}" using ok unfolding partial_ok_def len by blast
    then show ?thesis by (simp add: inj_map_eq_map)
  qed
  have hist: "pv_History d = map (\<lambda>x. \<lparr>he_ClientId = op_ClientId x, he_Start = op_Call x, he_End = op_Return x,
      he_Description = describeOp (op_Input x) (op_Output x)\<rparr>) ops"
    by (rule nth_equalityI) (use makeEntries_entry [OF srt] val in \<open>simp_all add: d(3) element_at_def Let_def call_of_def return_of_def\<close>)
  have leg: "legal (m_Step model) (\<lambda>i. op_Input (ops ! i)) (\<lambda>i. op_Output (ops ! i)) (m_Init model) p" if "p \<in> set ps" for p
    using d(5) that sub [OF that] val legal_cong [of p "val ?es callEntry" "\<lambda>i. op_Input (ops ! i)" "val ?es returnEntry" "\<lambda>i. op_Output (ops ! i)"] by fastforce
  have "pv_PartialLinearizations d =
      map (replayed describeState (m_Step model) (\<lambda>i. op_Input (ops ! i)) (\<lambda>i. op_Output (ops ! i)) (m_Init model)) ps"
    unfolding d(4) by (rule map_cong [OF refl], rule replayed_cong) (use sub val in fastforce)
  then have lin: "\<exists>ps. partials = map (map int) ps \<and>
      (\<forall>p\<in>set ps. set p \<subseteq> {0..<length ops} \<and> legal (m_Step model) (\<lambda>i. op_Input (ops ! i)) (\<lambda>i. op_Output (ops ! i)) (m_Init model) p) \<and>
      pv_PartialLinearizations d = map (replayed describeState (m_Step model) (\<lambda>i. op_Input (ops ! i)) (\<lambda>i. op_Output (ops ! i)) (m_Init model)) ps"
    using d(1) sub leg by blast
  have L: "if \<exists>p\<in>set partials. k \<in> set p
     then \<exists>j<length partials. gm_get (pv_Largest d) k = Some (int j) \<and> k \<in> set (partials ! j) \<and>
       (\<forall>p\<in>set partials. k \<in> set p \<longrightarrow> length p \<le> length (partials ! j))
     else gm_get (pv_Largest d) k = None" for k
    using d(6) [unfolded largest_ok_def, rule_format, of k] by (auto split: if_splits)
  have none: "\<forall>k. gm_get (pv_Largest d) k = None \<longrightarrow> (\<forall>p\<in>set partials. k \<notin> set p)" using L by (metis option.distinct(1))
  have some: "0 \<le> i \<and> i < int (length partials) \<and> k \<in> set (partials ! nat i) \<and>
      (\<forall>p\<in>set partials. k \<in> set p \<longrightarrow> length p \<le> length (partials ! nat i))" if "gm_get (pv_Largest d) k = Some i" for k i
    using L [of k] that by (auto split: if_splits)
  show ?thesis using d(2) hist lin none some unfolding shows_partition_def by blast
qed

lemma visualization_data:
  assumes srt: "sorts_byTime srt" and eq: "good_equal model" and t: "\<forall>ops\<in>set (parts model history). good_times ops"
    and ord: "sorts_partials order" and run: "CheckOperationsVerbose srt nil model history timeout evs = Some (res, info)"
  shows "\<exists>data. computeVisualizationData nil describeOp describeState order model info = Inr data \<and>
    length data = length (parts model history) \<and>
    (\<forall>k<length data. shows_partition describeOp describeState model (parts model history ! k)
       (order (li_partialLinearizations info ! k)) (data ! k))"
proof -
  let ?P = "parts model history" and ?h = "map (makeEntries srt) (parts model history)"
  have "the (m_Partition (fillDefault model)) history = ?P" by (simp add: fillDefault_eq parts_def split: option.splits)
  then have run': "checkParallel nil (fillDefault model) ?h True timeout evs = Some (res, info)"
    using run by (simp add: CheckOperationsVerbose_def checkOperations_def Let_def)
  note info = checkParallel_partials [OF operations_assms [OF srt eq t] run']
  let ?part = "\<lambda>k. partition_data nil describeOp describeState (fillDefault model) (makeEntries srt (?P ! k)) (order (li_partialLinearizations info ! k))"
  let ?show = "\<lambda>k. shows_partition describeOp describeState model (?P ! k) (order (li_partialLinearizations info ! k))"
  have "\<exists>d. ?part k = Inr d \<and> ?show k d" if k: "k < length ?P" for k
  proof (rule partition_shown [OF srt])
    show "good_times (?P ! k)" using t k by simp
    show "sorted_wrt (\<lambda>p q. length q \<le> length p) (order (li_partialLinearizations info ! k))" using ord by (simp add: sorts_partials_def)
    fix ids assume "ids \<in> set (order (li_partialLinearizations info ! k))"
    then have "ids \<in># li_partialLinearizations info ! k" using ord unfolding sorts_partials_def by (metis set_mset_mset)
    then show "partial_ok (fillDefault model) (makeEntries srt (?P ! k)) ids" using info(3) [of k ids] k by simp
  qed
  then obtain g where g: "\<And>k. k < length ?P \<Longrightarrow> ?part k = Inr (g k) \<and> ?show k (g k)" by metis
  have "computeVisualizationData nil describeOp describeState order model info = Inr ([] @ map (\<lambda>k. g (nat k)) [0..int (length ?P) - 1])"
    unfolding computeVisualizationData_def Let_def info(1) length_map
  proof (rule go_for_collect)
    fix j acc assume "j \<in> set [0..int (length ?P) - 1]"
    then have j: "0 \<le> j" "nat j < length ?P" by auto
    then have i: "go_index ?h j = Inr (makeEntries srt (?P ! nat j))" "go_index (li_partialLinearizations info) j = Inr (li_partialLinearizations info ! nat j)"
      using info(2) by (simp_all add: go_index_def)
    show "go_bind (go_index ?h j) (\<lambda>history. go_bind (go_index (li_partialLinearizations info) j) (\<lambda>partials.
        go_bind (partition_data nil describeOp describeState (fillDefault model) history (order partials)) (\<lambda>d. Inr (acc @ [d])))) = Inr (acc @ [g (nat j)])"
      using g [OF j(2)] by (simp add: i)
  qed
  then show ?thesis using g by (intro exI [of _ "map (\<lambda>k. g (nat k)) [0..int (length ?P) - 1]"]) simp
qed

text \<open>
  C28: On the result of a verbose check, with or without a timeout, whatever the verdict,
  \<open>computeVisualizationData\<close> does not panic. For every partition it shows each operation with its
  client, its interval and its description; every partial linearization it shows is a sequence of
  operations of the partition that the model accepts, with the descriptions of the states in
  between; and \<open>Largest\<close> maps an operation to a longest partial linearization that contains it.
\<close>

theorem visualization_faithful:
  assumes "sorts_byTime srt" and "good_equal model" and "\<forall>ops\<in>set (parts model history). good_times ops"
    and "sorts_partials order" and "CheckOperationsVerbose srt nil model history timeout evs = Some (res, info)"
  shows "\<exists>data. computeVisualizationData nil describeOp describeState order model info = Inr data \<and>
    length data = length (parts model history) \<and>
    (\<forall>k<length data. shows_partition describeOp describeState model (parts model history ! k)
       (order (li_partialLinearizations info ! k)) (data ! k))"
  by (rule visualization_data [OF assms])

definition sort_partials :: "int list multiset \<Rightarrow> int list list" where
  "sort_partials M = sort_key (\<lambda>p. - int (length p)) (sorted_list_of_multiset M)"

lemma sorts_sort_partials: "sorts_partials sort_partials"
proof -
  have "sorted (map (\<lambda>p. - int (length p)) (sort_partials M))" for M by (simp add: sort_partials_def)
  then have "sorted_wrt (\<lambda>p q. length q \<le> length p) (sort_partials M)" for M by (simp add: sorted_map)
  then show ?thesis by (simp add: sorts_partials_def sort_partials_def)
qed

text \<open>The get of an old value: the check fails, and the page shows the put and the get apart.\<close>

theorem visualization_faithful_witness:
  "\<exists>info data. CheckOperationsVerbose sort_byTime (KvOut []) KvModel [op1, op3] 5 [Finish 0 0, Receive] = Some (Illegal, info) \<and>
     computeVisualizationData (KvOut []) kv_DescribeOperation (\<lambda>s. s) sort_partials KvModel info = Inr data \<and> length data = 1 \<and>
     shows_partition kv_DescribeOperation (\<lambda>s. s) KvModel [op1, op3] (sort_partials (li_partialLinearizations info ! 0)) (data ! 0)"
proof -
  have t: "good_times [op1, op3]" by (simp add: good_times_def op1_def op2_def op3_def)
  have "map_option fst (CheckOperationsVerbose sort_byTime (KvOut []) KvModel [op1, op3] 5 [Finish 0 0, Receive]) = Some Illegal" by code_simp
  then obtain info where run: "CheckOperationsVerbose sort_byTime (KvOut []) KvModel [op1, op3] 5 [Finish 0 0, Receive] = Some (Illegal, info)"
    by auto
  have parts: "parts KvModel [op1, op3] = [[op1, op3]]" by code_simp
  have eq: "good_equal KvModel" by (rule good_equal_default) (simp add: KvModel_def)
  have ts: "\<forall>ops\<in>set (parts KvModel [op1, op3]). good_times ops" using t by (simp add: parts)
  obtain data where "computeVisualizationData (KvOut []) kv_DescribeOperation (\<lambda>s. s) sort_partials KvModel info = Inr data" "length data = 1"
      "\<forall>k<length data. shows_partition kv_DescribeOperation (\<lambda>s. s) KvModel (parts KvModel [op1, op3] ! k) (sort_partials (li_partialLinearizations info ! k)) (data ! k)"
    using visualization_faithful [OF sorts_sort_byTime eq ts sorts_sort_partials run, of kv_DescribeOperation "\<lambda>s. s"] by (auto simp: parts)
  then show ?thesis using run by (auto simp: parts)
qed

end
