(* ===== verification/Labrpc_Props.thy ===== *)
theory Labrpc_Props
  imports Labrpc
begin

text \<open>
  What a caller of \<open>labrpc\<close> can rely on: a handler runs at most once for a request, a call that
  returns true has run it exactly once on the caller's arguments and returns its reply, no call
  succeeds once its server was deleted, and every call can return.
\<close>

section \<open>Dispatch\<close>

definition codec_ok :: "('v, 'b) codec \<Rightarrow> bool" where
  "codec_ok cd \<longleftrightarrow> (\<forall>v. cd_dec cd (cd_enc cd v) = Some v)"

text \<open>A handler of the server ran on \<open>v\<close> and replied \<open>w\<close>.\<close>

definition ran :: "('r, 'v) Server \<Rightarrow> string \<Rightarrow> 'v \<Rightarrow> 'v \<Rightarrow> bool" where
  "ran rs svcMeth v w \<longleftrightarrow> (\<exists>sname mname svc m r r'. svcMeth = sname @ ''.'' @ mname \<and>
     gm_get (rs_services rs) sname = Some svc \<and> gm_get (sv_methods svc) mname = Some m \<and>
     sv_rcvr svc = r \<and> mt_Func m r v = (r', w))"

lemma LastIndex_split:
  "LastIndex s c \<ge> 0 \<Longrightarrow> LastIndex s c < int (length s) \<and> s ! nat (LastIndex s c) = c \<and>
     c \<notin> set (drop (nat (LastIndex s c) + 1) s)"
proof (induction s)
  case (Cons x xs)
  have low: "LastIndex xs c \<ge> -1" by (induction xs) (auto simp: Let_def)
  have none: "c \<notin> set xs" if "LastIndex xs c < 0" using that by (induction xs) (auto simp: Let_def split: if_splits)
  show ?case
  proof (cases "LastIndex xs c \<ge> 0")
    case True
    then have "nat (LastIndex xs c + 1) = Suc (nat (LastIndex xs c))" by simp
    then show ?thesis using Cons.IH True by (simp add: Let_def)
  next
    case False
    then show ?thesis using Cons.prems none by (auto simp: Let_def split: if_splits)
  qed
qed simp

lemma LastIndex_none: "LastIndex s c < 0 \<longleftrightarrow> c \<notin> set s"
  by (induction s) (auto simp: Let_def)

lemma Server_dispatch_ran:
  assumes d: "Server_dispatch cd req rs = Inr (rs', r)" and cd: "codec_ok cd" and v: "rq_args req = cd_enc cd v"
  obtains w where "ran rs (rq_svcMeth req) v w" and "r = \<lparr>rp_ok = True, rp_reply = cd_enc cd w\<rparr>"
proof -
  let ?m = "rq_svcMeth req"
  define dot where "dot = LastIndex ?m (CHR ''.'')"
  obtain sname mname svc svc' where s: "go_slice_to ?m dot = Inr sname" "go_slice_from ?m (dot + 1) = Inr mname"
      "gm_get (rs_services rs) sname = Some svc" "Service_dispatch cd mname req svc = Inr (svc', r)"
    using d by (auto simp: Server_dispatch_def Let_def dot_def split: option.splits)
  have dot: "dot \<ge> 0" "sname = take (nat dot) ?m" "mname = drop (nat (dot + 1)) ?m" using s(1,2) by (auto simp: go_dest go_slice_from_def split: if_splits)
  then have l: "nat dot < length ?m" "?m ! nat dot = CHR ''.''" using LastIndex_split [of ?m "CHR ''.''"] by (auto simp: dot_def)
  have "?m = take (nat dot) ?m @ ?m ! nat dot # drop (Suc (nat dot)) ?m" using l(1) by (rule id_take_nth_drop)
  then have m: "?m = sname @ ''.'' @ mname" using dot l(2) by (simp add: nat_add_distrib)
  obtain mt r' w where "gm_get (sv_methods svc) mname = Some mt" "mt_Func mt (sv_rcvr svc) v = (r', w)"
      "r = \<lparr>rp_ok = True, rp_reply = cd_enc cd w\<rparr>"
    using s(4) cd v by (auto simp: Service_dispatch_def codec_ok_def Let_def split: option.splits prod.splits)
  then show thesis using that s(3) m unfolding ran_def by blast
qed

section \<open>The invariant of a request\<close>

definition runs_of :: "nat \<Rightarrow> ('n, 'b, 'v, 'r) sys \<Rightarrow> (nat \<times> ('r, 'v) Server \<times> ('r, 'v) Server \<times> 'b replyMsg) list" where
  "runs_of i s = filter (\<lambda>(j, _). j = i) (sy_runs s)"

text \<open>The handler goroutine and the record of runs agree; a positive reply is the handler's.\<close>

definition phase_inv :: "('v, 'b) codec \<Rightarrow> ('n, 'b, 'v) phase \<Rightarrow> 'b handler \<Rightarrow> bool" where
  "phase_inv cd ph hs \<longleftrightarrow>
     (case ph of
        Sending \<Rightarrow> hs = Idle
      | Accepted \<Rightarrow> hs = Idle
      | Waiting n p rel \<Rightarrow> hs \<noteq> Idle
      | Replying r \<Rightarrow> rp_ok r \<longrightarrow> hs = AtSend r
      | Returned x \<Rightarrow> (\<forall>v. x = Some v \<longrightarrow> (\<exists>r. hs = AtSend r \<and> rp_ok r \<and> cd_dec cd (rp_reply r) = Some v)))"

definition handler_inv :: "('v, 'b) codec \<Rightarrow> nat \<Rightarrow> ('n, 'b) reqMsg \<Rightarrow> 'b handler \<Rightarrow>
    (nat \<times> ('r, 'v) Server \<times> ('r, 'v) Server \<times> 'b replyMsg) list \<Rightarrow> bool" where
  "handler_inv cd i msg hs runs \<longleftrightarrow>
     (case hs of
        AtSend r \<Rightarrow> (\<exists>rs rs'. runs = [(i, rs, rs', r)] \<and> Server_dispatch cd msg rs = Inr (rs', r))
      | _ \<Rightarrow> runs = [])"

definition req_ok :: "('v, 'b) codec \<Rightarrow> nat \<Rightarrow> ('n, 'b, 'v) request \<Rightarrow>
    (nat \<times> ('r, 'v) Server \<times> ('r, 'v) Server \<times> 'b replyMsg) list \<Rightarrow> bool" where
  "req_ok cd i q runs \<longleftrightarrow> (\<exists>v. rq_args (rt_msg q) = cd_enc cd v) \<and>
     handler_inv cd i (rt_msg q) (rt_handler q) runs \<and> phase_inv cd (rt_phase q) (rt_handler q)"

definition req_inv :: "('v, 'b) codec \<Rightarrow> nat \<Rightarrow> ('n, 'b, 'v, 'r) sys \<Rightarrow> bool" where
  "req_inv cd i s \<longleftrightarrow> (sy_reqs s i = None \<longrightarrow> runs_of i s = []) \<and>
     (\<forall>q. sy_reqs s i = Some q \<longrightarrow> req_ok cd i q (runs_of i s))"

lemma set_req_simps [simp]:
  "sy_reqs (set_req i q s) j = (if j = i then Some q else sy_reqs s j)"
  "sy_net (set_req i q s) = sy_net s" "sy_servers (set_req i q s) = sy_servers s" "sy_runs (set_req i q s) = sy_runs s"
  "runs_of j (set_req i q s) = runs_of j s"
  by (simp_all add: set_req_def runs_of_def)

lemma runs_of_net [simp]: "runs_of j (s\<lparr>sy_net := x\<rparr>) = runs_of j s"
  by (simp add: runs_of_def)

lemma req_inv_net [simp]: "req_inv cd j (s\<lparr>sy_net := x\<rparr>) = req_inv cd j s"
  by (simp add: req_inv_def)

lemma req_inv_other: "j \<noteq> i \<Longrightarrow> req_inv cd j (set_req i q s) = req_inv cd j s"
  by (simp add: req_inv_def)

lemma req_inv_set: "req_inv cd i (set_req i q s) \<longleftrightarrow> req_ok cd i q (runs_of i s)"
  by (simp add: req_inv_def)

lemma req_inv_D: "req_inv cd i s \<Longrightarrow> sy_reqs s i = Some q \<Longrightarrow> req_ok cd i q (runs_of i s)"
  by (simp add: req_inv_def)

lemma set_inv:
  assumes "\<forall>j. req_inv cd j s" and "req_ok cd i q (runs_of i s)"
  shows "\<forall>j. req_inv cd j (set_req i q s)"
proof
  fix j
  show "req_inv cd j (set_req i q s)" using assms by (cases "j = i") (simp_all add: req_inv_other req_inv_set)
qed

lemma req_ok_phase:
  "req_ok cd i q runs \<Longrightarrow> phase_inv cd ph (rt_handler q) \<Longrightarrow> req_ok cd i (q\<lparr>rt_phase := ph\<rparr>) runs"
  by (simp add: req_ok_def)

lemma rp_ok_noReply [simp]: "\<not> rp_ok noReply"
  by (simp add: noReply_def)

lemma set_phase_inv:
  assumes "\<forall>j. req_inv cd j s" and "sy_reqs s i = Some q" and "phase_inv cd ph (rt_handler q)"
  shows "\<forall>j. req_inv cd j (set_req i (q\<lparr>rt_phase := ph\<rparr>) s)"
  by (rule set_inv [OF assms(1)], rule req_ok_phase [OF req_inv_D [OF _ assms(2)] assms(3)]) (use assms(1) in blast)

lemma phase_inv_simps [simp]:
  "phase_inv cd Sending h \<longleftrightarrow> h = Idle" "phase_inv cd Accepted h \<longleftrightarrow> h = Idle"
  "phase_inv cd (Waiting n p rel) h \<longleftrightarrow> h \<noteq> Idle" "phase_inv cd (Replying r) h \<longleftrightarrow> (rp_ok r \<longrightarrow> h = AtSend r)"
  "phase_inv cd (Returned None) h"
  "phase_inv cd (Returned (Some v)) h \<longleftrightarrow> (\<exists>r. h = AtSend r \<and> rp_ok r \<and> cd_dec cd (rp_reply r) = Some v)"
  by (simp_all add: phase_inv_def)

section \<open>Every step keeps it\<close>

lemma handle_inv:
  assumes "handle cd i s = Some (Inr s')" and I: "\<forall>j. req_inv cd j s"
  shows "\<forall>j. req_inv cd j s'"
proof -
  obtain q p rs rs' r where h: "sy_reqs s i = Some q" "rt_handler q = Started p"
      "Server_dispatch cd (rt_msg q) rs = Inr (rs', r)"
      "s' = set_req i (q\<lparr>rt_handler := AtSend r\<rparr>) (s\<lparr>sy_servers := (sy_servers s)(p \<mapsto> rs'), sy_runs := sy_runs s @ [(i, rs, rs', r)]\<rparr>)"
    using assms(1) by (auto simp: handle_def split: option.splits handler.splits)
  have ok: "req_ok cd i q (runs_of i s)" by (rule req_inv_D [OF _ h(1)]) (use I in blast)
  then have "runs_of i s = []" using h(2) by (simp add: req_ok_def handler_inv_def)
  then have runs: "runs_of j s' = (if j = i then [(i, rs, rs', r)] else runs_of j s)" for j
    by (auto simp: h(4) runs_of_def)
  have "phase_inv cd (rt_phase q) (AtSend r)" using ok h(2) by (cases "rt_phase q") (auto simp: req_ok_def phase_inv_def)
  then have "req_ok cd i (q\<lparr>rt_handler := AtSend r\<rparr>) (runs_of i s')"
    using ok h(3) by (simp add: req_ok_def handler_inv_def runs)
  moreover have "req_inv cd j s" for j using I by blast
  ultimately show ?thesis using runs unfolding req_inv_def by (simp add: h(4))
qed

lemma start_cases:
  assumes "process_start i d s = Some s'"
  obtains q q' where "sy_reqs s i = Some q" and "rt_phase q = Accepted" and "s' = set_req i q' s"
    and "q' = q\<lparr>rt_phase := Replying noReply\<rparr> \<or>
      (\<exists>n p rel. get_server (sy_net s) n = Some p \<and> q' = q\<lparr>rt_phase := Waiting n p rel, rt_handler := Started p\<rparr>)"
proof -
  obtain q where q: "sy_reqs s i = Some q" "rt_phase q = Accepted"
    using assms by (auto simp: process_start_def split: option.splits if_splits)
  consider "s' = set_req i (q\<lparr>rt_phase := Replying noReply\<rparr>) s"
    | n p rel where "get_server (sy_net s) n = Some p" "s' = set_req i (q\<lparr>rt_phase := Waiting n p rel, rt_handler := Started p\<rparr>) s"
    using assms q by (auto simp: process_start_def readEndnameInfo_def Let_def split: bool.splits option.splits prod.splits if_splits)
  then show thesis by cases (use that q in blast)+
qed

lemma start_inv:
  assumes "process_start i d s = Some s'" and I: "\<forall>j. req_inv cd j s"
  shows "\<forall>j. req_inv cd j s'"
proof -
  obtain q q' where q: "sy_reqs s i = Some q" "rt_phase q = Accepted" "s' = set_req i q' s"
      "q' = q\<lparr>rt_phase := Replying noReply\<rparr> \<or> (\<exists>n p rel. get_server (sy_net s) n = Some p \<and> q' = q\<lparr>rt_phase := Waiting n p rel, rt_handler := Started p\<rparr>)"
    by (rule start_cases [OF assms(1)])
  have "req_ok cd i q (runs_of i s)" by (rule req_inv_D [OF _ q(1)]) (use I in blast)
  then have "req_ok cd i q' (runs_of i s)" using q(2,4) by (auto simp: req_ok_def handler_inv_def)
  then show ?thesis unfolding q(3) by (rule set_inv [OF I])
qed

lemma receive_inv:
  assumes "receive i d s = Some s'" and I: "\<forall>j. req_inv cd j s"
  shows "\<forall>j. req_inv cd j s'"
proof -
  obtain q r where q: "sy_reqs s i = Some q" "rt_handler q = AtSend r"
      "s' = set_req i (q\<lparr>rt_phase := Replying noReply\<rparr>) s \<or> s' = set_req i (q\<lparr>rt_phase := Replying r\<rparr>) s"
    using assms(1) by (auto simp: receive_def Let_def split: option.splits phase.splits handler.splits if_splits)
  show ?thesis using q(3)
  proof
    assume "s' = set_req i (q\<lparr>rt_phase := Replying noReply\<rparr>) s"
    then show ?thesis using set_phase_inv [OF I q(1), of "Replying noReply"] by simp
  next
    assume s': "s' = set_req i (q\<lparr>rt_phase := Replying r\<rparr>) s"
    show ?thesis unfolding s' by (rule set_phase_inv [OF I q(1)]) (simp add: q(2))
  qed
qed

lemma deliver_inv:
  assumes "deliver cd i s = Some (Inr s')" and I: "\<forall>j. req_inv cd j s"
  shows "\<forall>j. req_inv cd j s'"
proof -
  obtain q rep where q: "sy_reqs s i = Some q" "rt_phase q = Replying rep"
    using assms(1) by (auto simp: deliver_def split: option.splits phase.splits)
  have ok: "req_ok cd i q (runs_of i s)" by (rule req_inv_D [OF _ q(1)]) (use I in blast)
  consider "s' = set_req i (q\<lparr>rt_phase := Returned None\<rparr>) s"
    | v net where "rp_ok rep" "cd_dec cd (rp_reply rep) = Some v"
        "s' = set_req i (q\<lparr>rt_phase := Returned (Some v)\<rparr>) (s\<lparr>sy_net := net\<rparr>)"
    using assms(1) q by (auto simp: deliver_def split: option.splits if_splits)
  then show ?thesis
  proof cases
    case 1
    show ?thesis unfolding 1 by (rule set_phase_inv [OF I q(1)]) simp
  next
    case 2
    have "rt_handler q = AtSend rep" using ok q(2) 2(1) by (simp add: req_ok_def)
    then have "req_ok cd i (q\<lparr>rt_phase := Returned (Some v)\<rparr>) (runs_of i (s\<lparr>sy_net := net\<rparr>))"
      using req_ok_phase [OF ok, of "Returned (Some v)"] 2 by simp
    then show ?thesis unfolding 2(3) by (intro set_inv) (use I in simp_all)
  qed
qed

lemma simple_inv:
  assumes I: "\<forall>j. req_inv cd j s"
  shows "Call_send cd i en m v s = Some s' \<Longrightarrow> \<forall>j. req_inv cd j s'"
    and "Call_abort i s = Some s' \<Longrightarrow> \<forall>j. req_inv cd j s'"
    and "accept i s = Some s' \<Longrightarrow> \<forall>j. req_inv cd j s'"
    and "poll i s = Some s' \<Longrightarrow> \<forall>j. req_inv cd j s'"
proof -
  have ok: "req_ok cd i q (runs_of i s)" if "sy_reqs s i = Some q" for q
    by (rule req_inv_D [OF _ that]) (use I in blast)
  have none: "runs_of i s = []" if "sy_reqs s i = None" using I that by (auto simp: req_inv_def)
  show "Call_send cd i en m v s = Some s' \<Longrightarrow> \<forall>j. req_inv cd j s'"
    using none by (auto simp: Call_send_def req_ok_def handler_inv_def intro!: set_inv [OF I] split: if_splits)
  show "Call_abort i s = Some s' \<Longrightarrow> \<forall>j. req_inv cd j s'"
    using set_phase_inv [OF I, of i _ "Returned None"] by (auto simp: Call_abort_def split: option.splits if_splits)
  show "poll i s = Some s' \<Longrightarrow> \<forall>j. req_inv cd j s'"
    using I set_phase_inv [OF I, of i _ "Replying noReply"]
    by (auto simp: poll_def split: option.splits phase.splits if_splits)
  assume "accept i s = Some s'"
  then obtain q net where q: "sy_reqs s i = Some q" "rt_phase q = Sending" "s' = set_req i (q\<lparr>rt_phase := Accepted\<rparr>) (s\<lparr>sy_net := net\<rparr>)"
    by (auto simp: accept_def split: option.splits if_splits)
  have "req_ok cd i (q\<lparr>rt_phase := Accepted\<rparr>) (runs_of i (s\<lparr>sy_net := net\<rparr>))"
    using ok [OF q(1)] q(2) by (auto simp: req_ok_def)
  then show "\<forall>j. req_inv cd j s'" unfolding q(3) by (intro set_inv) (use I in simp_all)
qed

lemma rpc_step_inv:
  assumes "rpc_step cd e s = Some (Inr s')" and I: "\<forall>j. req_inv cd j s"
  shows "\<forall>j. req_inv cd j s'"
proof (cases e)
  case (Handle i)
  then show ?thesis using handle_inv [OF _ I] assms(1) by simp
next
  case (Send i en m v)
  then show ?thesis using simple_inv(1) [OF I] assms(1) by auto
next
  case (Abort i)
  then show ?thesis using simple_inv(2) [OF I] assms(1) by auto
next
  case (Accept i)
  then show ?thesis using simple_inv(3) [OF I] assms(1) by auto
next
  case (Start i d)
  then show ?thesis using start_inv [OF _ I] assms(1) by auto
next
  case (Poll i)
  then show ?thesis using simple_inv(4) [OF I] assms(1) by auto
next
  case (Receive i d)
  then show ?thesis using receive_inv [OF _ I] assms(1) by auto
next
  case (Deliver i)
  then show ?thesis using deliver_inv [OF _ I] assms(1) by simp
qed (use assms I in \<open>auto simp: on_net_def on_net_go_def loop_exit_def split: if_splits\<close>)

lemma rpc_run_inv:
  "rpc_run cd es s = Some s' \<Longrightarrow> \<forall>j. req_inv cd j s \<Longrightarrow> \<forall>j. req_inv cd j s'"
proof (induction es arbitrary: s)
  case (Cons e es)
  then obtain s1 where "rpc_step cd e s = Some (Inr s1)" "rpc_run cd es s1 = Some s'"
    by (auto split: option.splits sum.splits)
  then show ?case using Cons.IH rpc_step_inv Cons.prems(2) by blast
qed simp

lemma rpc_init_inv: "\<forall>j. req_inv cd j (rpc_init servers)"
  by (simp add: req_inv_def rpc_init_def runs_of_def)

section \<open>Calls\<close>

definition returned :: "('n, 'b, 'v, 'r) sys \<Rightarrow> nat \<Rightarrow> 'v option \<Rightarrow> bool" where
  "returned s i x \<longleftrightarrow> (\<exists>q. sy_reqs s i = Some q \<and> rt_phase q = Returned x)"

text \<open>The arguments of a request are those the caller gave; only \<open>Call_send\<close> makes a request.\<close>

lemma rpc_step_msg:
  assumes "rpc_step cd e s = Some (Inr s')" and "sy_reqs s' i = Some q"
  shows "(\<exists>q0. sy_reqs s i = Some q0 \<and> rt_msg q = rt_msg q0) \<or>
    (\<exists>en m v. e = Send i en m v \<and> rt_msg q = \<lparr>rq_endname = en, rq_svcMeth = m, rq_args = cd_enc cd v\<rparr>)"
proof (cases e)
  case (Start j d)
  then have "process_start j d s = Some s'" using assms(1) by auto
  then show ?thesis by (rule start_cases) (use assms(2) in \<open>auto split: if_splits\<close>)
qed (use assms in \<open>auto simp: on_net_def on_net_go_def loop_exit_def Call_send_def Call_abort_def accept_def
  handle_def poll_def receive_def deliver_def Let_def split: option.splits if_splits handler.splits phase.splits\<close>)

lemma sent_args:
  assumes "rpc_run cd es s = Some s'" and "sy_reqs s i = None" and "sy_reqs s' i = Some q"
  shows "\<exists>e m v. Send i e m v \<in> set es \<and> rt_msg q = \<lparr>rq_endname = e, rq_svcMeth = m, rq_args = cd_enc cd v\<rparr>"
proof -
  have "rpc_run cd es s = Some s' \<Longrightarrow> sy_reqs s' i = Some q \<Longrightarrow> (\<exists>q0. sy_reqs s i = Some q0 \<and> rt_msg q = rt_msg q0) \<or>
      (\<exists>e m v. Send i e m v \<in> set es \<and> rt_msg q = \<lparr>rq_endname = e, rq_svcMeth = m, rq_args = cd_enc cd v\<rparr>)" for s
  proof (induction es arbitrary: s)
    case (Cons e es)
    then obtain s1 where s1: "rpc_step cd e s = Some (Inr s1)" "rpc_run cd es s1 = Some s'"
      by (auto split: option.splits sum.splits)
    show ?case using Cons.IH [OF s1(2) Cons.prems(2)] rpc_step_msg [OF s1(1), of i] by force
  qed simp
  then show ?thesis using assms by force
qed

lemma returned_run:
  assumes cd: "codec_ok cd" and run: "rpc_run cd es (rpc_init servers) = Some s" and ret: "returned s i (Some w)"
  shows "\<exists>e m v rs rs' r. Send i e m v \<in> set es \<and> runs_of i s = [(i, rs, rs', r)] \<and> ran rs m v w"
proof -
  obtain q where q: "sy_reqs s i = Some q" "rt_phase q = Returned (Some w)" using ret by (auto simp: returned_def)
  obtain e m v where sent: "Send i e m v \<in> set es" "rt_msg q = \<lparr>rq_endname = e, rq_svcMeth = m, rq_args = cd_enc cd v\<rparr>"
    using sent_args [OF run _ q(1)] by (auto simp: rpc_init_def)
  have "req_ok cd i q (runs_of i s)" by (rule req_inv_D [OF _ q(1)]) (use rpc_run_inv [OF run rpc_init_inv] in blast)
  then obtain r rs rs' where r: "runs_of i s = [(i, rs, rs', r)]" "Server_dispatch cd (rt_msg q) rs = Inr (rs', r)"
      "cd_dec cd (rp_reply r) = Some w"
    using q(2) by (auto simp: req_ok_def handler_inv_def)
  obtain w' where "ran rs m v w'" "r = \<lparr>rp_ok = True, rp_reply = cd_enc cd w'\<rparr>"
    using Server_dispatch_ran [OF r(2) cd, of v] sent(2) by auto
  then show ?thesis using sent(1) r(1,3) cd by (auto simp: codec_ok_def)
qed

lemma runs_at_most_once:
  assumes "rpc_run cd es (rpc_init servers) = Some s"
  shows "length (runs_of i s) \<le> 1"
proof -
  have I: "req_inv cd i s" using rpc_run_inv [OF assms rpc_init_inv] by blast
  then show ?thesis by (cases "sy_reqs s i") (auto simp: req_inv_def req_ok_def handler_inv_def split: handler.splits)
qed

section \<open>Deleted servers\<close>

text \<open>The request will not succeed.\<close>

definition silent :: "nat \<Rightarrow> 'n \<Rightarrow> 'n \<Rightarrow> nat \<Rightarrow> ('n, 'b, 'v, 'r) sys \<Rightarrow> bool" where
  "silent i en n p s \<longleftrightarrow> (\<exists>q. sy_reqs s i = Some q \<and> rq_endname (rt_msg q) = en \<and>
     ((\<exists>rel. rt_phase q = Waiting n p rel) \<and> isServerDead en n p (sy_net s) \<or>
      (\<exists>r. rt_phase q = Replying r \<and> \<not> rp_ok r) \<or> rt_phase q = Returned None))"

text \<open>Only enabling the end and adding the same server again can revive a server.\<close>

lemma rpc_step_dead:
  assumes "rpc_step cd e s = Some (Inr s')" and "isServerDead en n p (sy_net s)"
    and "e \<noteq> DoEnable en True" and "e \<noteq> DoAddServer n p"
  shows "isServerDead en n p (sy_net s')"
proof (cases e)
  case (Start j d)
  then have "process_start j d s = Some s'" using assms(1) by auto
  then show ?thesis by (rule start_cases) (use assms(2) in auto)
qed (use assms in \<open>auto simp: on_net_def on_net_go_def loop_exit_def Call_send_def Call_abort_def accept_def
  handle_def poll_def receive_def deliver_def Let_def isServerDead_def get_enabled_def get_server_def gm_get_put
  Reliable_def LongReordering_def LongDelays_def MakeEnd_def AddServer_def DeleteServer_def Connect_def Enable_def Cleanup_def
  split: option.splits if_splits handler.splits phase.splits\<close>)

lemma phase_change:
  assumes "rpc_step cd e s = Some (Inr s')" and "sy_reqs s i = Some q"
  shows "\<exists>q'. sy_reqs s' i = Some q' \<and> rt_msg q' = rt_msg q \<and>
    (rt_phase q' = rt_phase q \<or> rt_phase q = Sending \<or> rt_phase q = Accepted \<or>
     (\<exists>n p rel r. rt_phase q = Waiting n p rel \<and> rt_phase q' = Replying r \<and>
        (rp_ok r \<longrightarrow> \<not> isServerDead (rq_endname (rt_msg q)) n p (sy_net s))) \<or>
     (\<exists>r x. rt_phase q = Replying r \<and> rt_phase q' = Returned x \<and> (x \<noteq> None \<longrightarrow> rp_ok r)))"
proof (cases e)
  case (Start j d)
  then have "process_start j d s = Some s'" using assms(1) by auto
  then show ?thesis by (rule start_cases) (use assms(2) in \<open>auto split: if_splits\<close>)
next
  case (Receive j d)
  then obtain q0 n p rel r where q0: "sy_reqs s j = Some q0" "rt_phase q0 = Waiting n p rel"
      "s' = set_req j (q0\<lparr>rt_phase := Replying r\<rparr>) s"
      "rp_ok r \<longrightarrow> \<not> isServerDead (rq_endname (rt_msg q0)) n p (sy_net s)"
    using assms(1) by (auto simp: receive_def Let_def split: option.splits phase.splits handler.splits if_splits)
  show ?thesis
  proof (cases "j = i")
    case True
    then have "q0 = q" using q0(1) assms(2) by simp
    then show ?thesis using True q0 by (intro exI [of _ "q\<lparr>rt_phase := Replying r\<rparr>"]) simp
  next
    case False
    then show ?thesis using q0(3) assms(2) by simp
  qed
qed (use assms in \<open>auto simp: on_net_def on_net_go_def loop_exit_def Call_send_def Call_abort_def accept_def
  handle_def poll_def receive_def deliver_def Let_def split: option.splits if_splits handler.splits phase.splits\<close>)

lemma rpc_step_silent:
  assumes step: "rpc_step cd e s = Some (Inr s')" and "silent i en n p s"
    and e: "e \<noteq> DoEnable en True" "e \<noteq> DoAddServer n p"
  shows "silent i en n p s'"
proof -
  obtain q where q: "sy_reqs s i = Some q" "rq_endname (rt_msg q) = en"
      "(\<exists>rel. rt_phase q = Waiting n p rel) \<and> isServerDead en n p (sy_net s) \<or>
       (\<exists>r. rt_phase q = Replying r \<and> \<not> rp_ok r) \<or> rt_phase q = Returned None"
    using assms(2) by (auto simp: silent_def)
  have dead: "isServerDead en n p (sy_net s) \<Longrightarrow> isServerDead en n p (sy_net s')"
    by (rule rpc_step_dead [OF step _ e])
  obtain q' where q': "sy_reqs s' i = Some q'" "rt_msg q' = rt_msg q"
      "rt_phase q' = rt_phase q \<or> rt_phase q = Sending \<or> rt_phase q = Accepted \<or>
       (\<exists>n p rel r. rt_phase q = Waiting n p rel \<and> rt_phase q' = Replying r \<and>
          (rp_ok r \<longrightarrow> \<not> isServerDead (rq_endname (rt_msg q)) n p (sy_net s))) \<or>
       (\<exists>r x. rt_phase q = Replying r \<and> rt_phase q' = Returned x \<and> (x \<noteq> None \<longrightarrow> rp_ok r))"
    using phase_change [OF step q(1)] by blast
  show ?thesis unfolding silent_def using q q' dead by (intro exI [of _ q']) auto
qed

lemma rpc_run_silent:
  "rpc_run cd es s = Some s' \<Longrightarrow> silent i en n p s \<Longrightarrow> DoEnable en True \<notin> set es \<Longrightarrow> DoAddServer n p \<notin> set es \<Longrightarrow>
     silent i en n p s'"
proof (induction es arbitrary: s)
  case (Cons e es)
  then obtain s1 where "rpc_step cd e s = Some (Inr s1)" "rpc_run cd es s1 = Some s'"
    by (auto split: option.splits sum.splits)
  then show ?case using Cons rpc_step_silent by (metis list.set_intros)
qed simp

section \<open>Calls return\<close>

definition can_return :: "('v, 'b) codec \<Rightarrow> nat \<Rightarrow> nat \<Rightarrow> ('n, 'b, 'v, 'r) sys \<Rightarrow> bool" where
  "can_return cd i k s \<longleftrightarrow> (\<exists>es s' x. length es \<le> k \<and> rpc_run cd es s = Some s' \<and> returned s' i x)"

lemma can_return_step:
  assumes "rpc_step cd e s = Some (Inr s1)" and "can_return cd i k s1"
  shows "can_return cd i (Suc k) s"
proof -
  obtain es s' x where "length es \<le> k" "rpc_run cd es s1 = Some s'" "returned s' i x"
    using assms(2) by (auto simp: can_return_def)
  then have "length (e # es) \<le> Suc k" "rpc_run cd (e # es) s = Some s'" "returned s' i x" using assms(1) by simp_all
  then show ?thesis unfolding can_return_def by blast
qed

lemma can_return_mono: "can_return cd i k s \<Longrightarrow> k \<le> k' \<Longrightarrow> can_return cd i k' s"
  by (auto simp: can_return_def intro: order_trans)

lemma dispatch_decodes:
  assumes "codec_ok cd" and "Server_dispatch cd msg rs = Inr (rs', r)"
  shows "cd_dec cd (rp_reply r) \<noteq> None"
  using assms by (auto simp: Server_dispatch_def Service_dispatch_def codec_ok_def Let_def split: option.splits prod.splits)

lemma return_Replying:
  assumes "codec_ok cd" and "req_inv cd i s" and "sy_reqs s i = Some q" and "rt_phase q = Replying r"
  shows "can_return cd i 1 s"
proof -
  have "rp_ok r \<Longrightarrow> cd_dec cd (rp_reply r) \<noteq> None"
    using req_inv_D [OF assms(2,3)] assms(4) dispatch_decodes [OF assms(1)]
    by (fastforce simp: req_ok_def handler_inv_def)
  then have "\<exists>s' x. rpc_step cd (Deliver i) s = Some (Inr s') \<and> returned s' i x"
    using assms(3,4) by (cases "rp_ok r"; cases "cd_dec cd (rp_reply r)") (simp_all add: deliver_def returned_def)
  then obtain s' where "rpc_step cd (Deliver i) s = Some (Inr s')" "\<exists>x. returned s' i x" by blast
  then have "rpc_run cd [Deliver i] s = Some s'" "\<exists>x. returned s' i x" by simp_all
  then show ?thesis unfolding can_return_def by (metis One_nat_def length_Cons list.size(3) order_refl)
qed

text \<open>The server a handler runs on, or would run on, answers the request.\<close>

definition answers :: "('v, 'b) codec \<Rightarrow> ('n, 'b, 'v, 'r) sys \<Rightarrow> ('n, 'b, 'v) request \<Rightarrow> bool" where
  "answers cd s q \<longleftrightarrow> (\<forall>p. (rt_handler q = Started p \<or> (\<exists>n. get_server (sy_net s) n = Some p)) \<longrightarrow>
     (\<exists>rs x. sy_servers s p = Some rs \<and> Server_dispatch cd (rt_msg q) rs = Inr x))"

lemma return_Waiting:
  assumes cd: "codec_ok cd" and I: "\<forall>j. req_inv cd j s" and q: "sy_reqs s i = Some q" "rt_phase q = Waiting n p rel"
    and a: "answers cd s q"
  shows "can_return cd i 3 s"
proof -
  have fin: "can_return cd i 2 s" if I: "\<forall>j. req_inv cd j s" and q: "sy_reqs s i = Some q" "rt_phase q = Waiting n p rel" "rt_handler q = AtSend r"
    for s q r
  proof -
    have "\<exists>s' q' r'. rpc_step cd (Receive i False) s = Some (Inr s') \<and> sy_reqs s' i = Some q' \<and> rt_phase q' = Replying r'"
      using q by (cases "isServerDead (rq_endname (rt_msg q)) n p (sy_net s)") (simp_all add: receive_def)
    then obtain s' q' r' where s': "rpc_step cd (Receive i False) s = Some (Inr s')" "sy_reqs s' i = Some q'" "rt_phase q' = Replying r'"
      by blast
    have "can_return cd i 1 s'"
      by (rule return_Replying [OF cd _ s'(2,3)]) (use rpc_step_inv [OF s'(1) I] in blast)
    then show ?thesis using can_return_step [OF s'(1)] by (simp add: numeral_2_eq_2)
  qed
  show ?thesis
  proof (cases "rt_handler q")
    case Idle
    then show ?thesis using req_inv_D [OF I [rule_format] q(1)] q(2) by (simp add: req_ok_def)
  next
    case (Started p')
    then obtain rs rs' r where "sy_servers s p' = Some rs" "Server_dispatch cd (rt_msg q) rs = Inr (rs', r)"
      using a unfolding answers_def by (metis surj_pair)
    then obtain s' q' r where s': "rpc_step cd (Handle i) s = Some (Inr s')" "sy_reqs s' i = Some q'" "rt_phase q' = Waiting n p rel" "rt_handler q' = AtSend r"
      using q Started by (auto simp: handle_def)
    have "can_return cd i 2 s'" by (rule fin [OF rpc_step_inv [OF s'(1) I] s'(2-4)])
    then show ?thesis using can_return_step [OF s'(1)] by (simp add: numeral_3_eq_3 numeral_2_eq_2)
  next
    case (AtSend r)
    show ?thesis by (rule can_return_mono [OF fin [OF I q AtSend]]) simp
  qed
qed

lemma return_Accepted:
  assumes cd: "codec_ok cd" and I: "\<forall>j. req_inv cd j s" and q: "sy_reqs s i = Some q" "rt_phase q = Accepted"
    and a: "answers cd s q"
  shows "can_return cd i 4 s"
proof -
  obtain s' where step: "process_start i False s = Some s'" using q by (simp add: process_start_def)
  then have step': "rpc_step cd (Start i False) s = Some (Inr s')" by simp
  note I' = rpc_step_inv [OF step' I]
  obtain q' where q': "s' = set_req i q' s" "q' = q\<lparr>rt_phase := Replying noReply\<rparr> \<or>
      (\<exists>n p rel. get_server (sy_net s) n = Some p \<and> q' = q\<lparr>rt_phase := Waiting n p rel, rt_handler := Started p\<rparr>)"
    using start_cases [OF step] q(1) by (metis option.inject)
  from q'(2) have "can_return cd i 3 s'"
  proof
    assume "q' = q\<lparr>rt_phase := Replying noReply\<rparr>"
    then have "sy_reqs s' i = Some q'" "rt_phase q' = Replying noReply" by (simp_all add: q'(1))
    then show ?thesis using can_return_mono [OF return_Replying [OF cd I' [rule_format]], of i q' noReply 3] by simp
  next
    assume "\<exists>n p rel. get_server (sy_net s) n = Some p \<and> q' = q\<lparr>rt_phase := Waiting n p rel, rt_handler := Started p\<rparr>"
    then obtain n p rel where p: "get_server (sy_net s) n = Some p"
        "q' = q\<lparr>rt_phase := Waiting n p rel, rt_handler := Started p\<rparr>" by blast
    have "answers cd s' q'" using a p unfolding answers_def by (auto simp: q'(1))
    then show ?thesis by (intro return_Waiting [OF cd I', of i q' n p rel]) (simp_all add: q'(1) p(2))
  qed
  from can_return_step [OF step' this] show ?thesis by (simp add: eval_nat_numeral)
qed

text \<open>The accepting goroutine leaves only after \<open>Cleanup\<close>.\<close>

lemma rpc_step_loop:
  assumes "rpc_step cd e s = Some (Inr s')" and "nw_loop (sy_net s) \<or> nw_done (sy_net s)"
  shows "nw_loop (sy_net s') \<or> nw_done (sy_net s')"
proof (cases e)
  case (Start j d)
  then have "process_start j d s = Some s'" using assms(1) by auto
  then show ?thesis by (rule start_cases) (use assms(2) in auto)
qed (use assms in \<open>auto simp: on_net_def on_net_go_def loop_exit_def Call_send_def Call_abort_def accept_def
  handle_def poll_def receive_def deliver_def Let_def
  Reliable_def LongReordering_def LongDelays_def MakeEnd_def AddServer_def DeleteServer_def Connect_def Enable_def Cleanup_def
  split: option.splits if_splits handler.splits phase.splits\<close>)

lemma rpc_run_loop:
  "rpc_run cd es s = Some s' \<Longrightarrow> nw_loop (sy_net s) \<or> nw_done (sy_net s) \<Longrightarrow> nw_loop (sy_net s') \<or> nw_done (sy_net s')"
proof (induction es arbitrary: s)
  case (Cons e es)
  then obtain s1 where "rpc_step cd e s = Some (Inr s1)" "rpc_run cd es s1 = Some s'"
    by (auto split: option.splits sum.splits)
  then show ?case using Cons.IH rpc_step_loop Cons.prems(2) by blast
qed simp

lemma return_Sending:
  assumes cd: "codec_ok cd" and I: "\<forall>j. req_inv cd j s" and q: "sy_reqs s i = Some q" "rt_phase q = Sending"
    and a: "answers cd s q" and net: "nw_loop (sy_net s) \<or> nw_done (sy_net s)"
  shows "can_return cd i 5 s"
proof (cases "nw_loop (sy_net s)")
  case True
  then obtain net where step: "rpc_step cd (Accept i) s = Some (Inr (set_req i (q\<lparr>rt_phase := Accepted\<rparr>) (s\<lparr>sy_net := net\<rparr>)))"
      "nw_servers net = nw_servers (sy_net s)"
    using q by (simp add: accept_def)
  let ?s = "set_req i (q\<lparr>rt_phase := Accepted\<rparr>) (s\<lparr>sy_net := net\<rparr>)"
  have "answers cd ?s (q\<lparr>rt_phase := Accepted\<rparr>)" using a step(2) by (simp add: answers_def get_server_def)
  then have "can_return cd i 4 ?s" by (intro return_Accepted [OF cd rpc_step_inv [OF step(1) I]]) simp_all
  from can_return_step [OF step(1) this] show ?thesis by (simp add: eval_nat_numeral)
next
  case False
  then have "rpc_run cd [Abort i] s = Some (set_req i (q\<lparr>rt_phase := Returned None\<rparr>) s)" using q net by (simp add: Call_abort_def)
  moreover have "returned (set_req i (q\<lparr>rt_phase := Returned None\<rparr>) s) i None" by (simp add: returned_def)
  ultimately show ?thesis unfolding can_return_def by (intro exI [of _ "[Abort i]"]) auto
qed

lemma call_returns_within:
  assumes cd: "codec_ok cd" and run: "rpc_run cd es (rpc_init servers) = Some s"
    and q: "sy_reqs s i = Some q" and a: "answers cd s q"
  shows "can_return cd i 5 s"
proof -
  have I: "\<forall>j. req_inv cd j s" by (rule rpc_run_inv [OF run rpc_init_inv])
  have net: "nw_loop (sy_net s) \<or> nw_done (sy_net s)"
    by (rule rpc_run_loop [OF run]) (simp add: rpc_init_def MakeNetwork_def)
  show ?thesis
  proof (cases "rt_phase q")
    case Sending
    then show ?thesis by (rule return_Sending [OF cd I q _ a net])
  next
    case Accepted
    then show ?thesis using can_return_mono [OF return_Accepted [OF cd I q _ a], of 5] by simp
  next
    case (Waiting n p rel)
    then show ?thesis using can_return_mono [OF return_Waiting [OF cd I q _ a], of n p rel 5] by simp
  next
    case (Replying r)
    then show ?thesis using can_return_mono [OF return_Replying [OF cd I [rule_format] q], of r 5] by simp
  next
    case (Returned x)
    then have "returned s i x" using q by (simp add: returned_def)
    then show ?thesis unfolding can_return_def by (intro exI [of _ "[]"]) auto
  qed
qed

section \<open>The properties\<close>

text \<open>A server with one service and one method for the instances; messages are their own encoding.\<close>

definition cd1 :: "(nat list, nat) codec" where
  "cd1 = \<lparr>cd_enc = \<lambda>v. v, cd_dec = Some, cd_zero = []\<rparr>"

definition server1 :: "(nat, nat list) Server" where
  "server1 = AddService (MakeService ''S'' 7
     [\<lparr>mt_Name = ''Inc'', mt_PkgPath = [], mt_NumIn = 3, mt_In2IsPtr = True, mt_NumOut = 0, mt_Func = \<lambda>r v. (r + 1, v @ [r])\<rparr>])
     MakeServer"

definition sys1 :: "(string, nat, nat list, nat) sys" where
  "sys1 = rpc_init [0 \<mapsto> server1]"

definition evs_up :: "(string, nat list) event list" where
  "evs_up = [DoMakeEnd ''e'', DoAddServer ''srv'' 0, DoConnect ''e'' ''srv'', DoEnable ''e'' True,
     Send 3 ''e'' ''S.Inc'' [1], Accept 3, Start 3 False]"

lemma codec_ok_cd1: "codec_ok cd1"
  by (simp add: codec_ok_def cd1_def)

text \<open>C33: A request is executed at most once, whatever is lost, delayed, deleted or disabled. A \<open>Call\<close> that
  returns true has executed it exactly once: some method of the server, named by the part of
  \<open>svcMeth\<close> after a dot, ran on the caller's arguments and returned the caller's reply.\<close>

theorem Call_at_most_once:
  assumes "codec_ok cd" and "rpc_run cd es (rpc_init servers) = Some s"
  shows "length (runs_of i s) \<le> 1 \<and>
    (\<forall>w. returned s i (Some w) \<longrightarrow>
       (\<exists>e m v rs rs' r. Send i e m v \<in> set es \<and> runs_of i s = [(i, rs, rs', r)] \<and> ran rs m v w))"
  using runs_at_most_once [OF assms(2)] returned_run [OF assms] by blast

theorem Call_at_most_once_witness:
  "\<exists>s. rpc_run cd1 (evs_up @ [Handle 3, Receive 3 False, Deliver 3]) sys1 = Some s \<and>
     returned s 3 (Some [1, 7]) \<and> length (runs_of 3 s) \<le> 1"
proof -
  have "map_option (\<lambda>s. map_option rt_phase (sy_reqs s 3)) (rpc_run cd1 (evs_up @ [Handle 3, Receive 3 False, Deliver 3]) sys1) =
      Some (Some (Returned (Some [1, 7])))" by code_simp
  then obtain s where s: "rpc_run cd1 (evs_up @ [Handle 3, Receive 3 False, Deliver 3]) sys1 = Some s" "returned s 3 (Some [1, 7])"
    by (auto simp: returned_def)
  then show ?thesis using Call_at_most_once [OF codec_ok_cd1, of _ "[0 \<mapsto> server1]" s 3] unfolding sys1_def by blast
qed

text \<open>C34: Once the server a request waits for was deleted or replaced, or the end disabled, the call does
  not return true, as long as the same server is not added again and the end not enabled again,
  even when the handler runs to its end.\<close>

theorem Call_fails_after_DeleteServer:
  assumes "sy_reqs s i = Some q" and "rt_phase q = Waiting n p rel"
    and "isServerDead (rq_endname (rt_msg q)) n p (sy_net s)"
    and "rpc_run cd es s = Some s'" and "DoEnable (rq_endname (rt_msg q)) True \<notin> set es" and "DoAddServer n p \<notin> set es"
  shows "\<not> returned s' i (Some w)"
proof -
  have "silent i (rq_endname (rt_msg q)) n p s" unfolding silent_def using assms(1-3) by blast
  from rpc_run_silent [OF assms(4) this assms(5,6)] show ?thesis by (auto simp: silent_def returned_def)
qed

theorem Call_fails_after_DeleteServer_witness:
  "\<exists>s'. rpc_run cd1 (evs_up @ [DoDeleteServer ''srv'', Handle 3, Receive 3 False, Deliver 3]) sys1 = Some s' \<and>
     \<not> returned s' 3 (Some [1, 7])"
proof -
  let ?q = "\<lparr>rt_msg = \<lparr>rq_endname = ''e'', rq_svcMeth = ''S.Inc'', rq_args = [1]\<rparr>, rt_handler = Started 0, rt_phase = Waiting ''srv'' 0 True\<rparr>"
  let ?es = "[Handle 3, Receive 3 False, Deliver 3]"
  have "map_option (\<lambda>s. (sy_reqs s 3, isServerDead ''e'' ''srv'' 0 (sy_net s))) (rpc_run cd1 (evs_up @ [DoDeleteServer ''srv'']) sys1) =
      Some (Some ?q, True)" by code_simp
  then obtain s where s: "rpc_run cd1 (evs_up @ [DoDeleteServer ''srv'']) sys1 = Some s" "sy_reqs s 3 = Some ?q"
      "isServerDead ''e'' ''srv'' 0 (sy_net s)" by auto
  have "(rpc_run cd1 (evs_up @ [DoDeleteServer ''srv''] @ ?es) sys1 = None) = False" by code_simp
  moreover have "rpc_run cd (xs @ ys) t = Option.bind (rpc_run cd xs t) (rpc_run cd ys)" for cd :: "(nat list, nat) codec" and xs ys t
    by (induction xs arbitrary: t) (auto split: option.splits sum.splits)
  then have app: "rpc_run cd1 (evs_up @ [DoDeleteServer ''srv''] @ ?es) sys1 = rpc_run cd1 ?es s"
    using s(1) by (metis Option.bind.bind_lunit append_assoc)
  ultimately obtain s' where s': "rpc_run cd1 ?es s = Some s'" by auto
  have "\<not> returned s' 3 (Some [1, 7])"
    by (rule Call_fails_after_DeleteServer [OF s(2) _ _ s', of "''srv''" 0 True]) (use s(3) in simp_all)
  then show ?thesis using app s' by auto
qed

text \<open>A call can always return, within five steps of its own goroutines, whatever happened before,
  if the servers it may reach execute the request instead of stopping.\<close>

theorem Call_can_return:
  assumes "codec_ok cd" and "rpc_run cd es (rpc_init servers) = Some s"
    and "sy_reqs s i = Some q" and "answers cd s q"
  shows "\<exists>es' s' x. length es' \<le> 5 \<and> rpc_run cd es' s = Some s' \<and> returned s' i x"
  using call_returns_within [OF assms] by (simp only: can_return_def)

theorem Call_can_return_witness:
  "\<exists>s es' s' x. rpc_run cd1 evs_up sys1 = Some s \<and> length es' \<le> 5 \<and> rpc_run cd1 es' s = Some s' \<and> returned s' 3 x"
proof -
  let ?q = "\<lparr>rt_msg = \<lparr>rq_endname = ''e'', rq_svcMeth = ''S.Inc'', rq_args = [1]\<rparr>, rt_handler = Started 0, rt_phase = Waiting ''srv'' 0 True\<rparr>"
  have "map_option (\<lambda>s. (sy_reqs s 3, nw_servers (sy_net s))) (rpc_run cd1 evs_up sys1) = Some (Some ?q, [(''srv'', Some 0)])" by code_simp
  then obtain s where s: "rpc_run cd1 evs_up sys1 = Some s" "sy_reqs s 3 = Some ?q" "nw_servers (sy_net s) = [(''srv'', Some 0)]" by auto
  have "map_option (\<lambda>s. map_option (\<lambda>rs. isl (Server_dispatch cd1 (rt_msg ?q) rs)) (sy_servers s 0)) (rpc_run cd1 evs_up sys1) = Some (Some False)"
    by code_simp
  then obtain rs where rs: "sy_servers s 0 = Some rs" "\<not> isl (Server_dispatch cd1 (rt_msg ?q) rs)" using s(1) by auto
  then obtain x where "Server_dispatch cd1 (rt_msg ?q) rs = Inr x" by (cases "Server_dispatch cd1 (rt_msg ?q) rs") auto
  with rs(1) have "answers cd1 s ?q" by (auto simp: answers_def get_server_def s(3) gm_get_def split: if_splits option.splits)
  then have "\<exists>es' s' x. length es' \<le> 5 \<and> rpc_run cd1 es' s = Some s' \<and> returned s' 3 x"
    by (rule Call_can_return [OF codec_ok_cd1 s(1) [unfolded sys1_def] s(2)])
  then show ?thesis using s(1) by blast
qed

end
