(* ===== verification/Labgob.thy ===== *)
theory Labgob
  imports Go_Prelude
begin

text \<open>
  \<open>labgob/labgob.go\<close>: the wrapper around \<open>encoding/gob\<close> that warns about fields gob does not transmit.
  Go types are the entries of a table, since they may refer to themselves; \<open>checkType\<close> follows the
  references and marks every type it has seen. \<open>encoding/gob\<close> itself and \<open>unicode.IsUpper\<close> of the first
  rune of a name are arguments.
\<close>

section \<open>Types and values\<close>

text \<open>What \<open>checkType\<close> asks of a \<open>reflect.Type\<close>; types are numbers of table entries.\<close>

datatype gkind =
    KStruct "(string \<times> nat) list"
  | KElem nat
  | KMap nat nat
  | KBasic

record gtype =
  ty_Name :: string
  ty_Kind :: gkind

text \<open>The package variables, and what was printed: the field and the name of its type.\<close>

record labgob =
  lg_errorCount :: int
  lg_checked :: "nat list"
  lg_printed :: "(string \<times> string) list"

section \<open>Checking types\<close>

definition complain :: "(string \<Rightarrow> bool) \<Rightarrow> (string \<times> string) option \<Rightarrow> labgob \<Rightarrow> labgob" where
  "complain isUpper f st =
     (case f of
        None \<Rightarrow> st
      | Some (name, tname) \<Rightarrow>
          if isUpper name = False
          then st\<lparr>lg_printed := lg_printed st @ [(name, tname)], lg_errorCount := lg_errorCount st + 1\<rparr>
          else st)"

text \<open>The types a type refers to, in the order the source visits them, with the field for those of a struct.\<close>

definition references :: "gtype \<Rightarrow> ((string \<times> string) option \<times> nat) list" where
  "references t =
     (case ty_Kind t of
        KStruct fs \<Rightarrow> map (\<lambda>(name, u). (Some (name, ty_Name t), u)) fs
      | KElem u \<Rightarrow> [(None, u)]
      | KMap key elem \<Rightarrow> [(None, elem), (None, key)]
      | KBasic \<Rightarrow> [])"

text \<open>\<open>checkType\<close> on one reference after the other: complain about the field, then check its type, which
  marks the type and goes through its references unless it was marked before.\<close>

partial_function (option) check_refs :: "gtype list \<Rightarrow> (string \<Rightarrow> bool) \<Rightarrow> ((string \<times> string) option \<times> nat) list \<Rightarrow>
    labgob \<Rightarrow> labgob option" where
  "check_refs types isUpper refs st =
     (case refs of
        [] \<Rightarrow> Some st
      | (f, t) # refs' \<Rightarrow>
          let st = complain isUpper f st in
          if t \<in> set (lg_checked st) then check_refs types isUpper refs' st
          else Option.bind (check_refs types isUpper (references (types ! t)) (st\<lparr>lg_checked := t # lg_checked st\<rparr>))
                 (check_refs types isUpper refs'))"

text \<open>A type is a position in the table of types. A nil interface value has no type and no position
  there: on it the code panics at \<open>t.Kind()\<close>.\<close>

definition checkType :: "gtype list \<Rightarrow> (string \<Rightarrow> bool) \<Rightarrow> nat \<Rightarrow> labgob \<Rightarrow> labgob option" where
  "checkType types isUpper t st = check_refs types isUpper [(None, t)] st"

section \<open>Checking values to decode into\<close>

datatype gval =
    VStruct "(string \<times> gval) list"
  | VPtr "gval option"
  | VBasic string bool
  | VOther

text \<open>\<open>VBasic name z\<close> has type \<open>name\<close>, and \<open>z\<close> says that it is the zero value.\<close>

fun checkDefault1 :: "gval \<Rightarrow> int \<Rightarrow> string \<Rightarrow> labgob \<Rightarrow> labgob" and
  checkFields :: "(string \<times> gval) list \<Rightarrow> int \<Rightarrow> string \<Rightarrow> labgob \<Rightarrow> labgob" where
  "checkDefault1 (VStruct fs) depth name st = (if depth > 3 then st else checkFields fs depth name st)"
| "checkDefault1 (VPtr None) depth name st = st"
| "checkDefault1 (VPtr (Some v)) depth name st = (if depth > 3 then st else checkDefault1 v (depth + 1) name st)"
| "checkDefault1 (VBasic tname isZero) depth name st =
     (if depth > 3 then st
      else if \<not> isZero then
        let st = (if lg_errorCount st < 1
                  then st\<lparr>lg_printed := lg_printed st @ [(if name = [] then tname else name, [])]\<rparr> else st)
        in st\<lparr>lg_errorCount := lg_errorCount st + 1\<rparr>
      else st)"
| "checkDefault1 VOther depth name st = st"
| "checkFields [] depth name st = st"
| "checkFields ((field, v) # fs) depth name st =
     (let name1 = (if name \<noteq> [] then name @ ''.'' @ field else field)
      in checkFields fs depth name (checkDefault1 v (depth + 1) name1 st))"

definition checkDefault :: "gval option \<Rightarrow> labgob \<Rightarrow> labgob" where
  "checkDefault value st = (case value of None \<Rightarrow> st | Some v \<Rightarrow> checkDefault1 v 1 [] st)"

section \<open>Encoders and decoders\<close>

text \<open>\<open>Encode\<close> and \<open>EncodeValue\<close> check the type and encode; \<open>Decode\<close> also checks the value to decode into;
  \<open>Register\<close> and \<open>RegisterName\<close> only check, besides the registry of gob.\<close>

definition Encode :: "gtype list \<Rightarrow> (string \<Rightarrow> bool) \<Rightarrow> ('v \<Rightarrow> 'r) \<Rightarrow> nat \<Rightarrow> 'v \<Rightarrow> labgob \<Rightarrow> (labgob \<times> 'r) option" where
  "Encode types isUpper gob t e st = map_option (\<lambda>st. (st, gob e)) (checkType types isUpper t st)"

definition Decode :: "gtype list \<Rightarrow> (string \<Rightarrow> bool) \<Rightarrow> (gval option \<Rightarrow> 'r) \<Rightarrow> nat \<Rightarrow> gval option \<Rightarrow> labgob \<Rightarrow> (labgob \<times> 'r) option" where
  "Decode types isUpper gob t e st = map_option (\<lambda>st. (checkDefault e st, gob e)) (checkType types isUpper t st)"

definition Register :: "gtype list \<Rightarrow> (string \<Rightarrow> bool) \<Rightarrow> nat \<Rightarrow> labgob \<Rightarrow> labgob option" where
  "Register types isUpper t st = checkType types isUpper t st"

section \<open>Every type is checked once\<close>

definition closed :: "gtype list \<Rightarrow> bool" where
  "closed types \<longleftrightarrow> (\<forall>t<length types. \<forall>r\<in>set (references (types ! t)). snd r < length types)"

text \<open>The fields with a lower-case name.\<close>

definition lower_refs :: "(string \<Rightarrow> bool) \<Rightarrow> ((string \<times> string) option \<times> nat) list \<Rightarrow> nat" where
  "lower_refs isUpper refs = length (filter (\<lambda>(f, _). case f of None \<Rightarrow> False | Some (name, _) \<Rightarrow> \<not> isUpper name) refs)"

definition lower :: "(string \<Rightarrow> bool) \<Rightarrow> gtype \<Rightarrow> nat" where
  "lower isUpper t = lower_refs isUpper (references t)"

text \<open>What a check of references leaves: more types are marked, those referred to are, with all they refer to in
  turn, and one error was counted for each lower-case field on the way.\<close>

definition check_post :: "gtype list \<Rightarrow> (string \<Rightarrow> bool) \<Rightarrow> ((string \<times> string) option \<times> nat) list \<Rightarrow> labgob \<Rightarrow> labgob \<Rightarrow> bool" where
  "check_post types isUpper refs st st' \<longleftrightarrow>
     set (lg_checked st) \<subseteq> set (lg_checked st') \<and> set (lg_checked st') \<subseteq> {0..<length types} \<and>
     (\<forall>r\<in>set refs. snd r \<in> set (lg_checked st')) \<and>
     (\<forall>t\<in>set (lg_checked st') - set (lg_checked st). \<forall>r\<in>set (references (types ! t)). snd r \<in> set (lg_checked st')) \<and>
     lg_errorCount st' = lg_errorCount st + int (lower_refs isUpper refs) +
       (\<Sum>t\<in>set (lg_checked st') - set (lg_checked st). int (lower isUpper (types ! t)))"

lemma complain_simps [simp]: "lg_checked (complain isUpper f st) = lg_checked st"
  "lg_errorCount (complain isUpper f st) = lg_errorCount st + int (lower_refs isUpper [(f, t)])"
  by (auto simp: complain_def lower_refs_def split: option.splits)

lemma lower_refs_Cons: "lower_refs isUpper (r # refs) = lower_refs isUpper [r] + lower_refs isUpper refs"
  by (simp add: lower_refs_def)

lemma check_post_seen:
  assumes "snd r \<in> set (lg_checked st)" and "check_post types isUpper refs (complain isUpper (fst r) st) st'"
  shows "check_post types isUpper (r # refs) st st'"
  using assms complain_simps(2) [of isUpper "fst r" st "snd r"] lower_refs_Cons [of isUpper r refs]
  by (auto simp: check_post_def)

lemma check_post_new:
  assumes t: "t < length types" "t \<notin> set (lg_checked st)"
    and a: "check_post types isUpper (references (types ! t)) ((complain isUpper f st)\<lparr>lg_checked := t # lg_checked st\<rparr>) st2"
    and b: "check_post types isUpper refs st2 st3"
  shows "check_post types isUpper ((f, t) # refs) st st3"
proof -
  let ?A = "set (lg_checked st)" and ?B = "set (lg_checked st2)" and ?C = "set (lg_checked st3)"
  let ?f = "\<lambda>t. int (lower isUpper (types ! t))"
  have A: "insert t ?A \<subseteq> ?B" "\<forall>r\<in>set (references (types ! t)). snd r \<in> ?B"
      "\<forall>u\<in>?B - insert t ?A. \<forall>r\<in>set (references (types ! u)). snd r \<in> ?B"
      "lg_errorCount st2 = lg_errorCount st + int (lower_refs isUpper [(f, t)]) + ?f t + (\<Sum>u\<in>?B - insert t ?A. ?f u)"
    using a complain_simps(2) [of isUpper f st t] by (simp_all add: check_post_def lower_def)
  have B: "?B \<subseteq> ?C" "?C \<subseteq> {0..<length types}" "\<forall>r\<in>set refs. snd r \<in> ?C"
      "\<forall>u\<in>?C - ?B. \<forall>r\<in>set (references (types ! u)). snd r \<in> ?C"
      "lg_errorCount st3 = lg_errorCount st2 + int (lower_refs isUpper refs) + (\<Sum>u\<in>?C - ?B. ?f u)"
    using b by (simp_all add: check_post_def)
  have split: "?C - ?A = insert t ((?B - insert t ?A) \<union> (?C - ?B))" using A(1) B(1) t(2) by blast
  have "(\<Sum>u\<in>?C - ?A. ?f u) = ?f t + (\<Sum>u\<in>(?B - insert t ?A) \<union> (?C - ?B). ?f u)"
    unfolding split by (rule sum.insert) (use A(1) in auto)
  also have "(\<Sum>u\<in>(?B - insert t ?A) \<union> (?C - ?B). ?f u) = (\<Sum>u\<in>?B - insert t ?A. ?f u) + (\<Sum>u\<in>?C - ?B. ?f u)"
    by (rule sum.union_disjoint) auto
  finally have "lg_errorCount st3 = lg_errorCount st + int (lower_refs isUpper ((f, t) # refs)) + (\<Sum>u\<in>?C - ?A. ?f u)"
    using A(4) B(5) lower_refs_Cons [of isUpper "(f, t)" refs] by simp
  moreover have "\<forall>u\<in>?C - ?A. \<forall>r\<in>set (references (types ! u)). snd r \<in> ?C"
    unfolding split using A(2,3) B(1,4) by blast
  moreover have "?A \<subseteq> ?C" "\<forall>r\<in>set ((f, t) # refs). snd r \<in> ?C" using A(1) B(1,3) by auto
  ultimately show ?thesis using B(2) unfolding check_post_def by blast
qed

lemma check_refs_ends:
  assumes "closed types"
  shows "set (lg_checked st) \<subseteq> {0..<length types} \<Longrightarrow> \<forall>r\<in>set refs. snd r < length types \<Longrightarrow>
    \<exists>st'. check_refs types isUpper refs st = Some st' \<and> check_post types isUpper refs st st'"
proof (induction "card ({0..<length types} - set (lg_checked st))" arbitrary: refs st rule: less_induct)
  case less
  have inner: "\<exists>st'. check_refs types isUpper refs s = Some st' \<and> check_post types isUpper refs s st'"
    if "lg_checked s = lg_checked st" "\<forall>r\<in>set refs. snd r < length types" for refs s
    using that
  proof (induction refs arbitrary: s)
    case Nil
    then show ?case using less.prems(1) by (subst check_refs.simps) (simp add: check_post_def lower_refs_def)
  next
    case (Cons r refs)
    obtain f t where r: "r = (f, t)" by (cases r)
    let ?s = "complain isUpper f s"
    have t: "t < length types" using Cons.prems(2) r by simp
    show ?case
    proof (cases "t \<in> set (lg_checked s)")
      case True
      then have "check_refs types isUpper (r # refs) s = check_refs types isUpper refs ?s"
        by (subst check_refs.simps) (simp add: r)
      moreover obtain st' where "check_refs types isUpper refs ?s = Some st'" "check_post types isUpper refs ?s st'"
        using Cons.IH [of ?s] Cons.prems by auto
      ultimately show ?thesis using check_post_seen [of r s types isUpper refs st'] True by (simp add: r)
    next
      case False
      let ?s1 = "?s\<lparr>lg_checked := t # lg_checked s\<rparr>"
      have less': "card ({0..<length types} - X) < card ({0..<length types} - set (lg_checked st))"
        if "insert t (set (lg_checked s)) \<subseteq> X" for X
        using that t False Cons.prems(1) by (intro psubset_card_mono) auto
      have sub1: "set (lg_checked ?s1) \<subseteq> {0..<length types}" using less.prems(1) Cons.prems(1) t by auto
      obtain st2 where st2: "check_refs types isUpper (references (types ! t)) ?s1 = Some st2"
          "check_post types isUpper (references (types ! t)) ?s1 st2"
        using less.hyps [OF less' sub1, of "references (types ! t)"] assms t by (auto simp: closed_def)
      have "insert t (set (lg_checked s)) \<subseteq> set (lg_checked st2)" "set (lg_checked st2) \<subseteq> {0..<length types}"
        using st2(2) by (auto simp: check_post_def)
      then obtain st3 where st3: "check_refs types isUpper refs st2 = Some st3" "check_post types isUpper refs st2 st3"
        using less.hyps [OF less', of st2 refs] Cons.prems(2) by auto
      have "check_refs types isUpper (r # refs) s = Some st3"
        using False st2(1) st3(1) by (subst check_refs.simps) (simp add: r)
      moreover have "check_post types isUpper (r # refs) s st3"
        unfolding r by (rule check_post_new [OF t False st2(2) st3(2)])
      ultimately show ?thesis by blast
    qed
  qed
  show ?case by (rule inner) (use less.prems(2) in simp_all)
qed

text \<open>C40: \<open>checkType\<close> returns also on types that refer to themselves. Afterwards the type and everything it refers
  to, directly or not, is marked; for every type marked on the way its lower-case fields were counted, each once,
  and a type marked before adds nothing.\<close>

theorem checkType_ends:
  assumes "closed types" and "t < length types" and "set (lg_checked st) \<subseteq> {0..<length types}"
  shows "\<exists>st'. checkType types isUpper t st = Some st' \<and> t \<in> set (lg_checked st') \<and>
    set (lg_checked st) \<subseteq> set (lg_checked st') \<and>
    (\<forall>u\<in>set (lg_checked st') - set (lg_checked st). \<forall>r\<in>set (references (types ! u)). snd r \<in> set (lg_checked st')) \<and>
    lg_errorCount st' = lg_errorCount st + (\<Sum>u\<in>set (lg_checked st') - set (lg_checked st). int (lower isUpper (types ! u))) \<and>
    (t \<in> set (lg_checked st) \<longrightarrow> st' = st)"
proof -
  obtain st' where st': "checkType types isUpper t st = Some st'" "check_post types isUpper [(None, t)] st st'"
    using check_refs_ends [OF assms(1,3), of "[(None, t)]" isUpper] assms(2) by (auto simp: checkType_def)
  have "st' = st" if "t \<in> set (lg_checked st)"
  proof -
    have "check_refs types isUpper [(None, t)] st = check_refs types isUpper [] st"
      using that by (subst check_refs.simps) (simp add: complain_def)
    also have "\<dots> = Some st" by (subst check_refs.simps) simp
    finally show ?thesis using st'(1) by (simp add: checkType_def)
  qed
  then show ?thesis using st' by (auto simp: check_post_def lower_refs_def)
qed

text \<open>A list node with a lower-case field, and a pointer to it.\<close>

definition types1 :: "gtype list" where
  "types1 = [\<lparr>ty_Name = ''node'', ty_Kind = KStruct [(''Next'', 1), (''val'', 2)]\<rparr>,
     \<lparr>ty_Name = [], ty_Kind = KElem 0\<rparr>, \<lparr>ty_Name = ''int'', ty_Kind = KBasic\<rparr>]"

definition upper1 :: "string \<Rightarrow> bool" where
  "upper1 name = (name \<noteq> [] \<and> of_char (hd name) < (97 :: nat))"

theorem checkType_ends_witness:
  "\<exists>st'. checkType types1 upper1 1 \<lparr>lg_errorCount = 0, lg_checked = [], lg_printed = []\<rparr> = Some st' \<and>
     lg_errorCount st' = (\<Sum>u\<in>set (lg_checked st'). int (lower upper1 (types1 ! u)))"
proof -
  have "closed types1" by (auto simp: closed_def types1_def references_def less_Suc_eq numeral_2_eq_2 numeral_3_eq_3)
  from checkType_ends [OF this, of 1 "\<lparr>lg_errorCount = 0, lg_checked = [], lg_printed = []\<rparr>" upper1] show ?thesis
    by (auto simp: types1_def)
qed

end
