(* ===== verification/Shard_Props.thy ===== *)
theory Shard_Props
  imports Shard_Services
begin

text \<open>
  What the clerks do: the controller's clerk returns the first accepted reply of a round robin
  over its servers, the store's clerk asks only servers of the group its configuration names, and
  together with the empty handlers of the repository the store's clerk never returns.
\<close>

section \<open>Round robin\<close>

text \<open>The reply of the \<open>j\<close>-th call from \<open>t\<close> on, when it is accepted.\<close>

definition accepted :: "(nat \<Rightarrow> 'srv \<Rightarrow> 'reply option) \<Rightarrow> ('reply \<Rightarrow> bool) \<Rightarrow> nat \<Rightarrow> 'srv \<Rightarrow> 'reply \<Rightarrow> bool" where
  "accepted call good t srv r \<longleftrightarrow> call t srv = Some r \<and> good r"

lemma try_servers_found:
  "k < length servers \<Longrightarrow> accepted call good (t + k) (servers ! k) r \<Longrightarrow>
     (\<And>j r. j < k \<Longrightarrow> \<not> accepted call good (t + j) (servers ! j) r) \<Longrightarrow>
     try_servers call good servers t = (t + k + 1, Some r)"
proof (induction servers arbitrary: t k)
  case (Cons s servers)
  show ?case
  proof (cases k)
    case 0
    then show ?thesis using Cons.prems by (simp add: accepted_def)
  next
    case (Suc k')
    have "\<not> accepted call good t s r" for r using Cons.prems(3) [of 0 r] Suc by simp
    then have "try_servers call good (s # servers) t = try_servers call good servers (t + 1)"
      by (auto simp: accepted_def split: option.splits)
    also have "\<dots> = (t + 1 + k' + 1, Some r)"
    proof (rule Cons.IH)
      show "k' < length servers" "accepted call good (t + 1 + k') (servers ! k') r" using Cons.prems(1,2) Suc by simp_all
      show "\<not> accepted call good (t + 1 + j) (servers ! j) r" if "j < k'" for j r
        using Cons.prems(3) [of "Suc j" r] that Suc by simp
    qed
    finally show ?thesis using Suc by simp
  qed
qed simp

lemma try_servers_none:
  "(\<And>j r. j < length servers \<Longrightarrow> \<not> accepted call good (t + j) (servers ! j) r) \<Longrightarrow>
     try_servers call good servers t = (t + length servers, None)"
proof (induction servers arbitrary: t)
  case (Cons s servers)
  have "\<not> accepted call good t s r" for r using Cons.prems [of 0 r] by simp
  then have "try_servers call good (s # servers) t = try_servers call good servers (t + 1)"
    by (auto simp: accepted_def split: option.splits)
  also have "\<dots> = (t + 1 + length servers, None)"
  proof (rule Cons.IH)
    show "\<not> accepted call good (t + 1 + j) (servers ! j) r" if "j < length servers" for j r
      using Cons.prems [of "Suc j" r] that by simp
  qed
  finally show ?case by simp
qed simp

lemma try_servers_Some:
  "try_servers call good servers t = (t', Some r) \<Longrightarrow> \<exists>k<length servers. accepted call good (t + k) (servers ! k) r"
proof (induction servers arbitrary: t)
  case (Cons s servers)
  show ?case
  proof (cases "\<exists>r. accepted call good t s r")
    case True
    then have "accepted call good t s r" using Cons.prems by (auto simp: accepted_def)
    then show ?thesis by (intro exI [of _ 0]) simp
  next
    case False
    then have "try_servers call good servers (t + 1) = (t', Some r)"
      using Cons.prems by (auto simp: accepted_def split: option.splits if_splits)
    from Cons.IH [OF this] obtain k where "k < length servers" "accepted call good (t + 1 + k) (servers ! k) r" by blast
    then show ?thesis by (intro exI [of _ "Suc k"]) simp
  qed
qed simp

abbreviation turn :: "'srv list \<Rightarrow> nat \<Rightarrow> 'srv" where
  "turn servers k \<equiv> servers ! (k mod length servers)"

lemma clerk_loop_found:
  assumes "servers \<noteq> []"
  shows "accepted call good (t + k) (turn servers k) r \<Longrightarrow>
    (\<And>j r. j < k \<Longrightarrow> \<not> accepted call good (t + j) (turn servers j) r) \<Longrightarrow>
    clerk_loop call good servers t = Some (t + k + 1, r)"
proof (induction k arbitrary: t rule: less_induct)
  case (less k)
  let ?n = "length servers"
  show ?case
  proof (cases "k < ?n")
    case True
    have "try_servers call good servers t = (t + k + 1, Some r)"
      by (rule try_servers_found [OF True]) (use less.prems True in auto)
    then show ?thesis by (simp add: clerk_loop.simps)
  next
    case False
    have "\<not> accepted call good (t + j) (servers ! j) r" if "j < ?n" for j r
      using less.prems(2) [of j r] that False by simp
    then have "try_servers call good servers t = (t + ?n, None)" by (rule try_servers_none)
    then have "clerk_loop call good servers t = clerk_loop call good servers (t + ?n)"
      by (subst clerk_loop.simps) simp
    also have "\<dots> = Some (t + ?n + (k - ?n) + 1, r)"
    proof (rule less.IH)
      have "0 < ?n" using assms by simp
      then show "k - ?n < k" using False by linarith
      show "accepted call good (t + ?n + (k - ?n)) (turn servers (k - ?n)) r"
        using less.prems(1) False by (simp add: le_mod_geq)
      show "\<not> accepted call good (t + ?n + j) (turn servers j) r" if "j < k - ?n" for j r
        using less.prems(2) [of "?n + j" r] that by (simp add: add.assoc)
    qed
    finally show ?thesis using False by simp
  qed
qed

lemma clerk_loop_Some:
  assumes "servers \<noteq> []" and "clerk_loop call good servers t = Some x"
  shows "\<exists>k r. accepted call good (t + k) (turn servers k) r"
proof -
  have "servers \<noteq> [] \<longrightarrow> (\<exists>k r. accepted call good (t + k) (turn servers k) r)"
  proof (rule clerk_loop.raw_induct [where P = "\<lambda>call good servers t x. servers \<noteq> [] \<longrightarrow>
      (\<exists>k r. accepted call good (t + k) (turn servers k) r)", OF _ assms(2)])
    fix loop call good servers t x
    assume IH: "\<And>call good servers t x. loop call good servers t = Some x \<Longrightarrow> servers \<noteq> [] \<longrightarrow>
        (\<exists>k r. accepted call good (t + k) (turn servers k) r)"
      and body: "(case try_servers call good servers t of (t', None) \<Rightarrow> loop call good servers t'
        | (t', Some reply) \<Rightarrow> Some (t', reply)) = Some x"
    show "servers \<noteq> [] \<longrightarrow> (\<exists>k r. accepted call good (t + k) (turn servers k) r)"
    proof
      assume ne: "servers \<noteq> []"
      show "\<exists>k r. accepted call good (t + k) (turn servers k) r"
      proof (cases "\<exists>k<length servers. \<exists>r. accepted call good (t + k) (servers ! k) r")
        case True
        then show ?thesis by (metis mod_less)
      next
        case False
        then have "try_servers call good servers t = (t + length servers, None)" using try_servers_none by blast
        then obtain k r where "accepted call good (t + length servers + k) (turn servers k) r" using IH body ne by force
        then show ?thesis by (intro exI [of _ "length servers + k"] exI [of _ r]) (simp add: add.assoc)
      qed
    qed
  qed
  then show ?thesis using assms(1) by blast
qed

lemma clerk_loop_eq:
  assumes "servers \<noteq> []"
  shows "clerk_loop call good servers t = Some (t', r) \<longleftrightarrow>
    (\<exists>k. t' = t + k + 1 \<and> accepted call good (t + k) (turn servers k) r \<and>
      (\<forall>j<k. \<forall>r. \<not> accepted call good (t + j) (turn servers j) r))" (is "_ \<longleftrightarrow> ?R")
proof
  assume loop: "clerk_loop call good servers t = Some (t', r)"
  let ?P = "\<lambda>k. \<exists>r. accepted call good (t + k) (turn servers k) r"
  define k where "k = (LEAST k. ?P k)"
  obtain r' where r': "accepted call good (t + k) (turn servers k) r'"
    using LeastI_ex [of ?P, OF clerk_loop_Some [OF assms loop]] unfolding k_def by (rule exE)
  have none: "\<forall>j<k. \<forall>r. \<not> accepted call good (t + j) (turn servers j) r" unfolding k_def using not_less_Least by blast
  have "clerk_loop call good servers t = Some (t + k + 1, r')" by (rule clerk_loop_found [OF assms r']) (use none in blast)
  then have "t' = t + k + 1" "r = r'" using loop by simp_all
  then show ?R using r' none by (intro exI [of _ k]) simp
next
  assume ?R
  then obtain k where k: "t' = t + k + 1" "accepted call good (t + k) (turn servers k) r"
      "\<forall>j<k. \<forall>r. \<not> accepted call good (t + j) (turn servers j) r" by blast
  show "clerk_loop call good servers t = Some (t', r)"
    unfolding k(1) by (rule clerk_loop_found [OF assms k(2)]) (use k(3) in blast)
qed

lemma Query_reply:
  assumes "servers \<noteq> []" and "Query call servers num t = Some (t', config)"
  shows "\<exists>t srv r. call t srv \<lparr>qa_Num = num\<rparr> = Some r \<and> config = qr_Config r"
proof -
  obtain r where "clerk_loop (\<lambda>t srv. call t srv \<lparr>qa_Num = num\<rparr>) (\<lambda>reply. qr_WrongLeader reply = False) servers t = Some (t', r)"
      "config = qr_Config r" using assms(2) by (auto simp: Query_def)
  then show ?thesis unfolding clerk_loop_eq [OF assms(1)] accepted_def by blast
qed

text \<open>C35: \<open>Query\<close> tries the servers in turn, round after round, and returns the configuration of the first
  reply that arrives and does not come from a wrong leader, right after that call; it returns if
  and only if some call is answered so.\<close>

theorem Query_first_accepted:
  assumes "servers \<noteq> []"
  shows "(Query call servers num t = Some (t', config) \<longleftrightarrow>
     (\<exists>k reply. t' = t + k + 1 \<and> config = qr_Config reply \<and>
        call (t + k) (servers ! (k mod length servers)) \<lparr>qa_Num = num\<rparr> = Some reply \<and> \<not> qr_WrongLeader reply \<and>
        (\<forall>j<k. \<forall>r. call (t + j) (servers ! (j mod length servers)) \<lparr>qa_Num = num\<rparr> = Some r \<longrightarrow> qr_WrongLeader r))) \<and>
   (Query call servers num t \<noteq> None \<longleftrightarrow>
     (\<exists>k r. call (t + k) (servers ! (k mod length servers)) \<lparr>qa_Num = num\<rparr> = Some r \<and> \<not> qr_WrongLeader r))"
proof -
  let ?call = "\<lambda>t srv. call t srv \<lparr>qa_Num = num\<rparr>" and ?good = "\<lambda>reply. qr_WrongLeader reply = False"
  have q: "Query call servers num t = map_option (\<lambda>(t, reply). (t, qr_Config reply)) (clerk_loop ?call ?good servers t)"
    by (simp add: Query_def)
  have "Query call servers num t = Some (t', config) \<longleftrightarrow>
      (\<exists>r. clerk_loop ?call ?good servers t = Some (t', r) \<and> config = qr_Config r)"
    unfolding q by auto
  then have "Query call servers num t = Some (t', config) \<longleftrightarrow>
     (\<exists>k reply. t' = t + k + 1 \<and> config = qr_Config reply \<and> call (t + k) (turn servers k) \<lparr>qa_Num = num\<rparr> = Some reply \<and>
       \<not> qr_WrongLeader reply \<and> (\<forall>j<k. \<forall>r. call (t + j) (turn servers j) \<lparr>qa_Num = num\<rparr> = Some r \<longrightarrow> qr_WrongLeader r))"
    unfolding clerk_loop_eq [OF assms] accepted_def by blast
  moreover have "Query call servers num t \<noteq> None \<longleftrightarrow>
     (\<exists>k r. call (t + k) (turn servers k) \<lparr>qa_Num = num\<rparr> = Some r \<and> \<not> qr_WrongLeader r)" (is "_ \<longleftrightarrow> ?E")
  proof
    assume "Query call servers num t \<noteq> None"
    then obtain x where "clerk_loop ?call ?good servers t = Some x" unfolding q by auto
    from clerk_loop_Some [OF assms this] show ?E by (auto simp: accepted_def)
  next
    assume ?E
    then have ex: "\<exists>k r. accepted ?call ?good (t + k) (turn servers k) r" by (auto simp: accepted_def)
    define k where "k = (LEAST k. \<exists>r. accepted ?call ?good (t + k) (turn servers k) r)"
    obtain r where "accepted ?call ?good (t + k) (turn servers k) r" using LeastI_ex [OF ex] unfolding k_def by blast
    then have "clerk_loop ?call ?good servers t = Some (t + k + 1, r)"
      by (rule clerk_loop_found [OF assms]) (use not_less_Least in \<open>auto simp: k_def\<close>)
    then show "Query call servers num t \<noteq> None" unfolding q by simp
  qed
  ultimately show ?thesis by blast
qed

theorem Query_first_accepted_witness:
  "Query (\<lambda>t srv args. if srv = t then Some \<lparr>qr_WrongLeader = (t < 1), qr_Err = OK, qr_Config = zeroConfig\<rparr> else None)
     [0, 1 :: nat] 5 0 = Some (2, zeroConfig)"
proof -
  let ?call = "\<lambda>t srv (args :: QueryArgs). if srv = t then Some \<lparr>qr_WrongLeader = (t < 1), qr_Err = OK, qr_Config = zeroConfig\<rparr> else None"
  show ?thesis
    using Query_first_accepted [of "[0, 1 :: nat]" ?call 5 0 2 zeroConfig]
    by (auto intro!: exI [of _ 1] simp: less_Suc_eq)
qed

section \<open>The clerk of the sharded store\<close>

lemma key2shard_range: "0 \<le> key2shard key \<and> key2shard key < int NShards"
  by (simp add: key2shard_def NShards_def Let_def)

lemma try_group_Some:
  "try_group call verdict make_end servers u = (u', Some r) \<Longrightarrow>
     \<exists>s\<in>set servers. \<exists>u. call u (make_end s) = Some r \<and> verdict r = Accept"
  by (induction servers arbitrary: u) (auto split: option.splits verdict.splits)

text \<open>The servers of the group that a configuration names for a key.\<close>

definition owners :: "Config \<Rightarrow> string \<Rightarrow> string set" where
  "owners c key = (case gm_get (cf_Groups c) (cf_Shards c ! nat (key2shard key)) of None \<Rightarrow> {} | Some servers \<Rightarrow> set servers)"

text \<open>What holds of every result of the loop: one round gives it, or the rounds after a query.\<close>

lemma shardkv_loop_induct:
  assumes run: "shardkv_loop call verdict query key ck t u = Some x"
    and stop: "\<And>ck stop. go_index (cf_Shards (ck_config ck)) (key2shard key) = Inl stop \<Longrightarrow> P ck (Inl stop)"
    and accept: "\<And>ck u gid servers u' reply. go_index (cf_Shards (ck_config ck)) (key2shard key) = Inr gid \<Longrightarrow>
      gm_get (cf_Groups (ck_config ck)) gid = Some servers \<Longrightarrow>
      try_group call verdict (ck_make_end ck) servers u = (u', Some reply) \<Longrightarrow> P ck (Inr (ck, reply))"
    and again: "\<And>ck t t' config x. Query query (ck_sm ck) (-1) t = Some (t', config) \<Longrightarrow> P (ck\<lparr>ck_config := config\<rparr>) x \<Longrightarrow> P ck x"
  shows "P ck x"
proof -
  let ?P = "\<lambda>c v q k ck t u x. c = call \<and> v = verdict \<and> q = query \<and> k = key \<longrightarrow> P ck x"
  have "?P call verdict query key ck t u x"
  proof (rule shardkv_loop.raw_induct [where P = ?P, OF _ run], rule impI)
    fix loop c v q k ck t u x
    assume IH: "\<And>c v q k ck t u x. loop c v q k ck t u = Some x \<Longrightarrow> c = call \<and> v = verdict \<and> q = query \<and> k = key \<longrightarrow> P ck x"
      and body: "(case go_index (cf_Shards (ck_config ck)) (key2shard k) of Inl stop \<Rightarrow> Some (Inl stop)
        | Inr gid \<Rightarrow>
            (case case gm_get (cf_Groups (ck_config ck)) gid of None \<Rightarrow> (u, None)
                  | Some servers \<Rightarrow> try_group c v (ck_make_end ck) servers u of
               (u', None) \<Rightarrow>
                 (case Query q (ck_sm ck) (- 1) t of None \<Rightarrow> None
                  | Some (t', config) \<Rightarrow> loop c v q k (ck\<lparr>ck_config := config\<rparr>) t' u')
             | (u', Some reply) \<Rightarrow> Some (Inr (ck, reply)))) = Some x"
      and eq: "c = call \<and> v = verdict \<and> q = query \<and> k = key"
    show "P ck x"
    proof (cases "go_index (cf_Shards (ck_config ck)) (key2shard key)")
      case (Inl st)
      then have "x = Inl st" using body eq by simp
      then show ?thesis using stop [OF Inl] by simp
    next
      case (Inr gid)
      obtain u' res where g: "(case gm_get (cf_Groups (ck_config ck)) gid of None \<Rightarrow> (u, None)
          | Some servers \<Rightarrow> try_group c v (ck_make_end ck) servers u) = (u', res)" by fastforce
      show ?thesis
      proof (cases res)
        case None
        then obtain t' config where "Query query (ck_sm ck) (-1) t = Some (t', config)"
            "loop c v q k (ck\<lparr>ck_config := config\<rparr>) t' u' = Some x"
          using body eq Inr g by (auto split: option.splits)
        then show ?thesis using again IH eq by blast
      next
        case (Some reply)
        then obtain servers where "gm_get (cf_Groups (ck_config ck)) gid = Some servers"
            "try_group call verdict (ck_make_end ck) servers u = (u', Some reply)"
          using g eq by (auto split: option.splits)
        moreover have "x = Inr (ck, reply)" using body eq Inr g Some by simp
        ultimately show ?thesis using accept [OF Inr] by blast
      qed
    qed
  qed
  then show ?thesis by blast
qed

lemma shardkv_loop_owner:
  assumes run: "shardkv_loop call verdict query key ck t u = Some x" and wf: "wf_Config (ck_config ck)"
    and q: "\<forall>t srv args r. query t srv args = Some r \<longrightarrow> wf_Config (qr_Config r)" and sm: "ck_sm ck \<noteq> []"
  shows "\<exists>ck' r s u. x = Inr (ck', r) \<and> s \<in> owners (ck_config ck') key \<and> call u (ck_make_end ck s) = Some r \<and> verdict r = Accept"
proof -
  let ?P = "\<lambda>ck x. wf_Config (ck_config ck) \<and> ck_sm ck \<noteq> [] \<longrightarrow>
    (\<exists>ck' r s u. x = Inr (ck', r) \<and> s \<in> owners (ck_config ck') key \<and> call u (ck_make_end ck s) = Some r \<and> verdict r = Accept)"
  have idx: "go_index (cf_Shards c) (key2shard key) = Inr (cf_Shards c ! nat (key2shard key))" if "wf_Config c" for c
    using that key2shard_range [of key] by (simp add: go_index_def wf_Config_def)
  have "?P ck x"
  proof (rule shardkv_loop_induct [where P = ?P, OF run], goal_cases)
    case (1 ck stop)
    then show ?case using idx [of "ck_config ck"] by auto
  next
    case (2 ck u gid servers u' reply)
    then show ?case using idx [of "ck_config ck"] try_group_Some [OF 2(3)] by (auto simp: owners_def)
  next
    case (3 ck t t' config x)
    show ?case
    proof
      assume c: "wf_Config (ck_config ck) \<and> ck_sm ck \<noteq> []"
      have "wf_Config config" using Query_reply [OF _ 3(1)] q c by blast
      then show "\<exists>ck' r s u. x = Inr (ck', r) \<and> s \<in> owners (ck_config ck') key \<and> call u (ck_make_end ck s) = Some r \<and> verdict r = Accept"
        using 3(2) c by simp
    qed
  qed
  then show ?thesis using wf sm by blast
qed

text \<open>C38: On configurations of the declared type, an array of \<open>NShards\<close> group ids, \<open>Get\<close> never indexes out of
  range, and a value it returns is the value in a reply \<open>OK\<close> or \<open>ErrNoKey\<close> of a server that the
  configuration it ends with names as an owner of the key.\<close>

theorem shardkv_Get_owner:
  assumes "wf_Config (ck_config ck)" and "\<forall>t srv args r. query t srv args = Some r \<longrightarrow> wf_Config (qr_Config r)"
    and "ck_sm ck \<noteq> []" and "shardkv_Get call query key ck t u = Some x"
  shows "\<exists>ck' r s u. x = Inr (ck', gr_Value r) \<and> s \<in> owners (ck_config ck') key \<and>
    call u (ck_make_end ck s) \<lparr>ga_Key = key\<rparr> = Some r \<and> gr_Err r \<in> {OK, ErrNoKey}"
proof -
  obtain y where y: "shardkv_loop (\<lambda>u srv. call u srv \<lparr>ga_Key = key\<rparr>) Get_verdict query key ck t u = Some y"
      "x = map_sum id (\<lambda>(ck, reply). (ck, gr_Value reply)) y"
    using assms(4) by (auto simp: shardkv_Get_def)
  from shardkv_loop_owner [OF y(1) assms(1-3)] y(2) show ?thesis
    by (force simp: Get_verdict_def split: if_splits)
qed

definition config1 :: Config where
  "config1 = \<lparr>cf_Num = 1, cf_Shards = replicate NShards 100, cf_Groups = [(100, [''s1'', ''s2''])]\<rparr>"

definition query1 :: "nat \<Rightarrow> string \<Rightarrow> QueryArgs \<Rightarrow> QueryReply option" where
  "query1 t srv args = Some \<lparr>qr_WrongLeader = False, qr_Err = OK, qr_Config = config1\<rparr>"

definition call1 :: "nat \<Rightarrow> string \<Rightarrow> GetArgs \<Rightarrow> GetReply option" where
  "call1 t srv args = (if srv = ''s2'' then Some \<lparr>gr_Err = OK, gr_Value = ''v''\<rparr> else None)"

theorem shardkv_Get_owner_witness:
  "\<exists>ck' r s u. shardkv_Get call1 query1 ''k'' (MakeClerk [''c1''] (\<lambda>s. s)) 0 0 = Some (Inr (ck', gr_Value r)) \<and>
     s \<in> owners (ck_config ck') ''k'' \<and> call1 u s \<lparr>ga_Key = ''k''\<rparr> = Some r"
proof -
  let ?ck = "MakeClerk [''c1''] (\<lambda>s :: string. s)"
  have q: "Query query1 [''c1''] (-1) 0 = Some (1, config1)"
    unfolding Query_def Let_def by (subst clerk_loop.simps) (simp add: query1_def)
  have k: "key2shard ''k'' = 7" by (simp add: key2shard_def NShards_def of_char_def)
  have "shardkv_loop (\<lambda>u srv. call1 u srv \<lparr>ga_Key = ''k''\<rparr>) Get_verdict query1 ''k'' (?ck\<lparr>ck_config := config1\<rparr>) 1 0 =
      Some (Inr (?ck\<lparr>ck_config := config1\<rparr>, \<lparr>gr_Err = OK, gr_Value = ''v''\<rparr>))"
    by (subst shardkv_loop.simps) (simp add: k config1_def go_index_def NShards_def MakeClerk_def gm_get_def call1_def Get_verdict_def)
  then have "shardkv_loop (\<lambda>u srv. call1 u srv \<lparr>ga_Key = ''k''\<rparr>) Get_verdict query1 ''k'' ?ck 0 0 =
      Some (Inr (?ck\<lparr>ck_config := config1\<rparr>, \<lparr>gr_Err = OK, gr_Value = ''v''\<rparr>))"
    by (subst shardkv_loop.simps) (simp add: k q zeroConfig_def go_index_def NShards_def MakeClerk_def)
  then have "shardkv_Get call1 query1 ''k'' ?ck 0 0 \<noteq> None" by (simp add: shardkv_Get_def)
  then obtain x where x: "shardkv_Get call1 query1 ''k'' ?ck 0 0 = Some x" by auto
  have "wf_Config (ck_config ?ck)" "ck_sm ?ck \<noteq> []" "\<forall>t srv args r. query1 t srv args = Some r \<longrightarrow> wf_Config (qr_Config r)"
    by (simp_all add: MakeClerk_def wf_Config_def zeroConfig_def query1_def config1_def)
  from shardkv_Get_owner [OF this(1,3,2) x] x show ?thesis by (auto simp: MakeClerk_def)
qed

text \<open>C39: With the controller of the repository, whose \<open>Query\<close> handler leaves the reply as it was allocated, a
  new clerk's \<open>Get\<close> never returns, whatever key it asks for and whatever the stores would answer: the
  configuration never names a group.\<close>

theorem shardkv_Get_never_returns:
  assumes "\<forall>t srv args r. query t srv args = Some r \<longrightarrow>
      r = snd (ShardCtrler_Query args \<lparr>qr_WrongLeader = False, qr_Err = [], qr_Config = zeroConfig\<rparr> sc)"
    and "ctrlers \<noteq> []"
  shows "shardkv_Get call query key (MakeClerk ctrlers make_end) t u = None"
proof (rule ccontr)
  assume "shardkv_Get call query key (MakeClerk ctrlers make_end) t u \<noteq> None"
  then obtain x where run: "shardkv_loop (\<lambda>u srv. call u srv \<lparr>ga_Key = key\<rparr>) Get_verdict query key (MakeClerk ctrlers make_end) t u = Some x"
    by (auto simp: shardkv_Get_def)
  let ?P = "\<lambda>ck (x :: _ go). ck_config ck = zeroConfig \<and> ck_sm ck = ctrlers \<longrightarrow> False"
  have idx: "\<exists>gid. go_index (cf_Shards zeroConfig) (key2shard key) = Inr gid"
    using key2shard_range [of key] by (simp add: go_index_def zeroConfig_def)
  have "?P (MakeClerk ctrlers make_end) x"
  proof (rule shardkv_loop_induct [where P = ?P, OF run], goal_cases)
    case (1 ck stop)
    then show ?case using idx by auto
  next
    case (2 ck u gid servers u' reply)
    then show ?case by (auto simp: zeroConfig_def)
  next
    case (3 ck t t' config x)
    show ?case
    proof
      assume c: "ck_config ck = zeroConfig \<and> ck_sm ck = ctrlers"
      then obtain t srv r where "query t srv \<lparr>qa_Num = -1\<rparr> = Some r" "config = qr_Config r"
        using Query_reply [OF assms(2)] 3(1) by blast
      moreover from this(1) have "r = \<lparr>qr_WrongLeader = False, qr_Err = [], qr_Config = zeroConfig\<rparr>"
        using assms(1) unfolding ShardCtrler_Query_def snd_conv by blast
      ultimately have "config = zeroConfig" by simp
      then show False using 3(2) c by simp
    qed
  qed
  then show False by (simp add: MakeClerk_def)
qed

theorem shardkv_Get_never_returns_witness:
  "shardkv_Get (\<lambda>_ _ _. Some \<lparr>gr_Err = OK, gr_Value = ''v''\<rparr>)
     (\<lambda>_ _ args. Some (snd (ShardCtrler_Query args \<lparr>qr_WrongLeader = False, qr_Err = [], qr_Config = zeroConfig\<rparr>
        (ShardCtrler_StartServer 3 0 MakePersister 0 :: (nat, nat) ShardCtrler)))) ''k'' (MakeClerk [0 :: nat] (\<lambda>_. 0)) 0 0 = None"
  by (rule shardkv_Get_never_returns) auto

end
