(* ===== verification/Spec2Isabelle.thy ===== *)
theory Spec2Isabelle
  imports Tester_Agreement KV_Tester_Props Shard_Tester_Props MR_Apps Porcupine_Visual Labrpc_Props Labgob Shard_Props
begin

text \<open>
  A verification development for the 6.824 laboratory repository, the Go packages under
  \<open>src/src/\<close>.

  \<^bold>\<open>The program.\<close> \<open>mr/\<close> is a MapReduce library: a coordinator hands out map and reduce tasks
  over RPC, takes back those whose worker does not report in time, and workers run the functions of
  an application (\<open>mrapps/\<close>) and exchange files; \<open>main/mrsequential.go\<close> is the sequential
  program it replaces. \<open>raft/\<close> is a replicated log: peers elect a leader, replicate entries,
  apply them to a channel, take snapshots and keep term, vote and log in a \<open>Persister\<close>. The peers
  talk over \<open>labrpc/\<close>, a simulated network that loses and delays messages, whose messages
  \<open>labgob/\<close> encodes. \<open>kvraft/\<close>, \<open>shardctrler/\<close> and \<open>shardkv/\<close> are
  services on top of Raft, of which the repository has the clerks and the frame of the servers.
  \<open>porcupine/\<close> and \<open>models/kv.go\<close> check that what clients of the services saw is linearizable.
  The \<open>config.go\<close> of \<open>raft\<close>, \<open>kvraft\<close>, \<open>shardctrler\<close> and \<open>shardkv\<close> are the harnesses of
  the tests: they start, crash, connect and cut off servers and check what the peers apply.

  \<^bold>\<open>Conventions.\<close> A Go function that cannot stop is a HOL function. One that can panic, call
  \<open>log.Fatalf\<close> or wait for ever has the type \<open>'a go = go_stop + 'a\<close> (\<open>Go_Prelude\<close>);
  indexing and slicing are checked (\<open>go_index\<close>, \<open>go_slice_from\<close> and others). Structs are
  records and methods take the struct and return it updated. A Go \<open>int\<close> is an \<open>int\<close>: no
  quantity of these packages comes near \<open>2 ^ 63\<close>; the hash of keys and the words of bit sets, where
  the width matters, are \<open>32 word\<close> and \<open>64 word\<close>. A Go map is an association list without
  duplicate keys behind the locale \<open>go_map\<close>. A loop that need not end is a
  \<open>partial_function (option)\<close>, \<open>None\<close> meaning that it does not return. Goroutines are steps
  of an inductive relation or events of a schedule, cut where they take a lock or wait for an RPC, a timer or a
  channel, so a theorem about all reachable states or all schedules covers their interleavings. The sends
  on \<open>applyCh\<close> are the exception: a critical section of a peer is one step, and its reader takes what it
  sends, except in \<open>AppendEntries_with\<close>.

  \<^bold>\<open>Shared theories.\<close> \<open>Go_Prelude\<close> has the outcomes of Go code, checked slices, Go maps
  (\<open>go_map\<close>, interpreted on association lists), loops over slices (\<open>go_for\<close>) and majorities (\<open>quorum_system\<close>, interpreted on
  more than half of \<open>n\<close> peers).

  \<^bold>\<open>Raft.\<close>
  \<^item> \<open>Persister_Model\<close>: \<open>raft/persister.go\<close>, with the contract of a stable store as a
    locale.
  \<^item> \<open>Raft_Types\<close>, \<open>Raft_Peer\<close>: the structs of \<open>raft/raft.go\<close> and every operation
    of a peer in the order of the source: \<open>RequestVote\<close>, \<open>AppendEntries\<close>, \<open>InstallSnapshot\<close>,
    the handling of their replies, \<open>ticker\<close>, \<open>Start\<close>, \<open>Snapshot\<close>, \<open>persist\<close>,
    \<open>Make\<close>. The mutex is a field of the record, so that a forgotten \<open>Unlock\<close> shows.
  \<^item> \<open>Raft_Inv\<close>: the invariant of the indices and that the handlers keep it.
  \<^item> \<open>Raft_View\<close>, \<open>Raft_Election\<close>: what an election depends on, the group of
    peers with requests and replies under way and crashes, and election safety over it.
  \<^item> \<open>Raft_Props\<close>, \<open>Raft_Replication\<close>, \<open>Raft_Recovery\<close>: absence of panics and when \<open>AppendEntries\<close>
    ends with a reader that takes a given number of messages, order of application, the rule of votes, heartbeats and replication to a follower, the rule of
    commitment, durability; and four theorems about defects: a mutex that stays locked, a
    late request that removes acknowledged entries, a snapshot that rewinds, indices that shift after
    a restart.
  \<^item> \<open>Raft_Log\<close>, \<open>Raft_Matching\<close>, \<open>Raft_Commit\<close>, \<open>Raft_Safety\<close>: what each step
    of the group does to the logs; log matching in runs without snapshots; and, in runs in which in
    addition no late request cuts a log, leader completeness and state machine safety.
  \<^item> \<open>Raft_Runs\<close>: concrete runs of three peers; among them one in which, because a late request
    does cut a log, two peers apply different commands at the same index.

  \<^bold>\<open>Harnesses.\<close>
  \<^item> \<open>Raft_Tester\<close>: \<open>raft/config.go\<close>; \<open>Tester_Wiring\<close>: while a test connects only running
    servers, an end of the network is enabled exactly between connected servers, which then run; \<open>Tester_Checks\<close>: the checks of applied messages
    and of leaders never fail on orderly runs of the group of \<open>Raft_Safety\<close>, so the harness
    accepts what the protocol does; \<open>Tester_Agreement\<close>: what \<open>one\<close> returns, that it ends with an index or a failed test, and
    snapshots through \<open>applierSnap\<close> and \<open>ingestSnap\<close>.
  \<^item> \<open>KV_Tester\<close>, \<open>KV_Tester_Props\<close>: \<open>kvraft/config.go\<close>; partitions, the side of the
    leader, restarts, clerks.
  \<^item> \<open>Shard_Tester\<close>, \<open>Shard_Tester_Props\<close>: \<open>shardkv/config.go\<close>; the names under which
    groups join are those the network knows, and the harness works for groups of three servers only.

  \<^bold>\<open>MapReduce.\<close>
  \<^item> \<open>MR_Coordinator\<close>, \<open>MR_Job\<close>: \<open>mr/coordinator.go\<close>; a job is a coordinator
    with pending timers. Each task is in one place, the barrier between the phases holds, lost tasks
    return, the job can always be finished, and the coordinator refines a task board.
  \<^item> \<open>MR_Worker\<close>, \<open>MR_Distributed\<close>, \<open>MR_System\<close>: \<open>mr/worker.go\<close> and
    \<open>main/mrsequential.go\<close>; coordinator, workers and their directory together, with crashes at
    every rename. The output is that of the sequential program. \<open>key_sorter\<close> is what is asked of
    \<open>sort.Sort\<close>.
  \<^item> \<open>MR_Apps\<close>: word count, indexer, crash test and early exit, on strings as runes.

  \<^bold>\<open>Porcupine.\<close>
  \<^item> \<open>Porcupine_Bitset\<close>, \<open>Porcupine_Types\<close>, \<open>Porcupine_List\<close>,
    \<open>Porcupine_Check\<close>: bit sets (locale \<open>nat_set\<close>), histories and models, the doubly
    linked list on an explicit heap with \<open>lift\<close> and \<open>unlift\<close>, the search \<open>checkSingle\<close>.
  \<^item> \<open>Porcupine_Spec\<close>, \<open>Porcupine_Search\<close>: linearizability, and that the search
    ends and decides it; \<open>state_equality\<close> is the contract of a model's \<open>Equal\<close>.
  \<^item> \<open>Porcupine_Parallel\<close>, \<open>Porcupine_API\<close>: \<open>checkParallel\<close> with its
    goroutines, and the exported functions.
  \<^item> \<open>Porcupine_KV\<close>, \<open>Porcupine_Props\<close>: the partition of a key/value history by key
    loses nothing, and the verdicts of the exported functions.
  \<^item> \<open>Porcupine_Partials\<close>, \<open>Porcupine_Visual\<close>: the partial linearizations the search
    reports are accepted by the model, so \<open>computeVisualizationData\<close> of
    \<open>porcupine/visualization.go\<close> does not panic and shows the history as it was.

  \<^bold>\<open>Network and services.\<close>
  \<^item> \<open>Labrpc\<close>, \<open>Labrpc_Props\<close>: \<open>labrpc/labrpc.go\<close>; a request is executed at
    most once, a successful call returns the handler's reply, a call to a deleted server does
    not succeed, every call can return.
  \<^item> \<open>Labgob\<close>: the checks of \<open>labgob/labgob.go\<close>; they end on recursive types.
  \<^item> \<open>Shard_Services\<close>, \<open>Shard_Props\<close>: \<open>shardctrler/\<close>, \<open>shardkv/\<close> and
    \<open>kvraft/\<close>; what the clerks return and when, and that with the empty handlers of the
    repository the clerk of the sharded store never returns.

  \<^bold>\<open>Bounds and fuel.\<close> No definition has fuel. \<open>check_loop\<close>, \<open>clerk_loop\<close> and
  \<open>shardkv_loop\<close> are partial functions: \<open>checkSingle_decides\<close> shows that the search returns
  for every history, \<open>Query_first_accepted\<close> exactly when the clerk's loop does. \<open>one_poll\<close> and
  \<open>one_loop\<close> of the harness are partial functions too, and end when the clock advances
  and no peer is left holding its mutex (\<open>one_ends\<close>). A schedule of
  \<open>checkParallel\<close> with \<open>n\<close> partitions has at most \<open>2 * n + 1\<close> events, and a call of
  \<open>labrpc\<close> can return within five steps from any state.

  \<^bold>\<open>Parameters.\<close> Code outside the repository is an argument: the functions of a
  plugin and \<open>sort.Sort\<close> in MapReduce, the sorting of entries in the checker, \<open>encoding/gob\<close>
  in \<open>labrpc\<close> and \<open>labgob\<close>, \<open>unicode.IsUpper\<close> and \<open>unicode.IsLetter\<close>, and for the
  clerks what the network answers to their calls. In the harnesses the random names of ends, random
  numbers, the clock and the peers as the harness finds them when it looks are arguments. The order of
  a slice that is filled from a map and then sorted is an argument of the visualization.

  \<^bold>\<open>Limits of the model.\<close> A handler of a peer is one step from \<open>Lock\<close> to \<open>Unlock\<close>: a crash between its
  messages to the service and its \<open>persist\<close>, and the race of \<open>Snapshot\<close>, which takes no mutex, with a
  handler are not interleavings of the group. Errors of \<open>Encode\<close>, of \<open>os.Rename\<close> and of \<open>ioutil.TempFile\<close>
  do not occur. \<open>labrpc\<close> decodes a reply into a fresh value. Failed type assertions in \<open>models/kv.go\<close> give the zero
  value, states of a model are comparable, and \<open>checkType\<close> is called on a type that exists. A count of
  \<open>nCommitted\<close> within \<open>one\<close> is one look at the configuration. The random names of ends are assumed different in the
  theorems that say so.

  \<^bold>\<open>Not modelled.\<close> Time: periods are kept where the code sets them, but a timer may fire at any
  moment and a delay is any number of steps of others. The page of \<open>porcupine/visualization.go\<close>, a
  string constant, and its encoding as JSON. \<open>shardctrler/config.go\<close>, which is the code of
  \<open>kvraft/config.go\<close> for another type of server, and the tests themselves. The main programs other
  than the sequential one, which parse arguments and start servers, most of packages that the
  repository does not have. \<open>mrapps/mtiming.go\<close>, \<open>rtiming.go\<close> and \<open>jobcount.go\<close>, which count
  processes and files. \<open>mr/rpc.go\<close>, which names a socket, \<open>raft/util.go\<close>, which prints, and the
  random numbers of \<open>nrand\<close>. Agreement of the logs across snapshots is not stated: after a snapshot
  and a restart the indices of a peer shift (\<open>restart_shifts_indices\<close>).
\<close>

end
